(* ===== verification/OwPrelude.thy ===== *)
theory OwPrelude
  imports Main "HOL-Library.Word" "HOL-Library.Monad_Syntax"
begin

text \<open>
  Shared vocabulary of the development: the machine integers of the C sources, reads of a byte
  buffer whose failure is a value, little-endian encodings, and the lemma collections
  \<open>byte_simps\<close> (reads and encodings) and \<open>bound_intros\<close> (size bounds) the component
  theories rely on.

  A C pointer into a buffer of known size is a pair of a list and an index.  Reading outside the
  buffer is undefined behaviour in C; here it is the value \<open>None\<close>, so a theorem that an
  operation returns \<open>Some\<close> is a proof that it reads no byte outside its buffer.
\<close>

section \<open>Collections and types\<close>

named_theorems byte_simps
named_theorems bound_intros

unbundle bit_operations_syntax

type_synonym u8 = "8 word"
type_synonym u16 = "16 word"
type_synonym u32 = "32 word"
type_synonym u64 = "64 word"
type_synonym bytes = "u8 list"

section \<open>Reads that can fail\<close>

definition rd :: "'a list \<Rightarrow> nat \<Rightarrow> 'a option" where
  "rd b i = (if i < length b then Some (b ! i) else None)"

definition rd_slice :: "'a list \<Rightarrow> nat \<Rightarrow> nat \<Rightarrow> 'a list option" where
  "rd_slice b i n = (if i + n \<le> length b then Some (take n (drop i b)) else None)"

definition wr_slice :: "'a list \<Rightarrow> nat \<Rightarrow> 'a list \<Rightarrow> 'a list option" where
  "wr_slice b i xs =
     (if i + length xs \<le> length b then Some (take i b @ xs @ drop (i + length xs) b) else None)"

lemma rd_Some_iff [byte_simps]: "rd b i = Some x \<longleftrightarrow> i < length b \<and> x = b ! i"
  by (auto simp: rd_def)

lemma rd_in [simp]: "i < length b \<Longrightarrow> rd b i = Some (b ! i)"
  by (simp add: rd_def)

lemma rd_out [simp]: "length b \<le> i \<Longrightarrow> rd b i = None"
  by (simp add: rd_def)

lemma rd_append_left: "i < length a \<Longrightarrow> rd (a @ b) i = rd a i"
  by (simp add: rd_def nth_append)

lemma rd_append_right: "length a \<le> i \<Longrightarrow> rd (a @ b) i = rd b (i - length a)"
  by (auto simp: rd_def nth_append)

lemma rd_append_offset [simp]: "rd (a @ b) (length a + i) = rd b i"
  by (simp add: rd_append_right)

lemma rd_slice_Some_iff [byte_simps]:
  "rd_slice b i n = Some xs \<longleftrightarrow> i + n \<le> length b \<and> xs = take n (drop i b)"
  by (auto simp: rd_slice_def)

lemma rd_slice_length: "rd_slice b i n = Some xs \<Longrightarrow> length xs = n"
  by (auto simp: byte_simps)

lemma rd_slice_middle [simp]: "rd_slice (a @ x @ b) (length a) (length x) = Some x"
  by (simp add: rd_slice_def)

lemma wr_slice_Some_iff [byte_simps]:
  "wr_slice b i xs = Some b' \<longleftrightarrow>
     i + length xs \<le> length b \<and> b' = take i b @ xs @ drop (i + length xs) b"
  by (auto simp: wr_slice_def)

lemma wr_slice_length: "wr_slice b i xs = Some b' \<Longrightarrow> length b' = length b"
  by (auto simp: byte_simps)

lemma wr_slice_nth:
  assumes "wr_slice b i xs = Some b'" and "j < length b"
  shows "b' ! j = (if i \<le> j \<and> j < i + length xs then xs ! (j - i) else b ! j)"
  using assms by (auto simp: byte_simps nth_append min_def)

section \<open>Little-endian integers\<close>

lemma unat_u8_lt [simp]: "unat (b :: u8) < 256"
proof -
  have "unat b < 2 ^ LENGTH(8)" by (rule unsigned_less)
  then show ?thesis by simp
qed

lemma unat_u8_le [simp]: "unat (b :: u8) \<le> 255"
  using unat_u8_lt [of b] by linarith

fun le_bytes :: "nat \<Rightarrow> nat \<Rightarrow> bytes" where
  "le_bytes 0 v = []"
| "le_bytes (Suc n) v = word_of_nat v # le_bytes n (v div 256)"

fun le_val :: "bytes \<Rightarrow> nat" where
  "le_val [] = 0"
| "le_val (b # bs) = unat b + 256 * le_val bs"

lemma length_le_bytes [simp]: "length (le_bytes n v) = n"
  by (induction n arbitrary: v) auto

lemma le_val_le_bytes [byte_simps]: "le_val (le_bytes n v) = v mod 256 ^ n"
proof (induction n arbitrary: v)
  case 0
  then show ?case by simp
next
  case (Suc n)
  have "unat (word_of_nat v :: u8) = v mod 256"
    by (simp add: unat_of_nat)
  moreover have "v mod 256 ^ Suc n = v mod 256 + 256 * (v div 256 mod 256 ^ n)"
    by (simp add: mod_mult2_eq)
  ultimately show ?case using Suc by simp
qed

lemma byte_digit_bound: "b < 256 \<Longrightarrow> v < p \<Longrightarrow> b + 256 * v < 256 * (p::nat)"
  by linarith

lemma le_val_bound [bound_intros]: "le_val bs < 256 ^ length bs"
  by (induction bs) (simp_all add: byte_digit_bound)

lemma le_bytes_le_val [byte_simps]: "length bs = n \<Longrightarrow> le_bytes n (le_val bs) = bs"
proof (induction bs arbitrary: n)
  case Nil
  then show ?case by simp
next
  case (Cons b bs)
  have lt: "unat b < 256" by simp
  have z: "(256 :: u8) = 0" by simp
  have "(word_of_nat (unat b + 256 * le_val bs) :: u8) = b"
    unfolding of_nat_add of_nat_mult of_nat_numeral z by simp
  with Cons lt show ?case by auto
qed

section \<open>Bit operations on naturals\<close>

text \<open>
  A byte is promoted to \<open>int\<close> before C shifts or masks it, so the decoders below work on
  naturals.  These lemmas turn the masks and shifts into arithmetic.
\<close>

lemma and_mask_nat [byte_simps]:
  "(n::nat) AND 1 = n mod 2" "(n::nat) AND 3 = n mod 4" "(n::nat) AND 7 = n mod 8"
  "(n::nat) AND 15 = n mod 16" "(n::nat) AND 63 = n mod 64" "(n::nat) AND 127 = n mod 128"
  "(n::nat) AND 255 = n mod 256"
  using take_bit_eq_mask [of 1 n] take_bit_eq_mask [of 2 n] take_bit_eq_mask [of 3 n]
    take_bit_eq_mask [of 4 n] take_bit_eq_mask [of 6 n] take_bit_eq_mask [of 7 n]
    take_bit_eq_mask [of 8 n]
  by (simp_all add: take_bit_eq_mod mask_eq_exp_minus_1)

lemma or_disjoint_nat: "lo < 2 ^ k \<Longrightarrow> (lo::nat) OR push_bit k hi = lo + 2 ^ k * hi"
proof -
  assume lo: "lo < 2 ^ k"
  have "lo AND push_bit k hi = 0"
  proof (rule bit_eqI)
    fix i
    have "\<not> bit lo i" if "k \<le> i"
    proof -
      have "lo < 2 ^ i" using lo that by (meson one_le_numeral order_less_le_trans power_increasing)
      then show ?thesis by (simp add: bit_iff_odd)
    qed
    then show "bit (lo AND push_bit k hi) i = bit (0::nat) i"
      by (auto simp: bit_simps)
  qed
  then have "lo + push_bit k hi = lo OR push_bit k hi"
    by (rule disjunctive_add_eq_or)
  then show ?thesis by (simp add: push_bit_eq_mult mult.commute)
qed

end
