(* ===== verification/X86Decode.thy ===== *)
theory X86Decode
  imports OwPrelude
begin

text \<open>
  The instruction length decoder of \<open>bld/cg/intel/x64/c/x64obj.c\<close> (\<open>modrm_len\<close> and
  \<open>x86_insn_len\<close>).  The branch-adjustment pass walks the code image with it, so a wrong length
  makes the pass read operand bytes as opcodes.

  The buffer \<open>c\<close>, its bound \<open>mx\<close> (\<open>max\<close> in C) and the position are the C parameters; an \<open>unsigned char\<close>
  is promoted to a natural before it is shifted, masked or compared.  All reads go through
  \<open>rd\<close>, so \<open>Some\<close> is also the statement that no byte outside the buffer is read.

  The second half is an independent description of the i386 instruction format, a table of the
  operand form of every one-byte opcode, and the proof that the decoder computes the table's
  length wherever it means to.
\<close>

section \<open>The decoder\<close>

definition modrm_len :: "bytes \<Rightarrow> nat \<Rightarrow> nat \<Rightarrow> nat option" where
  "modrm_len c mx start =
    (if mx \<le> start then Some 1
     else do {
       b \<leftarrow> rd c start;
       let modrm = unat b;
       let md = drop_bit 6 modrm AND 3;
       let rm = modrm AND 7;
       n \<leftarrow> (if md \<noteq> 3 \<and> rm = 4
             then if start + 1 < mx
                  then do { s \<leftarrow> rd c (start + 1);
                            Some (if md = 0 \<and> unat s AND 7 = 5 then 6 else 2) }
                  else Some 2
             else Some 1);
       Some (if md = 1 then n + 1
             else if md = 2 then n + 4
             else if md = 0 \<and> rm = 5 then n + 4
             else n)
     })"

definition is_plain_prefix :: "nat \<Rightarrow> bool" where
  "is_plain_prefix b \<longleftrightarrow>
     b = 0x67 \<or> b = 0xF0 \<or> b = 0xF2 \<or> b = 0xF3 \<or> b = 0x26 \<or> b = 0x2E \<or> b = 0x36 \<or> b = 0x3E \<or>
     b = 0x64 \<or> b = 0x65"

text \<open>
  The prefix loop: the index of the first byte that is not a prefix (or \<open>mx\<close>), and whether
  the operand size is still 32 bits.
\<close>

function skip_prefixes :: "bytes \<Rightarrow> nat \<Rightarrow> nat \<Rightarrow> bool \<Rightarrow> (nat \<times> bool) option" where
  "skip_prefixes c mx i opsize32 =
    (if mx \<le> i then Some (i, opsize32)
     else case rd c i of
       None \<Rightarrow> None
     | Some b \<Rightarrow>
         (if unat b = 0x66 then skip_prefixes c mx (i + 1) False
          else if is_plain_prefix (unat b) then skip_prefixes c mx (i + 1) opsize32
          else Some (i, opsize32)))"
  by pat_completeness auto
termination
  by (relation "measure (\<lambda>(c, mx, i, _). mx - i)") auto

declare skip_prefixes.simps [simp del]

definition x86_twobyte_len :: "bytes \<Rightarrow> nat \<Rightarrow> nat \<Rightarrow> nat \<Rightarrow> nat option" where
  "x86_twobyte_len c mx pos i =
    (if mx \<le> i + 1 then Some (i + 1 - pos)
     else do {
       b \<leftarrow> rd c (i + 1);
       let op2 = unat b;
       if 0x80 \<le> op2 \<and> op2 \<le> 0x8F then Some (i + 2 + 4 - pos)
       else if 0x90 \<le> op2 \<and> op2 \<le> 0x9F then do { ml \<leftarrow> modrm_len c mx (i + 2); Some (i + 2 + ml - pos) }
       else do { ml \<leftarrow> modrm_len c mx (i + 2); Some (i + 2 + ml - pos) }
     })"

text \<open>One-byte opcodes, in the order of the tests in the source.\<close>

definition x86_onebyte_len :: "bytes \<Rightarrow> nat \<Rightarrow> nat \<Rightarrow> nat \<Rightarrow> bool \<Rightarrow> nat \<Rightarrow> nat option" where
  "x86_onebyte_len c mx pos i opsize32 op =
    (if (0x40 \<le> op \<and> op \<le> 0x5F) \<or> (0x90 \<le> op \<and> op \<le> 0x99) \<or> op = 0xC3 \<or> op = 0xC9 \<or> op = 0xCC
        \<or> (0xF8 \<le> op \<and> op \<le> 0xFD) \<or> (0xA4 \<le> op \<and> op \<le> 0xA7) \<or> (0xAA \<le> op \<and> op \<le> 0xAF)
     then Some (i + 1 - pos)
     else if (op \<le> 0x3F \<and> op AND 7 \<le> 3) \<or> op = 0x84 \<or> op = 0x85 \<or> op = 0x86 \<or> op = 0x87
        \<or> (0x88 \<le> op \<and> op \<le> 0x8B) \<or> op = 0x8C \<or> op = 0x8E \<or> op = 0x8D \<or> op = 0x8F \<or> op = 0x63
        \<or> (0xD0 \<le> op \<and> op \<le> 0xD3) \<or> (0xD8 \<le> op \<and> op \<le> 0xDF) \<or> op = 0xFE \<or> op = 0xFF
     then do { ml \<leftarrow> modrm_len c mx (i + 1); Some (i + 1 + ml - pos) }
     else if op = 0xC8 then Some (i + 4 - pos)
     else if op = 0xD4 \<or> op = 0xD5 then Some (i + 2 - pos)
     else if op = 0x9A \<or> op = 0xEA then Some (i + 7 - pos)
     else if 0xE4 \<le> op \<and> op \<le> 0xE7 then Some (i + 2 - pos)
     else if op = 0x60 \<or> op = 0x61 \<or> (0x9B \<le> op \<and> op \<le> 0x9F) \<or> (0xEC \<le> op \<and> op \<le> 0xEF)
     then Some (i + 1 - pos)
     else if op = 0x80 \<or> op = 0x83 \<or> op = 0x6B \<or> op = 0xC0 \<or> op = 0xC1 \<or> op = 0xC6
     then do { ml \<leftarrow> modrm_len c mx (i + 1); Some (i + 1 + ml + 1 - pos) }
     else if op = 0x81 \<or> op = 0x69 \<or> op = 0xC7
     then do { ml \<leftarrow> modrm_len c mx (i + 1); Some (i + 1 + ml + (if opsize32 then 4 else 2) - pos) }
     else if op = 0xF6 \<or> op = 0xF7
     then do {
       ml \<leftarrow> modrm_len c mx (i + 1);
       reg \<leftarrow> (if i + 1 < mx then do { m \<leftarrow> rd c (i + 1); Some (drop_bit 3 (unat m) AND 7) } else Some 0);
       let imm = (if reg = 0 \<or> reg = 1 then if op = 0xF6 then 1 else if opsize32 then 4 else 2 else 0);
       Some (i + 1 + ml + imm - pos)
     }
     else if op \<le> 0x3F \<and> op AND 7 = 4 then Some (i + 2 - pos)
     else if op \<le> 0x3F \<and> op AND 7 = 5 then Some (i + 1 + (if opsize32 then 4 else 2) - pos)
     else if op = 0xA8 then Some (i + 2 - pos)
     else if op = 0xA9 then Some (i + 1 + (if opsize32 then 4 else 2) - pos)
     else if 0xB0 \<le> op \<and> op \<le> 0xB7 then Some (i + 2 - pos)
     else if 0xB8 \<le> op \<and> op \<le> 0xBF then Some (i + 1 + (if opsize32 then 4 else 2) - pos)
     else if 0xA0 \<le> op \<and> op \<le> 0xA3 then Some (i + 1 + 4 - pos)
     else if op = 0x6A then Some (i + 2 - pos)
     else if op = 0x68 then Some (i + 1 + (if opsize32 then 4 else 2) - pos)
     else if 0x70 \<le> op \<and> op \<le> 0x7F then Some (i + 2 - pos)
     else if op = 0xEB then Some (i + 2 - pos)
     else if op = 0xE0 \<or> op = 0xE1 \<or> op = 0xE2 \<or> op = 0xE3 then Some (i + 2 - pos)
     else if op = 0xE8 \<or> op = 0xE9 then Some (i + 5 - pos)
     else if op = 0xC2 \<or> op = 0xCA then Some (i + 3 - pos)
     else if op = 0xCD then Some (i + 2 - pos)
     else Some 1)"

definition x86_insn_len :: "bytes \<Rightarrow> nat \<Rightarrow> nat \<Rightarrow> nat option" where
  "x86_insn_len c mx pos =
    (if mx \<le> pos then Some 1
     else do {
       (i, opsize32) \<leftarrow> skip_prefixes c mx pos True;
       if mx \<le> i then Some (if 0 < i - pos then i - pos else 1)
       else do {
         b \<leftarrow> rd c i;
         let op = unat b;
         if op = 0x0F then x86_twobyte_len c mx pos i
         else x86_onebyte_len c mx pos i opsize32 op
       }
     })"

section \<open>The instruction format, as a table\<close>

text \<open>
  What follows the opcode, for each of the 256 one-byte opcodes of 32-bit code: no operand
  bytes, a ModR/M byte with its SIB byte and displacement, an immediate of a fixed size or of the
  operand size (\<open>ImmZ\<close>, \<open>RelZ\<close>), a 32-bit memory offset, a far pointer.  \<open>Group3b\<close> and
  \<open>Group3z\<close> (opcodes \<open>F6\<close>, \<open>F7\<close>) have an immediate for \<open>/0\<close> and \<open>/1\<close> only.
\<close>

datatype operand_form =
    NoOperand | ModRM | ModRM_Imm8 | ModRM_ImmZ | Imm8 | ImmZ | Imm16 | Imm16_Imm8 | Moffs32
  | RelZ | FarZ | Group3b | Group3z | Escape | Prefix

definition opcode_table :: "operand_form list" where
  "opcode_table =
     [
      \<comment> \<open>00\<close> ModRM, ModRM, ModRM, ModRM, Imm8, ImmZ, NoOperand, NoOperand,
         ModRM, ModRM, ModRM, ModRM, Imm8, ImmZ, NoOperand, Escape,
      \<comment> \<open>10\<close> ModRM, ModRM, ModRM, ModRM, Imm8, ImmZ, NoOperand, NoOperand,
         ModRM, ModRM, ModRM, ModRM, Imm8, ImmZ, NoOperand, NoOperand,
      \<comment> \<open>20\<close> ModRM, ModRM, ModRM, ModRM, Imm8, ImmZ, Prefix, NoOperand,
         ModRM, ModRM, ModRM, ModRM, Imm8, ImmZ, Prefix, NoOperand,
      \<comment> \<open>30\<close> ModRM, ModRM, ModRM, ModRM, Imm8, ImmZ, Prefix, NoOperand,
         ModRM, ModRM, ModRM, ModRM, Imm8, ImmZ, Prefix, NoOperand,
      \<comment> \<open>40\<close> NoOperand, NoOperand, NoOperand, NoOperand, NoOperand, NoOperand, NoOperand, NoOperand,
         NoOperand, NoOperand, NoOperand, NoOperand, NoOperand, NoOperand, NoOperand, NoOperand,
      \<comment> \<open>50\<close> NoOperand, NoOperand, NoOperand, NoOperand, NoOperand, NoOperand, NoOperand, NoOperand,
         NoOperand, NoOperand, NoOperand, NoOperand, NoOperand, NoOperand, NoOperand, NoOperand,
      \<comment> \<open>60\<close> NoOperand, NoOperand, ModRM, ModRM, Prefix, Prefix, Prefix, Prefix,
         ImmZ, ModRM_ImmZ, Imm8, ModRM_Imm8, NoOperand, NoOperand, NoOperand, NoOperand,
      \<comment> \<open>70\<close> Imm8, Imm8, Imm8, Imm8, Imm8, Imm8, Imm8, Imm8,
         Imm8, Imm8, Imm8, Imm8, Imm8, Imm8, Imm8, Imm8,
      \<comment> \<open>80\<close> ModRM_Imm8, ModRM_ImmZ, ModRM_Imm8, ModRM_Imm8, ModRM, ModRM, ModRM, ModRM,
         ModRM, ModRM, ModRM, ModRM, ModRM, ModRM, ModRM, ModRM,
      \<comment> \<open>90\<close> NoOperand, NoOperand, NoOperand, NoOperand, NoOperand, NoOperand, NoOperand, NoOperand,
         NoOperand, NoOperand, FarZ, NoOperand, NoOperand, NoOperand, NoOperand, NoOperand,
      \<comment> \<open>A0\<close> Moffs32, Moffs32, Moffs32, Moffs32, NoOperand, NoOperand, NoOperand, NoOperand,
         Imm8, ImmZ, NoOperand, NoOperand, NoOperand, NoOperand, NoOperand, NoOperand,
      \<comment> \<open>B0\<close> Imm8, Imm8, Imm8, Imm8, Imm8, Imm8, Imm8, Imm8,
         ImmZ, ImmZ, ImmZ, ImmZ, ImmZ, ImmZ, ImmZ, ImmZ,
      \<comment> \<open>C0\<close> ModRM_Imm8, ModRM_Imm8, Imm16, NoOperand, ModRM, ModRM, ModRM_Imm8, ModRM_ImmZ,
         Imm16_Imm8, NoOperand, Imm16, NoOperand, NoOperand, Imm8, NoOperand, NoOperand,
      \<comment> \<open>D0\<close> ModRM, ModRM, ModRM, ModRM, Imm8, Imm8, NoOperand, NoOperand,
         ModRM, ModRM, ModRM, ModRM, ModRM, ModRM, ModRM, ModRM,
      \<comment> \<open>E0\<close> Imm8, Imm8, Imm8, Imm8, Imm8, Imm8, Imm8, Imm8,
         RelZ, RelZ, FarZ, Imm8, NoOperand, NoOperand, NoOperand, NoOperand,
      \<comment> \<open>F0\<close> Prefix, NoOperand, Prefix, Prefix, NoOperand, NoOperand, Group3b, Group3z,
         NoOperand, NoOperand, NoOperand, NoOperand, NoOperand, NoOperand, ModRM, ModRM]"

definition opcode_form :: "nat \<Rightarrow> operand_form" where
  "opcode_form op = opcode_table ! op"

text \<open>
  The bytes taken by a ModR/M byte \<open>m\<close>, the SIB byte \<open>s\<close> it calls for, and the displacement.
\<close>

definition modrm_bytes :: "nat \<Rightarrow> nat \<Rightarrow> nat" where
  "modrm_bytes m s =
     (let md = m div 64; rm = m mod 8; sib = (md \<noteq> 3 \<and> rm = 4)
      in 1 + (if sib then 1 else 0)
         + (if md = 1 then 1 else if md = 2 then 4
            else if md = 0 \<and> (rm = 5 \<or> (sib \<and> s mod 8 = 5)) then 4 else 0))"

fun operand_bytes :: "operand_form \<Rightarrow> bool \<Rightarrow> nat \<Rightarrow> nat \<Rightarrow> nat" where
  "operand_bytes NoOperand wide m s = 0"
| "operand_bytes ModRM wide m s = modrm_bytes m s"
| "operand_bytes ModRM_Imm8 wide m s = modrm_bytes m s + 1"
| "operand_bytes ModRM_ImmZ wide m s = modrm_bytes m s + (if wide then 4 else 2)"
| "operand_bytes Imm8 wide m s = 1"
| "operand_bytes ImmZ wide m s = (if wide then 4 else 2)"
| "operand_bytes Imm16 wide m s = 2"
| "operand_bytes Imm16_Imm8 wide m s = 3"
| "operand_bytes Moffs32 wide m s = 4"
| "operand_bytes RelZ wide m s = (if wide then 4 else 2)"
| "operand_bytes FarZ wide m s = (if wide then 6 else 4)"
| "operand_bytes Group3b wide m s = modrm_bytes m s + (if m div 8 mod 8 < 2 then 1 else 0)"
| "operand_bytes Group3z wide m s =
     modrm_bytes m s + (if m div 8 mod 8 < 2 then if wide then 4 else 2 else 0)"
| "operand_bytes Escape wide m s = 0"
| "operand_bytes Prefix wide m s = 0"

definition byte0 :: "bytes \<Rightarrow> nat \<Rightarrow> nat" where
  "byte0 c i = (if i < length c then unat (c ! i) else 0)"

definition is_prefix_byte :: "u8 \<Rightarrow> bool" where
  "is_prefix_byte b \<longleftrightarrow> unat b = 0x66 \<or> is_plain_prefix (unat b)"

definition prefix_run :: "bytes \<Rightarrow> nat \<Rightarrow> bytes" where
  "prefix_run c pos = takeWhile is_prefix_byte (drop pos c)"

section \<open>The decoder against the table\<close>

lemma modrm_fields: "m < 256 \<Longrightarrow> drop_bit 6 m mod 4 = m div 64" for m :: nat
  by (simp add: drop_bit_eq_div)

lemma modrm_len_cases:
  fixes md rm sb :: nat
  shows "((if md \<noteq> 3 \<and> rm = 4 then if p then Some (if md = 0 \<and> sb = 5 then 6 else 2) else Some 2
           else Some (1 :: nat)) \<bind>
          (\<lambda>n. Some (if md = 1 then n + 1 else if md = 2 then n + 4
                     else if md = 0 \<and> rm = 5 then n + 4 else n)))
     = Some (1 + (if md \<noteq> 3 \<and> rm = 4 then 1 else 0)
         + (if md = 1 then 1 else if md = 2 then 4
            else if md = 0 \<and> (rm = 5 \<or> (md \<noteq> 3 \<and> rm = 4) \<and> p \<and> sb = 5) then 4 else 0))"
  by auto

lemma modrm_len_bytes [byte_simps]:
  "modrm_len c (length c) start = Some (modrm_bytes (byte0 c start) (byte0 c (start + 1)))"
proof (cases "start < length c")
  case False
  then show ?thesis by (simp add: modrm_len_def byte0_def modrm_bytes_def)
next
  case True
  let ?m = "unat (c ! start)" and ?p = "start + 1 < length c"
  have sib: "(if ?p then rd c (start + 1) \<bind>
        (\<lambda>s. Some (if md = 0 \<and> unat s mod 8 = 5 then 6 else 2)) else Some (2::nat))
      = (if ?p then Some (if md = 0 \<and> unat (c ! (start + 1)) mod 8 = 5 then 6 else 2) else Some 2)"
    for md :: nat by simp
  have nle: "(length c \<le> start) = False" using True by simp
  have "modrm_len c (length c) start = Some (1 + (if ?m div 64 \<noteq> 3 \<and> ?m mod 8 = 4 then 1 else 0)
     + (if ?m div 64 = 1 then 1 else if ?m div 64 = 2 then 4
        else if ?m div 64 = 0 \<and> (?m mod 8 = 5 \<or> (?m div 64 \<noteq> 3 \<and> ?m mod 8 = 4) \<and> ?p
          \<and> unat (c ! (start + 1)) mod 8 = 5) then 4 else 0))"
    by (simp only: modrm_len_def nle if_False rd_in [OF True] bind.bind_lunit Let_def
        and_mask_nat modrm_fields [OF unat_u8_lt] sib modrm_len_cases)
  then show ?thesis
    by (simp only: modrm_bytes_def byte0_def Let_def True if_True) auto
qed

lemma modrm_bytes_bounds [bound_intros]: "1 \<le> modrm_bytes m s" "modrm_bytes m s \<le> 6"
  by (auto simp: modrm_bytes_def Let_def)

text \<open>The opcode tests of the source, read as a classification into operand forms.\<close>

definition onebyte_class :: "nat \<Rightarrow> operand_form option" where
  "onebyte_class op =
    (if (0x40 \<le> op \<and> op \<le> 0x5F) \<or> (0x90 \<le> op \<and> op \<le> 0x99) \<or> op = 0xC3 \<or> op = 0xC9 \<or> op = 0xCC
        \<or> (0xF8 \<le> op \<and> op \<le> 0xFD) \<or> (0xA4 \<le> op \<and> op \<le> 0xA7) \<or> (0xAA \<le> op \<and> op \<le> 0xAF)
     then Some NoOperand
     else if (op \<le> 0x3F \<and> op mod 8 \<le> 3) \<or> op = 0x84 \<or> op = 0x85 \<or> op = 0x86 \<or> op = 0x87
        \<or> (0x88 \<le> op \<and> op \<le> 0x8B) \<or> op = 0x8C \<or> op = 0x8E \<or> op = 0x8D \<or> op = 0x8F \<or> op = 0x63
        \<or> (0xD0 \<le> op \<and> op \<le> 0xD3) \<or> (0xD8 \<le> op \<and> op \<le> 0xDF) \<or> op = 0xFE \<or> op = 0xFF
     then Some ModRM
     else if op = 0xC8 then Some Imm16_Imm8
     else if op = 0xD4 \<or> op = 0xD5 then Some Imm8
     else if op = 0x9A \<or> op = 0xEA then Some FarZ
     else if 0xE4 \<le> op \<and> op \<le> 0xE7 then Some Imm8
     else if op = 0x60 \<or> op = 0x61 \<or> (0x9B \<le> op \<and> op \<le> 0x9F) \<or> (0xEC \<le> op \<and> op \<le> 0xEF)
     then Some NoOperand
     else if op = 0x80 \<or> op = 0x83 \<or> op = 0x6B \<or> op = 0xC0 \<or> op = 0xC1 \<or> op = 0xC6 then Some ModRM_Imm8
     else if op = 0x81 \<or> op = 0x69 \<or> op = 0xC7 then Some ModRM_ImmZ
     else if op = 0xF6 \<or> op = 0xF7 then Some (if op = 0xF6 then Group3b else Group3z)
     else if op \<le> 0x3F \<and> op mod 8 = 4 then Some Imm8
     else if op \<le> 0x3F \<and> op mod 8 = 5 then Some ImmZ
     else if op = 0xA8 then Some Imm8
     else if op = 0xA9 then Some ImmZ
     else if 0xB0 \<le> op \<and> op \<le> 0xB7 then Some Imm8
     else if 0xB8 \<le> op \<and> op \<le> 0xBF then Some ImmZ
     else if 0xA0 \<le> op \<and> op \<le> 0xA3 then Some Moffs32
     else if op = 0x6A then Some Imm8
     else if op = 0x68 then Some ImmZ
     else if 0x70 \<le> op \<and> op \<le> 0x7F then Some Imm8
     else if op = 0xEB then Some Imm8
     else if op = 0xE0 \<or> op = 0xE1 \<or> op = 0xE2 \<or> op = 0xE3 then Some Imm8
     else if op = 0xE8 \<or> op = 0xE9 then Some RelZ
     else if op = 0xC2 \<or> op = 0xCA then Some Imm16
     else if op = 0xCD then Some Imm8
     else None)"

text \<open>What the decoder computes for a class: branches and far pointers always have 32-bit offsets.\<close>

definition class_len :: "operand_form \<Rightarrow> bool \<Rightarrow> nat \<Rightarrow> nat \<Rightarrow> nat" where
  "class_len f wide m s =
     (if f = RelZ then 4 else if f = FarZ then 6 else operand_bytes f wide m s)"

lemma onebyte_len_class:
  assumes "pos \<le> i"
  shows "x86_onebyte_len c (length c) pos i wide op =
     (case onebyte_class op of
        None \<Rightarrow> Some 1
      | Some f \<Rightarrow> Some (i - pos + 1 + class_len f wide (byte0 c (i + 1)) (byte0 c (i + 2))))"
  (is "?L = ?R")
proof -
  have reg: "(if i + 1 < length c
              then rd c (i + 1) \<bind> (\<lambda>m. Some (drop_bit 3 (unat m) mod 8)) else Some 0)
       = Some (byte0 c (i + 1) div 8 mod 8)"
    by (simp add: byte0_def drop_bit_eq_div)
  have low: "r = 0 \<or> r = 1 \<longleftrightarrow> r < 2" for r :: nat by auto
  obtain d where "i = pos + d" using assms le_Suc_ex by blast
  then show ?thesis
    unfolding x86_onebyte_len_def onebyte_class_def and_mask_nat modrm_len_bytes reg low
      Let_def bind.bind_lunit if_distrib [of "case_option _ _"] option.case
    by (intro if_cong refl) (simp_all (no_asm_simp) add: class_len_def)
qed


definition misdecoded :: "nat list" where
  "misdecoded = [0x62, 0x82, 0xC4, 0xC5]"

definition defaulted :: "nat list" where
  "defaulted = [0x06, 0x07, 0x0E, 0x16, 0x17, 0x1E, 0x1F, 0x27, 0x2F, 0x37, 0x3F, 0x6C, 0x6D, 0x6E, 0x6F,
     0xCB, 0xCE, 0xCF, 0xD6, 0xD7, 0xF1, 0xF4, 0xF5]"

definition row_ok :: "nat \<Rightarrow> operand_form \<Rightarrow> bool" where
  "row_ok op f =
     ((op = 0x66 \<or> is_plain_prefix op) = (f = Prefix) \<and>
      (if f = Prefix \<or> op = 0x0F then True
       else if op \<in> set misdecoded then onebyte_class op = None
       else if op \<in> set defaulted then onebyte_class op = None \<and> f = NoOperand
       else onebyte_class op = Some f))"

lemma all_rows_ok: "list_all2 row_ok [0..<256] opcode_table"
  by (simp add: opcode_table_def upt_rec [of 0] upt_rec [of "Suc 0"]
      numeral_2_eq_2 [symmetric] row_ok_def onebyte_class_def is_plain_prefix_def
      misdecoded_def defaulted_def)

lemma row_ok_form: "op < 256 \<Longrightarrow> row_ok op (opcode_form op)"
  using list_all2_nthD [OF all_rows_ok, of op] by (simp add: opcode_form_def)

lemma prefix_match: "op < 256 \<Longrightarrow> (op = 0x66 \<or> is_plain_prefix op) = (opcode_form op = Prefix)"
  using row_ok_form by (simp add: row_ok_def)

lemma prefix_run_Cons:
  assumes "i < length c"
  shows "prefix_run c i = (if is_prefix_byte (c ! i) then c ! i # prefix_run c (Suc i) else [])"
  using assms by (simp add: prefix_run_def Cons_nth_drop_Suc [symmetric])

lemma prefix_run_out: "length c \<le> i \<Longrightarrow> prefix_run c i = []"
  by (simp add: prefix_run_def)

lemma prefix_run_bound: "pos < length c \<Longrightarrow> pos + length (prefix_run c pos) \<le> length c"
  using length_takeWhile_le [of is_prefix_byte "drop pos c"] by (simp add: prefix_run_def)

lemma skip_prefixes_run:
  "skip_prefixes c (length c) i wide =
     Some (i + length (prefix_run c i), wide \<and> 0x66 \<notin> set (prefix_run c i))"
proof (induction "length c - i" arbitrary: i wide)
  case 0
  then show ?case by (simp add: skip_prefixes.simps [of c "length c" i] prefix_run_out)
next
  case (Suc k)
  then have i: "i < length c" by simp
  have IH: "skip_prefixes c (length c) (Suc i) w =
     Some (Suc i + length (prefix_run c (Suc i)), w \<and> 0x66 \<notin> set (prefix_run c (Suc i)))" for w
    using Suc by simp
  have unat_66: "unat (0x66 :: u8) = 0x66" by simp
  have eq66: "unat (c ! i) = 0x66 \<longleftrightarrow> c ! i = 0x66"
    by (metis unat_66 unsigned_word_eqI)
  show ?case
    using i by (auto simp: skip_prefixes.simps [of c "length c" i] IH prefix_run_Cons
        is_prefix_byte_def eq66)
qed

lemma head_not_prefix:
  assumes "pos + length (prefix_run c pos) < length c"
  shows "\<not> is_prefix_byte (c ! (pos + length (prefix_run c pos)))"
proof -
  have "prefix_run c pos \<noteq> drop pos c \<or> drop pos c = []"
    using assms by (auto dest: arg_cong [of _ _ length])
  then show ?thesis
    using assms nth_length_takeWhile [of is_prefix_byte "drop pos c"]
    by (simp add: prefix_run_def)
qed

lemma insn_len_unfold:
  assumes "pos < length c" and "i = pos + length (prefix_run c pos)" and "i < length c"
    and "wide = (0x66 \<notin> set (prefix_run c pos))"
  shows "x86_insn_len c (length c) pos =
    (if unat (c ! i) = 0x0F then x86_twobyte_len c (length c) pos i
     else x86_onebyte_len c (length c) pos i wide (unat (c ! i)))"
  using assms by (simp add: x86_insn_len_def skip_prefixes_run)


section \<open>The two-byte opcodes\<close>

text \<open>
  The second opcode byte of the \<open>0F\<close> map: what follows it.  The three-byte escapes \<open>38\<close>
  and \<open>3A\<close> are left out of the statements below.
\<close>

definition twobyte_form :: "nat \<Rightarrow> operand_form" where
  "twobyte_form op2 =
    (if 0x80 \<le> op2 \<and> op2 \<le> 0x8F then RelZ
     else if op2 \<in> set [0x05, 0x06, 0x07, 0x08, 0x09, 0x0B, 0x30, 0x31, 0x32, 0x33, 0x34, 0x35, 0x37, 0x77,
                      0xA0, 0xA1, 0xA2, 0xA8, 0xA9, 0xAA]
          \<or> (0xC8 \<le> op2 \<and> op2 \<le> 0xCF) then NoOperand
     else if op2 \<in> set [0x70, 0x71, 0x72, 0x73, 0xA4, 0xAC, 0xBA, 0xC2, 0xC4, 0xC5, 0xC6] then ModRM_Imm8
     else ModRM)"

lemma twobyte_len:
  assumes "pos \<le> i" and "i + 1 < length c"
  shows "x86_twobyte_len c (length c) pos i =
     Some (i - pos + 2 + (if 0x80 \<le> byte0 c (i + 1) \<and> byte0 c (i + 1) \<le> 0x8F then 4
                          else modrm_bytes (byte0 c (i + 2)) (byte0 c (i + 3))))"
proof -
  obtain d where d: "i = pos + d" using assms(1) le_Suc_ex by blast
  have b: "byte0 c (i + 1) = unat (c ! (i + 1))" using assms(2) by (simp add: byte0_def)
  have nle: "(length c \<le> i + 1) = False" using assms(2) by simp
  show ?thesis
    unfolding x86_twobyte_len_def nle if_False rd_in [OF assms(2)] bind.bind_lunit Let_def
      modrm_len_bytes b
    by (simp add: d numeral_3_eq_3)
qed

lemma opcode_form_81: "opcode_form 0x81 = ModRM_ImmZ"
  using row_ok_form [of "0x81"]
  by (auto simp: row_ok_def is_plain_prefix_def misdecoded_def defaulted_def onebyte_class_def
      split: if_splits)

section \<open>Properties\<close>

lemma prefix_stop:
  assumes "i = pos + length (prefix_run c pos)" and "i < length c"
  shows "opcode_form (unat (c ! i)) \<noteq> Prefix"
  using assms head_not_prefix [of pos c] prefix_match [of "unat (c ! i)"]
  by (simp add: is_prefix_byte_def)

lemma class_len_bound [bound_intros]: "class_len f wide m s \<le> 10"
  using modrm_bytes_bounds(2) [of m s] by (cases f) (simp_all add: class_len_def)

text \<open>
  C31. the decoder reads no byte outside the code image and always returns a length of at least
  one (so the scan that adds it to its position makes progress and ends) and at most the prefixes
  plus eleven bytes.
\<close>

theorem x86_insn_len_safe:
  "\<exists>n. x86_insn_len c (length c) pos = Some n \<and> 1 \<le> n \<and> n \<le> length (prefix_run c pos) + 11"
proof (cases "pos < length c")
  case False
  then show ?thesis by (simp add: x86_insn_len_def)
next
  case True
  define i where "i = pos + length (prefix_run c pos)"
  show ?thesis
  proof (cases "i < length c")
    case False
    then show ?thesis
      using True by (auto simp: x86_insn_len_def skip_prefixes_run i_def)
  next
    case in_range: True
    note eq = insn_len_unfold [OF True i_def in_range refl]
    show ?thesis
    proof (cases "unat (c ! i) = 0x0F")
      case True
      show ?thesis
      proof (cases "i + 1 < length c")
        case True
        then have "x86_insn_len c (length c) pos = Some (i - pos + 2 +
            (if 0x80 \<le> byte0 c (i + 1) \<and> byte0 c (i + 1) \<le> 0x8F then 4
             else modrm_bytes (byte0 c (i + 2)) (byte0 c (i + 3))))"
          using \<open>unat (c ! i) = 0x0F\<close> twobyte_len [of pos i c] by (simp add: eq i_def)
        then show ?thesis
          using modrm_bytes_bounds(2) [of "byte0 c (i + 2)" "byte0 c (i + 3)"] by (simp add: i_def)
      next
        case False
        then show ?thesis
          using \<open>unat (c ! i) = 0x0F\<close> by (simp add: eq x86_twobyte_len_def i_def)
      qed
    next
      case False
      then show ?thesis
        by (auto simp: eq onebyte_len_class i_def class_len_bound split: option.split)
    qed
  qed
qed

text \<open>
  C32. on every one-byte opcode it covers, the decoder returns exactly the length of the
  instruction according to the opcode table: prefixes, opcode, ModR/M, SIB, displacement and
  immediate.  The excluded opcodes are the four of \<open>misdecoded\<close>, and those of
  \<open>defaulted\<close> when a prefix precedes them (the final \<open>return( 1 )\<close> forgets the prefixes).
\<close>

theorem x86_insn_len_table:
  assumes "pos < length c" and "i = pos + length (prefix_run c pos)" and "i < length c"
    and "op = unat (c ! i)" and "op \<noteq> 0x0F" and "op \<notin> set misdecoded"
    and "op \<in> set defaulted \<longrightarrow> prefix_run c pos = []"
    and "wide = (0x66 \<notin> set (prefix_run c pos))"
    and "opcode_form op = RelZ \<or> opcode_form op = FarZ \<longrightarrow> wide"
  shows "x86_insn_len c (length c) pos =
    Some (length (prefix_run c pos) + 1
          + operand_bytes (opcode_form op) wide (byte0 c (i + 1)) (byte0 c (i + 2)))"
proof -
  have lt: "op < 256" using assms(4) by simp
  have np: "opcode_form op \<noteq> Prefix" using prefix_stop assms(2-4) by blast
  have len: "x86_insn_len c (length c) pos = x86_onebyte_len c (length c) pos i wide op"
    using insn_len_unfold [OF assms(1-3,8)] assms(4,5) by simp
  show ?thesis
  proof (cases "op \<in> set defaulted")
    case True
    then have "onebyte_class op = None" "opcode_form op = NoOperand" "prefix_run c pos = []"
      using row_ok_form [OF lt] np assms(5-7) by (auto simp: row_ok_def)
    then show ?thesis
      using assms(2) by (simp add: len onebyte_len_class)
  next
    case False
    then have "onebyte_class op = Some (opcode_form op)"
      using row_ok_form [OF lt] np assms(5,6) by (auto simp: row_ok_def)
    then show ?thesis
      using assms(2,9) by (auto simp: len onebyte_len_class class_len_def)
  qed
qed

theorem x86_insn_len_table_witness:
  "x86_insn_len [0x66, 0x81, 0x7D, 0xE0, 0x34, 0x12] 6 0 = Some 6"
proof -
  let ?c = "[0x66, 0x81, 0x7D, 0xE0, 0x34, 0x12] :: bytes"
  have len: "length ?c = 6" by simp
  have run: "prefix_run ?c 0 = [0x66]"
    by (simp add: prefix_run_def is_prefix_byte_def is_plain_prefix_def)
  have op: "?c ! 1 = 0x81" by simp
  have ok: "(0x81 :: nat) \<noteq> 0x0F" "0x81 \<notin> set misdecoded" "0x81 \<notin> set defaulted"
    by (simp_all add: misdecoded_def defaulted_def)
  have b: "byte0 ?c (1 + 1) = 0x7D" "byte0 ?c (1 + 2) = 0xE0"
    by (simp_all add: byte0_def)
  have "x86_insn_len ?c (length ?c) 0 = Some (length (prefix_run ?c 0) + 1
          + operand_bytes (opcode_form 0x81) False (byte0 ?c (1 + 1)) (byte0 ?c (1 + 2)))"
    by (rule x86_insn_len_table) (simp_all add: len run op ok opcode_form_81)
  then show ?thesis
    unfolding len run opcode_form_81 b by (simp add: modrm_bytes_def)
qed

text \<open>
  a \<open>0F\<close>-escaped instruction that takes an 8-bit immediate (SHLD, SHRD, BT and its kin
  with an immediate) is measured one byte short: the source sizes every such opcode as ModR/M
  only, so the scan resumes on the immediate and reads it as an opcode.
\<close>

theorem twobyte_imm8_one_short:
  assumes "pos < length c" and "i = pos + length (prefix_run c pos)" and "i + 1 < length c"
    and "unat (c ! i) = 0x0F" and "twobyte_form (unat (c ! (i + 1))) = ModRM_Imm8"
  shows "x86_insn_len c (length c) pos =
    Some (length (prefix_run c pos) + 2
          + operand_bytes ModRM_Imm8 wide (byte0 c (i + 2)) (byte0 c (i + 3)) - 1)"
proof -
  have "\<not> (0x80 \<le> byte0 c (i + 1) \<and> byte0 c (i + 1) \<le> 0x8F)"
    using assms(3,5) by (auto simp: byte0_def twobyte_form_def)
  then show ?thesis
    using insn_len_unfold [OF assms(1,2) _ refl] assms(2-4) twobyte_len [of pos i c] by auto
qed

theorem twobyte_imm8_one_short_witness:
  "x86_insn_len [0x0F, 0xA4, 0xC2, 0x03, 0x90] 5 0 = Some 3"
proof -
  let ?c = "[0x0F, 0xA4, 0xC2, 0x03, 0x90] :: bytes"
  have len: "length ?c = 5" by simp
  have run: "prefix_run ?c 0 = []"
    by (simp add: prefix_run_def is_prefix_byte_def is_plain_prefix_def)
  show ?thesis
    using twobyte_imm8_one_short [of 0 ?c 0] unfolding len run
    by (simp add: twobyte_form_def byte0_def modrm_bytes_def)
qed

end
