(* ===== verification/X64Pass.thy ===== *)
theory X64Pass
  imports X86Decode
begin

text \<open>
  Pass 2 of \<open>X64ObjFini\<close> (\<open>bld/cg/intel/x64/c/x64obj.c\<close>): the i386 code image is copied
  into a larger buffer with some encodings rewritten for 64-bit mode, an offset map records where
  each step of the copy started, the relative branches are re-aimed through that map, and
  public symbols and fixups are moved.

  Every read of the code image, every access to \<open>offset_map\<close> and every write to the patched buffer is checked:
  outside of the array it is \<open>None\<close>.  The buffer has three bytes for each byte of code and the map one entry for
  each and one for the end, \<open>-1\<close> where the source leaves it unset.
\<close>

section \<open>Fixups and public symbols\<close>

record fixup_rec =
  code_offset :: int
  ext_idx :: int
  target_seg :: nat

definition has_fixup_at :: "fixup_rec list \<Rightarrow> nat \<Rightarrow> bool" where
  "has_fixup_at fs off = list_ex (\<lambda>f. code_offset f = int off) fs"

section \<open>The copy loop\<close>

definition lea_needs_rexw :: "nat \<Rightarrow> bool" where
  "lea_needs_rexw b1 =
    (let lreg = drop_bit 3 b1 AND 7; lmod = drop_bit 6 b1 AND 3; lrm = b1 AND 7
     in lreg = 4 \<or> lreg = 5 \<or> (lmod \<noteq> 3 \<and> (lrm = 5 \<or> lrm = 4)))"

text \<open>
  One iteration at position \<open>k\<close> yields the number of source bytes consumed, the bytes emitted, and
  the extra entries made in the offset map, as pairs of a source and an output displacement.  The parts of the body
  that may not apply have the result \<open>Some None\<close> then; \<open>pre\<close> is the prefix emitted by the test before them.
\<close>

type_synonym pass_step = "nat \<times> bytes \<times> (nat \<times> nat) list"

definition sp_adjust :: "bytes \<Rightarrow> nat \<Rightarrow> bytes \<Rightarrow> pass_step option option" where
  "sp_adjust code k pre =
    (if k + 1 < length code then do {
       b0 \<leftarrow> rd code k;
       b1 \<leftarrow> rd code (k + 1);
       Some (if (b0 = 0x81 \<or> b0 = 0x83) \<and> (b1 = 0xEC \<or> b1 = 0xC4)
             then Some (2, pre @ [0x48, b0, b1], []) else None)
     }
     else Some None)"

definition push_pair :: "bytes \<Rightarrow> fixup_rec list \<Rightarrow> nat \<Rightarrow> bytes \<Rightarrow> pass_step option option" where
  "push_pair code fs k pre = do {
     b0 \<leftarrow> rd code k;
     if b0 = 0x68 \<and> k + 5 < length code then do {
       next_op \<leftarrow> rd code (k + 5);
       if next_op = 0x68 \<and> k + 10 \<le> length code \<and> \<not> has_fixup_at fs (k + 1) \<and> \<not> has_fixup_at fs (k + 6)
          \<and> k + 10 < length code then do {
         c \<leftarrow> rd code (k + 10);
         if c = 0xE8 then do {
           high \<leftarrow> rd_slice code (k + 1) 4;
           low \<leftarrow> rd_slice code (k + 6) 4;
           Some (Some (10, pre @ [0x48, 0x83, 0xEC, 0x08, 0xC7, 0x04, 0x24] @ low @ [0xC7, 0x44, 0x24, 0x04] @ high, []))
         }
         else Some None
       }
       else if next_op = 0x6A \<and> k + 7 \<le> length code \<and> \<not> has_fixup_at fs (k + 1) \<and> k + 7 < length code then do {
         c \<leftarrow> rd code (k + 7);
         if c = 0xE8 then do {
           high \<leftarrow> rd_slice code (k + 1) 4;
           low \<leftarrow> rd code (k + 6);
           Some (Some (7, pre @ [0x48, 0x83, 0xEC, 0x08, 0xC7, 0x04, 0x24] @ [low, 0, 0, 0]
                            @ [0xC7, 0x44, 0x24, 0x04] @ high, []))
         }
         else Some None
       }
       else Some None
     }
     else Some None
   }"

definition acc_move :: "bytes \<Rightarrow> fixup_rec list \<Rightarrow> nat \<Rightarrow> bytes \<Rightarrow> pass_step option option" where
  "acc_move code fs k pre = do {
     b0 \<leftarrow> rd code k;
     if (b0 = 0xA1 \<or> b0 = 0xA3) \<and> k + 5 \<le> length code \<and> has_fixup_at fs (k + 1) then do {
       disp \<leftarrow> rd_slice code (k + 1) 4;
       Some (Some (5, pre @ [if b0 = 0xA1 then 0x8B else 0x89, 0x05] @ disp, [(1, length pre + 2)]))
     }
     else Some None
   }"

definition patch_tail :: "bytes \<Rightarrow> fixup_rec list \<Rightarrow> nat \<Rightarrow> bytes \<Rightarrow> pass_step option" where
  "patch_tail code fs k pre = do {
     sp \<leftarrow> sp_adjust code k pre;
     (case sp of
        Some r \<Rightarrow> Some r
      | None \<Rightarrow> do {
          push \<leftarrow> push_pair code fs k pre;
          (case push of
             Some r \<Rightarrow> Some r
           | None \<Rightarrow> do {
               acc \<leftarrow> acc_move code fs k pre;
               (case acc of
                  Some r \<Rightarrow> Some r
                | None \<Rightarrow> do { b0 \<leftarrow> rd code k; Some (1, pre @ [b0], []) })
             })
        })
   }"

definition patch_step :: "bytes \<Rightarrow> fixup_rec list \<Rightarrow> nat \<Rightarrow> pass_step option" where
  "patch_step code fs k = do {
     b0 \<leftarrow> rd code k;
     if k + 1 < length code then do {
       b1 \<leftarrow> rd code (k + 1);
       if b0 = 0x89 \<and> (b1 = 0xE5 \<or> b1 = 0xEC) then Some (2, [0x48, b0, b1], [])
       else if (b0 = 0x89 \<or> b0 = 0x8B) \<and> unat b1 AND 0xC0 = 0xC0 then Some (2, [0x48, b0, b1], [])
       else patch_tail code fs k (if b0 = 0x8D \<and> lea_needs_rexw (unat b1) then [0x48] else [])
     }
     else patch_tail code fs k []
   }"

definition set_entry :: "nat \<Rightarrow> nat \<Rightarrow> int list \<Rightarrow> int list option" where
  "set_entry i v omap = (if i < length omap then Some (omap[i := int v]) else None)"

definition mark_step :: "nat \<Rightarrow> nat \<Rightarrow> (nat \<times> nat) list \<Rightarrow> int list \<Rightarrow> int list option" where
  "mark_step k p inner omap =
    fold (\<lambda>(a, b) m. Option.bind m (set_entry (k + a) (p + b))) inner (set_entry k p omap)"

lemma patch_step_pos: "patch_step code fs k = Some (c, e, inner) \<Longrightarrow> 1 \<le> c"
  by (auto simp: patch_step_def patch_tail_def sp_adjust_def push_pair_def acc_move_def bind_eq_Some_conv
      split: if_splits option.splits)

function patch_loop ::
  "bytes \<Rightarrow> fixup_rec list \<Rightarrow> nat \<Rightarrow> bytes \<Rightarrow> int list \<Rightarrow> (bytes \<times> int list) option" where
  "patch_loop code fs k out omap =
    (if k < length code then
       (case patch_step code fs k of
          None \<Rightarrow> None
        | Some (c, e, inner) \<Rightarrow>
            (case mark_step k (length out) inner omap of
               None \<Rightarrow> None
             | Some omap' \<Rightarrow>
                 if length out + length e \<le> 3 * length code then patch_loop code fs (k + c) (out @ e) omap' else None))
     else Some (out, omap))"
  by pat_completeness auto
termination
  by (relation "measure (\<lambda>(code, fs, k, out, omap). length code - k)") (auto dest: patch_step_pos)

declare patch_loop.simps [simp del]

definition patch_image :: "bytes \<Rightarrow> fixup_rec list \<Rightarrow> (bytes \<times> int list) option" where
  "patch_image code fs = do {
     (patched, omap) \<leftarrow> patch_loop code fs 0 [] (replicate (length code + 1) (- 1));
     omap \<leftarrow> set_entry (length code) (length patched) omap;
     Some (patched, omap)
   }"

section \<open>Branch displacements\<close>

definition s8 :: "u8 \<Rightarrow> int" where
  "s8 b = sint b"

definition s32 :: "bytes \<Rightarrow> int" where
  "s32 bs = sint (word_of_nat (le_val bs) :: u32)"

definition s32_bytes :: "int \<Rightarrow> bytes" where
  "s32_bytes v = le_bytes 4 (unat (word_of_int v :: u32))"

text \<open>
  The branch at position \<open>k\<close> of the original code, if its opcode is one: the displacement's
  offset in the instruction, its size, and the length of the instruction.
\<close>

definition read_branch :: "bytes \<Rightarrow> nat \<Rightarrow> (nat \<times> nat \<times> nat) option option" where
  "read_branch code k = do {
     op \<leftarrow> rd code k;
     if 0x70 \<le> op \<and> op \<le> 0x7F then Some (Some (1, 1, 2))
     else if op = 0xEB then Some (Some (1, 1, 2))
     else do {
       jcc \<leftarrow> (if op = 0x0F \<and> k + 1 < length code then do { c \<leftarrow> rd code (k + 1); Some (0x80 \<le> c \<and> c \<le> 0x8F) } else Some False);
       Some (if jcc then Some (2, 4, 6) else if op = 0xE8 \<or> op = 0xE9 then Some (1, 4, 5) else None)
     }
   }"

definition old_disp :: "bytes \<Rightarrow> nat \<Rightarrow> nat \<Rightarrow> int option" where
  "old_disp code off sz =
    (if sz = 1 then map_option s8 (rd code off) else map_option s32 (rd_slice code off 4))"

definition both_mapped :: "int list \<Rightarrow> nat \<Rightarrow> int \<Rightarrow> nat \<Rightarrow> bool option" where
  "both_mapped omap k old_target n =
    (if 0 \<le> old_target \<and> old_target \<le> int n then do {
       m \<leftarrow> rd omap k;
       if 0 \<le> m then do { t \<leftarrow> rd omap (nat old_target); Some (0 \<le> t) } else Some False
     }
     else Some False)"

definition retarget_at :: "bytes \<Rightarrow> int list \<Rightarrow> nat \<Rightarrow> bytes \<Rightarrow> bytes option" where
  "retarget_at code omap k patched = do {
     br \<leftarrow> read_branch code k;
     (case br of
        None \<Rightarrow> Some patched
      | Some (doff, sz, ilen) \<Rightarrow> do {
          disp \<leftarrow> old_disp code (k + doff) sz;
          let old_target = int (k + ilen) + disp;
          both \<leftarrow> both_mapped omap k old_target (length code);
          if both then do {
            start \<leftarrow> rd omap k;
            new_target \<leftarrow> rd omap (nat old_target);
            let new_inst_end = start + int ilen;
            let new_disp = new_target - new_inst_end;
            let new_disp_off = nat (start + int doff);
            if sz = 1 then
              (if - 128 \<le> new_disp \<and> new_disp \<le> 127
               then wr_slice patched new_disp_off [word_of_int new_disp]
               else Some patched)
            else wr_slice patched new_disp_off (s32_bytes new_disp)
          }
          else Some patched
        })
   }"

text \<open>Where the scan goes after position \<open>k\<close>.\<close>

definition scan_next :: "bytes \<Rightarrow> nat \<Rightarrow> nat option" where
  "scan_next code k = do {
     br \<leftarrow> read_branch code k;
     (case br of
        Some (doff, sz, ilen) \<Rightarrow> Some (k + ilen)
      | None \<Rightarrow> do { l2 \<leftarrow> x86_insn_len code (length code) k; Some (k + (if 0 < l2 then l2 else 1)) })
   }"

lemma read_branch_shape:
  "read_branch code k = Some (Some (doff, sz, ilen)) \<Longrightarrow>
     (doff, sz, ilen) \<in> {(1, 1, 2), (2, 4, 6), (1, 4, 5)}"
  unfolding read_branch_def bind_eq_Some_conv
  by (elim exE conjE) (simp split: if_splits bind_splits)

lemma scan_next_pos:
  assumes "scan_next code k = Some k'"
  shows "k < k'"
proof -
  obtain br where br: "read_branch code k = Some br"
    using assms by (cases "read_branch code k") (simp_all add: scan_next_def)
  show ?thesis
  proof (cases br)
    case None
    then show ?thesis
      using assms br by (cases "x86_insn_len code (length code) k") (auto simp: scan_next_def split: if_splits)
  next
    case (Some b)
    then obtain doff sz ilen where "b = (doff, sz, ilen)" by (cases b)
    then show ?thesis using assms br Some read_branch_shape [of code k doff sz ilen] by (auto simp: scan_next_def)
  qed
qed

function retarget_loop :: "bytes \<Rightarrow> int list \<Rightarrow> nat \<Rightarrow> bytes \<Rightarrow> bytes option" where
  "retarget_loop code omap k patched =
    (if k < length code then
       (case retarget_at code omap k patched of
          None \<Rightarrow> None
        | Some patched' \<Rightarrow>
            (case scan_next code k of
               None \<Rightarrow> None
             | Some k' \<Rightarrow> retarget_loop code omap k' patched'))
     else Some patched)"
  by pat_completeness auto
termination
  by (relation "measure (\<lambda>(code, omap, k, patched). length code - k)") (auto dest: scan_next_pos)

declare retarget_loop.simps [simp del]

definition patch_code :: "bytes \<Rightarrow> fixup_rec list \<Rightarrow> (bytes \<times> int list) option" where
  "patch_code code fs = do {
     (patched, omap) \<leftarrow> patch_image code fs;
     patched' \<leftarrow> retarget_loop code omap 0 patched;
     Some (patched', omap)
   }"

section \<open>The rest of the pass\<close>

text \<open>
  The tail of pass 2: public offsets go through the map, the byte before each fixup is kept, the
  fixups go through the map, and the patched bytes replace the code image, in a buffer of
  \<open>cap\<close> bytes (the size of the OMF file).
\<close>

definition adjust_pub_off :: "nat \<Rightarrow> int list \<Rightarrow> nat \<Rightarrow> nat option" where
  "adjust_pub_off n omap off =
    (if off \<le> n then do { v \<leftarrow> rd omap off; Some (if 0 \<le> v then nat v else off) } else Some off)"

definition byte_before :: "bytes \<Rightarrow> fixup_rec \<Rightarrow> nat option" where
  "byte_before code f =
    (if 1 \<le> code_offset f \<and> code_offset f < int (length code)
     then map_option unat (rd code (nat (code_offset f - 1))) else Some 0)"

definition adjust_fixup :: "nat \<Rightarrow> int list \<Rightarrow> fixup_rec \<Rightarrow> fixup_rec option" where
  "adjust_fixup n omap f =
    (if 0 \<le> code_offset f \<and> code_offset f < int n
     then do { v \<leftarrow> rd omap (nat (code_offset f)); Some (f\<lparr>code_offset := v\<rparr>) } else Some f)"

record pass2 =
  p2_code :: bytes
  p2_pub_offs :: "nat list"
  p2_fixups :: "fixup_rec list"
  p2_orig :: "nat list"

definition pass2_run :: "nat \<Rightarrow> bytes \<Rightarrow> nat list \<Rightarrow> fixup_rec list \<Rightarrow> pass2 option" where
  "pass2_run cap code offs fs = do {
     (patched, omap) \<leftarrow> patch_code code fs;
     offs \<leftarrow> those (map (adjust_pub_off (length code) omap) offs);
     orig \<leftarrow> those (map (byte_before code) fs);
     fs \<leftarrow> those (map (adjust_fixup (length code) omap) fs);
     if length patched \<le> cap
     then Some \<lparr>p2_code = patched, p2_pub_offs = offs, p2_fixups = fs, p2_orig = orig\<rparr>
     else None
   }"

end
