(* ===== verification/X64Patch.thy ===== *)
theory X64Patch
  imports X64Pass
begin

text \<open>
  What pass 2 does.  The definitions of \<open>X64Pass\<close> check every access to an array; here are the same steps without
  the checks (\<open>tail_of\<close>, \<open>step_of\<close>, \<open>loop_of\<close>, \<open>image_of\<close> for the copy, \<open>aim_of\<close>, \<open>scan_of\<close>, \<open>aim_loop\<close> for the
  branches, \<open>patched_of\<close> for both), the proof that the guards of the source make every check succeed, apart
  from the displacement of a branch at the end of the image, and what follows for the finished image.
\<close>

section \<open>The copy loop\<close>

text \<open>
  One iteration at position \<open>k\<close>: the number of source bytes consumed, the bytes emitted, and
  the extra entries made in the offset map, as pairs of a source and an output displacement.
  \<open>tail_of\<close> is the part of the body after the LEA test, which emits the prefix \<open>pre\<close> and falls through.
\<close>

definition tail_of ::
  "bytes \<Rightarrow> fixup_rec list \<Rightarrow> nat \<Rightarrow> bytes \<Rightarrow> nat \<times> bytes \<times> (nat \<times> nat) list" where
  "tail_of code fs k pre =
    (let n = length code; b0 = code ! k; b1 = code ! (k + 1) in
     if k + 1 < n \<and> (b0 = 0x81 \<or> b0 = 0x83) \<and> (b1 = 0xEC \<or> b1 = 0xC4)
     then (2, pre @ [0x48, b0, b1], [])
     else if b0 = 0x68 \<and> k + 5 < n \<and> code ! (k + 5) = 0x68 \<and> k + 10 \<le> n
       \<and> \<not> has_fixup_at fs (k + 1) \<and> \<not> has_fixup_at fs (k + 6)
       \<and> k + 10 < n \<and> code ! (k + 10) = 0xE8
     then (10, pre @ [0x48, 0x83, 0xEC, 0x08, 0xC7, 0x04, 0x24] @ take 4 (drop (k + 6) code)
                @ [0xC7, 0x44, 0x24, 0x04] @ take 4 (drop (k + 1) code), [])
     else if b0 = 0x68 \<and> k + 5 < n \<and> code ! (k + 5) = 0x6A \<and> k + 7 \<le> n
       \<and> \<not> has_fixup_at fs (k + 1)
       \<and> k + 7 < n \<and> code ! (k + 7) = 0xE8
     then (7, pre @ [0x48, 0x83, 0xEC, 0x08, 0xC7, 0x04, 0x24] @ [code ! (k + 6), 0, 0, 0]
               @ [0xC7, 0x44, 0x24, 0x04] @ take 4 (drop (k + 1) code), [])
     else if (b0 = 0xA1 \<or> b0 = 0xA3) \<and> k + 5 \<le> n \<and> has_fixup_at fs (k + 1)
     then (5, pre @ [if b0 = 0xA1 then 0x8B else 0x89, 0x05] @ take 4 (drop (k + 1) code),
           [(1, length pre + 2)])
     else (1, pre @ [b0], []))"

definition step_of :: "bytes \<Rightarrow> fixup_rec list \<Rightarrow> nat \<Rightarrow> nat \<times> bytes \<times> (nat \<times> nat) list" where
  "step_of code fs k =
    (let n = length code; b0 = code ! k; b1 = code ! (k + 1); two = k + 1 < n in
     if two \<and> b0 = 0x89 \<and> (b1 = 0xE5 \<or> b1 = 0xEC) then (2, [0x48, b0, b1], [])
     else if two \<and> (b0 = 0x89 \<or> b0 = 0x8B) \<and> unat b1 AND 0xC0 = 0xC0 then (2, [0x48, b0, b1], [])
     else tail_of code fs k
       (if two \<and> b0 = 0x8D \<and> lea_needs_rexw (unat b1) then [0x48] else []))"

lemma patch_tail_lea: "code ! k = 0x8D \<Longrightarrow> tail_of code fs k pre = (1, pre @ [0x8D], [])"
  by (simp add: tail_of_def Let_def)

lemma patch_tail_consumes: "1 \<le> fst (tail_of code fs k pre)"
  by (simp add: tail_of_def Let_def)

lemma patch_step_fst: "1 \<le> fst (step_of code fs k)"
  unfolding step_of_def Let_def using patch_tail_consumes by (auto simp del: One_nat_def)

lemma patch_step_consumes: "step_of code fs k = (c, e, inner) \<Longrightarrow> 1 \<le> c"
  using patch_step_fst [of code fs k] by simp

definition mark_of :: "nat \<Rightarrow> nat \<Rightarrow> (nat \<times> nat) list \<Rightarrow> int list \<Rightarrow> int list" where
  "mark_of k p inner omap = fold (\<lambda>(a, b) m. m[k + a := int (p + b)]) inner (omap[k := int p])"

function loop_of ::
  "bytes \<Rightarrow> fixup_rec list \<Rightarrow> nat \<Rightarrow> bytes \<Rightarrow> int list \<Rightarrow> bytes \<times> int list" where
  "loop_of code fs k out omap =
    (if k < length code then
       (case step_of code fs k of (c, e, inner) \<Rightarrow>
          loop_of code fs (k + c) (out @ e) (mark_of k (length out) inner omap))
     else (out, omap))"
  by pat_completeness auto
termination
  by (relation "measure (\<lambda>(code, fs, k, out, omap). length code - k)")
     (auto dest: patch_step_consumes [OF sym])

declare loop_of.simps [simp del]

definition image_of :: "bytes \<Rightarrow> fixup_rec list \<Rightarrow> bytes \<times> int list" where
  "image_of code fs =
    (case loop_of code fs 0 [] (replicate (length code + 1) (- 1)) of
       (patched, omap) \<Rightarrow> (patched, omap[length code := int (length patched)]))"

section \<open>Branch displacements\<close>

text \<open>
  The branch at position \<open>k\<close> of the original code, if its opcode is one: the displacement's
  offset in the instruction, its size, and the length of the instruction.
\<close>

definition branch_at :: "bytes \<Rightarrow> nat \<Rightarrow> (nat \<times> nat \<times> nat) option" where
  "branch_at code k =
    (let op = unat (code ! k) in
     if 0x70 \<le> op \<and> op \<le> 0x7F then Some (1, 1, 2)
     else if op = 0xEB then Some (1, 1, 2)
     else if op = 0x0F \<and> k + 1 < length code \<and> 0x80 \<le> unat (code ! (k + 1)) \<and> unat (code ! (k + 1)) \<le> 0x8F
     then Some (2, 4, 6)
     else if op = 0xE8 \<or> op = 0xE9 then Some (1, 4, 5)
     else None)"

definition aim_of :: "bytes \<Rightarrow> int list \<Rightarrow> nat \<Rightarrow> bytes \<Rightarrow> bytes option" where
  "aim_of code omap k patched =
    (case branch_at code k of
       None \<Rightarrow> Some patched
     | Some (doff, sz, ilen) \<Rightarrow> do {
         disp \<leftarrow> old_disp code (k + doff) sz;
         let old_target = int (k + ilen) + disp;
         if 0 \<le> old_target \<and> old_target \<le> int (length code)
            \<and> 0 \<le> omap ! k \<and> 0 \<le> omap ! nat old_target
         then (let new_inst_end = omap ! k + int ilen;
                   new_disp = omap ! nat old_target - new_inst_end;
                   new_disp_off = nat (omap ! k + int doff)
               in if sz = 1
                  then if - 128 \<le> new_disp \<and> new_disp \<le> 127
                       then wr_slice patched new_disp_off [word_of_int new_disp]
                       else Some patched
                  else wr_slice patched new_disp_off (s32_bytes new_disp))
         else Some patched
       })"

text \<open>Where the scan goes after position \<open>k\<close>.\<close>

definition scan_of :: "bytes \<Rightarrow> nat \<Rightarrow> nat option" where
  "scan_of code k =
    (case branch_at code k of
       Some (doff, sz, ilen) \<Rightarrow> Some (k + ilen)
     | None \<Rightarrow> do { l2 \<leftarrow> x86_insn_len code (length code) k; Some (k + (if 0 < l2 then l2 else 1)) })"

lemma scan_next_greater: "scan_of code k = Some k' \<Longrightarrow> k < k'"
  by (auto simp: scan_of_def branch_at_def Let_def bind_eq_Some_conv split: option.splits if_splits)

function aim_loop :: "bytes \<Rightarrow> int list \<Rightarrow> nat \<Rightarrow> bytes \<Rightarrow> bytes option" where
  "aim_loop code omap k patched =
    (if k < length code then
       (case aim_of code omap k patched of
          None \<Rightarrow> None
        | Some patched' \<Rightarrow>
            (case scan_of code k of
               None \<Rightarrow> None
             | Some k' \<Rightarrow> aim_loop code omap k' patched'))
     else Some patched)"
  by pat_completeness auto
termination
  by (relation "measure (\<lambda>(code, omap, k, patched). length code - k)")
     (auto dest: scan_next_greater)

declare aim_loop.simps [simp del]

definition patched_of :: "bytes \<Rightarrow> fixup_rec list \<Rightarrow> (bytes \<times> int list) option" where
  "patched_of code fs =
    (case image_of code fs of (patched, omap) \<Rightarrow> do {
       patched' \<leftarrow> aim_loop code omap 0 patched;
       Some (patched', omap)
     })"

section \<open>What one step of the copy does\<close>

text \<open>
  The facts about \<open>step_of\<close> every proof below uses: it stays inside the image, emits between
  one and three bytes per byte consumed, and makes at most the one extra entry of the
  accumulator moves.
\<close>

definition step_shape :: "bytes \<Rightarrow> nat \<Rightarrow> nat \<times> bytes \<times> (nat \<times> nat) list \<Rightarrow> bool" where
  "step_shape code k r \<longleftrightarrow>
    (case r of (c, e, inner) \<Rightarrow>
       1 \<le> c \<and> k + c \<le> length code \<and> c \<le> length e \<and> length e \<le> 3 * c
       \<and> (inner = [] \<or> (inner = [(1, 2)] \<and> c = 5 \<and> length e = 6)))"

lemma if_positive: "(p \<Longrightarrow> P x) \<Longrightarrow> P y \<Longrightarrow> P (if p then x else y)"
  by simp

lemma if_branches: "(p \<Longrightarrow> P x) \<Longrightarrow> (\<not> p \<Longrightarrow> P y) \<Longrightarrow> P (if p then x else y)"
  by simp

lemma patch_tail_shape: "k < length code \<Longrightarrow> step_shape code k (tail_of code fs k [])"
  unfolding tail_of_def Let_def 
  by (intro if_positive [where P = "step_shape code k"]) (auto simp: step_shape_def min_def)

lemma patch_step_shape: "k < length code \<Longrightarrow> step_shape code k (step_of code fs k)"
  using patch_tail_shape [of k code fs]
  by (simp add: step_of_def Let_def step_shape_def patch_tail_lea)

definition plain_step :: "bytes \<Rightarrow> fixup_rec list \<Rightarrow> nat \<Rightarrow> bool" where
  "plain_step code fs k \<longleftrightarrow> step_of code fs k = (1, [code ! k], [])"

function patch_starts :: "bytes \<Rightarrow> fixup_rec list \<Rightarrow> nat \<Rightarrow> nat list" where
  "patch_starts code fs k =
    (if k < length code then k # patch_starts code fs (k + fst (step_of code fs k)) else [])"
  by pat_completeness auto
termination
proof (relation "measure (\<lambda>(code, fs, k). length code - k)")
  fix code :: bytes and fs k
  assume "k < length code"
  then show "((code, fs, k + fst (step_of code fs k)), code, fs, k)
      \<in> measure (\<lambda>(code, fs, k). length code - k)"
    using patch_step_fst [of code fs k] by simp
qed simp

declare patch_starts.simps [simp del]

section \<open>The copy loop and its offset map\<close>

lemma mark_step_nth:
  assumes "step_shape code k (c, e, inner)" and "length omap = Suc (length code)"
  shows "mark_of k p inner omap ! k = int p"
    and "j < k \<or> k + c \<le> j \<Longrightarrow> mark_of k p inner omap ! j = omap ! j"
    and "k < j \<Longrightarrow> j < k + c \<Longrightarrow>
      mark_of k p inner omap ! j = omap ! j
      \<or> (j = k + 1 \<and> c = 5 \<and> length e = 6 \<and> mark_of k p inner omap ! j = int p + 2)"
  using assms by (auto simp: step_shape_def mark_of_def nth_list_update split: if_splits)

lemma mark_step_length [simp]:
  "inner = [] \<or> (\<exists>x. inner = [x]) \<Longrightarrow> length (mark_of k p inner omap) = length omap"
  by (auto simp: mark_of_def)

lemma shape_length_mark:
  "step_shape code k (c, e, inner) \<Longrightarrow> length (mark_of k p inner omap) = length omap"
  by (rule mark_step_length) (auto simp: step_shape_def)

lemma patch_loop_stop: "\<not> k < length code \<Longrightarrow> loop_of code fs k out omap = (out, omap)"
  by (simp add: loop_of.simps [of code fs k])

lemma patch_loop_go:
  "k < length code \<Longrightarrow> step_of code fs k = (c, e, inner) \<Longrightarrow>
   loop_of code fs k out omap =
     loop_of code fs (k + c) (out @ e) (mark_of k (length out) inner omap)"
  by (simp add: loop_of.simps [of code fs k])

text \<open>Induction over the loop, with the shape of each step at hand.\<close>

lemma patch_loop_induct [case_names stop go]:
  assumes stop: "\<And>k out omap. length code \<le> k \<Longrightarrow> P k out omap"
    and go: "\<And>k out omap c e inner. k < length code \<Longrightarrow> step_of code fs k = (c, e, inner) \<Longrightarrow>
      step_shape code k (c, e, inner) \<Longrightarrow>
      P (k + c) (out @ e) (mark_of k (length out) inner omap) \<Longrightarrow> P k out omap"
  shows "P k out omap"
proof (induction "length code - k" arbitrary: k out omap rule: less_induct)
  case less
  show ?case
  proof (cases "k < length code")
    case True
    obtain c e inner where st: "step_of code fs k = (c, e, inner)"
      by (cases "step_of code fs k")
    have sh: "step_shape code k (c, e, inner)"
      using patch_step_shape [OF True, of fs] by (simp add: st)
    then have "length code - (k + c) < length code - k"
      using True by (auto simp: step_shape_def)
    then show ?thesis
      by (intro go [OF True st sh] less)
  next
    case False
    then show ?thesis by (intro stop) simp
  qed
qed

lemma patch_loop_output:
  assumes "k \<le> length code"
  shows "\<exists>e omap'. loop_of code fs k out omap = (out @ e, omap')
    \<and> length code - k \<le> length e \<and> length e \<le> 3 * (length code - k)
    \<and> (length omap = Suc (length code) \<longrightarrow> length omap' = Suc (length code))"
  using assms
proof (induction k out omap rule: patch_loop_induct [of code _ fs])
  case (stop k out omap)
  then show ?case by (simp add: patch_loop_stop)
next
  case (go k out omap c e inner)
  from go.hyps(3) have b: "1 \<le> c" "k + c \<le> length code" "c \<le> length e" "length e \<le> 3 * c"
    by (auto simp: step_shape_def)
  with go.IH obtain e' omap' where
    "loop_of code fs (k + c) (out @ e) (mark_of k (length out) inner omap) = ((out @ e) @ e', omap')"
    "length code - (k + c) \<le> length e'" "length e' \<le> 3 * (length code - (k + c))"
    "length omap = Suc (length code) \<longrightarrow> length omap' = Suc (length code)"
    by (auto simp: shape_length_mark [OF go.hyps(3)])
  with b show ?case
    by (intro exI [of _ "e @ e'"] exI [of _ omap']) (auto simp: patch_loop_go [OF go.hyps(1,2)])
qed

lemma patch_loop_frame:
  assumes "k \<le> length code" and "length omap = Suc (length code)" and "j < k \<or> length code \<le> j"
  shows "snd (loop_of code fs k out omap) ! j = omap ! j"
  using assms
proof (induction k out omap rule: patch_loop_induct [of code _ fs])
  case (stop k out omap)
  then show ?case by (simp add: patch_loop_stop)
next
  case (go k out omap c e inner)
  have "k + c \<le> length code" using go.hyps(3) by (simp add: step_shape_def)
  moreover have "1 \<le> c" using go.hyps(3) by (simp add: step_shape_def)
  moreover have "mark_of k (length out) inner omap ! j = omap ! j"
    using mark_step_nth(2) [OF go.hyps(3) go.prems(2)] go.prems(3) \<open>k + c \<le> length code\<close> by auto
  ultimately show ?case
    using go.IH go.prems(2,3)
    by (auto simp: patch_loop_go [OF go.hyps(1,2)] shape_length_mark [OF go.hyps(3)])
qed

text \<open>
  \<open>mapped\<close> entries spread out: a mapped position lies at least as far from the start and from
  the end of the output as it does in the source, and between two mapped positions the output
  is at least as long as the source.
\<close>

definition fresh_from :: "nat \<Rightarrow> nat \<Rightarrow> int list \<Rightarrow> bool" where
  "fresh_from k n omap \<longleftrightarrow> length omap = Suc n \<and> (\<forall>j. k \<le> j \<and> j < n \<longrightarrow> omap ! j = - 1)"

lemma fresh_mark:
  assumes "step_shape code k (c, e, inner)" and "fresh_from k (length code) omap"
  shows "fresh_from (k + c) (length code) (mark_of k p inner omap)"
  using assms mark_step_nth(2) [OF assms(1)]
  by (auto simp: fresh_from_def shape_length_mark [OF assms(1)])

lemma patch_loop_spread:
  assumes "fresh_from k (length code) omap" and "k \<le> j" and "j < length code"
    and "loop_of code fs k out omap = (out', omap')" and "0 \<le> omap' ! j"
  shows "int (length out) + int (j - k) \<le> omap' ! j
    \<and> omap' ! j + int (length code - j) \<le> int (length out')"
  using assms
proof (induction k out omap rule: patch_loop_induct [of code _ fs])
  case (stop k out omap)
  then show ?case by simp
next
  case (go k out omap c e inner)
  let ?m = "mark_of k (length out) inner omap"
  note sh = go.hyps(3)
  have b: "1 \<le> c" "k + c \<le> length code" "c \<le> length e" using sh by (auto simp: step_shape_def)
  have run: "loop_of code fs (k + c) (out @ e) ?m = (out', omap')"
    using go.prems(4) by (simp add: patch_loop_go [OF go.hyps(1,2)])
  have len: "length omap = Suc (length code)" using go.prems(1) by (simp add: fresh_from_def)
  show ?case
  proof (cases "k + c \<le> j")
    case True
    then show ?thesis
      using go.IH [OF fresh_mark [OF sh go.prems(1)] True go.prems(3) run go.prems(5)] b
      by auto
  next
    case False
    have "omap' ! j = ?m ! j"
      using patch_loop_frame [OF b(2), of ?m j fs "out @ e"] False run len
      by (simp add: shape_length_mark [OF sh])
    moreover have "int (length (out @ e)) + int (length code - (k + c)) \<le> int (length out')"
      using patch_loop_output [OF b(2), of fs "out @ e" ?m] run by auto
    moreover have "?m ! j = int (length out) \<and> j = k
        \<or> j = k + 1 \<and> c = 5 \<and> length e = 6 \<and> ?m ! j = int (length out) + 2"
      using mark_step_nth(1) [OF sh len, of "length out"]
        mark_step_nth(3) [OF sh len, of j "length out"] go.prems(1-3,5) False
        \<open>omap' ! j = ?m ! j\<close>
      by (cases "j = k") (auto simp: fresh_from_def)
    ultimately show ?thesis using b False by auto
  qed
qed

lemma patch_loop_monotone:
  assumes "fresh_from k (length code) omap" and "k \<le> i" and "i < j" and "j < length code"
    and "loop_of code fs k out omap = (out', omap')" and "0 \<le> omap' ! i" and "0 \<le> omap' ! j"
  shows "omap' ! i + int (j - i) \<le> omap' ! j"
  using assms
proof (induction k out omap rule: patch_loop_induct [of code _ fs])
  case (stop k out omap)
  then show ?case by simp
next
  case (go k out omap c e inner)
  let ?m = "mark_of k (length out) inner omap"
  note sh = go.hyps(3)
  have b: "1 \<le> c" "k + c \<le> length code" "c \<le> length e" using sh by (auto simp: step_shape_def)
  have run: "loop_of code fs (k + c) (out @ e) ?m = (out', omap')"
    using go.prems(5) by (simp add: patch_loop_go [OF go.hyps(1,2)])
  have len: "length omap = Suc (length code)" using go.prems(1) by (simp add: fresh_from_def)
  have before: "l < k + c \<Longrightarrow> omap' ! l = ?m ! l" for l
    using patch_loop_frame [OF b(2), of ?m l fs "out @ e"] run len
    by (simp add: shape_length_mark [OF sh])
  have entry: "k \<le> l \<Longrightarrow> l < k + c \<Longrightarrow> 0 \<le> omap' ! l \<Longrightarrow>
      (l = k \<and> omap' ! l = int (length out))
      \<or> (l = k + 1 \<and> c = 5 \<and> length e = 6 \<and> omap' ! l = int (length out) + 2)" for l
    using mark_step_nth(1) [OF sh len, of "length out"] mark_step_nth(3) [OF sh len, of l "length out"]
      go.prems(1) before [of l] b(2)
    by (cases "l = k") (auto simp: fresh_from_def)
  show ?case
  proof (cases "k + c \<le> i")
    case True
    then show ?thesis
      using go.IH [OF fresh_mark [OF sh go.prems(1)] True go.prems(3,4) run go.prems(6,7)] by simp
  next
    case False
    show ?thesis
    proof (cases "k + c \<le> j")
      case True
      have "int (length (out @ e)) + int (j - (k + c)) \<le> omap' ! j"
        using patch_loop_spread [OF fresh_mark [OF sh go.prems(1)] True go.prems(4) run go.prems(7)]
        by simp
      then show ?thesis using entry [of i] False True go.prems(2,3,6) b by auto
    next
      case False
      then show ?thesis using entry [of i] entry [of j] go.prems by auto
    qed
  qed
qed

lemma patch_starts_go:
  "k < length code \<Longrightarrow> step_of code fs k = (c, e, inner) \<Longrightarrow>
   patch_starts code fs k = k # patch_starts code fs (k + c)"
  by (simp add: patch_starts.simps [of code fs k])

lemma patch_starts_stop: "length code \<le> k \<Longrightarrow> patch_starts code fs k = []"
  by (simp add: patch_starts.simps [of code fs k])

text \<open>
  At the start of a step the map is set, and a step that only copies its byte leaves that byte at
  the mapped position and maps the next position to the next output byte.
\<close>

lemma patch_loop_starts:
  assumes "k \<le> length code" and "length omap = Suc (length code)"
    and "j \<in> set (patch_starts code fs k)" and "loop_of code fs k out omap = (out', omap')"
  shows "j < length code \<and> 0 \<le> omap' ! j
    \<and> (plain_step code fs j \<longrightarrow> nat (omap' ! j) < length out' \<and> out' ! nat (omap' ! j) = code ! j
         \<and> (if j + 1 < length code
            then omap' ! (j + 1) = omap' ! j + 1 \<and> j + 1 \<in> set (patch_starts code fs k)
            else int (length out') = omap' ! j + 1))"
  using assms
proof (induction k out omap rule: patch_loop_induct [of code _ fs])
  case (stop k out omap)
  then show ?case by (simp add: patch_starts_stop)
next
  case (go k out omap c e inner)
  let ?m = "mark_of k (length out) inner omap"
  note sh = go.hyps(3)
  have b: "1 \<le> c" "k + c \<le> length code" using sh by (auto simp: step_shape_def)
  have run: "loop_of code fs (k + c) (out @ e) ?m = (out', omap')"
    using go.prems(4) by (simp add: patch_loop_go [OF go.hyps(1,2)])
  have lenm: "length ?m = Suc (length code)"
    using go.prems(2) by (simp add: shape_length_mark [OF sh])
  show ?case
  proof (cases "j = k")
    case False
    then have "j \<in> set (patch_starts code fs (k + c))"
      using go.prems(3) by (simp add: patch_starts_go [OF go.hyps(1,2)])
    then show ?thesis
      using go.IH [OF b(2) lenm _ run] by (auto simp: patch_starts_go [OF go.hyps(1,2)] split: if_splits)
  next
    case True
    have k: "omap' ! k = int (length out)"
      using patch_loop_frame [OF b(2) lenm, of k fs "out @ e"] run b(1)
        mark_step_nth(1) [OF sh go.prems(2), of "length out"] by simp
    obtain e' where e': "out' = (out @ e) @ e'"
      using patch_loop_output [OF b(2), of fs "out @ e" ?m] run by auto
    have "nat (omap' ! k) < length out' \<and> out' ! nat (omap' ! k) = code ! k
         \<and> (if k + 1 < length code
            then omap' ! (k + 1) = omap' ! k + 1 \<and> k + 1 \<in> set (patch_starts code fs k)
            else int (length out') = omap' ! k + 1)" if "plain_step code fs k"
    proof -
      have ce: "c = 1" "e = [code ! k]" "inner = []"
        using that go.hyps(2) by (auto simp: plain_step_def)
      show ?thesis
      proof (cases "k + 1 < length code")
        case True
        obtain c2 e2 inner2 where st2: "step_of code fs (k + 1) = (c2, e2, inner2)"
          by (cases "step_of code fs (k + 1)")
        have sh2: "step_shape code (k + 1) (c2, e2, inner2)"
          using patch_step_shape [OF True, of fs] by (simp only: st2)
        have b2: "1 \<le> c2" "k + 1 + c2 \<le> length code" using sh2 by (auto simp: step_shape_def)
        have "loop_of code fs (k + 1 + c2) ((out @ e) @ e2) (mark_of (k + 1) (length (out @ e)) inner2 ?m)
            = (out', omap')"
          using run patch_loop_go [OF True st2, of "out @ e" ?m] by (simp add: ce)
        moreover have "length (mark_of (k + 1) (length (out @ e)) inner2 ?m) = Suc (length code)"
          by (simp only: shape_length_mark [OF sh2] lenm)
        ultimately have "omap' ! (k + 1) = int (length (out @ e))"
          using patch_loop_frame [OF b2(2), of _ "k + 1" fs "(out @ e) @ e2"]
            mark_step_nth(1) [OF sh2 lenm, of "length (out @ e)"] b2(1)
          by (metis less_add_same_cancel1 less_le_trans snd_conv zero_less_one)
        moreover have "k + 1 \<in> set (patch_starts code fs k)"
          using patch_starts_go [OF go.hyps(1,2)] patch_starts_go [OF True st2] by (simp add: ce)
        ultimately show ?thesis
          using True k e' by (simp add: ce)
      next
        case False
        then have "out' = out @ e" using run by (simp add: ce patch_loop_stop)
        then show ?thesis using False k by (simp add: ce)
      qed
    qed
    moreover have "0 \<le> omap' ! k" using k by simp
    ultimately show ?thesis unfolding True using go.hyps(1) by blast
  qed
qed

section \<open>The finished image\<close>

lemma patch_image_facts:
  assumes "image_of code fs = (patched, omap)"
  shows "length omap = Suc (length code)"
    and "length code \<le> length patched" and "length patched \<le> 3 * length code"
    and "omap ! length code = int (length patched)"
    and "i < j \<Longrightarrow> j \<le> length code \<Longrightarrow> 0 \<le> omap ! i \<Longrightarrow> 0 \<le> omap ! j \<Longrightarrow>
      omap ! i + int (j - i) \<le> omap ! j"
    and "j < length code \<Longrightarrow> 0 \<le> omap ! j \<Longrightarrow> int j \<le> omap ! j"
    and "j \<in> set (patch_starts code fs 0) \<Longrightarrow> j < length code \<and> 0 \<le> omap ! j
      \<and> (plain_step code fs j \<longrightarrow> patched ! nat (omap ! j) = code ! j \<and> omap ! (j + 1) = omap ! j + 1
         \<and> (j + 1 < length code \<longrightarrow> j + 1 \<in> set (patch_starts code fs 0)))"
proof -
  let ?n = "length code" and ?init = "replicate (Suc (length code)) (- 1 :: int)"
  obtain m where run: "loop_of code fs 0 [] ?init = (patched, m)"
    and omap: "omap = m[?n := int (length patched)]"
    using assms by (auto simp: image_of_def split: prod.splits)
  have fresh: "fresh_from 0 ?n ?init"
    by (auto simp: fresh_from_def simp del: replicate_Suc)
  have out: "?n \<le> length patched" "length patched \<le> 3 * ?n" "length m = Suc ?n"
    using patch_loop_output [of 0 code fs "[]" ?init] run by (auto simp del: replicate_Suc)
  then show "length omap = Suc ?n" "?n \<le> length patched" "length patched \<le> 3 * ?n"
    "omap ! ?n = int (length patched)" by (simp_all add: omap)
  have below: "l < ?n \<Longrightarrow> omap ! l = m ! l" for l by (simp add: omap)
  show "i < j \<Longrightarrow> j \<le> ?n \<Longrightarrow> 0 \<le> omap ! i \<Longrightarrow> 0 \<le> omap ! j \<Longrightarrow> omap ! i + int (j - i) \<le> omap ! j"
    using patch_loop_monotone [OF fresh _ _ _ run, of i j] patch_loop_spread [OF fresh _ _ run, of i]
      out below by (cases "j = ?n") (auto simp: omap)
  show "j < ?n \<Longrightarrow> 0 \<le> omap ! j \<Longrightarrow> int j \<le> omap ! j"
    using patch_loop_spread [OF fresh _ _ run, of j] below by auto
  show "j \<in> set (patch_starts code fs 0) \<Longrightarrow> j < ?n \<and> 0 \<le> omap ! j
      \<and> (plain_step code fs j \<longrightarrow> patched ! nat (omap ! j) = code ! j \<and> omap ! (j + 1) = omap ! j + 1
         \<and> (j + 1 < ?n \<longrightarrow> j + 1 \<in> set (patch_starts code fs 0)))"
    using patch_loop_starts [of 0 code ?init j fs "[]", OF _ _ _ run] out
    by (cases "j + 1 < ?n") (auto simp: omap below simp del: replicate_Suc dest: less_antisym)
qed




section \<open>The checks of the copy succeed\<close>

lemma patch_tail_eq: "k < length code \<Longrightarrow> patch_tail code fs k pre = Some (tail_of code fs k pre)"
  by (auto simp: patch_tail_def tail_of_def sp_adjust_def push_pair_def acc_move_def rd_slice_def Let_def)

lemma patch_step_eq: "k < length code \<Longrightarrow> patch_step code fs k = Some (step_of code fs k)"
  by (auto simp: patch_step_def step_of_def patch_tail_eq Let_def)

lemma mark_step_eq:
  assumes "step_shape code k (c, e, inner)" "k < length code" "length omap = Suc (length code)"
  shows "mark_step k p inner omap = Some (mark_of k p inner omap)"
  using assms by (auto simp: step_shape_def mark_step_def mark_of_def set_entry_def ac_simps)

lemma patch_loop_eq:
  "k \<le> length code \<Longrightarrow> length omap = Suc (length code) \<Longrightarrow> length out \<le> 3 * k \<Longrightarrow>
     patch_loop code fs k out omap = Some (loop_of code fs k out omap)"
proof (induction k out omap rule: patch_loop_induct [of code _ fs])
  case (stop k out omap)
  then show ?case by (simp add: patch_loop.simps [of code fs k] patch_loop_stop)
next
  case (go k out omap c e inner)
  have b: "k + c \<le> length code" "length e \<le> 3 * c" using go.hyps(3) by (auto simp: step_shape_def)
  have "patch_loop code fs (k + c) (out @ e) (mark_of k (length out) inner omap) =
      Some (loop_of code fs (k + c) (out @ e) (mark_of k (length out) inner omap))"
    using b go.prems by (intro go.IH) (simp_all add: shape_length_mark [OF go.hyps(3)])
  moreover have "length out + length e \<le> 3 * length code" using b go.prems(3) by linarith
  ultimately show ?case
    using go.hyps(1) patch_step_eq [OF go.hyps(1), of fs] mark_step_eq [OF go.hyps(3,1) go.prems(2)]
    by (simp add: patch_loop.simps [of code fs k] patch_loop_go [OF go.hyps(1,2)] go.hyps(2))
qed

lemma patch_image_eq: "patch_image code fs = Some (image_of code fs)"
proof -
  obtain patched omap where run: "loop_of code fs 0 [] (replicate (Suc (length code)) (- 1)) = (patched, omap)"
    by (cases "loop_of code fs 0 [] (replicate (Suc (length code)) (- 1))")
  have "length omap = Suc (length code)"
    using patch_loop_output [of 0 code fs "[]" "replicate (Suc (length code)) (- 1)"] run
    by (auto simp del: replicate_Suc)
  then show ?thesis
    using patch_loop_eq [of 0 code "replicate (Suc (length code)) (- 1)" "[]" fs] run
    by (simp add: patch_image_def image_of_def set_entry_def del: replicate_Suc)
qed


section \<open>Re-aiming the branches\<close>

lemma s8_word_of_int [byte_simps]: "- 128 \<le> v \<Longrightarrow> v \<le> 127 \<Longrightarrow> s8 (word_of_int v) = v"
  by (simp add: s8_def signed_of_int signed_take_bit_int_eq_self)

lemma s32_s32_bytes [byte_simps]:
  assumes "- (2 ^ 31) \<le> v" and "v < 2 ^ 31"
  shows "s32 (s32_bytes v) = v"
proof -
  have "unat (word_of_int v :: u32) < 2 ^ LENGTH(32)" by (rule unsigned_less)
  then have "le_val (s32_bytes v) = unat (word_of_int v :: u32)"
    by (simp add: s32_bytes_def le_val_le_bytes)
  then have "s32 (s32_bytes v) = sint (word_of_int v :: u32)"
    by (simp add: s32_def)
  then show ?thesis
    using assms by (simp add: signed_of_int signed_take_bit_int_eq_self)
qed

lemma length_s32_bytes [simp]: "length (s32_bytes v) = 4"
  by (simp add: s32_bytes_def)

lemma branch_at_shape:
  "branch_at code k = Some (doff, sz, ilen) \<Longrightarrow>
     ((doff, sz, ilen) = (1, 1, 2) \<or> (doff, sz, ilen) = (2, 4, 6) \<or> (doff, sz, ilen) = (1, 4, 5))"
  by (auto simp: branch_at_def Let_def split: if_splits)

lemma branch_at_span: "branch_at code k = Some (doff, sz, ilen) \<Longrightarrow> doff + sz = ilen \<and> 0 < doff"
  using branch_at_shape by fastforce

function scan_starts :: "bytes \<Rightarrow> nat \<Rightarrow> nat list" where
  "scan_starts code k =
    (if k < length code then
       k # (case scan_of code k of None \<Rightarrow> [] | Some k' \<Rightarrow> scan_starts code k')
     else [])"
  by pat_completeness auto
termination
  by (relation "measure (\<lambda>(code, k). length code - k)") (auto dest: scan_next_greater)

declare scan_starts.simps [simp del]

lemma scan_next_Some: "\<exists>k'. scan_of code k = Some k' \<and> k < k'"
  using x86_insn_len_safe [of code k]
  by (auto simp: scan_of_def branch_at_def Let_def split: option.splits)

text \<open>The scan never stops early: it is the walk by \<open>scan_of\<close> over the whole image.\<close>

lemma scan_induct [case_names stop go]:
  assumes "\<And>k P. length code \<le> k \<Longrightarrow> Q k P"
    and "\<And>k k' P. k < length code \<Longrightarrow> scan_of code k = Some k' \<Longrightarrow> k < k' \<Longrightarrow>
      scan_starts code k = k # scan_starts code k' \<Longrightarrow> (\<And>P'. Q k' P') \<Longrightarrow> Q k P"
  shows "Q k P"
proof (induction "length code - k" arbitrary: k P rule: less_induct)
  case less
  show ?case
  proof (cases "k < length code")
    case True
    obtain k' where k': "scan_of code k = Some k'" "k < k'"
      using scan_next_Some by blast
    show ?thesis
      using True k' by (intro assms(2) [OF True k']) (auto simp: scan_starts.simps [of code k] intro: less)
  qed (simp add: assms(1))
qed

lemma scan_starts_ge: "k \<in> set (scan_starts code k0) \<Longrightarrow> k0 \<le> k \<and> k < length code"
proof (induction k0 "()" rule: scan_induct [of code])
  case (stop k0)
  then show ?case by (simp add: scan_starts.simps [of code k0])
next
  case (go k0 k')
  then show ?case by auto
qed

lemma retarget_at_cases:
  assumes "aim_of code omap k P = Some P'" and "branch_at code k = Some (doff, sz, ilen)"
  shows "P' = P \<or> (0 \<le> omap ! k
     \<and> (\<exists>xs. length xs = sz \<and> wr_slice P (nat (omap ! k + int doff)) xs = Some P'))"
proof -
  have sz: "sz = 1 \<or> sz = 4" using branch_at_shape [OF assms(2)] by auto
  from assms(1) obtain d where
    "(let old_target = int (k + ilen) + d in
      if 0 \<le> old_target \<and> old_target \<le> int (length code) \<and> 0 \<le> omap ! k \<and> 0 \<le> omap ! nat old_target
      then (let new_inst_end = omap ! k + int ilen;
                new_disp = omap ! nat old_target - new_inst_end;
                new_disp_off = nat (omap ! k + int doff)
            in if sz = 1 then if - 128 \<le> new_disp \<and> new_disp \<le> 127
                 then wr_slice P new_disp_off [word_of_int new_disp] else Some P
               else wr_slice P new_disp_off (s32_bytes new_disp))
      else Some P) = Some P'" (is "?body = _")
    by (auto simp only: aim_of_def assms(2) option.case prod.case bind_eq_Some_conv Let_def)
  moreover have "?body = Some P \<or> (0 \<le> omap ! k
      \<and> (\<exists>xs. length xs = sz \<and> ?body = wr_slice P (nat (omap ! k + int doff)) xs))"
    using sz unfolding Let_def by (smt (verit) length_s32_bytes length_Cons list.size(3) One_nat_def)
  ultimately show ?thesis by auto
qed

lemma retarget_at_effect:
  assumes "aim_of code omap k P = Some P'"
  shows "length P' = length P"
    and "q < length P \<Longrightarrow> P' ! q \<noteq> P ! q \<Longrightarrow> 0 \<le> omap ! k \<and>
      (\<exists>doff sz ilen. branch_at code k = Some (doff, sz, ilen)
       \<and> omap ! k \<le> int q \<and> int q < omap ! k + int ilen)"
proof -
  have "length P' = length P \<and> (q < length P \<longrightarrow> P' ! q \<noteq> P ! q \<longrightarrow> 0 \<le> omap ! k \<and>
      (\<exists>doff sz ilen. branch_at code k = Some (doff, sz, ilen)
       \<and> omap ! k \<le> int q \<and> int q < omap ! k + int ilen))"
  proof (cases "branch_at code k")
    case None
    then show ?thesis using assms by (simp add: aim_of_def)
  next
    case (Some a)
    then obtain doff sz ilen where br: "branch_at code k = Some (doff, sz, ilen)" by (cases a) auto
    from retarget_at_cases [OF assms br] show ?thesis
    proof
      assume "0 \<le> omap ! k \<and> (\<exists>xs. length xs = sz \<and> wr_slice P (nat (omap ! k + int doff)) xs = Some P')"
      then obtain xs where xs: "0 \<le> omap ! k" "length xs = sz"
        "wr_slice P (nat (omap ! k + int doff)) xs = Some P'" by blast
      then show ?thesis
        using wr_slice_length [OF xs(3)] wr_slice_nth [OF xs(3), of q] branch_at_span [OF br] br
        by (auto split: if_splits)
    qed simp
  qed
  then show "length P' = length P" and "q < length P \<Longrightarrow> P' ! q \<noteq> P ! q \<Longrightarrow> 0 \<le> omap ! k \<and>
      (\<exists>doff sz ilen. branch_at code k = Some (doff, sz, ilen)
       \<and> omap ! k \<le> int q \<and> int q < omap ! k + int ilen)" by auto
qed


lemma retarget_loop_stop: "length code \<le> k \<Longrightarrow> aim_loop code omap k P = Some P"
  by (simp add: aim_loop.simps [of code omap k])

lemma retarget_loop_go:
  "k < length code \<Longrightarrow> scan_of code k = Some k' \<Longrightarrow>
   aim_loop code omap k P =
     Option.bind (aim_of code omap k P) (aim_loop code omap k')"
  by (simp add: aim_loop.simps [of code omap k] split: option.split)

text \<open>
  The bytes the treatment of the branch at \<open>j\<close> may write: those of the instruction at its mapped
  position.
\<close>

definition touches :: "bytes \<Rightarrow> int list \<Rightarrow> nat \<Rightarrow> nat \<Rightarrow> bool" where
  "touches code omap j q \<longleftrightarrow>
     0 \<le> omap ! j \<and> (\<exists>doff sz ilen. branch_at code j = Some (doff, sz, ilen)
        \<and> omap ! j \<le> int q \<and> int q < omap ! j + int ilen)"

lemma retarget_at_keeps:
  "aim_of code omap k P = Some P' \<Longrightarrow> q < length P \<Longrightarrow> \<not> touches code omap k q \<Longrightarrow> P' ! q = P ! q"
  using retarget_at_effect(2) unfolding touches_def by metis

lemma retarget_loop_frame:
  assumes "aim_loop code omap k P = Some P'"
  shows "length P' = length P
    \<and> (q < length P \<longrightarrow> (\<forall>j \<in> set (scan_starts code k). \<not> touches code omap j q) \<longrightarrow> P' ! q = P ! q)"
  using assms
proof (induction k P rule: scan_induct [of code])
  case (stop k P)
  then show ?case by (simp add: retarget_loop_stop)
next
  case (go k k' P)
  from go.prems obtain P1 where at: "aim_of code omap k P = Some P1"
    and rest: "aim_loop code omap k' P1 = Some P'"
    by (auto simp: retarget_loop_go [OF go.hyps(1,2)] bind_eq_Some_conv)
  show ?case
    using go.IH [OF rest] retarget_at_effect(1) [OF at] retarget_at_keeps [OF at, of q] go.hyps(4) by auto
qed

lemma scan_starts_split:
  assumes "aim_loop code omap k0 P = Some P'" and "k \<in> set (scan_starts code k0)"
  shows "\<exists>Pk P1 k'. aim_of code omap k Pk = Some P1 \<and> aim_loop code omap k' P1 = Some P'
    \<and> scan_of code k = Some k' \<and> set (scan_starts code k') \<subseteq> set (scan_starts code k0)
    \<and> length Pk = length P
    \<and> (\<forall>q < length P. (\<forall>j \<in> set (scan_starts code k0). j < k \<longrightarrow> \<not> touches code omap j q) \<longrightarrow> Pk ! q = P ! q)"
  using assms
proof (induction k0 P rule: scan_induct [of code])
  case (stop k0 P)
  then show ?case by (simp add: scan_starts.simps [of code k0])
next
  case (go k0 k1 P)
  from go.prems obtain P0 where at: "aim_of code omap k0 P = Some P0"
    and rest: "aim_loop code omap k1 P0 = Some P'"
    by (auto simp: retarget_loop_go [OF go.hyps(1,2)] bind_eq_Some_conv)
  show ?case
  proof (cases "k = k0")
    case True
    then show ?thesis
      using at rest go.hyps(2,4) by (intro exI [of _ P] exI [of _ P0] exI [of _ k1]) auto
  next
    case False
    then have k: "k \<in> set (scan_starts code k1)" using go.prems(2) go.hyps(4) by simp
    have "k0 < k" using scan_starts_ge [OF k] go.hyps(3) by simp
    then have keep: "P0 ! q = P ! q"
      if "q < length P" "\<forall>j \<in> set (scan_starts code k0). j < k \<longrightarrow> \<not> touches code omap j q" for q
      using that retarget_at_keeps [OF at that(1)] go.hyps(4) by auto
    obtain Pk P1 k' where *: "aim_of code omap k Pk = Some P1"
      "aim_loop code omap k' P1 = Some P'" "scan_of code k = Some k'"
      "set (scan_starts code k') \<subseteq> set (scan_starts code k1)" "length Pk = length P0"
      "\<forall>q < length P0. (\<forall>j \<in> set (scan_starts code k1). j < k \<longrightarrow> \<not> touches code omap j q) \<longrightarrow> Pk ! q = P0 ! q"
      using go.IH [OF rest k] by blast
    then show ?thesis
      using keep retarget_at_effect(1) [OF at] go.hyps(4)
      by (intro exI [of _ Pk] exI [of _ P1] exI [of _ k']) auto
  qed
qed

lemma scan_starts_gap:
  assumes "j \<in> set (scan_starts code k0)" and "k \<in> set (scan_starts code k0)" and "j < k"
    and "branch_at code j = Some (doff, sz, ilen)"
  shows "j + ilen \<le> k"
  using assms(1,2)
proof (induction k0 "()" rule: scan_induct [of code])
  case (stop k0)
  then show ?case by (simp add: scan_starts.simps [of code k0])
next
  case (go k0 k')
  show ?case
  proof (cases "j = k0")
    case True
    then have "k \<in> set (scan_starts code k')" using go.prems(2) go.hyps(4) assms(3) by auto
    then show ?thesis
      using scan_starts_ge [of k code k'] go.hyps(2) assms(4) True by (simp add: scan_of_def)
  next
    case False
    then have j: "j \<in> set (scan_starts code k')" using go.prems(1) go.hyps(4) by simp
    moreover have "k \<in> set (scan_starts code k')"
      using go.prems(2) go.hyps(3,4) scan_starts_ge [OF j] assms(3) by auto
    ultimately show ?thesis by (rule go.hyps(5))
  qed
qed


text \<open>A run of copied bytes lands as a run.\<close>

lemma plain_run:
  assumes "image_of code fs = (patched, omap)" and "k \<in> set (patch_starts code fs 0)"
    and "\<forall>i < m. plain_step code fs (k + i)" and "k + m \<le> length code"
  shows "i < m \<Longrightarrow> k + i \<in> set (patch_starts code fs 0)
    \<and> omap ! (k + i) = omap ! k + int i \<and> patched ! (nat (omap ! k) + i) = code ! (k + i)"
proof (induction i)
  case 0
  then show ?case
    using patch_image_facts(7) [OF assms(1,2)] assms(2,3) by (auto dest: spec [of _ 0])
next
  case (Suc i)
  then have IH: "k + i \<in> set (patch_starts code fs 0)" "omap ! (k + i) = omap ! k + int i"
    by auto
  have "plain_step code fs (k + i)" "plain_step code fs (k + Suc i)" "k + i + 1 < length code"
    using assms(3,4) Suc.prems by auto
  then have nxt: "k + Suc i \<in> set (patch_starts code fs 0)" "omap ! (k + Suc i) = omap ! k + int (Suc i)"
    using patch_image_facts(7) [OF assms(1) IH(1)] IH(2) by auto
  have k0: "0 \<le> omap ! k" using patch_image_facts(7) [OF assms(1,2)] by simp
  have "patched ! nat (omap ! (k + Suc i)) = code ! (k + Suc i)"
    using patch_image_facts(7) [OF assms(1) nxt(1)] assms(3) Suc.prems by auto
  then show ?case using nxt k0 by (simp add: nat_add_distrib)
qed

lemma branches_apart:
  assumes img: "image_of code fs = (patched, omap)"
    and "j \<in> set (scan_starts code 0)" and "k \<in> set (scan_starts code 0)" and "j \<noteq> k"
    and br: "branch_at code k = Some (doff, sz, ilen)" and "0 \<le> omap ! k"
    and "omap ! k \<le> int q" and "int q < omap ! k + int ilen"
  shows "\<not> touches code omap j q"
proof
  assume "touches code omap j q"
  then obtain doff' sz' ilen' where j: "0 \<le> omap ! j" "branch_at code j = Some (doff', sz', ilen')"
    "omap ! j \<le> int q" "int q < omap ! j + int ilen'" by (auto simp: touches_def)
  have lt: "j < length code" "k < length code" using scan_starts_ge assms(2,3) by auto
  show False
  proof (cases "j < k")
    case True
    have "j + ilen' \<le> k" by (rule scan_starts_gap [OF assms(2,3) True j(2)])
    moreover have "omap ! j + int (k - j) \<le> omap ! k"
      using patch_image_facts(5) [OF img True] lt j(1) assms(6) by simp
    ultimately show False using j(4) assms(7) by linarith
  next
    case False
    then have kj: "k < j" using assms(4) by simp
    have "k + ilen \<le> j" by (rule scan_starts_gap [OF assms(3,2) kj br])
    moreover have "omap ! k + int (j - k) \<le> omap ! j"
      using patch_image_facts(5) [OF img kj] lt j(1) assms(6) by simp
    ultimately show False using j(3) assms(8) by linarith
  qed
qed


text \<open>What the treatment of a branch writes when the new displacement fits.\<close>

lemma retarget_at_writes:
  assumes "aim_of code omap k P = Some P1" and br: "branch_at code k = Some (doff, sz, ilen)"
    and "old_disp code (k + doff) sz = Some d" and "0 \<le> int (k + ilen) + d"
    and "int (k + ilen) + d \<le> int (length code)"
    and "0 \<le> omap ! k" and "0 \<le> omap ! nat (int (k + ilen) + d)"
    and "nd = omap ! nat (int (k + ilen) + d) - (omap ! k + int ilen)"
    and "sz = 1 \<longrightarrow> - 128 \<le> nd \<and> nd \<le> 127" and "- (2 ^ 31) \<le> nd \<and> nd < 2 ^ 31"
  shows "old_disp P1 (nat (omap ! k) + doff) sz = Some nd"
proof -
  have off: "nat (omap ! k + int doff) = nat (omap ! k) + doff"
    using assms(6) by (simp add: nat_add_distrib)
  have len: "P1 = take n P @ xs @ drop (n + length xs) P \<and> n + length xs \<le> length P"
    if "wr_slice P n xs = Some P1" for n xs
    using that by (simp add: byte_simps)
  have at: "(if sz = 1 then wr_slice P (nat (omap ! k) + doff) [word_of_int nd]
      else wr_slice P (nat (omap ! k) + doff) (s32_bytes nd)) = Some P1"
    using assms by (simp add: aim_of_def Let_def off del: of_nat_add split: if_splits)
  have "sz = 1 \<or> sz = 4" using branch_at_shape [OF br] by auto
  then show ?thesis
  proof
    assume sz: "sz = 1"
    then have w: "P1 = take (nat (omap ! k) + doff) P @ [word_of_int nd] @ drop (nat (omap ! k) + doff + 1) P"
      "nat (omap ! k) + doff + 1 \<le> length P" using at len by fastforce+
    then have "P1 ! (nat (omap ! k) + doff) = word_of_int nd" "nat (omap ! k) + doff < length P1"
      by (simp_all add: nth_append)
    then show ?thesis using sz assms(9) by (simp add: old_disp_def s8_word_of_int)
  next
    assume sz: "sz = 4"
    then have w: "P1 = take (nat (omap ! k) + doff) P @ s32_bytes nd @ drop (nat (omap ! k) + doff + 4) P"
      "nat (omap ! k) + doff + 4 \<le> length P" using at len [of "nat (omap ! k) + doff" "s32_bytes nd"] by simp_all
    then have "rd_slice P1 (nat (omap ! k) + doff) 4 = Some (s32_bytes nd)"
      by (simp add: rd_slice_def)
    then show ?thesis using sz assms(10) by (simp add: old_disp_def s32_s32_bytes)
  qed
qed

lemma old_disp_run:
  assumes "\<And>i. i < sz \<Longrightarrow> P' ! (off' + i) = P ! (off + i)" and "off' + sz \<le> length P'"
    and "off + sz \<le> length P" and "sz = 1 \<or> sz = 4"
  shows "old_disp P' off' sz = old_disp P off sz"
proof (cases "sz = 1")
  case True
  then show ?thesis using assms(1) [of 0] assms(2,3) by (simp add: old_disp_def rd_def)
next
  case False
  then have "sz = 4" using assms(4) by simp
  then have "rd_slice P' off' 4 = rd_slice P off 4"
    using assms(1-3) by (auto simp: rd_slice_def intro: nth_equalityI)
  then show ?thesis using \<open>sz = 4\<close> by (simp add: old_disp_def)
qed

lemma branch_at_cong:
  assumes "branch_at code k = Some (doff, sz, ilen)" and "k' + ilen \<le> length P"
    and "\<forall>i < doff. P ! (k' + i) = code ! (k + i)"
  shows "branch_at P k' = Some (doff, sz, ilen)"
proof -
  have d: "0 < doff" "doff \<le> ilen" using branch_at_span [OF assms(1)] by auto
  then have b0: "P ! k' = code ! k" using assms(3) by (auto dest: spec [of _ 0])
  show ?thesis
  proof (cases "doff = 2")
    case True
    then have "P ! (k' + 1) = code ! (k + 1)" using assms(3) by (auto dest: spec [of _ 1])
    then show ?thesis using assms(1,2) b0 d True by (auto simp: branch_at_def Let_def split: if_splits)
  next
    case False
    then show ?thesis using assms(1,2) b0 d by (auto simp: branch_at_def Let_def split: if_splits)
  qed
qed


lemma retarget_at_opcode:
  assumes "aim_of code omap k P = Some P1" and "branch_at code k = Some (doff, sz, ilen)"
    and "i < doff" and "nat (omap ! k) + i < length P" and "0 \<le> omap ! k"
  shows "P1 ! (nat (omap ! k) + i) = P ! (nat (omap ! k) + i)"
  using retarget_at_cases [OF assms(1,2)]
proof
  assume "0 \<le> omap ! k \<and> (\<exists>xs. length xs = sz \<and> wr_slice P (nat (omap ! k + int doff)) xs = Some P1)"
  then obtain xs where "wr_slice P (nat (omap ! k + int doff)) xs = Some P1" by blast
  from wr_slice_nth [OF this assms(4)] show ?thesis using assms(3,5) by (auto split: if_splits)
qed simp

section \<open>The checks of the second loop\<close>

lemma read_branch_eq: "k < length code \<Longrightarrow> read_branch code k = Some (branch_at code k)"
  by (auto simp: read_branch_def branch_at_def Let_def word_le_nat_alt word_unat_eq_iff)

lemma read_branch_SomeD: "read_branch code k = Some (Some b) \<Longrightarrow> branch_at code k = Some b"
  by (cases "k < length code") (simp_all add: read_branch_eq, simp add: read_branch_def)

lemma read_branch_SomeI: "branch_at code k = Some b \<Longrightarrow> k < length code \<Longrightarrow> read_branch code k = Some (Some b)"
  by (simp add: read_branch_eq)

lemma scan_next_eq: "k < length code \<Longrightarrow> scan_next code k = scan_of code k"
  by (simp add: scan_next_def scan_of_def read_branch_eq)

lemma both_mapped_eq:
  "k < length code \<Longrightarrow> length omap = Suc (length code) \<Longrightarrow>
     both_mapped omap k old_target (length code) =
       Some (0 \<le> old_target \<and> old_target \<le> int (length code) \<and> 0 \<le> omap ! k \<and> 0 \<le> omap ! nat old_target)"
  by (auto simp: both_mapped_def nat_less_iff)

lemma retarget_at_eq:
  assumes "k < length code" "length omap = Suc (length code)"
  shows "retarget_at code omap k P = aim_of code omap k P"
proof (cases "branch_at code k")
  case None
  then show ?thesis by (simp add: retarget_at_def aim_of_def read_branch_eq [OF assms(1)])
next
  case (Some b)
  then obtain doff sz ilen where br: "branch_at code k = Some (doff, sz, ilen)" by (cases b) auto
  have "rd omap (nat t) = Some (omap ! nat t)" if "0 \<le> t" "t \<le> int (length code)" for t
    using that assms(2) by (simp add: nat_less_iff)
  moreover have "rd omap k = Some (omap ! k)" using assms by simp
  ultimately show ?thesis
    by (cases "old_disp code (k + doff) sz")
      (auto simp: retarget_at_def aim_of_def read_branch_eq [OF assms(1)] br both_mapped_eq [OF assms] Let_def)
qed

lemma retarget_loop_eq:
  assumes "length omap = Suc (length code)"
  shows "retarget_loop code omap k P = aim_loop code omap k P"
proof (induction k P rule: scan_induct [of code])
  case (stop k P)
  then show ?case by (simp add: retarget_loop.simps [of code omap k] retarget_loop_stop)
next
  case (go k k' P)
  then show ?case
    by (cases "aim_of code omap k P")
      (simp_all add: retarget_loop.simps [of code omap k] retarget_loop_go [OF go.hyps(1,2)]
         retarget_at_eq [OF go.hyps(1) assms] scan_next_eq)
qed

lemma patch_code_eq: "patch_code code fs = patched_of code fs"
proof -
  obtain P omap where img: "image_of code fs = (P, omap)" by (cases "image_of code fs")
  have "length omap = Suc (length code)" using patch_image_facts [OF img] by simp
  then show ?thesis by (simp add: patch_code_def patched_of_def patch_image_eq img retarget_loop_eq)
qed

section \<open>Branches keep their targets\<close>

text \<open>
  A branch is \<open>copied\<close> when both loops stop at it and the copy loop takes each of its bytes as it
  is.  The target of the branch is the byte displacement it carries, counted from its end.
\<close>

definition copied_branch :: "bytes \<Rightarrow> fixup_rec list \<Rightarrow> nat \<Rightarrow> nat \<Rightarrow> bool" where
  "copied_branch code fs k ilen \<longleftrightarrow>
     k \<in> set (scan_starts code 0) \<and> k \<in> set (patch_starts code fs 0)
     \<and> k + ilen \<le> length code \<and> (\<forall>i < ilen. plain_step code fs (k + i))"

lemma patch_code_image:
  assumes "patched_of code fs = Some (patched, omap)"
  obtains patched0 where "image_of code fs = (patched0, omap)"
    "aim_loop code omap 0 patched0 = Some patched"
  using assms by (auto simp: patched_of_def bind_eq_Some_conv split: prod.splits)

lemma image_within:
  assumes "image_of code fs = (patched, omap)" and "0 \<le> omap ! k" and "k + m \<le> length code" and "0 < m"
  shows "nat (omap ! k) + m \<le> length patched"
proof -
  have "omap ! k + int (length code - k) \<le> omap ! length code"
    using patch_image_facts(5) [OF assms(1), of k "length code"] patch_image_facts(4) [OF assms(1)] assms(2-4)
    by simp
  then have "omap ! k + int (length code - k) \<le> int (length patched)"
    by (simp only: patch_image_facts(4) [OF assms(1)])
  then show ?thesis using assms(2,3) by linarith
qed

text \<open>
  The run of the second loop around a copied branch: what the image held there before and after
  the branch was treated, and that nothing else touched it.
\<close>

lemma patch_code_at_branch:
  assumes pc: "patched_of code fs = Some (patched, omap)"
    and br: "branch_at code k = Some (doff, sz, ilen)" and cp: "copied_branch code fs k ilen"
  obtains Pk P1 where "aim_of code omap k Pk = Some P1"
    "old_disp Pk (nat (omap ! k) + doff) sz = old_disp code (k + doff) sz"
    "old_disp patched (nat (omap ! k) + doff) sz = old_disp P1 (nat (omap ! k) + doff) sz"
    "branch_at patched (nat (omap ! k)) = Some (doff, sz, ilen)"
    "take doff (drop (nat (omap ! k)) patched) = take doff (drop k code)"
    "0 \<le> omap ! k" "nat (omap ! k) + ilen \<le> length patched"
proof -
  obtain P0 where img: "image_of code fs = (P0, omap)"
    and loop: "aim_loop code omap 0 P0 = Some patched"
    using patch_code_image [OF pc] .
  have scan: "k \<in> set (scan_starts code 0)" and st: "k \<in> set (patch_starts code fs 0)"
    and kn: "k + ilen \<le> length code" and plain: "\<forall>i < ilen. plain_step code fs (k + i)"
    using cp by (auto simp: copied_branch_def)
  have span: "doff + sz = ilen" "0 < doff" and sz: "sz = 1 \<or> sz = 4"
    using branch_at_span [OF br] branch_at_shape [OF br] by auto
  have k0: "0 \<le> omap ! k" using patch_image_facts(7) [OF img st] by simp
  have in0: "nat (omap ! k) + ilen \<le> length P0" using image_within [OF img k0 kn] span by simp
  obtain Pk P1 k' where at: "aim_of code omap k Pk = Some P1"
    and rest: "aim_loop code omap k' P1 = Some patched" and k': "scan_of code k = Some k'"
    and sub: "set (scan_starts code k') \<subseteq> set (scan_starts code 0)" and lenk: "length Pk = length P0"
    and before: "\<forall>q < length P0. (\<forall>j \<in> set (scan_starts code 0). j < k \<longrightarrow> \<not> touches code omap j q) \<longrightarrow> Pk ! q = P0 ! q"
    using scan_starts_split [OF loop scan] by blast
  have k'eq: "k' = k + ilen" using k' br by (simp add: scan_of_def)
  have apart: "\<not> touches code omap j (nat (omap ! k) + i)"
    if "j \<in> set (scan_starts code 0)" "j \<noteq> k" "i < ilen" for i j
    using branches_apart [OF img that(1) scan that(2) br k0] k0 that(3) by simp
  have len1: "length P1 = length P0" using retarget_at_effect(1) [OF at] lenk by simp
  have len: "length patched = length P0" using retarget_loop_frame [OF rest] len1 by simp
  have after: "patched ! (nat (omap ! k) + i) = P1 ! (nat (omap ! k) + i)" if "i < ilen" for i
    using retarget_loop_frame [OF rest, of "nat (omap ! k) + i"] apart [OF _ _ that] sub len1 in0 that
      scan_starts_ge [of _ code k'] k'eq span by fastforce
  have orig: "Pk ! (nat (omap ! k) + i) = code ! (k + i)" if i: "i < ilen" for i
    using before [rule_format, of "nat (omap ! k) + i"] apart [of _ i] plain_run [OF img st plain kn i] i in0
    by auto
  have opc: "patched ! (nat (omap ! k) + i) = code ! (k + i)" if i: "i < doff" for i
    using after [of i] retarget_at_opcode [OF at br i _ k0] orig [of i] i span in0 lenk by auto
  have "old_disp Pk (nat (omap ! k) + doff) sz = old_disp code (k + doff) sz"
    using orig [of "doff + i" for i] span in0 kn lenk
    by (intro old_disp_run [OF _ _ _ sz]) (simp_all add: add.assoc)
  moreover have "old_disp patched (nat (omap ! k) + doff) sz = old_disp P1 (nat (omap ! k) + doff) sz"
    using after [of "doff + i" for i] span in0 len len1
    by (intro old_disp_run [OF _ _ _ sz]) (simp_all add: add.assoc)
  moreover have "take doff (drop (nat (omap ! k)) patched) = take doff (drop k code)"
    using opc in0 len kn span by (intro nth_equalityI) simp_all
  ultimately show thesis
    using that at branch_at_cong [OF br, of "nat (omap ! k)" patched] opc in0 len k0 by simp
qed

lemma displacement_in_range:
  assumes pc: "patched_of code fs = Some (patched, omap)" and "length code < 2 ^ 28"
    and "t \<le> length code" "0 \<le> omap ! t" and "0 \<le> omap ! k" "nat (omap ! k) + ilen \<le> length patched"
  shows "- (2 ^ 31) \<le> omap ! t - (omap ! k + int ilen) \<and> omap ! t - (omap ! k + int ilen) < 2 ^ 31"
proof -
  obtain P0 where img: "image_of code fs = (P0, omap)"
    and loop: "aim_loop code omap 0 P0 = Some patched"
    using patch_code_image [OF pc] .
  note facts = patch_image_facts [OF img]
  have len: "length patched = length P0" using retarget_loop_frame [OF loop] by simp
  have "omap ! t \<le> int (length P0)"
    using facts(4) facts(5) [of t "length code"] assms(3,4) by (cases "t = length code") auto
  then show ?thesis using facts(3) len assms by auto
qed

text \<open>
  C4.  Whatever the copy inserted around it, a copied branch is still the same branch at its
  mapped position: the bytes of its opcode are those of the original one, its length is the same, and its new
  displacement leads from its new end to the mapped position of its
  old target -- for a short branch, when that displacement fits a byte.
\<close>

theorem patch_code_branch_target:
  assumes "patch_code code fs = Some (patched, omap)" and "length code < 2 ^ 28"
    and branch: "read_branch code k = Some (Some (doff, sz, ilen))" and copied: "copied_branch code fs k ilen"
    and d: "old_disp code (k + doff) sz = Some d"
    and t: "int t = int (k + ilen) + d" "t \<le> length code" "0 \<le> omap ! t"
    and fits: "sz = 1 \<Longrightarrow> - 128 \<le> omap ! t - (omap ! k + int ilen) \<and> omap ! t - (omap ! k + int ilen) \<le> 127"
  shows "read_branch patched (nat (omap ! k)) = Some (Some (doff, sz, ilen))
    \<and> take doff (drop (nat (omap ! k)) patched) = take doff (drop k code)
    \<and> old_disp patched (nat (omap ! k) + doff) sz = Some (omap ! t - (omap ! k + int ilen))"
proof -
  have pc: "patched_of code fs = Some (patched, omap)" using assms(1) by (simp add: patch_code_eq)
  have br: "branch_at code k = Some (doff, sz, ilen)" using branch by (rule read_branch_SomeD)
  obtain Pk P1 where at: "aim_of code omap k Pk = Some P1" and k0: "0 \<le> omap ! k"
    and same: "old_disp patched (nat (omap ! k) + doff) sz = old_disp P1 (nat (omap ! k) + doff) sz"
    and b: "branch_at patched (nat (omap ! k)) = Some (doff, sz, ilen)"
    and opcode: "take doff (drop (nat (omap ! k)) patched) = take doff (drop k code)"
    and n: "nat (omap ! k) + ilen \<le> length patched"
    using patch_code_at_branch [OF pc br copied] by metis
  have "old_disp P1 (nat (omap ! k) + doff) sz = Some (omap ! t - (omap ! k + int ilen))"
    using fits t(2,3) k0 displacement_in_range [OF pc assms(2) t(2,3) k0 n]
    by (intro retarget_at_writes [OF at br d, unfolded t(1) [symmetric] nat_int]) simp_all
  then show ?thesis using same opcode read_branch_SomeI [OF b] branch_at_span [OF br] n by simp
qed

text \<open>
  Otherwise the displacement stays what it was: a short branch whose new displacement does
  not fit a byte is left with the old one, so it no longer leads to its target.
\<close>

theorem patch_code_branch_stale:
  assumes "patch_code code fs = Some (patched, omap)"
    and branch: "read_branch code k = Some (Some (doff, 1, ilen))" and "copied_branch code fs k ilen"
    and d: "old_disp code (k + doff) 1 = Some d"
    and t: "int t = int (k + ilen) + d"
    and wide: "omap ! t - (omap ! k + int ilen) < - 128 \<or> 127 < omap ! t - (omap ! k + int ilen)"
  shows "old_disp patched (nat (omap ! k) + doff) 1 = Some d
    \<and> omap ! k + int ilen + d \<noteq> omap ! t"
proof (rule patch_code_at_branch [OF assms(1) [unfolded patch_code_eq] read_branch_SomeD [OF branch] assms(3)])
  note br = read_branch_SomeD [OF branch]
  fix Pk P1
  assume at: "aim_of code omap k Pk = Some P1"
    and was: "old_disp Pk (nat (omap ! k) + doff) 1 = old_disp code (k + doff) 1"
    and same: "old_disp patched (nat (omap ! k) + doff) 1 = old_disp P1 (nat (omap ! k) + doff) 1"
  have nt: "nat (int (k + ilen) + d) = t" using t by linarith
  have "P1 = Pk"
    using at wide unfolding aim_of_def br d option.case prod.case Option.bind.bind_lunit Let_def nt
    by (auto split: if_splits)
  moreover have "- 128 \<le> d \<and> d \<le> 127"
    using d sint_greater_eq [of "code ! (k + doff)"] sint_lt [of "code ! (k + doff)"]
    by (auto simp: old_disp_def s8_def rd_def split: if_splits)
  ultimately show ?thesis using was same d wide by auto
qed


section \<open>When the pass is defined\<close>

definition overruns :: "bytes \<Rightarrow> nat \<Rightarrow> bool" where
  "overruns code k =
    (case branch_at code k of None \<Rightarrow> False | Some (doff, sz, ilen) \<Rightarrow> length code < k + ilen)"

definition branches_inside :: "bytes \<Rightarrow> bool" where
  "branches_inside code = list_all (\<lambda>k. \<not> overruns code k) (scan_starts code 0)"

lemma retarget_at_None_iff:
  assumes "0 \<le> omap ! k \<Longrightarrow> \<forall>m > 0. k + m \<le> length code \<longrightarrow> nat (omap ! k) + m \<le> length P"
  shows "aim_of code omap k P = None \<longleftrightarrow> overruns code k"
proof (cases "branch_at code k")
  case None
  then show ?thesis by (simp add: aim_of_def overruns_def)
next
  case (Some a)
  then obtain doff sz ilen where br: "branch_at code k = Some (doff, sz, ilen)" by (cases a) auto
  note sh = branch_at_shape [OF br] and span = branch_at_span [OF br]
  show ?thesis
  proof (cases "k + ilen \<le> length code")
    case False
    then have "old_disp code (k + doff) sz = None"
      using sh by (auto simp: old_disp_def rd_def rd_slice_def)
    then show ?thesis using br False by (auto simp: aim_of_def overruns_def)
  next
    case True
    then obtain d where d: "old_disp code (k + doff) sz = Some d"
      using sh by (auto simp: old_disp_def rd_def rd_slice_def)
    have "wr_slice P (nat (omap ! k + int doff)) xs \<noteq> None" if k: "0 \<le> omap ! k" and "length xs = sz" for xs
    proof -
      have "nat (omap ! k) + ilen \<le> length P" using assms [OF k] True span by simp
      then show ?thesis using that span by (simp add: wr_slice_def nat_add_distrib)
    qed
    then have "aim_of code omap k P \<noteq> None"
      using sh unfolding aim_of_def br d option.case prod.case Option.bind.bind_lunit Let_def
      by (intro if_branches [where P = "\<lambda>x. x \<noteq> None"]) auto
    then show ?thesis using br True by (auto simp: overruns_def)
  qed
qed

lemma retarget_loop_None_iff:
  assumes "\<And>k. k < length code \<Longrightarrow> 0 \<le> omap ! k \<Longrightarrow> 
      \<forall>m > 0. k + m \<le> length code \<longrightarrow> nat (omap ! k) + m \<le> length P"
  shows "aim_loop code omap k P = None \<longleftrightarrow> (\<exists>j \<in> set (scan_starts code k). overruns code j)"
  using assms
proof (induction k P rule: scan_induct [of code])
  case (stop k P)
  then show ?case by (simp add: retarget_loop_stop scan_starts.simps [of code k])
next
  case (go k k' P)
  have at: "aim_of code omap k P = None \<longleftrightarrow> overruns code k"
    by (rule retarget_at_None_iff) (rule go.prems [OF go.hyps(1)])
  show ?case
  proof (cases "aim_of code omap k P")
    case None
    then show ?thesis using at go.hyps(4) by (auto simp: retarget_loop_go [OF go.hyps(1,2)])
  next
    case (Some P1)
    have "length P1 = length P" by (rule retarget_at_effect(1) [OF Some])
    then show ?thesis
      using Some at go.IH [of P1] go.prems go.hyps(4) by (auto simp: retarget_loop_go [OF go.hyps(1,2)])
  qed
qed

text \<open>
  C34.  The two loops run to their end with every read of the code image, every access to the offset map and
  every write to the patched image inside of the array, exactly when no branch opcode met by the second scan has
  its displacement cut off by the end of the image.
\<close>

theorem patch_code_defined_iff: "patch_code code fs = None \<longleftrightarrow> \<not> branches_inside code"
proof -
  obtain P0 omap where img: "image_of code fs = (P0, omap)" by (cases "image_of code fs")
  have "aim_loop code omap 0 P0 = None \<longleftrightarrow> \<not> branches_inside code"
    unfolding branches_inside_def list_all_iff
    by (subst retarget_loop_None_iff) (use image_within [OF img] in auto)
  then show ?thesis by (auto simp: patch_code_eq patched_of_def img split: bind_splits)
qed

text \<open>
  The patched image has at least as many bytes as the original and at most three times as
  many -- what the source allocates for it --, the map has one entry for each offset and one for
  the end, and it is strictly increasing where it is set.
\<close>

theorem patch_code_layout:
  assumes "patch_code code fs = Some (patched, omap)"
  shows "length code \<le> length patched \<and> length patched \<le> 3 * length code
    \<and> length omap = length code + 1 \<and> omap ! length code = int (length patched)
    \<and> (\<forall>i j. i < j \<longrightarrow> j \<le> length code \<longrightarrow> 0 \<le> omap ! i \<longrightarrow> 0 \<le> omap ! j \<longrightarrow> omap ! i + int (j - i) \<le> omap ! j)"
proof -
  obtain P0 where img: "image_of code fs = (P0, omap)"
    and loop: "aim_loop code omap 0 P0 = Some patched"
    using patch_code_image [OF assms [unfolded patch_code_eq]] .
  have "length patched = length P0" using retarget_loop_frame [OF loop] by simp
  then show ?thesis using patch_image_facts [OF img] by simp
qed

section \<open>The rest of the pass\<close>

text \<open>
  The tail of pass 2: public offsets go through the map, the byte before each fixup is kept, the
  fixups go through the map, and the patched bytes replace the code image, in a buffer of
  \<open>cap\<close> bytes (the size of the OMF file).
\<close>

definition pub_off_of :: "nat \<Rightarrow> int list \<Rightarrow> nat \<Rightarrow> nat" where
  "pub_off_of n omap off = (if off \<le> n \<and> 0 \<le> omap ! off then nat (omap ! off) else off)"

definition byte_of :: "bytes \<Rightarrow> fixup_rec \<Rightarrow> nat" where
  "byte_of code f =
    (if 1 \<le> code_offset f \<and> code_offset f < int (length code)
     then unat (code ! nat (code_offset f - 1)) else 0)"

definition fixup_of :: "nat \<Rightarrow> int list \<Rightarrow> fixup_rec \<Rightarrow> fixup_rec" where
  "fixup_of n omap f =
    (if 0 \<le> code_offset f \<and> code_offset f < int n
     then f\<lparr>code_offset := omap ! nat (code_offset f)\<rparr> else f)"

definition pass2_of :: "nat \<Rightarrow> bytes \<Rightarrow> nat list \<Rightarrow> fixup_rec list \<Rightarrow> pass2 option" where
  "pass2_of cap code offs fs = do {
     (patched, omap) \<leftarrow> patched_of code fs;
     if length patched \<le> cap
     then Some \<lparr>p2_code = patched,
                p2_pub_offs = map (pub_off_of (length code) omap) offs,
                p2_fixups = map (fixup_of (length code) omap) fs,
                p2_orig = map (byte_of code) fs\<rparr>
     else None
   }"


text \<open>The checks on the tail of the pass succeed as well.\<close>

lemma those_map_Some: "(\<And>x. x \<in> set xs \<Longrightarrow> f x = Some (g x)) \<Longrightarrow> those (map f xs) = Some (map g xs)"
  by (induction xs) simp_all

lemma pass2_run_eq: "pass2_run cap code offs fs = pass2_of cap code offs fs"
proof (cases "patched_of code fs")
  case None
  then show ?thesis by (simp add: pass2_run_def pass2_of_def patch_code_eq)
next
  case (Some a)
  then obtain patched omap where pc: "patched_of code fs = Some (patched, omap)" by (cases a) auto
  obtain P0 where "image_of code fs = (P0, omap)" using patch_code_image [OF pc] .
  then have len: "length omap = Suc (length code)" by (rule patch_image_facts)
  have "those (map (adjust_pub_off (length code) omap) offs) = Some (map (pub_off_of (length code) omap) offs)"
    by (rule those_map_Some) (simp add: adjust_pub_off_def pub_off_of_def len)
  moreover have "those (map (byte_before code) fs) = Some (map (byte_of code) fs)"
    by (rule those_map_Some) (simp add: byte_before_def byte_of_def nat_less_iff)
  moreover have "those (map (adjust_fixup (length code) omap) fs) = Some (map (fixup_of (length code) omap) fs)"
    by (rule those_map_Some) (simp add: adjust_fixup_def fixup_of_def len nat_less_iff)
  ultimately show ?thesis using pc by (simp add: pass2_run_def pass2_of_def patch_code_eq)
qed

section \<open>Concrete runs\<close>

text \<open>
  The specimen: \<open>jmp +2\<close> over \<open>mov ebp,esp\<close> to a \<open>ret\<close>.  The REX prefix put before the
  move lengthens the jump by one.
\<close>

abbreviation jump_over :: bytes where
  "jump_over \<equiv> [0xEB, 0x02, 0x89, 0xE5, 0xC3]"

lemma jump_over_patched:
  "patch_code jump_over [] = Some ([0xEB, 0x03, 0x48, 0x89, 0xE5, 0xC3], [0, 1, 2, - 1, 5, 6])"
  by code_simp

lemma jump_over_branch: "read_branch jump_over 0 = Some (Some (1, 1, 2))"
  by code_simp

lemma jump_over_copied: "copied_branch jump_over [] 0 2"
proof -
  have "0 \<in> set (scan_starts jump_over 0)" "0 \<in> set (patch_starts jump_over [] 0)"
    "plain_step jump_over [] 0" "plain_step jump_over [] 1"
    by code_simp+
  then show ?thesis by (simp add: copied_branch_def less_2_cases_iff)
qed

theorem patch_code_branch_target_witness:
  "old_disp [0xEB, 0x03, 0x48, 0x89, 0xE5, 0xC3] 1 1 = Some 3"
proof -
  have "old_disp jump_over (0 + 1) 1 = Some 2" by code_simp
  from patch_code_branch_target [OF jump_over_patched _ jump_over_branch jump_over_copied this, of 4]
  show ?thesis by simp
qed

theorem patch_code_layout_witness:
  "length jump_over \<le> length [0xEB :: u8, 0x03, 0x48, 0x89, 0xE5, 0xC3]"
  using patch_code_layout [OF jump_over_patched] by simp


text \<open>
  A short jump of 60 bytes over seven double constants pushed before calls: each takes twelve
  bytes more after the copy, and the displacement would be 144.
\<close>

abbreviation pushed_double :: bytes where
  "pushed_double \<equiv> [0x68, 0, 0, 0, 0, 0x6A, 0, 0xE8]"

abbreviation far_jump :: bytes where
  "far_jump \<equiv> [0xEB, 60] @ pushed_double @ pushed_double @ pushed_double @ pushed_double
     @ pushed_double @ pushed_double @ pushed_double @ [0, 0, 0, 0, 0xC3]"

theorem patch_code_branch_stale_witness:
  "\<exists>patched omap. patch_code far_jump [] = Some (patched, omap)
     \<and> old_disp patched 1 1 = Some 60 \<and> omap ! 0 + 2 + 60 \<noteq> omap ! 62"
proof -
  have "(case patch_code far_jump [] of None \<Rightarrow> False | Some (p, m) \<Rightarrow> m ! 0 = 0 \<and> m ! 62 = 146)"
    by code_simp
  then obtain p m where pm: "patch_code far_jump [] = Some (p, m)" "m ! 0 = 0" "m ! 62 = 146"
    by (auto split: option.splits)
  have br: "read_branch far_jump 0 = Some (Some (1, 1, 2))" by code_simp
  have "0 \<in> set (scan_starts far_jump 0)" "0 \<in> set (patch_starts far_jump [] 0)"
    "plain_step far_jump [] 0" "plain_step far_jump [] 1"
    by code_simp+
  then have cp: "copied_branch far_jump [] 0 2" by (simp add: copied_branch_def less_2_cases_iff)
  have d: "old_disp far_jump (0 + 1) 1 = Some 60" by code_simp
  have t: "int 62 = int (0 + 2) + 60" by simp
  have "m ! 62 - (m ! 0 + int 2) < - 128 \<or> 127 < m ! 62 - (m ! 0 + int 2)" using pm by simp
  from patch_code_branch_stale [OF pm(1) br cp d t this] show ?thesis using pm by auto
qed

text \<open>
  The copy loop has no notion of instruction boundary: the bytes 89 E5 inside the immediate
  of one five-byte instruction are taken for a \<open>mov ebp,esp\<close>, and the patched immediate is
  another number.
\<close>

theorem patch_rewrites_immediate:
  "x86_insn_len [0xB8, 0x89, 0xE5, 0x00, 0x00] 5 0 = Some 5
   \<and> patch_code [0xB8, 0x89, 0xE5, 0x00, 0x00] [] =
       Some ([0xB8, 0x48, 0x89, 0xE5, 0x00, 0x00], [0, 1, - 1, 4, 5, 6])"
proof
  show "x86_insn_len [0xB8, 0x89, 0xE5, 0x00, 0x00] 5 0 = Some 5" by code_simp
  show "patch_code [0xB8, 0x89, 0xE5, 0x00, 0x00] [] =
       Some ([0xB8, 0x48, 0x89, 0xE5, 0x00, 0x00], [0, 1, - 1, 4, 5, 6])" by code_simp
qed

end
