(* ===== verification/OmfRead.thy ===== *)
theory OmfRead
  imports X64Patch
begin

text \<open>
  The OMF reader of \<open>X64ObjFini\<close> (\<open>bld/cg/intel/x64/c/x64obj.c\<close>): passes 0, 1 and 1b over the
  object file the OMF writer left.  All three walk the same chain of records -- a type byte, a
  16-bit length, the content --, which is \<open>omf_walk\<close>; a pass is a step folded over the walk.

  \<open>None\<close> is a read past the end of the file image, a write past the end of a buffer, or a
  signed overflow.  Names are kept as the bytes before their terminator.
\<close>

section \<open>The chain of records\<close>

definition rdb :: "bytes \<Rightarrow> nat \<Rightarrow> nat option" where
  "rdb omf i = map_option unat (rd omf i)"

definition rd_le :: "bytes \<Rightarrow> nat \<Rightarrow> nat \<Rightarrow> nat option" where
  "rd_le omf i n = map_option le_val (rd_slice omf i n)"

function omf_walk :: "bytes \<Rightarrow> nat \<Rightarrow> (nat \<times> nat \<times> nat) list" where
  "omf_walk omf i =
    (if i < length omf \<and> i + 3 \<le> length omf then
       let rl = unat (omf ! (i + 1)) OR push_bit 8 (unat (omf ! (i + 2)))
       in (i, unat (omf ! i), rl) # omf_walk omf (i + (3 + rl))
     else [])"
  by pat_completeness auto
termination
  by (relation "measure (\<lambda>(omf, i). length omf - i)") auto

declare omf_walk.simps [simp del]

fun fold_walk :: "(nat \<Rightarrow> nat \<Rightarrow> nat \<Rightarrow> 's \<Rightarrow> 's option) \<Rightarrow> (nat \<times> nat \<times> nat) list \<Rightarrow> 's \<Rightarrow> 's option" where
  "fold_walk step [] st = Some st"
| "fold_walk step ((i, rt, rl) # rs) st = Option.bind (step i rt rl st) (fold_walk step rs)"

definition c_str :: "bytes \<Rightarrow> bytes" where
  "c_str b = takeWhile (\<lambda>x. x \<noteq> 0) b"

section \<open>Pass 0: names and segments\<close>

function read_lnames :: "bytes \<Rightarrow> nat \<Rightarrow> nat \<Rightarrow> bytes list \<Rightarrow> bytes list option" where
  "read_lnames omf tj tend names =
    (if tj < tend \<and> length names < 64 then
       (case rdb omf tj of
          None \<Rightarrow> None
        | Some tnl \<Rightarrow>
            if 0 < tnl \<and> tj + 1 + tnl \<le> tend then
              (case rd_slice omf (tj + 1) tnl of
                 None \<Rightarrow> None
               | Some tn \<Rightarrow> read_lnames omf (tj + 1 + tnl) tend (names @ [c_str tn]))
            else read_lnames omf (tj + 1) tend (names @ [[]]))
     else Some names)"
  by pat_completeness auto
termination
  by (relation "measure (\<lambda>(omf, tj, tend, names). tend - tj)") auto

declare read_lnames.simps [simp del]

definition lnames_step :: "bytes \<Rightarrow> nat \<Rightarrow> nat \<Rightarrow> nat \<Rightarrow> bytes list \<Rightarrow> bytes list option" where
  "lnames_step omf ti trt trl names =
    (if trt = 0x96 then read_lnames omf (ti + 3) (ti + 3 + trl - 1) names else Some names)"

text \<open>\<open>DATA\<close>, \<open>BSS\<close>, \<open>CODE\<close> and \<open>CONST\<close> as C strings.\<close>

definition s_DATA :: bytes where "s_DATA = [0x44, 0x41, 0x54, 0x41]"
definition s_BSS :: bytes where "s_BSS = [0x42, 0x53, 0x53]"
definition s_CODE :: bytes where "s_CODE = [0x43, 0x4F, 0x44, 0x45]"
definition s_CONST :: bytes where "s_CONST = [0x43, 0x4F, 0x4E, 0x53, 0x54]"

record segs =
  seg_num :: nat
  text_seg_idx :: nat
  data_seg_idx :: int
  seg_is_data :: "nat \<Rightarrow> bool"
  seg_is_bss :: "nat \<Rightarrow> bool"
  seg_len :: "nat \<Rightarrow> nat"

definition segs_init :: segs where
  "segs_init = \<lparr>seg_num = 0, text_seg_idx = 1, data_seg_idx = - 1, seg_is_data = (\<lambda>_. False),
     seg_is_bss = (\<lambda>_. False), seg_len = (\<lambda>_. 0)\<rparr>"

definition seg_classify :: "bytes list \<Rightarrow> nat \<Rightarrow> nat \<Rightarrow> nat \<Rightarrow> segs \<Rightarrow> segs" where
  "seg_classify names num name_idx class_idx st =
    (if 0 < class_idx \<and> class_idx < length names then
       let cls = names ! class_idx;
           st = (if num < 64
                 then st\<lparr>seg_is_data := (seg_is_data st)(num := (cls = s_DATA)),
                         seg_is_bss := (seg_is_bss st)(num := (cls = s_BSS))\<rparr>
                 else st)
       in if cls = s_CODE then st\<lparr>text_seg_idx := num\<rparr>
          else if cls = s_DATA then
            let st = (if 0 < name_idx \<and> name_idx < length names \<and> names ! name_idx = s_CONST
                      then st\<lparr>data_seg_idx := int num\<rparr> else st)
            in if data_seg_idx st < 0 then st\<lparr>data_seg_idx := int num\<rparr> else st
          else st
     else st)"

definition segdef_step :: "bytes \<Rightarrow> bytes list \<Rightarrow> nat \<Rightarrow> nat \<Rightarrow> nat \<Rightarrow> segs \<Rightarrow> segs option" where
  "segdef_step omf names ti trt trl st =
    (if trt = 0x99 then do {
       let num = seg_num st + 1;
       slen \<leftarrow> rd_le omf (ti + 4) 4;
       name_idx \<leftarrow> rdb omf (ti + 3 + 1 + 4);
       class_idx \<leftarrow> rdb omf (ti + 3 + 1 + 4 + 1);
       Some (seg_classify names num name_idx class_idx
               (st\<lparr>seg_num := num,
                   seg_len := (if num < 64 then (seg_len st)(num := slen) else seg_len st)\<rparr>))
     } else Some st)"

text \<open>
  The layout of the BSS segments: base offsets in order of the segment index, and the total.
  \<open>seg_len\<close> is converted to \<open>int\<close>; the sum must stay an \<open>int\<close>.
\<close>

definition iadd32 :: "int \<Rightarrow> int \<Rightarrow> int option" where
  "iadd32 a b = (if - (2 ^ 31) \<le> a + b \<and> a + b < 2 ^ 31 then Some (a + b) else None)"

definition bss_step :: "segs \<Rightarrow> nat \<Rightarrow> (nat \<Rightarrow> int) \<times> int \<Rightarrow> ((nat \<Rightarrow> int) \<times> int) option" where
  "bss_step sg z b =
    (case b of (base, tot) \<Rightarrow>
       if seg_is_bss sg z \<and> 0 < seg_len sg z
       then map_option (\<lambda>t. (base(z := tot), t)) (iadd32 tot (sint (word_of_nat (seg_len sg z) :: u32)))
       else Some (base, tot))"

fun bss_loop :: "segs \<Rightarrow> nat list \<Rightarrow> (nat \<Rightarrow> int) \<times> int \<Rightarrow> ((nat \<Rightarrow> int) \<times> int) option" where
  "bss_loop sg [] b = Some b"
| "bss_loop sg (z # zs) b = Option.bind (bss_step sg z b) (bss_loop sg zs)"

definition bss_layout :: "segs \<Rightarrow> ((nat \<Rightarrow> int) \<times> int) option" where
  "bss_layout sg = bss_loop sg [1..<64] (\<lambda>_. - 1, 0)"

section \<open>Pass 1: images and symbols\<close>

record pub_rec =
  pub_name :: bytes
  pub_off :: nat
  pub_seg :: nat
  pub_local :: bool

record collected =
  code_img :: bytes
  data_img :: bytes
  seg_base :: "nat \<Rightarrow> int"
  pubs :: "pub_rec list"
  exts :: "bytes list"

definition collected_init :: collected where
  "collected_init = \<lparr>code_img = [], data_img = [], seg_base = (\<lambda>z. if z < 64 then - 1 else 0),
     pubs = [], exts = []\<rparr>"

text \<open>
  An OMF index of one or two bytes and the position after it; the head of an LEDATA record:
  segment index, start of the data, length of the data.
\<close>

definition read_index :: "bytes \<Rightarrow> nat \<Rightarrow> (nat \<times> nat) option" where
  "read_index omf j = do {
     t \<leftarrow> rdb omf j;
     if t AND 0x80 \<noteq> 0 then do {
       b \<leftarrow> rdb omf (j + 1);
       Some (push_bit 8 (t AND 0x7F) OR b, j + 2)
     } else Some (t, j + 1)
   }"

definition ledata_head :: "bytes \<Rightarrow> nat \<Rightarrow> nat \<Rightarrow> nat \<Rightarrow> (nat \<times> nat \<times> int) option" where
  "ledata_head omf i rt rl = do {
     (seg_idx, j) \<leftarrow> read_index omf (i + 3);
     let ds = j + (if rt = 0xA1 then 4 else 2);
     Some (seg_idx, ds, int rl - (int ds - int (i + 3)) - 1)
   }"

text \<open>\<open>memcpy\<close> to the end of a buffer of \<open>cap\<close> bytes.\<close>

definition append_cap :: "nat \<Rightarrow> bytes \<Rightarrow> bytes \<Rightarrow> bytes option" where
  "append_cap cap buf xs = (if length buf + length xs \<le> cap then Some (buf @ xs) else None)"

definition ledata_step ::
  "nat \<Rightarrow> bytes \<Rightarrow> segs \<Rightarrow> nat \<Rightarrow> nat \<Rightarrow> nat \<Rightarrow> collected \<Rightarrow> collected option" where
  "ledata_step cap omf sg i rt rl st = do {
     (seg_idx, ds, dl) \<leftarrow> ledata_head omf i rt rl;
     if 0 < dl \<and> int ds + dl \<le> int (length omf) then
       if seg_idx = text_seg_idx sg then do {
         xs \<leftarrow> rd_slice omf ds (nat dl);
         c \<leftarrow> append_cap cap (code_img st) xs;
         Some (st\<lparr>code_img := c\<rparr>)
       } else if 0 < seg_idx \<and> seg_idx < 512 \<and> seg_is_data sg seg_idx then do {
         xs \<leftarrow> rd_slice omf ds (nat dl);
         d \<leftarrow> append_cap cap (data_img st) xs;
         Some (st\<lparr>seg_base := (if seg_base st seg_idx < 0
                              then (seg_base st)(seg_idx := int (length (data_img st)))
                              else seg_base st),
                  data_img := d\<rparr>)
       } else Some st
     else Some st
   }"

definition strip_name :: "bytes \<Rightarrow> bytes" where
  "strip_name n = c_str (if 1 < length n \<and> last n = 0x5F then butlast n else n)"

function read_pubs ::
  "bytes \<Rightarrow> bool \<Rightarrow> bool \<Rightarrow> nat \<Rightarrow> nat \<Rightarrow> nat \<Rightarrow> pub_rec list \<Rightarrow> pub_rec list option" where
  "read_pubs omf is_local wide seg j e ps =
    (if j < e \<and> length ps < 64 then
       (case rdb omf j of
          None \<Rightarrow> None
        | Some nl \<Rightarrow>
            if nl = 0 \<or> e < j + 1 + nl then Some ps
            else
              (case rd_slice omf (j + 1) nl of
                 None \<Rightarrow> None
               | Some n \<Rightarrow>
                   (case rd_le omf (j + 1 + nl) (if wide then 4 else 2) of
                      None \<Rightarrow> None
                    | Some off \<Rightarrow>
                        (let j' = j + 1 + nl + (if wide then 4 else 2)
                         in read_pubs omf is_local wide seg (if j' < e then j' + 1 else j') e
                              (ps @ [\<lparr>pub_name = strip_name n, pub_off = off, pub_seg = seg,
                                      pub_local = is_local\<rparr>])))))
     else Some ps)"
  by pat_completeness auto
termination
  by (relation "measure (\<lambda>(omf, is_local, wide, seg, j, e, ps). e - j)") auto

declare read_pubs.simps [simp del]

definition pubdef_step :: "bytes \<Rightarrow> nat \<Rightarrow> nat \<Rightarrow> nat \<Rightarrow> collected \<Rightarrow> collected option" where
  "pubdef_step omf i rt rl st = do {
     base_grp \<leftarrow> rdb omf (i + 3);
     base_seg \<leftarrow> rdb omf (i + 4);
     let j = (if base_seg = 0 then i + 5 + 2 else i + 5);
     ps \<leftarrow> read_pubs omf (rt = 0xB6 \<or> rt = 0xB7) (rt = 0x91 \<or> rt = 0xB7) base_seg j (i + 3 + rl - 1) (pubs st);
     Some (st\<lparr>pubs := ps\<rparr>)
   }"

function read_exts :: "bytes \<Rightarrow> nat \<Rightarrow> nat \<Rightarrow> bytes list \<Rightarrow> bytes list option" where
  "read_exts omf j e es =
    (if j < e \<and> length es < 64 then
       (case rdb omf j of
          None \<Rightarrow> None
        | Some nl \<Rightarrow>
            if 0 < nl \<and> j + 1 + nl \<le> e then
              (case rd_slice omf (j + 1) nl of
                 None \<Rightarrow> None
               | Some n \<Rightarrow>
                   read_exts omf (if j + 1 + nl < e then j + 1 + nl + 1 else j + 1 + nl) e
                     (es @ [strip_name n]))
            else read_exts omf (if j + 1 < e then j + 1 + 1 else j + 1) e es)
     else Some es)"
  by pat_completeness auto
termination
  by (relation "measure (\<lambda>(omf, j, e, es). e - j)") auto

declare read_exts.simps [simp del]

definition extdef_step :: "bytes \<Rightarrow> nat \<Rightarrow> nat \<Rightarrow> nat \<Rightarrow> collected \<Rightarrow> collected option" where
  "extdef_step omf i rt rl st =
     map_option (\<lambda>es. st\<lparr>exts := es\<rparr>) (read_exts omf (i + 3) (i + 3 + rl - 1) (exts st))"

definition collect_step ::
  "nat \<Rightarrow> bytes \<Rightarrow> segs \<Rightarrow> nat \<Rightarrow> nat \<Rightarrow> nat \<Rightarrow> collected \<Rightarrow> collected option" where
  "collect_step cap omf sg i rt rl st =
    (if rt = 0xA1 \<or> rt = 0xA0 then ledata_step cap omf sg i rt rl st
     else if (rt = 0x91 \<or> rt = 0x90 \<or> rt = 0xB7 \<or> rt = 0xB6) \<and> length (pubs st) < 64
     then pubdef_step omf i rt rl st
     else if (rt = 0x8C \<or> rt = 0xB4) \<and> length (exts st) < 64 then extdef_step omf i rt rl st
     else Some st)"

section \<open>Pass 1b: relocations\<close>

record fix_state =
  cur_chunk_base :: int
  run_text :: int
  cur_chunk_is_text :: bool
  cur_dchunk_base :: int
  seg_packed :: "nat \<Rightarrow> int"
  fixups :: "fixup_rec list"
  dfixups :: "fixup_rec list"

definition fix_init :: fix_state where
  "fix_init = \<lparr>cur_chunk_base = 0, run_text = 0, cur_chunk_is_text = True, cur_dchunk_base = 0,
     seg_packed = (\<lambda>_. 0), fixups = [], dfixups = []\<rparr>"

definition chunk_step ::
  "bytes \<Rightarrow> segs \<Rightarrow> (nat \<Rightarrow> int) \<Rightarrow> nat \<Rightarrow> nat \<Rightarrow> nat \<Rightarrow> fix_state \<Rightarrow> fix_state option" where
  "chunk_step omf sg base i rt rl st = do {
     (sidx, ds2, dl2) \<leftarrow> ledata_head omf i rt rl;
     let st = st\<lparr>cur_chunk_is_text := (sidx = text_seg_idx sg)\<rparr>;
     Some (if cur_chunk_is_text st \<and> 0 < dl2
           then st\<lparr>cur_chunk_base := run_text st, run_text := run_text st + dl2\<rparr>
           else if \<not> cur_chunk_is_text st \<and> 0 < sidx \<and> sidx < 512 \<and> seg_is_data sg sidx \<and> 0 \<le> base sidx
           then st\<lparr>cur_dchunk_base := base sidx + seg_packed st sidx,
                   seg_packed := (if 0 < dl2 then (seg_packed st)(sidx := seg_packed st sidx + dl2)
                                  else seg_packed st)\<rparr>
           else st)
   }"

text \<open>
  One FIXUP subrecord at \<open>j\<close>: the 10-bit offset, the target method, the target index, and the
  position after it.  The frame datum is skipped, and so is a target displacement.
\<close>

definition skip_frame :: "bytes \<Rightarrow> nat \<Rightarrow> nat \<Rightarrow> nat option" where
  "skip_frame omf fix_dat j2 =
    (if drop_bit 7 fix_dat = 0 \<and> drop_bit 4 fix_dat AND 7 \<le> 3
     then map_option (\<lambda>f. if f AND 0x80 \<noteq> 0 then j2 + 2 else j2 + 1) (rdb omf j2)
     else Some j2)"

definition read_fixup :: "bytes \<Rightarrow> nat \<Rightarrow> nat \<Rightarrow> (nat \<times> nat \<times> nat \<times> nat) option" where
  "read_fixup omf rt j = do {
     hi \<leftarrow> rdb omf j;
     lo \<leftarrow> rdb omf (j + 1);
     fix_dat \<leftarrow> rdb omf (j + 2);
     j2 \<leftarrow> skip_frame omf fix_dat (j + 3);
     (tidx, j3) \<leftarrow> read_index omf j2;
     Some (push_bit 8 (hi AND 3) OR lo, fix_dat AND 3, tidx,
           if drop_bit 2 fix_dat AND 1 = 0 then j3 + (if rt = 0x9D then 4 else 2) else j3)
   }"

lemma read_index_pos: "read_index omf j = Some (t, j') \<Longrightarrow> j < j' \<and> j' \<le> j + 2"
  by (auto simp: read_index_def bind_eq_Some_conv simp del: and_mask_nat split: if_splits)

lemma skip_frame_pos: "skip_frame omf d j = Some j' \<Longrightarrow> j \<le> j' \<and> j' \<le> j + 2"
  by (auto simp: skip_frame_def split: if_splits)

lemma read_fixup_progress: "read_fixup omf rt j = Some (offset, tmethod, tidx, j') \<Longrightarrow> j + 4 \<le> j'"
proof -
  assume "read_fixup omf rt j = Some (offset, tmethod, tidx, j')"
  then obtain d j2 t j3 where "skip_frame omf d (j + 3) = Some j2" "read_index omf j2 = Some (t, j3)" "j3 \<le> j'"
    unfolding read_fixup_def bind_eq_Some_conv by force
  then show ?thesis using skip_frame_pos read_index_pos by fastforce
qed

definition record_fixup :: "nat \<Rightarrow> nat \<Rightarrow> nat \<Rightarrow> nat \<Rightarrow> fix_state \<Rightarrow> fix_state" where
  "record_fixup n_ext offset tmethod tidx st =
    (if \<not> cur_chunk_is_text st then
       if length (dfixups st) < 256
       then st\<lparr>dfixups := dfixups st @
              [\<lparr>code_offset = cur_dchunk_base st + int offset,
                ext_idx = (if tmethod = 2 \<and> 0 < tidx \<and> tidx \<le> n_ext then int tidx - 1 else - 1),
                target_seg = (if tmethod = 2 then 0 else tidx)\<rparr>]\<rparr>
       else st
     else if tmethod = 2 \<and> 0 < tidx \<and> tidx \<le> n_ext
     then st\<lparr>fixups := fixups st @
            [\<lparr>code_offset = cur_chunk_base st + int offset, ext_idx = int tidx - 1, target_seg = 0\<rparr>]\<rparr>
     else if tmethod = 0 \<or> tmethod = 1
     then st\<lparr>fixups := fixups st @
            [\<lparr>code_offset = cur_chunk_base st + int offset, ext_idx = - 1, target_seg = tidx\<rparr>]\<rparr>
     else st)"

function read_fixups :: "bytes \<Rightarrow> nat \<Rightarrow> nat \<Rightarrow> nat \<Rightarrow> nat \<Rightarrow> fix_state \<Rightarrow> fix_state option" where
  "read_fixups omf n_ext rt j e st =
    (if j < e \<and> length (fixups st) < 256 then
       (case rdb omf j of
          None \<Rightarrow> None
        | Some hi \<Rightarrow>
            (case rdb omf (j + 1) of
               None \<Rightarrow> None
             | Some lo \<Rightarrow>
                 if hi AND 0x80 = 0 then read_fixups omf n_ext rt (j + 3) e st
                 else
                   (case read_fixup omf rt j of
                      None \<Rightarrow> None
                    | Some (offset, tmethod, tidx, j') \<Rightarrow>
                        read_fixups omf n_ext rt j' e (record_fixup n_ext offset tmethod tidx st))))
     else Some st)"
  by pat_completeness auto
termination
  by (relation "measure (\<lambda>(omf, n_ext, rt, j, e, st). e - j)") (auto dest: read_fixup_progress)

declare read_fixups.simps [simp del]

definition fixup_step ::
  "bytes \<Rightarrow> segs \<Rightarrow> (nat \<Rightarrow> int) \<Rightarrow> nat \<Rightarrow> nat \<Rightarrow> nat \<Rightarrow> nat \<Rightarrow> fix_state \<Rightarrow> fix_state option" where
  "fixup_step omf sg base n_ext i rt rl st = do {
     st \<leftarrow> (if rt = 0xA1 \<or> rt = 0xA0 then chunk_step omf sg base i rt rl st else Some st);
     if (rt = 0x9D \<or> rt = 0x9C) \<and> length (fixups st) < 256
     then read_fixups omf n_ext rt (i + 3) (i + 3 + rl - 1) st
     else Some st
   }"

section \<open>The three passes\<close>

record omf_module =
  m_segs :: segs
  m_bss_base :: "nat \<Rightarrow> int"
  m_bss_total :: int
  m_coll :: collected
  m_fixups :: "fixup_rec list"
  m_dfixups :: "fixup_rec list"

definition omf_read :: "bytes \<Rightarrow> omf_module option" where
  "omf_read omf = do {
     let w = omf_walk omf 0;
     names \<leftarrow> fold_walk (lnames_step omf) w [[]];
     sg \<leftarrow> fold_walk (segdef_step omf names) w segs_init;
     (bss_base, bss_total) \<leftarrow> bss_layout sg;
     co \<leftarrow> fold_walk (collect_step (length omf) omf sg) w collected_init;
     fx \<leftarrow> fold_walk (fixup_step omf sg (seg_base co) (length (exts co))) w fix_init;
     Some \<lparr>m_segs = sg, m_bss_base = bss_base, m_bss_total = bss_total, m_coll = co,
           m_fixups = fixups fx, m_dfixups = dfixups fx\<rparr>
   }"

end
