(* ===== verification/OmfFacts.thy ===== *)
theory OmfFacts
  imports OmfRead
begin

text \<open>
  What the OMF reader guarantees about any file it gets through: the images fit the buffers
  allocated for them, the tables stay below the sizes of their arrays, and the fixups refer to
  entries that exist.
\<close>

section \<open>Folding over the walk\<close>

lemma omf_walk_stop: "length omf < i + 3 \<Longrightarrow> omf_walk omf i = []"
  by (simp add: omf_walk.simps [of omf i])

lemma omf_walk_go:
  "i + 3 \<le> length omf \<Longrightarrow> omf_walk omf i =
     (let rl = unat (omf ! (i + 1)) OR push_bit 8 (unat (omf ! (i + 2)))
      in (i, unat (omf ! i), rl) # omf_walk omf (i + (3 + rl)))"
  by (simp add: omf_walk.simps [of omf i] del: omf_walk.simps)

text \<open>An invariant of the steps, which may depend on the position reached, holds at the end.\<close>

lemma fold_walk_invariant:
  assumes "fold_walk step (omf_walk omf i) st = Some st'" and "I i st"
    and "\<And>i rt rl st st'. I i st \<Longrightarrow> i + 3 \<le> length omf \<Longrightarrow> step i rt rl st = Some st' \<Longrightarrow> I (i + (3 + rl)) st'"
  shows "\<exists>i'. I i' st'"
  using assms(1,2)
proof (induction "length omf - i" arbitrary: i st rule: less_induct)
  case less
  show ?case
  proof (cases "i + 3 \<le> length omf")
    case False
    then show ?thesis using less.prems by (auto simp: omf_walk_stop)
  next
    case True
    let ?rl = "unat (omf ! (i + 1)) OR push_bit 8 (unat (omf ! (i + 2)))"
    obtain st1 where "step i (unat (omf ! i)) ?rl st = Some st1"
      "fold_walk step (omf_walk omf (i + (3 + ?rl))) st1 = Some st'"
      using less.prems(1) by (auto simp: omf_walk_go [OF True] Let_def bind_eq_Some_conv)
    then show ?thesis using less.hyps [of "i + (3 + ?rl)"] assms(3) [OF less.prems(2) True] True by simp
  qed
qed

lemma fold_walk_state_invariant:
  assumes "fold_walk step (omf_walk omf i) st = Some st'" and "I st"
    and "\<And>i rt rl st st'. I st \<Longrightarrow> step i rt rl st = Some st' \<Longrightarrow> I st'"
  shows "I st'"
  using fold_walk_invariant [where I = "\<lambda>i. I", OF assms(1,2)] assms(3) by blast

lemma fold_walk_cong:
  assumes "I i st"
    and "\<And>i rt rl st. I i st \<Longrightarrow> i + 3 \<le> length omf \<Longrightarrow> step1 i rt rl st = step2 i rt rl st"
    and "\<And>i rt rl st st'. I i st \<Longrightarrow> i + 3 \<le> length omf \<Longrightarrow> step2 i rt rl st = Some st' \<Longrightarrow> I (i + (3 + rl)) st'"
  shows "fold_walk step1 (omf_walk omf i) st = fold_walk step2 (omf_walk omf i) st"
  using assms(1)
proof (induction "length omf - i" arbitrary: i st rule: less_induct)
  case less
  show ?case
  proof (cases "i + 3 \<le> length omf")
    case False
    then show ?thesis by (simp add: omf_walk_stop)
  next
    case True
    let ?rl = "unat (omf ! (i + 1)) OR push_bit 8 (unat (omf ! (i + 2)))"
    have "fold_walk step1 (omf_walk omf (i + (3 + ?rl))) st' = fold_walk step2 (omf_walk omf (i + (3 + ?rl))) st'"
      if "step2 i (unat (omf ! i)) ?rl st = Some st'" for st'
      using less.hyps [of "i + (3 + ?rl)" st'] assms(3) [OF less.prems True that] True by simp
    then show ?thesis
      using assms(2) [OF less.prems True] by (simp add: omf_walk_go [OF True] Let_def split: bind_split)
  qed
qed

section \<open>The images fit their buffers\<close>

text \<open>
  At record position \<open>i\<close> the two images together hold at most \<open>i\<close> bytes, and at most the size of
  the file: the data of a record lies inside the record.
\<close>

definition images_within :: "bytes \<Rightarrow> nat \<Rightarrow> collected \<Rightarrow> bool" where
  "images_within omf i st \<longleftrightarrow>
     length (code_img st) + length (data_img st) \<le> i \<and> length (code_img st) + length (data_img st) \<le> length omf"

lemma ledata_head_span:
  assumes "ledata_head omf i rt rl = Some (s, ds, dl)"
  shows "i + 6 \<le> ds" and "int ds + dl = int i + int rl + 2"
proof -
  obtain j where j: "read_index omf (i + 3) = Some (s, j)" and ds: "ds = j + (if rt = 0xA1 then 4 else 2)"
    and dl: "dl = int rl - (int ds - int (i + 3)) - 1"
    using assms by (auto simp: ledata_head_def Let_def bind_eq_Some_conv)
  show "i + 6 \<le> ds" using read_index_pos [OF j] ds by simp
  show "int ds + dl = int i + int rl + 2" using dl by simp
qed

lemma ledata_step_cap:
  assumes "images_within omf i st" and "length omf \<le> cap"
  shows "ledata_step cap omf sg i rt rl st = ledata_step (length omf) omf sg i rt rl st"
proof (cases "ledata_head omf i rt rl")
  case (Some h)
  obtain s ds dl where h: "h = (s, ds, dl)" by (cases h)
  note span = ledata_head_span [OF Some [unfolded h]]
  have "append_cap cap b xs = append_cap (length omf) b xs"
    if "0 < dl" "int ds + dl \<le> int (length omf)" "length xs = nat dl" "length b \<le> i" for b xs :: bytes
    using that span assms(2) by (simp add: append_cap_def)
  moreover have "length (code_img st) \<le> i" "length (data_img st) \<le> i"
    using assms(1) by (auto simp: images_within_def)
  ultimately show ?thesis
    unfolding ledata_step_def Some h Option.bind.bind_lunit prod.case
    by (intro if_cong Option.bind_cong refl) (auto dest: rd_slice_length)
qed (simp add: ledata_step_def)

lemma ledata_step_within:
  assumes "images_within omf i st" and "ledata_step cap omf sg i rt rl st = Some st'"
  shows "images_within omf (i + (3 + rl)) st'"
proof -
  obtain s ds dl where h: "ledata_head omf i rt rl = Some (s, ds, dl)"
    using assms(2) by (auto simp: ledata_step_def bind_eq_Some_conv)
  note span = ledata_head_span [OF h]
  consider "code_img st' = code_img st" "data_img st' = data_img st"
    | "0 < dl" "int ds + dl \<le> int (length omf)"
      "length (code_img st') + length (data_img st') = length (code_img st) + length (data_img st) + nat dl"
    using assms(2)
    by (auto simp: ledata_step_def h bind_eq_Some_conv append_cap_def dest: rd_slice_length split: if_splits)
  then show ?thesis
    using assms(1) span by cases (auto simp: images_within_def)
qed

lemma collect_step_images:
  assumes "collect_step cap omf sg i rt rl st = Some st'" and "\<not> (rt = 0xA1 \<or> rt = 0xA0)"
  shows "code_img st' = code_img st" and "data_img st' = data_img st" and "seg_base st' = seg_base st"
  using assms
  by (auto simp: collect_step_def pubdef_step_def extdef_step_def Let_def bind_eq_Some_conv split: if_splits)

lemma collect_step_within:
  assumes "images_within omf i st" and "collect_step cap omf sg i rt rl st = Some st'"
  shows "images_within omf (i + (3 + rl)) st'"
proof (cases "rt = 0xA1 \<or> rt = 0xA0")
  case True
  then show ?thesis using assms ledata_step_within by (simp add: collect_step_def)
next
  case False
  then show ?thesis using collect_step_images [OF assms(2)] assms(1) by (simp add: images_within_def)
qed

text \<open>
  The code and the data image never outgrow the two buffers of the size of the file that
  pass 1 copies them into, whatever the file holds: the pass does the same with buffers of any
  larger size, and what it collects is no longer than the file.
\<close>

theorem images_fit_buffers:
  assumes "length omf \<le> cap"
  shows "fold_walk (collect_step cap omf sg) (omf_walk omf 0) collected_init
      = fold_walk (collect_step (length omf) omf sg) (omf_walk omf 0) collected_init
    \<and> (\<forall>st. fold_walk (collect_step cap omf sg) (omf_walk omf 0) collected_init = Some st \<longrightarrow>
         length (code_img st) + length (data_img st) \<le> length omf)"
proof
  have init: "images_within omf 0 collected_init"
    by (simp add: images_within_def collected_init_def)
  show "fold_walk (collect_step cap omf sg) (omf_walk omf 0) collected_init
      = fold_walk (collect_step (length omf) omf sg) (omf_walk omf 0) collected_init"
    by (rule fold_walk_cong [where I = "images_within omf", OF init])
       (simp_all add: collect_step_def [of cap] collect_step_def [of "length omf"] ledata_step_cap [OF _ assms]
         collect_step_within [of _ _ _ "length omf", unfolded collect_step_def [of "length omf"]])
  show "\<forall>st. fold_walk (collect_step cap omf sg) (omf_walk omf 0) collected_init = Some st \<longrightarrow>
         length (code_img st) + length (data_img st) \<le> length omf"
    using fold_walk_invariant [where I = "images_within omf", OF _ init collect_step_within]
    by (fastforce simp: images_within_def)
qed

theorem images_fit_buffers_witness:
  "\<exists>st. fold_walk (collect_step 20 [0xA0, 5, 0, 1, 0, 0, 0xC3, 0] segs_init) (omf_walk [0xA0, 5, 0, 1, 0, 0, 0xC3, 0] 0) collected_init = Some st
     \<and> length (code_img st) + length (data_img st) \<le> 8"
proof -
  have "fold_walk (collect_step 20 [0xA0, 5, 0, 1, 0, 0, 0xC3, 0] segs_init) (omf_walk [0xA0, 5, 0, 1, 0, 0, 0xC3, 0] 0) collected_init \<noteq> None"
    by code_simp
  then show ?thesis
    using images_fit_buffers [of "[0xA0, 5, 0, 1, 0, 0, 0xC3, 0]" 20 segs_init] by auto
qed


section \<open>What the tables hold\<close>

definition fixup_wf :: "nat \<Rightarrow> fixup_rec \<Rightarrow> bool" where
  "fixup_wf n f \<longleftrightarrow> 0 \<le> code_offset f \<and> - 1 \<le> ext_idx f \<and> ext_idx f < int n \<and> target_seg f < 2 ^ 15"

definition pub_wf :: "pub_rec \<Rightarrow> bool" where
  "pub_wf p \<longleftrightarrow> 0 \<notin> set (pub_name p) \<and> length (pub_name p) < 256 \<and> pub_off p < 2 ^ 32 \<and> pub_seg p < 2 ^ 8"

definition name_wf :: "bytes \<Rightarrow> bool" where
  "name_wf e \<longleftrightarrow> 0 \<notin> set e \<and> length e < 256"

definition collected_wf :: "collected \<Rightarrow> bool" where
  "collected_wf co \<longleftrightarrow> length (pubs co) \<le> 64 \<and> length (exts co) \<le> 64
     \<and> list_all pub_wf (pubs co) \<and> list_all name_wf (exts co)
     \<and> (\<forall>z. - 1 \<le> seg_base co z \<and> seg_base co z \<le> int (length (data_img co)))"

definition segs_wf :: "segs \<Rightarrow> bool" where
  "segs_wf sg \<longleftrightarrow> 1 \<le> text_seg_idx sg
     \<and> (\<forall>z. (seg_is_data sg z \<or> seg_is_bss sg z \<longrightarrow> 0 < z \<and> z < 64) \<and> \<not> (seg_is_data sg z \<and> seg_is_bss sg z)
           \<and> seg_len sg z < 2 ^ 32)"

definition fix_state_wf :: "nat \<Rightarrow> fix_state \<Rightarrow> bool" where
  "fix_state_wf n st \<longleftrightarrow> length (fixups st) \<le> 256 \<and> length (dfixups st) \<le> 256
     \<and> list_all (fixup_wf n) (fixups st) \<and> list_all (fixup_wf n) (dfixups st)
     \<and> 0 \<le> cur_chunk_base st \<and> 0 \<le> run_text st \<and> 0 \<le> cur_dchunk_base st \<and> (\<forall>z. 0 \<le> seg_packed st z)"

definition module_wf :: "omf_module \<Rightarrow> bool" where
  "module_wf m \<longleftrightarrow> segs_wf (m_segs m) \<and> collected_wf (m_coll m)
     \<and> length (m_fixups m) \<le> 256 \<and> length (m_dfixups m) \<le> 256
     \<and> list_all (fixup_wf (length (exts (m_coll m)))) (m_fixups m)
     \<and> list_all (fixup_wf (length (exts (m_coll m)))) (m_dfixups m)"

subsection \<open>Bytes and small integers\<close>

lemma rdb_bound [bound_intros]: "rdb omf i = Some b \<Longrightarrow> b < 256"
  by (auto simp: rdb_def)

lemma rd_le_bound: "rd_le omf i n = Some v \<Longrightarrow> v < 256 ^ n"
  using le_val_bound rd_slice_length by (fastforce simp: rd_le_def)

lemma or_index: "b < 256 \<Longrightarrow> push_bit 8 (h::nat) OR b = 256 * h + b"
  using or_disjoint_nat [of b 8 h] by (simp add: or.commute)

lemma read_index_bound: "read_index omf j = Some (t, j') \<Longrightarrow> t < 2 ^ 15"
  by (auto simp: read_index_def bind_eq_Some_conv or_index byte_simps dest!: rdb_bound split: if_splits)

lemma c_str_no_nul: "0 \<notin> set (c_str b)"
  by (auto simp: c_str_def dest: set_takeWhileD)

lemma strip_name_no_nul: "0 \<notin> set (strip_name b)"
  by (simp add: strip_name_def c_str_no_nul)


lemma strip_name_length: "length n < 256 \<Longrightarrow> length (strip_name n) < 256"
proof -
  have "length (c_str b) \<le> length b" for b by (simp add: c_str_def length_takeWhile_le)
  from this [of n] this [of "butlast n"] show "length n < 256 \<Longrightarrow> length (strip_name n) < 256"
    unfolding strip_name_def by (auto split: if_splits)
qed

lemma name_wf_strip: "rdb omf j = Some nl \<Longrightarrow> rd_slice omf i nl = Some n \<Longrightarrow> name_wf (strip_name n)"
  using rdb_bound [of omf j nl] rd_slice_length [of omf i nl n]
  by (simp add: name_wf_def strip_name_no_nul strip_name_length)

subsection \<open>The loops of pass 1\<close>

lemma read_pubs_wf:
  "read_pubs omf loc wide seg j e ps = Some ps' \<Longrightarrow> length ps \<le> 64 \<Longrightarrow> list_all pub_wf ps \<Longrightarrow> seg < 2 ^ 8 \<Longrightarrow>
   length ps' \<le> 64 \<and> list_all pub_wf ps'"
proof (induction omf loc wide seg j e ps rule: read_pubs.induct)
  case (1 omf loc wide seg j e ps)
  show ?case
  proof (cases "ps' = ps")
    case False
    then obtain nl n off where go: "j < e" "length ps < 64" "rdb omf j = Some nl" "\<not> (nl = 0 \<or> e < j + 1 + nl)"
      "rd_slice omf (j + 1) nl = Some n" "rd_le omf (j + 1 + nl) (if wide then 4 else 2) = Some off"
      using "1.prems"(1)
      by (auto simp: read_pubs.simps [of omf loc wide seg j e ps] Let_def split: if_splits option.splits)
    have "256 ^ (if wide then 4 else 2) \<le> (2 ^ 32 :: nat)" by simp
    with rd_le_bound [OF go(6)] have off: "off < 2 ^ 32" by (rule order_less_le_trans)
    show ?thesis
      using "1.prems" go off
      by (intro "1.IH" [OF conjI [OF go(1,2)] go(3-6) refl])
         (use name_wf_strip [OF go(3,5)] in
           \<open>auto simp: read_pubs.simps [of omf loc wide seg j e ps] Let_def pub_wf_def name_wf_def\<close>)
  qed (use "1.prems" in simp)
qed

lemma read_exts_wf:
  "read_exts omf j e es = Some es' \<Longrightarrow> length es \<le> 64 \<Longrightarrow> list_all name_wf es \<Longrightarrow>
   length es' \<le> 64 \<and> list_all name_wf es'"
proof (induction omf j e es rule: read_exts.induct)
  case (1 omf j e es)
  show ?case
  proof (cases "j < e \<and> length es < 64")
    case True
    then obtain nl where nl: "rdb omf j = Some nl"
      using "1.prems"(1) by (auto simp: read_exts.simps [of omf j e es] split: option.splits)
    note eq = read_exts.simps [of omf j e es]
    show ?thesis
    proof (cases "0 < nl \<and> j + 1 + nl \<le> e")
      case True': True
      then obtain n where n: "rd_slice omf (j + 1) nl = Some n"
        using True nl "1.prems"(1) eq by (auto split: option.splits)
      show ?thesis
        using "1.prems" True nl n True' eq
        by (intro "1.IH"(1) [OF True nl True' n]) (auto simp: name_wf_strip [OF nl n])
    next
      case False
      then have "read_exts omf (if j + 1 < e then j + 1 + 1 else j + 1) e es = Some es'"
        using "1.prems"(1) True nl eq by auto
      then show ?thesis using "1.prems"(2,3) by (rule "1.IH"(2) [OF True nl False])
    qed
  qed (use "1.prems" in \<open>auto simp: read_exts.simps [of omf j e es]\<close>)
qed

lemma ledata_step_cases:
  assumes "ledata_step cap omf sg i rt rl st = Some st'"
  shows "st' = st \<or> (\<exists>xs. st' = st\<lparr>code_img := code_img st @ xs\<rparr>)
    \<or> (\<exists>s xs. st' = st\<lparr>seg_base := (if seg_base st s < 0 then (seg_base st)(s := int (length (data_img st)))
        else seg_base st), data_img := data_img st @ xs\<rparr>)"
proof -
  obtain s ds dl where "ledata_head omf i rt rl = Some (s, ds, dl)"
    using assms by (auto simp: ledata_step_def bind_eq_Some_conv)
  with assms have "(if 0 < dl \<and> int ds + dl \<le> int (length omf) then
       if s = text_seg_idx sg then do {
         xs \<leftarrow> rd_slice omf ds (nat dl);
         c \<leftarrow> append_cap cap (code_img st) xs;
         Some (st\<lparr>code_img := c\<rparr>)
       } else if 0 < s \<and> s < 512 \<and> seg_is_data sg s then do {
         xs \<leftarrow> rd_slice omf ds (nat dl);
         d \<leftarrow> append_cap cap (data_img st) xs;
         Some (st\<lparr>seg_base := (if seg_base st s < 0
                              then (seg_base st)(s := int (length (data_img st)))
                              else seg_base st),
                  data_img := d\<rparr>)
       } else Some st
     else Some st) = Some st'" (is "(if ?p then if ?q then ?x else if ?r then ?y else _ else _) = _")
    by (simp only: ledata_step_def Option.bind.bind_lunit prod.case)
  then consider "st' = st" | "?x = Some st'" | "?y = Some st'" by (metis option.inject)
  then show ?thesis
  proof cases
    case 2
    then obtain xs where "st' = st\<lparr>code_img := code_img st @ xs\<rparr>"
      by (auto simp: bind_eq_Some_conv append_cap_def split: if_splits)
    then show ?thesis by blast
  next
    case 3
    then obtain xs where "st' = st\<lparr>seg_base := (if seg_base st s < 0 then (seg_base st)(s := int (length (data_img st)))
        else seg_base st), data_img := data_img st @ xs\<rparr>"
      unfolding bind_eq_Some_conv append_cap_def by (metis option.inject option.distinct(1))
    then show ?thesis by blast
  qed simp
qed

lemma collect_step_wf:
  assumes "collected_wf st" and "collect_step cap omf sg i rt rl st = Some st'"
  shows "collected_wf st'"
proof -
  consider "rt = 0xA1 \<or> rt = 0xA0" "ledata_step cap omf sg i rt rl st = Some st'"
    | "pubdef_step omf i rt rl st = Some st'" | "extdef_step omf i rt rl st = Some st'" | "st' = st"
    using assms(2) unfolding collect_step_def by (metis option.inject)
  then show ?thesis
  proof cases
    case 1
    have base: "- 1 \<le> seg_base st z" "seg_base st z \<le> int (length (data_img st))" for z
      using assms(1) by (auto simp: collected_wf_def)
    from ledata_step_cases [OF 1(2)] show ?thesis
    proof (elim disjE exE)
      fix s xs
      assume st': "st' = st\<lparr>seg_base := (if seg_base st s < 0 then (seg_base st)(s := int (length (data_img st)))
        else seg_base st), data_img := data_img st @ xs\<rparr>"
      have "seg_base st z \<le> int (length (data_img st)) + int (length xs)" for z
        using base(2) [of z] by linarith
      then show ?thesis using assms(1) base by (auto simp: st' collected_wf_def)
    qed (use assms(1) in \<open>simp_all add: collected_wf_def\<close>)
  next
    case 2
    then obtain s j ps where "rdb omf (i + 4) = Some s"
      "read_pubs omf (rt = 0xB6 \<or> rt = 0xB7) (rt = 0x91 \<or> rt = 0xB7) s j (i + 3 + rl - 1) (pubs st) = Some ps"
      "st' = st\<lparr>pubs := ps\<rparr>"
      by (auto simp: pubdef_step_def Let_def bind_eq_Some_conv split: if_splits)
    then show ?thesis using assms(1) read_pubs_wf rdb_bound by (fastforce simp: collected_wf_def)
  next
    case 3
    then show ?thesis using assms(1) read_exts_wf by (fastforce simp: extdef_step_def collected_wf_def)
  qed (use assms(1) in simp)
qed


subsection \<open>Segments\<close>

lemma seg_classify_wf:
  assumes "segs_wf st" and "1 \<le> num"
  shows "segs_wf (seg_classify names num ni ci st)"
proof -
  have distinct: "s_DATA \<noteq> s_BSS" by (simp add: s_DATA_def s_BSS_def)
  have code: "segs_wf (s\<lparr>text_seg_idx := num\<rparr>)" and data: "segs_wf (s\<lparr>data_seg_idx := int num\<rparr>)"
    if "segs_wf s" for s using that assms(2) by (auto simp: segs_wf_def)
  have cls: "segs_wf (if num < 64 then st\<lparr>seg_is_data := (seg_is_data st)(num := (c = s_DATA)),
      seg_is_bss := (seg_is_bss st)(num := (c = s_BSS))\<rparr> else st)" for c
    using assms distinct by (auto simp: segs_wf_def)
  show ?thesis
    unfolding seg_classify_def Let_def
    by (intro if_branches [where P = segs_wf] code data cls assms(1))
qed

lemma segdef_step_wf:
  assumes "segs_wf sg" and "segdef_step omf names ti trt trl sg = Some sg'"
  shows "segs_wf sg'"
proof (cases "trt = 0x99")
  case True
  let ?num = "seg_num sg + 1"
  obtain slen ni ci where slen: "rd_le omf (ti + 4) 4 = Some slen"
    and sg': "sg' = seg_classify names ?num ni ci
      (sg\<lparr>seg_num := ?num, seg_len := (if ?num < 64 then (seg_len sg)(?num := slen) else seg_len sg)\<rparr>)"
    using assms(2) unfolding segdef_step_def Let_def if_P [OF True] bind_eq_Some_conv option.inject by blast
  have "slen < 2 ^ 32" using rd_le_bound [OF slen] by simp
  then show ?thesis
    unfolding sg' using assms(1) by (intro seg_classify_wf) (auto simp: segs_wf_def)
next
  case False
  then show ?thesis using assms by (simp add: segdef_step_def)
qed

subsection \<open>Fixups\<close>

lemma chunk_step_wf:
  assumes "fix_state_wf n st" and "chunk_step omf sg base i rt rl st = Some st'"
  shows "fix_state_wf n st'"
proof -
  obtain s ds dl where h: "ledata_head omf i rt rl = Some (s, ds, dl)"
    using assms(2) by (auto simp: chunk_step_def bind_eq_Some_conv)
  show ?thesis
    using assms by (auto simp: chunk_step_def h Let_def fix_state_wf_def split: if_splits)
qed

lemma record_fixup_wf:
  assumes "fix_state_wf n st" and "length (fixups st) < 256" and "tidx < 2 ^ 15"
  shows "fix_state_wf n (record_fixup n offset tmethod tidx st)"
proof -
  have fw: "fixup_wf n \<lparr>code_offset = b + int offset, ext_idx = e, target_seg = t\<rparr>"
    if "0 \<le> b" "e = - 1 \<or> (0 < tidx \<and> tidx \<le> n \<and> e = int tidx - 1)" "t \<le> tidx" for b e t
    using that assms(3) by (auto simp: fixup_wf_def)
  show ?thesis
    unfolding record_fixup_def
    by (intro if_branches [where P = "fix_state_wf n"])
       (use assms(1,2) fw in \<open>auto simp: fix_state_wf_def\<close>)
qed

lemma read_fixup_index: "read_fixup omf rt j = Some (offset, tmethod, tidx, j') \<Longrightarrow> tidx < 2 ^ 15"
proof -
  assume "read_fixup omf rt j = Some (offset, tmethod, tidx, j')"
  then obtain j2 j3 where "read_index omf j2 = Some (tidx, j3)"
    unfolding read_fixup_def bind_eq_Some_conv by force
  then show ?thesis by (rule read_index_bound)
qed

lemma read_fixups_wf:
  "fix_state_wf n st \<Longrightarrow> read_fixups omf n rt j e st = Some st' \<Longrightarrow> fix_state_wf n st'"
proof (induction omf n rt j e st rule: read_fixups.induct)
  case (1 omf n rt j e st)
  show ?case
  proof (cases "j < e \<and> length (fixups st) < 256")
    case True
    obtain hi lo where hl: "rdb omf j = Some hi" "rdb omf (j + 1) = Some lo"
      using "1.prems"(2) True by (auto simp: read_fixups.simps [of omf n rt j e st] split: option.splits)
    show ?thesis
    proof (cases "hi AND 0x80 = 0")
      case thread: True
      then have "read_fixups omf n rt (j + 3) e st = Some st'"
        using "1.prems"(2) True hl by (simp add: read_fixups.simps [of omf n rt j e st])
      then show ?thesis using "1.IH"(1) [OF True hl thread "1.prems"(1)] by blast
    next
      case False
      obtain offset tmethod tidx j' where f: "read_fixup omf rt j = Some (offset, tmethod, tidx, j')"
        using "1.prems"(2) True hl False
        by (auto simp: read_fixups.simps [of omf n rt j e st] split: option.splits)
      then have run: "read_fixups omf n rt j' e (record_fixup n offset tmethod tidx st) = Some st'"
        using "1.prems"(2) True hl False by (simp add: read_fixups.simps [of omf n rt j e st])
      have "fix_state_wf n (record_fixup n offset tmethod tidx st)"
        using record_fixup_wf [OF "1.prems"(1)] True read_fixup_index [OF f] by simp
      then show ?thesis using "1.IH"(2) [OF True hl False f refl refl refl _ run] by blast
    qed
  qed (use "1.prems" in \<open>auto simp: read_fixups.simps [of omf n rt j e st]\<close>)
qed

lemma fixup_step_wf:
  assumes "fix_state_wf n st" and "fixup_step omf sg base n i rt rl st = Some st'"
  shows "fix_state_wf n st'"
proof -
  obtain st1 where "(if rt = 0xA1 \<or> rt = 0xA0 then chunk_step omf sg base i rt rl st else Some st) = Some st1"
    and 2: "(if (rt = 0x9D \<or> rt = 0x9C) \<and> length (fixups st1) < 256
      then read_fixups omf n rt (i + 3) (i + 3 + rl - 1) st1 else Some st1) = Some st'"
    using assms(2) unfolding fixup_step_def bind_eq_Some_conv by blast
  then have "fix_state_wf n st1" using assms(1) chunk_step_wf by (metis option.inject)
  then show ?thesis using 2 read_fixups_wf by (metis option.inject)
qed

section \<open>The module read\<close>

lemma omf_read_parts:
  assumes "omf_read omf = Some m"
  obtains names sg b co fx where
    "fold_walk (segdef_step omf names) (omf_walk omf 0) segs_init = Some sg"
    "fold_walk (collect_step (length omf) omf sg) (omf_walk omf 0) collected_init = Some co"
    "fold_walk (fixup_step omf sg (seg_base co) (length (exts co))) (omf_walk omf 0) fix_init = Some fx"
    "m = \<lparr>m_segs = sg, m_bss_base = fst b, m_bss_total = snd b, m_coll = co,
          m_fixups = fixups fx, m_dfixups = dfixups fx\<rparr>"
  using assms by (auto simp: omf_read_def Let_def bind_eq_Some_conv)

lemma omf_read_result:
  assumes "omf_read omf = Some m"
  shows "module_wf m \<and> length (code_img (m_coll m)) + length (data_img (m_coll m)) \<le> length omf"
proof (rule omf_read_parts [OF assms])
  fix names sg b co fx
  assume sg: "fold_walk (segdef_step omf names) (omf_walk omf 0) segs_init = Some sg"
    and co: "fold_walk (collect_step (length omf) omf sg) (omf_walk omf 0) collected_init = Some co"
    and fx: "fold_walk (fixup_step omf sg (seg_base co) (length (exts co))) (omf_walk omf 0) fix_init = Some fx"
    and m: "m = \<lparr>m_segs = sg, m_bss_base = fst b, m_bss_total = snd b, m_coll = co,
          m_fixups = fixups fx, m_dfixups = dfixups fx\<rparr>"
  have "segs_wf sg"
    by (rule fold_walk_state_invariant [OF sg _ segdef_step_wf]) (simp_all add: segs_wf_def segs_init_def)
  moreover have "collected_wf co"
    by (rule fold_walk_state_invariant [OF co _ collect_step_wf])
       (simp_all add: collected_wf_def collected_init_def)
  moreover have "fix_state_wf (length (exts co)) fx"
    by (rule fold_walk_state_invariant [OF fx _ fixup_step_wf])
       (simp_all add: fix_state_wf_def fix_init_def)
  moreover have "length (code_img co) + length (data_img co) \<le> length omf"
    using fold_walk_invariant [where I = "images_within omf", OF co _ collect_step_within]
    by (force simp: images_within_def collected_init_def)
  ultimately show ?thesis by (simp add: m module_wf_def fix_state_wf_def)
qed

lemmas omf_module_wf = omf_read_result [THEN conjunct1]

text \<open>
  C9.  Whatever the file holds, a module the reader returns is well formed: at most 64 publics
  and 64 externals, at most 256 fixups of each kind, every fixup at a nonnegative offset and
  naming an external of the table or none, every segment base inside the data image, every name a
  C string.
\<close>

theorem omf_read_wf:
  assumes "omf_read omf = Some m"
  shows "module_wf m \<and> length (code_img (m_coll m)) + length (data_img (m_coll m)) \<le> length omf"
  using assms by (rule omf_read_result)

end
