(* ===== verification/OmfWrite.thy ===== *)
theory OmfWrite
  imports OmfFacts
begin

text \<open>
  The record layer of the OMF writer, \<open>bld/cg/intel/c/x86obj.c\<close>: the output primitives that
  append to an \<open>array_control\<close>, the checksum, \<open>PutObjOMFRec\<close>, the patching of a record already
  written, and the bodies of the records the 386 code generator emits.

  An \<open>array_control\<close> is the list of the bytes in use; the object file is the list of the bytes
  written.  \<open>_TargetShort\<close> and its kin are the identity on the little-endian host and
  target this models.
\<close>

section \<open>Appending to a buffer\<close>

definition out_byte :: "nat \<Rightarrow> bytes \<Rightarrow> bytes" where
  "out_byte v dest = dest @ [word_of_nat v]"

definition out_short :: "nat \<Rightarrow> bytes \<Rightarrow> bytes" where
  "out_short v dest = dest @ le_bytes 2 v"

definition out_long_int :: "nat \<Rightarrow> bytes \<Rightarrow> bytes" where
  "out_long_int v dest = dest @ le_bytes 4 v"

definition out_offset :: "nat \<Rightarrow> bytes \<Rightarrow> bytes" where
  "out_offset v dest = dest @ le_bytes 4 v"

definition out_idx :: "nat \<Rightarrow> bytes \<Rightarrow> bytes" where
  "out_idx v dest =
    (let dest = (if 128 \<le> v then out_byte (drop_bit 8 v OR 0x80) dest else dest)
     in out_byte v dest)"

definition out_buffer :: "bytes \<Rightarrow> bytes \<Rightarrow> bytes" where
  "out_buffer name dest = dest @ name"

definition out_name :: "bytes \<Rightarrow> bytes \<Rightarrow> bytes" where
  "out_name name dest =
    (let len = length name; len = (if 256 \<le> len then 255 else len)
     in out_buffer (take len name) (out_byte len dest))"

section \<open>Records and checksums\<close>

definition do_sum :: "bytes \<Rightarrow> u8" where
  "do_sum buff = fold (\<lambda>b sum. sum + b) buff 0"

definition put_obj_rec :: "u8 \<Rightarrow> bytes \<Rightarrow> bytes" where
  "put_obj_rec cls used =
    (if used = [] then []
     else let blen = le_bytes 2 (length used + 1);
              cksum = - (cls + do_sum blen + do_sum used)
          in [cls] @ blen @ used @ [cksum])"

text \<open>
  \<open>PatchObj\<close>: the record starts at \<open>ref\<close> in the object file; the bytes at \<open>roffset\<close> of its body
  are replaced and the checksum at the end of the record is adjusted.
\<close>

definition patch_obj :: "bytes \<Rightarrow> nat \<Rightarrow> nat \<Rightarrow> bytes \<Rightarrow> bytes option" where
  "patch_obj file ref roffset buff = do {
     reclen \<leftarrow> map_option le_val (rd_slice file (ref + 1) 2);
     inbuff \<leftarrow> rd_slice file (ref + roffset + 3) (length buff);
     file' \<leftarrow> wr_slice file (ref + roffset + 3) buff;
     cksum \<leftarrow> rd file' (ref + 2 + reclen);
     wr_slice file' (ref + 2 + reclen) [cksum + do_sum inbuff - do_sum buff]
   }"

section \<open>The bodies of the records\<close>

text \<open>
  \<open>FlushNames\<close> puts the names of the cache into LNAMES records, starting a new record when the
  next name would not fit the 512-byte buffer.
\<close>

fun flush_names :: "bytes list \<Rightarrow> bytes \<Rightarrow> bytes" where
  "flush_names [] buff = put_obj_rec 0x96 buff"
| "flush_names (name # names) buff =
    (if 511 < length buff + length name
     then put_obj_rec 0x96 buff @ flush_names names ([word_of_nat (length name)] @ name)
     else flush_names names (buff @ [word_of_nat (length name)] @ name))"

text \<open>\<open>DoASegDef\<close>: the size is written as zero and patched in by \<open>FiniTarg\<close>.\<close>

definition segdef_body :: "nat \<Rightarrow> nat \<Rightarrow> nat \<Rightarrow> nat \<Rightarrow> nat \<Rightarrow> bytes" where
  "segdef_body attr sz nidx cidx null_idx =
     out_idx null_idx (out_idx cidx (out_idx nidx (out_offset sz (out_byte attr []))))"

text \<open>\<open>OutLEDataStart\<close> and \<open>OutDBytes\<close> into a fresh LEDATA buffer.\<close>

definition ledata_start :: "nat \<Rightarrow> nat \<Rightarrow> bytes" where
  "ledata_start sidx location = out_offset location (out_idx sidx [])"

text \<open>\<open>OutExport\<close>: the head of a PUBDEF body, and one symbol.\<close>

definition export_head :: "nat \<Rightarrow> nat \<Rightarrow> bytes" where
  "export_head grp sidx = out_idx sidx (out_idx grp [])"

definition out_export :: "bytes \<times> nat \<Rightarrow> bytes \<Rightarrow> bytes" where
  "out_export ex dest = (case ex of (name, location) \<Rightarrow> out_idx 0 (out_offset location (out_name name dest)))"

text \<open>\<open>GenImport\<close>: one external name and its type index.\<close>

definition out_import :: "bytes \<Rightarrow> bytes \<Rightarrow> bytes" where
  "out_import name dest = out_idx 0 (out_name name dest)"

text \<open>
  \<open>DoFix\<close>: \<open>base\<close> is 0 for a segment, 1 for a group, 2 for an import; \<open>flat\<close> is the test for the
  flat model with a class other than \<open>F_PTR\<close>, and \<open>grp_idx\<close> the index of the FLAT group.
\<close>

record fix_req =
  fx_rel :: bool
  fx_loc :: nat
  fx_where :: nat
  fx_base :: nat
  fx_idx :: nat
  fx_sidx :: nat

definition do_fix :: "bool \<Rightarrow> nat \<Rightarrow> fix_req \<Rightarrow> bytes \<Rightarrow> bytes" where
  "do_fix flat grp_idx f fixes =
    (let b = (if fx_rel f then 0x80 else 0xC0);
         cursor = (\<lambda>fixdat. out_byte fixdat (out_byte (fx_where f)
                     (out_byte (b + push_bit 2 (fx_loc f) + drop_bit 8 (fx_where f)) fixes)))
     in if flat then
          if fx_base f = 1 then out_idx (fx_sidx f) (out_idx grp_idx (cursor (0x10 + 0x04 + 0)))
          else out_idx (fx_idx f) (out_idx grp_idx (cursor (0x10 + 0x04 + fx_base f)))
        else if fx_base f = 1 then out_idx (fx_sidx f) (out_idx (fx_idx f) (cursor (0x10 + 0x04 + 0)))
        else out_idx (fx_idx f) (cursor (0x50 + 0x04 + fx_base f)))"

section \<open>Checksums\<close>

lemma fold_sum_acc: "fold (\<lambda>b sum. sum + b) bs (a :: u8) = a + fold (\<lambda>b sum. sum + b) bs 0"
proof (induction bs arbitrary: a)
  case (Cons b bs)
  show ?case using Cons.IH [of "a + b"] Cons.IH [of b] by (simp add: add.assoc)
qed simp

lemma do_sum_Nil [byte_simps]: "do_sum [] = 0"
  by (simp add: do_sum_def)

lemma do_sum_Cons [byte_simps]: "do_sum (b # bs) = b + do_sum bs"
  unfolding do_sum_def by (simp add: fold_sum_acc [of _ b])

lemma do_sum_append [byte_simps]: "do_sum (a @ b) = do_sum a + do_sum b"
  by (induction a) (simp_all add: byte_simps add.assoc)

text \<open>A record as the writer leaves it in the file: its length field is right and its bytes sum to zero.\<close>

definition valid_rec :: "bytes \<Rightarrow> bool" where
  "valid_rec r \<longleftrightarrow> 4 \<le> length r \<and> le_val (take 2 (drop 1 r)) = length r - 3 \<and> do_sum r = 0"

text \<open>
  \<open>PutObjOMFRec\<close> writes a valid record: type, a length that counts the body and the
  checksum, the body, and a checksum that makes the bytes of the whole record sum to zero.
\<close>

theorem put_obj_rec_valid:
  assumes "used \<noteq> []" and "length used < 2 ^ 16 - 1"
  shows "valid_rec (put_obj_rec cls used) \<and> length (put_obj_rec cls used) = length used + 4"
proof -
  have "le_val (le_bytes 2 (length used + 1)) = length used + 1"
    using assms(2) by (simp add: le_val_le_bytes del: le_bytes.simps)
  then show ?thesis
    using assms(1) by (simp add: put_obj_rec_def valid_rec_def Let_def byte_simps del: le_val_le_bytes)
qed

theorem put_obj_rec_valid_witness: "valid_rec (put_obj_rec 0x8A [0])"
  using put_obj_rec_valid [of "[0]" "0x8A"] by simp

lemma wr_slice_total: "i + length xs \<le> length b \<Longrightarrow> \<exists>b'. wr_slice b i xs = Some b'"
  by (simp add: wr_slice_def)

lemma wr_slice_sum:
  assumes "wr_slice file i xs = Some file'"
  shows "do_sum file' = do_sum file - do_sum (take (length xs) (drop i file)) + do_sum xs"
proof -
  have f': "file' = take i file @ xs @ drop (i + length xs) file" using assms by (simp add: byte_simps)
  have "do_sum file = do_sum (take i file @ take (length xs) (drop i file) @ drop (i + length xs) file)"
    by (metis append_take_drop_id add.commute drop_drop)
  then show ?thesis by (simp add: f' do_sum_append)
qed

text \<open>
  Patching the body of a valid record -- how segment sizes and forward references are filled
  in -- leaves a valid record: the bytes are replaced, nothing else of the body changes, and the
  checksum follows.  Only the body may be patched.
\<close>

theorem patch_obj_valid:
  assumes v: "valid_rec r" and b: "roffset + length buff \<le> length r - 4"
  shows "\<exists>r'. patch_obj (pre @ r @ post) (length pre) roffset buff = Some (pre @ r' @ post)
    \<and> valid_rec r' \<and> length r' = length r
    \<and> take (length buff) (drop (roffset + 3) r') = buff
    \<and> (\<forall>i < length r - 1. (i < roffset + 3 \<or> roffset + 3 + length buff \<le> i) \<longrightarrow> r' ! i = r ! i)"
proof -
  have len: "4 \<le> length r" "le_val (take 2 (drop 1 r)) = length r - 3" "do_sum r = 0"
    using v by (auto simp: valid_rec_def)
  have inr: "roffset + 3 + length buff \<le> length r" using b len(1) by linarith
  obtain r1 where r1: "wr_slice r (roffset + 3) buff = Some r1"
    using wr_slice_total [OF inr] by blast
  note l1 = wr_slice_length [OF r1]
  let ?old = "take (length buff) (drop (roffset + 3) r)"
  obtain r' where r': "wr_slice r1 (length r - 1) [r1 ! (length r - 1) + do_sum ?old - do_sum buff] = Some r'"
  proof -
    have "length r - 1 + length [x] \<le> length r1" for x :: u8 using len(1) l1 by simp
    from wr_slice_total [OF this] show thesis using that by blast
  qed
  note l2 = wr_slice_length [OF r']
  have shift_rd: "rd_slice (pre @ r @ post) (length pre + i) n = Some (take n (drop i r))" if "i + n \<le> length r" for i n
    using that by (simp add: rd_slice_def)
  have shift_wr: "wr_slice (pre @ s @ post) (length pre + i) xs = Some (pre @ s' @ post)"
    if "wr_slice s i xs = Some s'" for s s' i xs
    using that by (auto simp: byte_simps)
  have run: "patch_obj (pre @ r @ post) (length pre) roffset buff = Some (pre @ r' @ post)"
  proof -
    have 1: "rd_slice (pre @ r @ post) (length pre + 1) 2 = Some (take 2 (drop 1 r))"
      using shift_rd [of 1 2] len(1) by simp
    have 2: "rd_slice (pre @ r @ post) (length pre + roffset + 3) (length buff) = Some ?old"
      using shift_rd [of "roffset + 3" "length buff"] b len(1) by (simp add: add.assoc)
    have 3: "wr_slice (pre @ r @ post) (length pre + roffset + 3) buff = Some (pre @ r1 @ post)"
      using shift_wr [OF r1] by (simp add: add.assoc)
    have e: "length pre + 2 + (length r - 3) = length pre + (length r - 1)" using len(1) by simp
    have 4: "rd (pre @ r1 @ post) (length pre + (length r - 1)) = Some (r1 ! (length r - 1))"
    proof -
      have "length r - 1 < length r1" using l1 len(1) by simp
      then show ?thesis unfolding rd_append_offset rd_append_left [OF \<open>length r - 1 < length r1\<close>] by (rule rd_in)
    qed
    show ?thesis
      unfolding patch_obj_def 1 2 3 option.map Option.bind.bind_lunit len(2) e 4
      by (rule shift_wr [OF r'])
  qed
  have keep: "r' ! i = r ! i" if "i < length r - 1" "i < roffset + 3 \<or> roffset + 3 + length buff \<le> i" for i
    using wr_slice_nth [OF r', of i] wr_slice_nth [OF r1, of i] that l1 by auto
  have new: "take (length buff) (drop (roffset + 3) r') = buff"
    using wr_slice_nth [OF r'] wr_slice_nth [OF r1] b len(1) l1 l2 by (intro nth_equalityI) auto
  have "take 2 (drop 1 r') = take 2 (drop 1 r)"
    using keep len(1) l1 l2 by (intro nth_equalityI) auto
  moreover have "do_sum r' = 0"
  proof -
    have s1: "do_sum r1 = do_sum r - do_sum ?old + do_sum buff" by (rule wr_slice_sum [OF r1])
    have "take 1 (drop (length r - 1) r1) = [r1 ! (length r - 1)]"
      using l1 len(1) by (intro nth_equalityI) auto
    then show ?thesis using wr_slice_sum [OF r'] s1 len(3) by (simp add: byte_simps)
  qed
  ultimately have "valid_rec r'" using len l1 l2 by (simp add: valid_rec_def)
  then show ?thesis using run l1 l2 keep new by (intro exI [of _ r']) auto
qed

theorem patch_obj_valid_witness:
  "\<exists>r'. patch_obj ([0xFF] @ put_obj_rec 0x99 [0x69, 0, 0, 0, 0, 2, 3, 1] @ []) (length [0xFF :: u8]) 1 [0x10, 0x20, 0, 0]
      = Some ([0xFF] @ r' @ []) \<and> valid_rec r'"
proof -
  have v: "valid_rec (put_obj_rec 0x99 [0x69, 0, 0, 0, 0, 2, 3, 1])"
    using put_obj_rec_valid [of "[0x69, 0, 0, 0, 0, 2, 3, 1]" "0x99"] by simp
  have "length (put_obj_rec 0x99 [0x69, 0, 0, 0, 0, 2, 3, 1]) = 12"
    by (simp add: put_obj_rec_def Let_def)
  then show ?thesis using patch_obj_valid [OF v, of 1 "[0x10, 0x20, 0, 0]" "[0xFF]" "[]"] by auto
qed

end
