(* ===== verification/OmfRoundTrip.thy ===== *)
theory OmfRoundTrip
  imports OmfWrite
begin

text \<open>
  The writer against the reader: a module put together from the records the OMF writer emits is
  read back by \<open>X64ObjFini\<close> as what the records say.

  The contract between the two is the locale \<open>record_pass\<close>: a pass of the reader that gives each
  record of the writer its meaning, wherever the record lies in the file.  It is interpreted on
  the four passes: names, segments, images and symbols, fixups.
\<close>

section \<open>Records as data\<close>

datatype omf_item =
    LnamesR "bytes list"
  | SegdefR nat nat nat nat nat
  | LedataR nat nat bytes
  | PubdefR bool nat nat "(bytes \<times> nat) list"
  | ExtdefR bool "bytes list"
  | FixuppR bool nat "fix_req list"
  | OtherR u8 bytes

definition names_body :: "bytes list \<Rightarrow> bytes" where
  "names_body names = concat (map (\<lambda>n. [word_of_nat (length n)] @ n) names)"

fun item_cmd :: "omf_item \<Rightarrow> u8" where
  "item_cmd (LnamesR ns) = 0x96"
| "item_cmd (SegdefR attr sz nidx cidx null_idx) = 0x99"
| "item_cmd (LedataR sidx loc d) = 0xA1"
| "item_cmd (PubdefR local grp seg syms) = (if local then 0xB7 else 0x91)"
| "item_cmd (ExtdefR local ns) = (if local then 0xB4 else 0x8C)"
| "item_cmd (FixuppR flat grp fs) = 0x9D"
| "item_cmd (OtherR cmd d) = cmd"

fun item_body :: "omf_item \<Rightarrow> bytes" where
  "item_body (LnamesR ns) = names_body ns"
| "item_body (SegdefR attr sz nidx cidx null_idx) = segdef_body attr sz nidx cidx null_idx"
| "item_body (LedataR sidx loc d) = ledata_start sidx loc @ d"
| "item_body (PubdefR local grp seg syms) = fold out_export syms (export_head grp seg)"
| "item_body (ExtdefR local ns) = fold out_import ns []"
| "item_body (FixuppR flat grp fs) = fold (do_fix flat grp) fs []"
| "item_body (OtherR cmd d) = d"

definition enc_item :: "omf_item \<Rightarrow> bytes" where
  "enc_item it = put_obj_rec (item_cmd it) (item_body it)"

definition enc_module :: "omf_item list \<Rightarrow> bytes" where
  "enc_module its = concat (map enc_item its)"

definition handled :: "u8 list" where
  "handled = [0x96, 0x99, 0xA0, 0xA1, 0x90, 0x91, 0xB6, 0xB7, 0x8C, 0xB4, 0x9C, 0x9D]"

definition fix_ok :: "fix_req \<Rightarrow> bool" where
  "fix_ok f \<longleftrightarrow> fx_loc f < 16 \<and> fx_where f < 1024 \<and> fx_base f < 3 \<and> fx_idx f < 2 ^ 15 \<and> fx_sidx f < 2 ^ 15"

text \<open>
  Records the 386 code generator can emit and the reader can follow: indices the reader takes for
  one byte are below 128, names have one to 255 bytes.
\<close>

fun contents_ok :: "omf_item \<Rightarrow> bool" where
  "contents_ok (LnamesR ns) = list_all (\<lambda>n. length n < 256) ns"
| "contents_ok (SegdefR attr sz nidx cidx null_idx) =
     (attr < 256 \<and> sz < 2 ^ 32 \<and> nidx < 128 \<and> cidx < 128 \<and> null_idx < 128)"
| "contents_ok (LedataR sidx loc d) = (sidx < 2 ^ 15)"
| "contents_ok (PubdefR local grp seg syms) =
     (grp < 128 \<and> 0 < seg \<and> seg < 128
      \<and> list_all (\<lambda>(n, off). 0 < length n \<and> length n < 256 \<and> off < 2 ^ 32) syms)"
| "contents_ok (ExtdefR local ns) = list_all (\<lambda>n. 0 < length n \<and> length n < 256) ns"
| "contents_ok (FixuppR flat grp fs) = (grp < 2 ^ 15 \<and> list_all fix_ok fs)"
| "contents_ok (OtherR cmd d) = (cmd \<notin> set handled)"

definition item_ok :: "omf_item \<Rightarrow> bool" where
  "item_ok it \<longleftrightarrow> contents_ok it \<and> item_body it \<noteq> [] \<and> length (item_body it) < 2 ^ 16 - 1"

section \<open>Where records are in the file\<close>

lemma enc_item_shape:
  "item_ok it \<Longrightarrow> \<exists>c. enc_item it = [item_cmd it] @ le_bytes 2 (length (item_body it) + 1) @ item_body it @ [c]"
  by (auto simp: enc_item_def put_obj_rec_def Let_def item_ok_def)

lemma length_enc_item: "item_ok it \<Longrightarrow> length (enc_item it) = length (item_body it) + 4"
  using enc_item_shape by fastforce

lemma le_val_or: "le_val [a, b] = unat a OR push_bit 8 (unat b)"
  using or_disjoint_nat [of "unat a" 8 "unat b"] unat_u8_lt [of a] by simp

lemma omf_walk_item:
  assumes "item_ok it"
  shows "omf_walk (pre @ enc_item it @ rest) (length pre) =
    (length pre, unat (item_cmd it), length (item_body it) + 1)
      # omf_walk (pre @ enc_item it @ rest) (length (pre @ enc_item it))"
proof -
  obtain c where enc: "enc_item it = [item_cmd it] @ le_bytes 2 (length (item_body it) + 1) @ item_body it @ [c]"
    using enc_item_shape [OF assms] by blast
  obtain lo hi where b: "le_bytes 2 (length (item_body it) + 1) = [lo, hi]"
    by (simp add: numeral_2_eq_2)
  have "length (item_body it) + 1 < 2 ^ 16" using assms by (simp add: item_ok_def)
  then have "le_val [lo, hi] = length (item_body it) + 1"
    using le_val_le_bytes [of 2 "length (item_body it) + 1"] by (simp add: b [symmetric] del: le_val.simps)
  then have rl: "unat lo OR push_bit 8 (unat hi) = length (item_body it) + 1"
    by (simp only: le_val_or)
  let ?omf = "pre @ enc_item it @ rest"
  have "?omf ! length pre = item_cmd it" "?omf ! (length pre + 1) = lo" "?omf ! (length pre + 2) = hi"
    "length pre + 3 \<le> length ?omf"
    unfolding enc b by (simp_all add: nth_append)
  then show ?thesis
    by (subst omf_walk_go) (simp_all add: rl length_enc_item [OF assms] add.commute add.left_commute)
qed

section \<open>The contract\<close>

locale record_pass =
  fixes step :: "bytes \<Rightarrow> nat \<Rightarrow> nat \<Rightarrow> nat \<Rightarrow> 's \<Rightarrow> 's option"
    and meaning :: "omf_item \<Rightarrow> 's \<Rightarrow> 's"
    and inv :: "nat \<Rightarrow> omf_item list \<Rightarrow> 's \<Rightarrow> bool"
  assumes reads: "item_ok it \<Longrightarrow> inv (length pre) (it # its) st \<Longrightarrow>
      step (pre @ enc_item it @ post) (length pre) (unat (item_cmd it)) (length (item_body it) + 1) st
        = Some (meaning it st)"
    and keeps: "item_ok it \<Longrightarrow> inv i (it # its) st \<Longrightarrow> inv (i + length (enc_item it)) its (meaning it st)"
begin

lemma reads_all:
  assumes "list_all item_ok its" and "inv (length pre) its st"
  shows "fold_walk (step (pre @ enc_module its)) (omf_walk (pre @ enc_module its) (length pre)) st
    = Some (fold meaning its st)"
  using assms
proof (induction its arbitrary: pre st)
  case Nil
  then show ?case by (simp add: enc_module_def omf_walk_stop)
next
  case (Cons it its)
  have ok: "item_ok it" and oks: "list_all item_ok its" using Cons.prems(1) by auto
  have split: "pre @ enc_module (it # its) = pre @ enc_item it @ enc_module its"
    and assoc: "pre @ enc_item it @ enc_module its = (pre @ enc_item it) @ enc_module its"
    by (simp_all add: enc_module_def)
  have "inv (length (pre @ enc_item it)) its (meaning it st)"
    using keeps [OF ok Cons.prems(2)] by simp
  from Cons.IH [OF oks this] show ?case
    unfolding split omf_walk_item [OF ok] fold_walk.simps reads [OF ok Cons.prems(2)] Option.bind.bind_lunit
    by (simp only: assoc fold_simps)
qed

end


section \<open>Reading what was written\<close>

lemma le_bytes_Nil_iff [simp]: "le_bytes n v = [] \<longleftrightarrow> n = 0"
  by (cases n) simp_all

lemma rdb_at [byte_simps]: "rdb (pre @ b # post) (length pre) = Some (unat b)"
  by (simp add: rdb_def rd_def)

lemma rdb_at_offset [byte_simps]: "rdb (pre @ b) (length pre + i) = rdb b i"
  by (simp add: rdb_def)

lemma rdb_Cons [byte_simps]: "rdb (b # bs) 0 = Some (unat b)" "rdb (b # bs) (Suc i) = rdb bs i"
  by (simp_all add: rdb_def rd_def)

lemma rdb_at_Suc [byte_simps]:
  "rdb (pre @ a # b # post) (Suc (length pre)) = Some (unat b)"
  "rdb (pre @ a # b # c # post) (Suc (Suc (length pre))) = Some (unat c)"
  by (simp_all add: rdb_def rd_def nth_append)

lemma rd_slice_at: "i = length pre \<Longrightarrow> n = length x \<Longrightarrow> rd_slice (pre @ x @ post) i n = Some x"
  by simp

lemma rd_le_at: "i = length pre \<Longrightarrow> v < 256 ^ n \<Longrightarrow> rd_le (pre @ le_bytes n v @ post) i n = Some v"
  by (simp add: rd_le_def rd_slice_def le_val_le_bytes)

lemma unat_byte: "v < 256 \<Longrightarrow> unat (word_of_nat v :: u8) = v"
  by (simp add: unat_of_nat)

subsection \<open>Indices\<close>

definition enc_idx :: "nat \<Rightarrow> bytes" where
  "enc_idx v = out_idx v []"

lemma out_idx_append: "out_idx v d = d @ enc_idx v"
  by (simp add: enc_idx_def out_idx_def out_byte_def Let_def)

lemma enc_idx_short: "v < 128 \<Longrightarrow> enc_idx v = [word_of_nat v]"
  by (simp add: enc_idx_def out_idx_def out_byte_def)

lemma and_128_iff: "(n::nat) < 256 \<Longrightarrow> n AND 128 = 0 \<longleftrightarrow> n < 128"
proof -
  assume n: "n < 256"
  have "n AND 2 ^ 7 = 0 \<longleftrightarrow> \<not> bit n 7" by (rule and_exp_eq_0_iff_not_bit)
  moreover have "bit n 7 \<longleftrightarrow> odd (n div 128)" by (simp add: bit_iff_odd)
  moreover have "n div 128 = 0 \<or> n div 128 = 1" using n by auto
  moreover have "n < 128 \<longleftrightarrow> n div 128 = 0" by auto
  ultimately show ?thesis by auto
qed

lemma or_128: "(h::nat) < 128 \<Longrightarrow> h OR 128 = h + 128"
  using or_disjoint_nat [of h 7 1] by (simp add: push_bit_eq_mult)

lemma read_index_enc:
  assumes "v < 2 ^ 15"
  shows "read_index (pre @ enc_idx v @ post) (length pre) = Some (v, length pre + length (enc_idx v))"
proof (cases "v < 128")
  case True
  then have "v AND 0x80 = 0" using and_128_iff [of v] by simp
  then show ?thesis using True
    by (simp add: enc_idx_short read_index_def rdb_at unat_byte)
next
  case False
  let ?h = "drop_bit 8 v OR 0x80"
  have h: "?h = v div 256 + 128" using assms by (simp add: drop_bit_eq_div or_128)
  have enc: "enc_idx v = [word_of_nat ?h, word_of_nat v]"
    using False by (simp add: enc_idx_def out_idx_def out_byte_def Let_def)
  have t: "unat (word_of_nat ?h :: u8) = v div 256 + 128" unfolding h by (rule unat_byte) (use assms in simp)
  have lo: "unat (word_of_nat v :: u8) = v mod 256" by (simp add: unat_of_nat)
  have "(v div 256 + 128) AND 0x7F = v div 256" using assms by (simp add: and_mask_nat)
  moreover have "(v div 256 + 128) AND 0x80 \<noteq> 0" using assms by (simp add: and_128_iff)
  moreover have "push_bit 8 (v div 256) OR v mod 256 = v" by (simp add: or_index)
  moreover have "rdb (pre @ enc_idx v @ post) (length pre) = Some (v div 256 + 128)"
    "rdb (pre @ enc_idx v @ post) (length pre + 1) = Some (v mod 256)"
    unfolding enc using t lo by (simp_all add: byte_simps)
  ultimately show ?thesis unfolding read_index_def by (simp add: enc)
qed

subsection \<open>Lists of subrecords\<close>

lemma fold_append_blocks:
  assumes "\<And>x d. f x d = d @ f x []"
  shows "fold f xs d = d @ concat (map (\<lambda>x. f x []) xs)"
proof (induction xs arbitrary: d)
  case (Cons x xs)
  show ?case using Cons [of "f x d"] assms [of x d] by simp
qed simp

lemma out_name_short: "length n < 256 \<Longrightarrow> out_name n d = d @ word_of_nat (length n) # n"
  by (simp add: out_name_def out_buffer_def out_byte_def Let_def)

lemma out_name_append: "out_name n d = d @ out_name n []"
  by (simp add: out_name_def out_buffer_def out_byte_def Let_def)

lemma out_export_append: "out_export x d = d @ out_export x []"
  by (simp add: out_export_def out_idx_append out_offset_def out_name_append [of _ d] split: prod.split)

lemma out_import_append: "out_import n d = d @ out_import n []"
  by (simp add: out_import_def out_idx_append out_name_append [of _ d])

lemma do_fix_append: "do_fix flat grp f d = d @ do_fix flat grp f []"
  by (simp add: do_fix_def Let_def out_idx_append out_byte_def)


lemma read_lnames_enc:
  assumes "list_all (\<lambda>n. length n < 256) ns" and "length names + length ns \<le> 64"
  shows "read_lnames (pre @ names_body ns @ post) (length pre) (length pre + length (names_body ns)) names
    = Some (names @ map c_str ns)"
  using assms
proof (induction ns arbitrary: pre names)
  case Nil
  then show ?case by (simp add: names_body_def read_lnames.simps)
next
  case (Cons n ns)
  let ?file = "pre @ names_body (n # ns) @ post" and ?e = "length pre + length (names_body (n # ns))"
  have n: "length n < 256" and ns: "list_all (\<lambda>n. length n < 256) ns" using Cons.prems(1) by auto
  have body: "names_body (n # ns) = word_of_nat (length n) # n @ names_body ns"
    by (simp add: names_body_def)
  have fl: "?file = (pre @ word_of_nat (length n) # n) @ names_body ns @ post" by (simp add: body)
  have e: "?e = length (pre @ word_of_nat (length n) # n) + length (names_body ns)" by (simp add: body)
  have IH: "read_lnames ?file (length pre + 1 + length n) ?e (names @ [c_str n]) = Some ((names @ [c_str n]) @ map c_str ns)"
    unfolding fl e using Cons.IH [of "names @ [c_str n]" "pre @ word_of_nat (length n) # n", OF ns] Cons.prems(2) by simp
  have go: "length pre < ?e" "length names < 64" using Cons.prems(2) by (auto simp: body)
  have rd: "rdb ?file (length pre) = Some (length n)" using n by (simp add: body rdb_at unat_byte)
  have sl: "rd_slice ?file (length pre + 1) (length n) = Some n"
    using rd_slice_at [of "length pre + 1" "pre @ [word_of_nat (length n)]" "length n" n] by (simp add: body)
  show ?case
  proof (cases "n = []")
    case True
    then show ?thesis using go rd IH by (subst read_lnames.simps) (simp add: c_str_def)
  next
    case False
    then show ?thesis using go rd sl IH by (subst read_lnames.simps) (simp add: body)
  qed
qed

lemma read_exts_enc:
  assumes "list_all (\<lambda>n. 0 < length n \<and> length n < 256) ns" and "length es + length ns \<le> 64"
  shows "read_exts (pre @ concat (map (\<lambda>n. out_import n []) ns) @ post) (length pre)
      (length pre + length (concat (map (\<lambda>n. out_import n []) ns))) es
    = Some (es @ map strip_name ns)"
  using assms
proof (induction ns arbitrary: pre es)
  case Nil
  then show ?case by (simp add: read_exts.simps)
next
  case (Cons n ns)
  let ?rest = "concat (map (\<lambda>n. out_import n []) ns)"
  have n: "0 < length n" "length n < 256" and ns: "list_all (\<lambda>n. 0 < length n \<and> length n < 256) ns"
    using Cons.prems(1) by auto
  have one: "out_import n [] = word_of_nat (length n) # n @ [0]"
    using n by (simp add: out_import_def out_idx_append enc_idx_short out_name_short)
  let ?file = "pre @ concat (map (\<lambda>n. out_import n []) (n # ns)) @ post"
  let ?e = "length pre + length (concat (map (\<lambda>n. out_import n []) (n # ns)))"
  have fl: "?file = (pre @ word_of_nat (length n) # n @ [0]) @ ?rest @ post" by (simp add: one)
  have e: "?e = length (pre @ word_of_nat (length n) # n @ [0]) + length ?rest" by (simp add: one)
  have IH: "read_exts ?file (length pre + 1 + length n + 1) ?e (es @ [strip_name n])
      = Some ((es @ [strip_name n]) @ map strip_name ns)"
    unfolding fl e
    using Cons.IH [of "es @ [strip_name n]" "pre @ word_of_nat (length n) # n @ [0]", OF ns] Cons.prems(2) by simp
  have rd: "rdb ?file (length pre) = Some (length n)" using n by (simp add: one rdb_at unat_byte)
  have sl: "rd_slice ?file (length pre + 1) (length n) = Some n"
    using rd_slice_at [of "length pre + 1" "pre @ [word_of_nat (length n)]" "length n" n] by (simp add: one)
  define F E where "F = ?file" and "E = ?e"
  have "length pre + 1 + length n < E" "length pre < E" "length es < 64"
    using Cons.prems(2) by (simp_all add: one E_def)
  then show ?case
    using rd sl IH n unfolding F_def [symmetric] E_def [symmetric] by (subst read_exts.simps) simp
qed

lemma read_pubs_enc:
  assumes "list_all (\<lambda>(n, off). 0 < length n \<and> length n < 256 \<and> off < 2 ^ 32) syms"
    and "length ps + length syms \<le> 64"
  shows "read_pubs (pre @ concat (map (\<lambda>x. out_export x []) syms) @ post) loc True seg (length pre)
      (length pre + length (concat (map (\<lambda>x. out_export x []) syms))) ps
    = Some (ps @ map (\<lambda>(n, off). \<lparr>pub_name = strip_name n, pub_off = off, pub_seg = seg, pub_local = loc\<rparr>) syms)"
  using assms
proof (induction syms arbitrary: pre ps)
  case Nil
  then show ?case by (simp add: read_pubs.simps)
next
  case (Cons x syms)
  obtain n off where x: "x = (n, off)" by (cases x)
  let ?rest = "concat (map (\<lambda>x. out_export x []) syms)"
  have n: "0 < length n" "length n < 256" "off < 2 ^ 32"
    and syms: "list_all (\<lambda>(n, off). 0 < length n \<and> length n < 256 \<and> off < 2 ^ 32) syms"
    using Cons.prems(1) by (auto simp: x)
  have one: "out_export x [] = word_of_nat (length n) # n @ le_bytes 4 off @ [0]"
    using n by (simp add: x out_export_def out_offset_def out_idx_append enc_idx_short out_name_short del: le_bytes.simps)
  let ?file = "pre @ concat (map (\<lambda>x. out_export x []) (x # syms)) @ post"
  let ?e = "length pre + length (concat (map (\<lambda>x. out_export x []) (x # syms)))"
  let ?pre = "pre @ word_of_nat (length n) # n @ le_bytes 4 off @ [0]"
  let ?p = "\<lparr>pub_name = strip_name n, pub_off = off, pub_seg = seg, pub_local = loc\<rparr>"
  have fl: "?file = ?pre @ ?rest @ post" and e: "?e = length ?pre + length ?rest"
    by (simp_all add: one del: le_bytes.simps)
  have pos: "length pre + 1 + length n + 4 + 1 = length ?pre" by simp
  have IH: "read_pubs ?file loc True seg (length pre + 1 + length n + 4 + 1) ?e (ps @ [?p])
      = Some ((ps @ [?p]) @ map (\<lambda>(n, off). \<lparr>pub_name = strip_name n, pub_off = off, pub_seg = seg, pub_local = loc\<rparr>) syms)"
    unfolding fl e pos by (rule Cons.IH [OF syms]) (use Cons.prems(2) in simp)
  have rd: "rdb ?file (length pre) = Some (length n)" using n by (simp add: one rdb_at unat_byte)
  have sl: "rd_slice ?file (length pre + 1) (length n) = Some n"
    using rd_slice_at [of "length pre + 1" "pre @ [word_of_nat (length n)]" "length n" n] by (simp add: one)
  have le: "rd_le ?file (length pre + 1 + length n) 4 = Some off"
    using rd_le_at [of "length pre + 1 + length n" "pre @ word_of_nat (length n) # n" off 4] n
    by (simp add: one del: le_bytes.simps)
  define F E where "F = ?file" and "E = ?e"
  have "length pre + 1 + length n + 4 < E" "length pre < E" "length ps < 64"
    using Cons.prems(2) by (simp_all add: one E_def)
  then show ?case
    using rd sl le IH n unfolding F_def [symmetric] E_def [symmetric]
    by (subst read_pubs.simps) (simp add: x Let_def)
qed


subsection \<open>Fixups\<close>

text \<open>What a fixup request says: a group reference is read as a reference to its segment.\<close>

definition fix_method :: "fix_req \<Rightarrow> nat" where
  "fix_method f = (if fx_base f = 1 then 0 else fx_base f)"

definition fix_tidx :: "fix_req \<Rightarrow> nat" where
  "fix_tidx f = (if fx_base f = 1 then fx_sidx f else fx_idx f)"

lemma enc_idx_head:
  assumes "v < 2 ^ 15"
  obtains h t where "enc_idx v = h # t" "length (enc_idx v) = (if unat h AND 0x80 \<noteq> 0 then 2 else 1)"
proof (cases "v < 128")
  case True
  then have "unat (word_of_nat v :: u8) AND 0x80 = 0" using and_128_iff [of v] by (simp add: unat_byte)
  then show thesis using True that by (simp add: enc_idx_short)
next
  case False
  have h: "drop_bit 8 v OR 0x80 = v div 256 + 128" using assms by (simp add: drop_bit_eq_div or_128)
  have "unat (word_of_nat (v div 256 + 128) :: u8) = v div 256 + 128"
    by (rule unat_byte) (use assms in simp)
  moreover have "(v div 256 + 128) AND 0x80 \<noteq> 0" using assms by (simp add: and_128_iff)
  moreover have "enc_idx v = [word_of_nat (v div 256 + 128), word_of_nat v]"
    using False h by (simp add: enc_idx_def out_idx_def out_byte_def Let_def)
  ultimately show thesis using that by simp
qed

lemma skip_frame_enc:
  assumes "g < 2 ^ 15" and "drop_bit 7 d = 0" and "drop_bit 4 d AND 7 \<le> 3"
  shows "skip_frame (pre @ enc_idx g @ post) d (length pre) = Some (length pre + length (enc_idx g))"
proof (rule enc_idx_head [OF assms(1)])
  fix h t
  assume e: "enc_idx g = h # t" and l: "length (enc_idx g) = (if unat h AND 0x80 \<noteq> 0 then 2 else 1)"
  have "rdb (pre @ enc_idx g @ post) (length pre) = Some (unat h)" by (simp add: e rdb_at)
  then show ?thesis
    unfolding skip_frame_def l using assms(2,3) by simp
qed

lemma fix_head_byte:
  assumes "fix_ok f" and "b = (if fx_rel f then 0x80 else 0xC0)"
  shows "(b + push_bit 2 (fx_loc f) + drop_bit 8 (fx_where f)) < 256"
    and "(b + push_bit 2 (fx_loc f) + drop_bit 8 (fx_where f)) AND 0x80 \<noteq> 0"
    and "(b + push_bit 2 (fx_loc f) + drop_bit 8 (fx_where f)) AND 3 = fx_where f div 256"
proof -
  let ?h = "b + push_bit 2 (fx_loc f) + drop_bit 8 (fx_where f)"
  have h: "?h = b + 4 * fx_loc f + fx_where f div 256"
    by (simp add: push_bit_eq_mult drop_bit_eq_div)
  have w: "fx_where f div 256 < 4" "fx_loc f < 16" "b = 128 \<or> b = 192"
    using assms by (auto simp: fix_ok_def)
  show lt: "?h < 256" using w unfolding h by auto
  have "\<not> ?h < 128" using w unfolding h by auto
  then show "?h AND 0x80 \<noteq> 0" using and_128_iff [OF lt] by simp
  show "?h AND 3 = fx_where f div 256"
  proof -
    obtain c where "b = 4 * c" using w(3) by (elim disjE) (auto intro: that [of 32] that [of 48])
    then have "?h = 4 * (c + fx_loc f) + fx_where f div 256" using h by simp
    then have "?h mod 4 = fx_where f div 256" using w(1) by (simp only: mod_mult_self4 mod_less)
    then show ?thesis by (simp only: and_mask_nat)
  qed
qed

lemma read_fixup_enc:
  assumes ok: "fix_ok f" and grp: "grp < 2 ^ 15"
  shows "read_fixup (pre @ do_fix flat grp f [] @ post) 0x9D (length pre)
      = Some (fx_where f, fix_method f, fix_tidx f, length pre + length (do_fix flat grp f []))"
    and "\<exists>hi lo. rdb (pre @ do_fix flat grp f [] @ post) (length pre) = Some hi
      \<and> rdb (pre @ do_fix flat grp f [] @ post) (length pre + 1) = Some lo \<and> hi AND 0x80 \<noteq> 0"
proof -
  let ?b = "if fx_rel f then 0x80 else (0xC0 :: nat)"
  let ?h = "?b + push_bit 2 (fx_loc f) + drop_bit 8 (fx_where f)"
  note hb = fix_head_byte [OF ok refl]
  let ?dat = "if flat \<or> fx_base f = 1 then 0x14 + fix_method f else 0x54 + fix_method f"
  let ?fr = "if flat then enc_idx grp else if fx_base f = 1 then enc_idx (fx_idx f) else []"
  have base: "fx_base f = 0 \<or> fx_base f = 1 \<or> fx_base f = 2" and wh: "fx_where f < 1024"
    and t: "fix_tidx f < 2 ^ 15" and idx: "fx_idx f < 2 ^ 15"
    using ok by (auto simp: fix_ok_def fix_tidx_def)
  have enc: "do_fix flat grp f [] =
      word_of_nat ?h # word_of_nat (fx_where f) # word_of_nat ?dat # ?fr @ enc_idx (fix_tidx f)"
    using base by (auto simp: do_fix_def Let_def out_idx_append out_byte_def fix_method_def fix_tidx_def)
  have dat: "unat (word_of_nat ?dat :: u8) = ?dat" using base by (intro unat_byte) (auto simp: fix_method_def)
  have bits: "?dat AND 3 = fix_method f" "drop_bit 2 ?dat AND 1 = 1" "drop_bit 7 ?dat = 0"
    "drop_bit 4 ?dat AND 7 = (if flat \<or> fx_base f = 1 then 1 else 5)"
    using base by (auto simp: fix_method_def and_mask_nat drop_bit_eq_div)
  let ?omf = "pre @ do_fix flat grp f [] @ post"
  let ?pre3 = "pre @ [word_of_nat ?h, word_of_nat (fx_where f), word_of_nat ?dat]"
  have r: "rdb ?omf (length pre) = Some ?h" "rdb ?omf (length pre + 1) = Some (fx_where f mod 256)"
    "rdb ?omf (length pre + 2) = Some ?dat"
    using unat_byte [OF hb(1)] dat by (simp_all add: enc byte_simps unat_of_nat)
  have omf3: "?omf = ?pre3 @ ?fr @ enc_idx (fix_tidx f) @ post" by (simp add: enc)
  have fr: "skip_frame ?omf ?dat (length pre + 3) = Some (length pre + 3 + length ?fr)"
  proof (cases "flat \<or> fx_base f = 1")
    case True
    then obtain g where g: "g < 2 ^ 15" "?fr = enc_idx g" using grp idx by (metis (full_types))
    have "drop_bit 4 ?dat AND 7 \<le> 3" using bits(4) True by simp
    from skip_frame_enc [OF g(1) bits(3) this, of ?pre3 "enc_idx (fix_tidx f) @ post"]
    have "skip_frame (?pre3 @ ?fr @ enc_idx (fix_tidx f) @ post) ?dat (length ?pre3) = Some (length ?pre3 + length ?fr)"
      unfolding g(2) .
    then show ?thesis unfolding omf3 by (simp only: length_append list.size add_0 numeral_3_eq_3 add_Suc_right add_0_right)
  next
    case False
    then show ?thesis unfolding skip_frame_def bits by simp
  qed
  have ti: "read_index ?omf (length pre + 3 + length ?fr)
      = Some (fix_tidx f, length pre + 3 + length ?fr + length (enc_idx (fix_tidx f)))"
  proof -
    have pos: "length (?pre3 @ ?fr) = length pre + 3 + length ?fr" by (simp only: length_append list.size add_0 numeral_3_eq_3 add_Suc_right add_0_right)
    show ?thesis
      using read_index_enc [OF t, of "?pre3 @ ?fr" post]
      unfolding omf3 pos by (simp only: append.assoc)
  qed
  have "push_bit 8 (?h AND 3) OR fx_where f mod 256 = fx_where f"
    unfolding hb(3) by (simp add: or_index)
  then show "read_fixup ?omf 0x9D (length pre)
      = Some (fx_where f, fix_method f, fix_tidx f, length pre + length (do_fix flat grp f []))"
    unfolding read_fixup_def r fr ti Option.bind.bind_lunit prod.case bits
    by (simp add: enc)
  show "\<exists>hi lo. rdb ?omf (length pre) = Some hi \<and> rdb ?omf (length pre + 1) = Some lo \<and> hi AND 0x80 \<noteq> 0"
    using r hb(2) by blast
qed


definition fix_effect :: "nat \<Rightarrow> fix_req \<Rightarrow> fix_state \<Rightarrow> fix_state" where
  "fix_effect n f st = record_fixup n (fx_where f) (fix_method f) (fix_tidx f) st"

lemma record_fixup_grows: "length (fixups (record_fixup n off m t st)) \<le> length (fixups st) + 1"
  by (simp add: record_fixup_def)

lemma read_fixups_enc:
  assumes "list_all fix_ok fs" and "grp < 2 ^ 15" and "length (fixups st) + length fs \<le> 256"
  shows "read_fixups (pre @ concat (map (\<lambda>f. do_fix flat grp f []) fs) @ post) n 0x9D (length pre)
      (length pre + length (concat (map (\<lambda>f. do_fix flat grp f []) fs))) st
    = Some (fold (fix_effect n) fs st)"
  using assms(1,3)
proof (induction fs arbitrary: pre st)
  case Nil
  then show ?case by (simp add: read_fixups.simps)
next
  case (Cons f fs)
  let ?rest = "concat (map (\<lambda>f. do_fix flat grp f []) fs)" and ?one = "do_fix flat grp f []"
  have f: "fix_ok f" and fs: "list_all fix_ok fs" using Cons.prems(1) by auto
  define F E where "F = pre @ concat (map (\<lambda>f. do_fix flat grp f []) (f # fs)) @ post"
    and "E = length pre + length (concat (map (\<lambda>f. do_fix flat grp f []) (f # fs)))"
  have fl: "F = pre @ ?one @ ?rest @ post" "F = (pre @ ?one) @ ?rest @ post"
    and e: "E = length (pre @ ?one) + length ?rest"
    by (simp_all add: F_def E_def)
  note r = read_fixup_enc [OF f assms(2), of pre flat "?rest @ post", folded fl(1)]
  obtain hi lo where hl: "rdb F (length pre) = Some hi" "rdb F (length pre + 1) = Some lo" "hi AND 0x80 \<noteq> 0"
    using r(2) by blast
  have ne: "?one \<noteq> []"
    by (simp add: do_fix_def Let_def out_idx_append out_byte_def)
  have "length (fixups (fix_effect n f st)) + length fs \<le> 256"
    using record_fixup_grows [of n "fx_where f" "fix_method f" "fix_tidx f" st] Cons.prems(2)
    by (simp add: fix_effect_def)
  from Cons.IH [OF fs this, of "pre @ ?one"]
  have IH: "read_fixups F n 0x9D (length pre + length ?one) E (fix_effect n f st)
      = Some (fold (fix_effect n) fs (fix_effect n f st))"
    unfolding fl(2) e by simp
  have go: "length pre < E" "length (fixups st) < 256" using Cons.prems(2) ne by (auto simp: E_def)
  have "read_fixups F n 0x9D (length pre) E st = Some (fold (fix_effect n) fs (fix_effect n f st))"
    using go hl r(1) IH by (subst read_fixups.simps) (simp add: fix_effect_def)
  then show ?case by (simp add: F_def E_def)
qed

section \<open>What the records mean to each pass\<close>

fun names_meaning :: "omf_item \<Rightarrow> bytes list \<Rightarrow> bytes list" where
  "names_meaning (LnamesR ns) names = names @ map c_str ns"
| "names_meaning it names = names"

fun segs_meaning :: "bytes list \<Rightarrow> omf_item \<Rightarrow> segs \<Rightarrow> segs" where
  "segs_meaning names (SegdefR attr sz nidx cidx null_idx) sg =
     (let num = seg_num sg + 1
      in seg_classify names num nidx cidx
           (sg\<lparr>seg_num := num, seg_len := (if num < 64 then (seg_len sg)(num := sz) else seg_len sg)\<rparr>))"
| "segs_meaning names it sg = sg"

definition pub_entry :: "bool \<Rightarrow> nat \<Rightarrow> bytes \<times> nat \<Rightarrow> pub_rec" where
  "pub_entry local seg x = (case x of (n, off) \<Rightarrow>
     \<lparr>pub_name = strip_name n, pub_off = off, pub_seg = seg, pub_local = local\<rparr>)"

fun coll_meaning :: "segs \<Rightarrow> omf_item \<Rightarrow> collected \<Rightarrow> collected" where
  "coll_meaning sg (LedataR sidx loc d) co =
     (if d = [] then co
      else if sidx = text_seg_idx sg then co\<lparr>code_img := code_img co @ d\<rparr>
      else if 0 < sidx \<and> sidx < 512 \<and> seg_is_data sg sidx
      then co\<lparr>seg_base := (if seg_base co sidx < 0
                           then (seg_base co)(sidx := int (length (data_img co))) else seg_base co),
              data_img := data_img co @ d\<rparr>
      else co)"
| "coll_meaning sg (PubdefR local grp seg syms) co = co\<lparr>pubs := pubs co @ map (pub_entry local seg) syms\<rparr>"
| "coll_meaning sg (ExtdefR local ns) co = co\<lparr>exts := exts co @ map strip_name ns\<rparr>"
| "coll_meaning sg it co = co"

fun fix_meaning :: "segs \<Rightarrow> (nat \<Rightarrow> int) \<Rightarrow> nat \<Rightarrow> omf_item \<Rightarrow> fix_state \<Rightarrow> fix_state" where
  "fix_meaning sg base n (LedataR sidx loc d) st =
     (let st = st\<lparr>cur_chunk_is_text := (sidx = text_seg_idx sg)\<rparr>
      in if cur_chunk_is_text st
         then if d = [] then st
              else st\<lparr>cur_chunk_base := run_text st, run_text := run_text st + int (length d)\<rparr>
         else if 0 < sidx \<and> sidx < 512 \<and> seg_is_data sg sidx \<and> 0 \<le> base sidx
         then st\<lparr>cur_dchunk_base := base sidx + seg_packed st sidx,
                 seg_packed := (if d = [] then seg_packed st
                                else (seg_packed st)(sidx := seg_packed st sidx + int (length d)))\<rparr>
         else st)"
| "fix_meaning sg base n (FixuppR flat grp fs) st = fold (fix_effect n) fs st"
| "fix_meaning sg base n it st = st"

fun count_names :: "omf_item \<Rightarrow> nat" where
  "count_names (LnamesR ns) = length ns" | "count_names it = 0"

fun count_pubs :: "omf_item \<Rightarrow> nat" where
  "count_pubs (PubdefR local grp seg syms) = length syms" | "count_pubs it = 0"

fun count_exts :: "omf_item \<Rightarrow> nat" where
  "count_exts (ExtdefR local ns) = length ns" | "count_exts it = 0"

fun count_fixes :: "omf_item \<Rightarrow> nat" where
  "count_fixes (FixuppR flat grp fs) = length fs" | "count_fixes it = 0"

text \<open>The sizes of the tables of the reader.\<close>

definition within_limits :: "omf_item list \<Rightarrow> bool" where
  "within_limits its \<longleftrightarrow> sum_list (map count_names its) \<le> 63 \<and> sum_list (map count_pubs its) \<le> 64
     \<and> sum_list (map count_exts its) \<le> 64 \<and> sum_list (map count_fixes its) \<le> 256"

definition names_inv :: "nat \<Rightarrow> omf_item list \<Rightarrow> bytes list \<Rightarrow> bool" where
  "names_inv i its names \<longleftrightarrow> length names + sum_list (map count_names its) \<le> 64"

definition coll_inv :: "nat \<Rightarrow> omf_item list \<Rightarrow> collected \<Rightarrow> bool" where
  "coll_inv i its co \<longleftrightarrow> length (code_img co) + length (data_img co) \<le> i
     \<and> length (pubs co) + sum_list (map count_pubs its) \<le> 64
     \<and> length (exts co) + sum_list (map count_exts its) \<le> 64"

definition fix_inv :: "nat \<Rightarrow> omf_item list \<Rightarrow> fix_state \<Rightarrow> bool" where
  "fix_inv i its st \<longleftrightarrow> length (fixups st) + sum_list (map count_fixes its) \<le> 256"

section \<open>The passes honour the contract\<close>

lemma item_cmd_unat:
  "item_ok it \<Longrightarrow> unat (item_cmd it) = (case it of
     LnamesR ns \<Rightarrow> 0x96 | SegdefR _ _ _ _ _ \<Rightarrow> 0x99 | LedataR _ _ _ \<Rightarrow> 0xA1
   | PubdefR local _ _ _ \<Rightarrow> (if local then 0xB7 else 0x91) | ExtdefR local _ \<Rightarrow> (if local then 0xB4 else 0x8C)
   | FixuppR _ _ _ \<Rightarrow> 0x9D | OtherR c _ \<Rightarrow> unat c)"
  by (cases it) auto

lemma other_cmd:
  assumes "item_ok (OtherR cmd d)"
  shows "unat cmd \<noteq> 0x96" "unat cmd \<noteq> 0x99" "unat cmd \<noteq> 0xA0" "unat cmd \<noteq> 0xA1" "unat cmd \<noteq> 0x90"
    "unat cmd \<noteq> 0x91" "unat cmd \<noteq> 0xB6" "unat cmd \<noteq> 0xB7" "unat cmd \<noteq> 0x8C" "unat cmd \<noteq> 0xB4"
    "unat cmd \<noteq> 0x9C" "unat cmd \<noteq> 0x9D"
  using assms by (auto simp: item_ok_def handled_def word_unat_eq_iff)


lemma item_at:
  assumes "item_ok it"
  obtains head c where "pre @ enc_item it @ post = head @ item_body it @ c # post"
    "length pre + 3 = length head"
    "length head + (length (item_body it) + 1) - 1 = length head + length (item_body it)"
    "\<exists>a b. head = pre @ [item_cmd it, a, b]"
proof -
  obtain c where "enc_item it = [item_cmd it] @ le_bytes 2 (length (item_body it) + 1) @ item_body it @ [c]"
    using enc_item_shape [OF assms] by blast
  moreover obtain a b where "le_bytes 2 (length (item_body it) + 1) = [a, b]"
    by (simp add: numeral_2_eq_2)
  ultimately show thesis using that [of "pre @ [item_cmd it, a, b]" c] by simp
qed

interpretation names: record_pass lnames_step names_meaning names_inv
proof
  fix it and pre :: bytes and its and post :: bytes and st :: "bytes list"
  assume ok: "item_ok it" and inv: "names_inv (length pre) (it # its) st"
  obtain head c where fl: "pre @ enc_item it @ post = head @ item_body it @ c # post"
    and p: "length pre + 3 = length head"
    "length head + (length (item_body it) + 1) - 1 = length head + length (item_body it)"
    using item_at [OF ok] .
  show "lnames_step (pre @ enc_item it @ post) (length pre) (unat (item_cmd it)) (length (item_body it) + 1) st
      = Some (names_meaning it st)"
  proof (cases it)
    case (LnamesR ns)
    have "length st + length ns \<le> 64" using inv by (simp add: names_inv_def LnamesR)
    moreover have "list_all (\<lambda>n. length n < 256) ns" using ok by (simp add: item_ok_def LnamesR)
    ultimately have "read_lnames (head @ item_body it @ c # post) (length head)
        (length head + length (item_body it)) st = Some (names_meaning it st)"
      using read_lnames_enc by (simp add: LnamesR)
    moreover have "unat (item_cmd it) = 0x96" by (simp add: LnamesR)
    ultimately show ?thesis unfolding lnames_step_def fl p by simp
  next
    case (OtherR cmd d)
    then show ?thesis using ok other_cmd(1) by (simp add: lnames_step_def)
  qed (simp_all add: lnames_step_def)
next
  fix it i its and st :: "bytes list"
  assume "item_ok it" "names_inv i (it # its) st"
  then show "names_inv (i + length (enc_item it)) its (names_meaning it st)"
    by (cases it) (simp_all add: names_inv_def)
qed

interpretation segdefs: record_pass "\<lambda>omf. segdef_step omf names" "segs_meaning names" "\<lambda>i its sg. True" for names
proof
  fix it and pre :: bytes and its :: "omf_item list" and post :: bytes and st :: segs
  assume ok: "item_ok it"
  obtain head a b c where fl: "pre @ enc_item it @ post = head @ item_body it @ c # post"
    and head: "head = pre @ [item_cmd it, a, b]"
    using item_at [OF ok, of pre post] by metis
  show "segdef_step (pre @ enc_item it @ post) names (length pre) (unat (item_cmd it)) (length (item_body it) + 1) st
      = Some (segs_meaning names it st)"
  proof (cases it)
    case (SegdefR attr sz nidx cidx null_idx)
    then have s: "sz < 256 ^ 4" "nidx < 128" "cidx < 128" using ok by (auto simp: item_ok_def)
    let ?pre = "pre @ [item_cmd it, a, b, word_of_nat attr]"
    have body: "item_body it = [word_of_nat attr] @ le_bytes 4 sz @ [word_of_nat nidx, word_of_nat cidx] @ enc_idx null_idx"
      using s by (simp add: SegdefR segdef_body_def out_idx_append enc_idx_short out_offset_def out_byte_def)
    have omf: "pre @ enc_item it @ post = ?pre @ le_bytes 4 sz @ word_of_nat nidx # word_of_nat cidx # enc_idx null_idx @ c # post"
      unfolding fl head body by simp
    have "rd_le (pre @ enc_item it @ post) (length pre + 4) 4 = Some sz"
      unfolding omf by (rule rd_le_at) (use s in simp_all)
    moreover have "rdb (pre @ enc_item it @ post) (length pre + 3 + 1 + 4) = Some nidx"
      "rdb (pre @ enc_item it @ post) (length pre + 3 + 1 + 4 + 1) = Some cidx"
    proof -
      have at: "length pre + 3 + 1 + 4 = length (?pre @ le_bytes 4 sz)" by simp
      have omf': "pre @ enc_item it @ post = (?pre @ le_bytes 4 sz) @ word_of_nat nidx # word_of_nat cidx # enc_idx null_idx @ c # post"
        unfolding omf by (simp only: append.assoc)
      show "rdb (pre @ enc_item it @ post) (length pre + 3 + 1 + 4) = Some nidx"
        "rdb (pre @ enc_item it @ post) (length pre + 3 + 1 + 4 + 1) = Some cidx"
        unfolding omf' at unfolding Suc_eq_plus1 [symmetric] rdb_at rdb_at_Suc using s by (simp_all add: unat_byte)
    qed
    ultimately show ?thesis by (simp add: segdef_step_def SegdefR Let_def)
  next
    case (OtherR cmd d)
    then show ?thesis using ok other_cmd(2) by (simp add: segdef_step_def)
  qed (simp_all add: segdef_step_def)
qed simp


lemma ledata_head_enc:
  assumes "item_ok (LedataR sidx loc d)"
  obtains ds c pre2 where "ledata_head (pre @ enc_item (LedataR sidx loc d) @ post) (length pre) 0xA1
      (length (item_body (LedataR sidx loc d)) + 1) = Some (sidx, ds, int (length d))"
    "pre @ enc_item (LedataR sidx loc d) @ post = pre2 @ d @ c # post" "length pre2 = ds" "length pre \<le> ds"
proof -
  let ?it = "LedataR sidx loc d"
  obtain head c where fl: "pre @ enc_item ?it @ post = head @ item_body ?it @ c # post"
    and p: "length pre + 3 = length head"
    using item_at [OF assms] .
  have body: "item_body ?it = enc_idx sidx @ le_bytes 4 loc @ d"
    by (simp add: ledata_start_def out_idx_append out_offset_def)
  have len: "length (item_body ?it) = length (enc_idx sidx) + 4 + length d" by (simp only: body) simp
  have s: "sidx < 2 ^ 15" using assms by (simp add: item_ok_def)
  have "read_index (pre @ enc_item ?it @ post) (length head) = Some (sidx, length head + length (enc_idx sidx))"
    using read_index_enc [OF s, of head "le_bytes 4 loc @ d @ c # post"] unfolding fl body by simp
  then have "ledata_head (pre @ enc_item ?it @ post) (length pre) 0xA1 (length (item_body ?it) + 1)
      = Some (sidx, length head + length (enc_idx sidx) + 4, int (length d))"
    unfolding ledata_head_def p len by simp
  then show thesis
    using that [of "length head + length (enc_idx sidx) + 4" "head @ enc_idx sidx @ le_bytes 4 loc" c] p
    by (simp add: fl body del: item_body.simps le_bytes.simps)
qed

lemma collect_ledata:
  assumes "item_ok (LedataR sidx loc d)" and "coll_inv (length pre) its st"
  shows "ledata_step (length (pre @ enc_item (LedataR sidx loc d) @ post)) (pre @ enc_item (LedataR sidx loc d) @ post)
      sg (length pre) 0xA1 (length (item_body (LedataR sidx loc d)) + 1) st = Some (coll_meaning sg (LedataR sidx loc d) st)"
proof (rule ledata_head_enc [OF assms(1), of pre post])
  fix ds c pre2
  let ?omf = "pre @ enc_item (LedataR sidx loc d) @ post"
  assume h: "ledata_head ?omf (length pre) 0xA1 (length (item_body (LedataR sidx loc d)) + 1) = Some (sidx, ds, int (length d))"
    and omf: "?omf = pre2 @ d @ c # post" and ds: "length pre2 = ds" and le: "length pre \<le> ds"
  have sl: "rd_slice ?omf ds (length d) = Some d" unfolding omf ds [symmetric] by (rule rd_slice_middle)
  have len: "length ?omf = ds + length d + 1 + length post" unfolding omf using ds by simp
  have cap: "append_cap (length ?omf) b d = Some (b @ d)" if "length b \<le> length pre" for b
    unfolding append_cap_def len using that le by simp
  have caps: "length (code_img st) \<le> length pre" "length (data_img st) \<le> length pre"
    using assms(2) by (auto simp: coll_inv_def)
  have fits: "int ds + int (length d) \<le> int (length ?omf)" unfolding len by simp
  show ?thesis
    unfolding ledata_step_def h Option.bind.bind_lunit prod.case
    using cap [OF caps(1)] cap [OF caps(2)] sl fits by (cases "d = []") auto
qed

lemma fixup_ledata:
  assumes "item_ok (LedataR sidx loc d)"
  shows "chunk_step (pre @ enc_item (LedataR sidx loc d) @ post) sg base
      (length pre) 0xA1 (length (item_body (LedataR sidx loc d)) + 1) st = Some (fix_meaning sg base n (LedataR sidx loc d) st)"
proof (rule ledata_head_enc [OF assms, of pre post])
  fix ds c pre2
  assume h: "ledata_head (pre @ enc_item (LedataR sidx loc d) @ post) (length pre) 0xA1
    (length (item_body (LedataR sidx loc d)) + 1) = Some (sidx, ds, int (length d))"
  show ?thesis
    unfolding chunk_step_def h Option.bind.bind_lunit prod.case by (auto simp: Let_def)
qed

lemma pubdef_enc:
  assumes "item_ok (PubdefR local grp seg syms)" and "length (pubs st) + length syms \<le> 64"
  shows "pubdef_step (pre @ enc_item (PubdefR local grp seg syms) @ post) (length pre)
      (unat (item_cmd (PubdefR local grp seg syms))) (length (item_body (PubdefR local grp seg syms)) + 1) st
    = Some (coll_meaning sg (PubdefR local grp seg syms) st)"
proof -
  let ?it = "PubdefR local grp seg syms"
  let ?syms = "concat (map (\<lambda>x. out_export x []) syms)"
  obtain head c where fl: "pre @ enc_item ?it @ post = head @ item_body ?it @ c # post"
    and p: "length pre + 3 = length head"
    using item_at [OF assms(1)] .
  have ok: "grp < 128" "0 < seg" "seg < 128"
    "list_all (\<lambda>(n, off). 0 < length n \<and> length n < 256 \<and> off < 2 ^ 32) syms"
    using assms(1) by (auto simp: item_ok_def)
  have "fold out_export syms d = d @ ?syms" for d
    by (rule fold_append_blocks) (rule out_export_append)
  then have body: "item_body ?it = [word_of_nat grp, word_of_nat seg] @ ?syms"
    using ok by (simp add: export_head_def out_idx_append enc_idx_short)
  let ?omf = "pre @ enc_item ?it @ post" and ?head = "head @ [word_of_nat grp, word_of_nat seg]"
  have omf: "?omf = ?head @ ?syms @ c # post" and omf': "?omf = head @ word_of_nat grp # word_of_nat seg # ?syms @ c # post"
    unfolding fl body by simp_all
  have pos: "length pre + 4 = Suc (length head)" "length pre + 5 = length ?head"
    "length head + (length (item_body ?it) + 1) - 1 = length ?head + length ?syms"
    using p unfolding body by simp_all
  have hd: "rdb ?omf (length pre + 3) = Some grp" "rdb ?omf (length pre + 4) = Some seg"
    unfolding omf' p pos rdb_at rdb_at_Suc using ok by (simp_all add: unat_byte)
  have sy: "read_pubs ?omf local True seg (length pre + 5) (length pre + 3 + (length (item_body ?it) + 1) - 1) (pubs st)
      = Some (pubs st @ map (pub_entry local seg) syms)"
  proof -
    have pe: "pub_entry local seg = (\<lambda>(n, off). \<lparr>pub_name = strip_name n, pub_off = off, pub_seg = seg, pub_local = local\<rparr>)"
      by (simp add: fun_eq_iff pub_entry_def)
    show ?thesis unfolding omf p pos pe by (rule read_pubs_enc [OF ok(4) assms(2)])
  qed
  have cmd: "(unat (item_cmd ?it) = 0xB6 \<or> unat (item_cmd ?it) = 0xB7) = local"
    "(unat (item_cmd ?it) = 0x91 \<or> unat (item_cmd ?it) = 0xB7) = True" by simp_all
  show ?thesis
    unfolding pubdef_step_def hd Option.bind.bind_lunit Let_def cmd using ok sy by simp
qed

lemma extdef_enc:
  assumes "item_ok (ExtdefR local ns)" and "length (exts st) + length ns \<le> 64"
  shows "extdef_step (pre @ enc_item (ExtdefR local ns) @ post) (length pre) rt
      (length (item_body (ExtdefR local ns)) + 1) st = Some (coll_meaning sg (ExtdefR local ns) st)"
proof -
  let ?it = "ExtdefR local ns" and ?ns = "concat (map (\<lambda>n. out_import n []) ns)"
  obtain head c where fl: "pre @ enc_item ?it @ post = head @ item_body ?it @ c # post"
    and p: "length pre + 3 = length head" "length head + (length (item_body ?it) + 1) - 1 = length head + length (item_body ?it)"
    using item_at [OF assms(1)] .
  have ok: "list_all (\<lambda>n. 0 < length n \<and> length n < 256) ns" using assms(1) by (simp add: item_ok_def)
  have body: "item_body ?it = ?ns"
    using fold_append_blocks [of out_import ns "[]", OF out_import_append] by simp
  show ?thesis
    unfolding extdef_step_def fl p body using read_exts_enc [OF ok assms(2)] p(2) by (simp add: body del: item_body.simps)
qed

lemma fixupp_enc:
  assumes "item_ok (FixuppR flat grp fs)" and "length (fixups st) + length fs \<le> 256"
  shows "read_fixups (pre @ enc_item (FixuppR flat grp fs) @ post) n 0x9D (length pre + 3)
      (length pre + 3 + (length (item_body (FixuppR flat grp fs)) + 1) - 1) st
    = Some (fix_meaning sg base n (FixuppR flat grp fs) st)"
proof -
  let ?it = "FixuppR flat grp fs" and ?fs = "concat (map (\<lambda>f. do_fix flat grp f []) fs)"
  obtain head c where fl: "pre @ enc_item ?it @ post = head @ item_body ?it @ c # post"
    and p: "length pre + 3 = length head" "length head + (length (item_body ?it) + 1) - 1 = length head + length (item_body ?it)"
    using item_at [OF assms(1)] .
  have ok: "list_all fix_ok fs" "grp < 2 ^ 15" using assms(1) by (auto simp: item_ok_def)
  have body: "item_body ?it = ?fs"
    using fold_append_blocks [of "do_fix flat grp" fs "[]", OF do_fix_append] by simp
  show ?thesis
    unfolding fl p body using read_fixups_enc [OF ok assms(2)] by simp
qed


lemma collect_reads:
  assumes ok: "item_ok it" and inv: "coll_inv (length pre) (it # its) st"
  shows "collect_step (length (pre @ enc_item it @ post)) (pre @ enc_item it @ post) sg (length pre)
      (unat (item_cmd it)) (length (item_body it) + 1) st = Some (coll_meaning sg it st)"
proof (cases it)
  case (LedataR sidx loc d)
  then show ?thesis using collect_ledata [of sidx loc d pre "it # its"] ok inv by (simp add: collect_step_def del: item_body.simps)
next
  case (PubdefR local grp seg syms)
  show ?thesis
  proof (cases "length (pubs st) < 64")
    case True
    have "length (pubs st) + length syms \<le> 64" using inv by (simp add: coll_inv_def PubdefR)
    from pubdef_enc [OF ok [unfolded PubdefR] this, of pre post sg] show ?thesis
      using True by (cases local) (simp_all add: collect_step_def PubdefR del: item_body.simps coll_meaning.simps)
  next
    case False
    have "length (pubs st) + length syms \<le> 64" using inv by (simp add: coll_inv_def PubdefR)
    then have "length syms = 0" using False by linarith
    then have "syms = []" by simp
    then show ?thesis using False by (simp add: collect_step_def PubdefR)
  qed
next
  case (ExtdefR local ns)
  show ?thesis
  proof (cases "length (exts st) < 64")
    case True
    have "length (exts st) + length ns \<le> 64" using inv by (simp add: coll_inv_def ExtdefR)
    from extdef_enc [OF ok [unfolded ExtdefR] this, of pre post _ sg] show ?thesis
      using True by (cases local) (simp_all add: collect_step_def ExtdefR del: item_body.simps coll_meaning.simps)
  next
    case False
    have "length (exts st) + length ns \<le> 64" using inv by (simp add: coll_inv_def ExtdefR)
    then have "length ns = 0" using False by linarith
    then have "ns = []" by simp
    then show ?thesis using False by (simp add: collect_step_def ExtdefR)
  qed
next
  case (OtherR cmd d)
  then show ?thesis using ok other_cmd by (simp add: collect_step_def)
qed (simp_all add: collect_step_def)

interpretation collects: record_pass "\<lambda>omf. collect_step (length omf) omf sg" "coll_meaning sg" coll_inv for sg
proof
  fix it i its and st :: collected
  assume ok: "item_ok it" and inv: "coll_inv i (it # its) st"
  have "length (code_img (coll_meaning sg it st)) + length (data_img (coll_meaning sg it st))
      \<le> length (code_img st) + length (data_img st) + length (enc_item it)"
    using length_enc_item [OF ok] by (cases it) auto
  then show "coll_inv (i + length (enc_item it)) its (coll_meaning sg it st)"
    using inv by (cases it) (auto simp: coll_inv_def)
qed (rule collect_reads)

lemma fold_fix_effect_grows: "length (fixups (fold (fix_effect n) fs st)) \<le> length (fixups st) + length fs"
proof (induction fs arbitrary: st)
  case (Cons f fs)
  show ?case
    using Cons [of "fix_effect n f st"] record_fixup_grows [of n "fx_where f" "fix_method f" "fix_tidx f" st]
    by (simp add: fix_effect_def)
qed simp

lemma fixup_reads:
  assumes ok: "item_ok it" and inv: "fix_inv (length pre) (it # its) st"
  shows "fixup_step (pre @ enc_item it @ post) sg base n (length pre)
      (unat (item_cmd it)) (length (item_body it) + 1) st = Some (fix_meaning sg base n it st)"
proof (cases it)
  case (LedataR sidx loc d)
  then show ?thesis using fixup_ledata [of sidx loc d pre post sg base st n] ok
    by (simp add: fixup_step_def del: item_body.simps fix_meaning.simps)
next
  case (FixuppR flat grp fs)
  show ?thesis
  proof (cases "length (fixups st) < 256")
    case True
    have "length (fixups st) + length fs \<le> 256" using inv by (simp add: fix_inv_def FixuppR)
    from fixupp_enc [OF ok [unfolded FixuppR] this, of pre post n sg base] show ?thesis
      using True by (simp add: fixup_step_def FixuppR del: item_body.simps fix_meaning.simps)
  next
    case False
    have "length (fixups st) + length fs \<le> 256" using inv by (simp add: fix_inv_def FixuppR)
    then have "length fs = 0" using False by linarith
    then have "fs = []" by simp
    then show ?thesis using False by (simp add: fixup_step_def FixuppR)
  qed
next
  case (OtherR cmd d)
  then show ?thesis using ok other_cmd by (simp add: fixup_step_def)
qed (simp_all add: fixup_step_def)

interpretation fixups_pass: record_pass "\<lambda>omf. fixup_step omf sg base n" "fix_meaning sg base n" fix_inv for sg base n
proof
  fix it i its and st :: fix_state
  assume "item_ok it" and inv: "fix_inv i (it # its) st"
  show "fix_inv (i + length (enc_item it)) its (fix_meaning sg base n it st)"
  proof (cases it)
    case (FixuppR flat grp fs)
    then show ?thesis using inv fold_fix_effect_grows [of n fs st] by (simp add: fix_inv_def)
  next
    case (LedataR sidx loc d)
    have "fixups (fix_meaning sg base n it st) = fixups st" by (simp add: LedataR Let_def)
    then show ?thesis using inv by (simp add: fix_inv_def LedataR)
  qed (use inv in \<open>simp_all add: fix_inv_def\<close>)
qed (rule fixup_reads)

section \<open>The module the records describe\<close>

definition module_meaning :: "omf_item list \<Rightarrow> omf_module option" where
  "module_meaning its =
    (let names = fold names_meaning its [[]];
         sg = fold (segs_meaning names) its segs_init;
         co = fold (coll_meaning sg) its collected_init;
         fx = fold (fix_meaning sg (seg_base co) (length (exts co))) its fix_init
     in map_option (\<lambda>(bss_base, bss_total).
          \<lparr>m_segs = sg, m_bss_base = bss_base, m_bss_total = bss_total, m_coll = co,
           m_fixups = fixups fx, m_dfixups = dfixups fx\<rparr>) (bss_layout sg))"

lemma omf_read_enc:
  assumes ok: "list_all item_ok its" and lim: "within_limits its"
  shows "omf_read (enc_module its) = module_meaning its"
proof -
  let ?names = "fold names_meaning its [[]]"
  let ?sg = "fold (segs_meaning ?names) its segs_init"
  let ?co = "fold (coll_meaning ?sg) its collected_init"
  have "names_inv 0 its [[]]" "coll_inv 0 its collected_init" "fix_inv 0 its fix_init"
    using lim by (simp_all add: names_inv_def coll_inv_def fix_inv_def within_limits_def collected_init_def fix_init_def)
  then have
    "fold_walk (lnames_step (enc_module its)) (omf_walk (enc_module its) 0) [[]] = Some ?names"
    "fold_walk (segdef_step (enc_module its) ?names) (omf_walk (enc_module its) 0) segs_init = Some ?sg"
    "fold_walk (collect_step (length (enc_module its)) (enc_module its) ?sg) (omf_walk (enc_module its) 0) collected_init = Some ?co"
    "fold_walk (fixup_step (enc_module its) ?sg (seg_base ?co) (length (exts ?co))) (omf_walk (enc_module its) 0) fix_init
      = Some (fold (fix_meaning ?sg (seg_base ?co) (length (exts ?co))) its fix_init)"
    using names.reads_all [of its "[]"] segdefs.reads_all [of its "[]"] collects.reads_all [of its "[]"]
      fixups_pass.reads_all [of its "[]"] ok by simp_all
  then show ?thesis
    by (simp add: omf_read_def module_meaning_def Let_def split: option.split)
       (simp add: map_option_case split: option.split prod.split)
qed


text \<open>
  C3.  A file made of the records the OMF writer emits -- names, segments, data, publics,
  externals and fixups, through the writer's own primitives and with checksums -- is read back as
  the module those records describe, as long as the tables of the reader have room.  The fixups
  come out at their place in the collected image, whatever chunk they were relative to.
\<close>

theorem omf_round_trip:
  assumes "list_all item_ok its" and "within_limits its"
  shows "omf_read (enc_module its) = module_meaning its"
  using assms by (rule omf_read_enc)

definition text_bytes :: "segs \<Rightarrow> omf_item \<Rightarrow> bytes" where
  "text_bytes sg it = (case it of LedataR sidx loc d \<Rightarrow> if sidx = text_seg_idx sg then d else [] | _ \<Rightarrow> [])"

definition data_bytes :: "segs \<Rightarrow> omf_item \<Rightarrow> bytes" where
  "data_bytes sg it = (case it of LedataR sidx loc d \<Rightarrow>
     if sidx \<noteq> text_seg_idx sg \<and> 0 < sidx \<and> sidx < 512 \<and> seg_is_data sg sidx then d else [] | _ \<Rightarrow> [])"

definition item_pubs :: "omf_item \<Rightarrow> pub_rec list" where
  "item_pubs it = (case it of PubdefR local grp seg syms \<Rightarrow> map (pub_entry local seg) syms | _ \<Rightarrow> [])"

definition item_exts :: "omf_item \<Rightarrow> bytes list" where
  "item_exts it = (case it of ExtdefR local ns \<Rightarrow> map strip_name ns | _ \<Rightarrow> [])"

lemma fold_coll_meaning:
  "code_img (fold (coll_meaning sg) its co) = code_img co @ concat (map (text_bytes sg) its)
   \<and> data_img (fold (coll_meaning sg) its co) = data_img co @ concat (map (data_bytes sg) its)
   \<and> pubs (fold (coll_meaning sg) its co) = pubs co @ concat (map item_pubs its)
   \<and> exts (fold (coll_meaning sg) its co) = exts co @ concat (map item_exts its)"
proof (induction its arbitrary: co)
  case (Cons it its)
  show ?case
    using Cons [of "coll_meaning sg it co"]
    by (cases it) (auto simp: text_bytes_def data_bytes_def item_pubs_def item_exts_def)
qed simp

text \<open>
  The code image is the text of all the LEDATA records of the code segment in the order of
  the file, the data image that of all the segments of class DATA, and the symbol tables are the
  names of the PUBDEF and EXTDEF records in order, so that an EXTDEF index of a fixup is a position
  in the table.
\<close>

theorem omf_read_images:
  assumes "list_all item_ok its" and "within_limits its" and "omf_read (enc_module its) = Some m"
  shows "code_img (m_coll m) = concat (map (text_bytes (m_segs m)) its)
    \<and> data_img (m_coll m) = concat (map (data_bytes (m_segs m)) its)
    \<and> pubs (m_coll m) = concat (map item_pubs its)
    \<and> exts (m_coll m) = concat (map item_exts its)"
  using assms(3) fold_coll_meaning [of "m_segs m" its collected_init]
  unfolding omf_read_enc [OF assms(1,2)]
  by (auto simp: module_meaning_def Let_def collected_init_def)

lemma fold_skip:
  assumes "\<And>st. f it st = st"
  shows "fold f (xs @ it # ys) st = fold f (xs @ ys) st"
  using assms by simp

lemma module_meaning_other: "module_meaning (xs @ OtherR cmd d # ys) = module_meaning (xs @ ys)"
  unfolding module_meaning_def by (simp only: fold_skip names_meaning.simps segs_meaning.simps coll_meaning.simps fix_meaning.simps)

text \<open>
  A LIDATA record -- how \<open>OutIBytes\<close> writes a longer run of equal bytes, such as the zeros at
  the end of a partly initialised array -- leaves no trace: the module read is the one without it,
  and everything after it in the segment is packed as if the run had no length.
\<close>

theorem lidata_is_dropped:
  assumes "list_all item_ok (xs @ ys)" and "within_limits (xs @ ys)"
    and "d \<noteq> []" and "length d < 2 ^ 16 - 1"
  shows "omf_read (enc_module (xs @ OtherR 0xA3 d # ys)) = omf_read (enc_module (xs @ ys))"
proof -
  have "item_ok (OtherR 0xA3 d)" using assms(3,4) by (simp add: item_ok_def handled_def)
  then have ok: "list_all item_ok (xs @ OtherR 0xA3 d # ys)" using assms(1) by simp
  have lim: "within_limits (xs @ OtherR 0xA3 d # ys)" using assms(2) by (simp add: within_limits_def)
  show ?thesis
    unfolding omf_read_enc [OF ok lim] omf_read_enc [OF assms(1,2)] by (rule module_meaning_other)
qed

text \<open>
  The offset an LEDATA record gives for its data is not looked at: whatever gap or overlap
  the records of a segment describe, the module read is the same, its bytes packed end to end.
\<close>

theorem ledata_offset_ignored:
  assumes "list_all item_ok (xs @ LedataR sidx loc d # ys)" and "within_limits (xs @ LedataR sidx loc d # ys)"
  shows "omf_read (enc_module (xs @ LedataR sidx loc' d # ys)) = omf_read (enc_module (xs @ LedataR sidx loc d # ys))"
proof -
  have "item_ok (LedataR sidx loc' d)" using assms(1) by (simp add: item_ok_def ledata_start_def out_idx_append out_offset_def)
  then have ok: "list_all item_ok (xs @ LedataR sidx loc' d # ys)" using assms(1) by simp
  have lim: "within_limits (xs @ LedataR sidx loc' d # ys)" using assms(2) by (simp add: within_limits_def)
  show ?thesis
    unfolding omf_read_enc [OF ok lim] omf_read_enc [OF assms] by (simp add: module_meaning_def)
qed

text \<open>
  A module with names, three segments, code that calls an external, and data: the specimen of the
  statements above.
\<close>

abbreviation specimen :: "omf_item list" where
  "specimen \<equiv> [LnamesR [[], [0x43, 0x4F, 0x44, 0x45], [0x44, 0x41, 0x54, 0x41]],
     SegdefR 0x69 6 1 2 1, SegdefR 0x69 2 1 3 1, ExtdefR False [[0x66, 0x5F]],
     LedataR 1 0 [0xE8, 0, 0, 0, 0, 0xC3],
     FixuppR False 0 [\<lparr>fx_rel = True, fx_loc = 9, fx_where = 1, fx_base = 2, fx_idx = 1, fx_sidx = 0\<rparr>],
     LedataR 2 0 [7, 8], PubdefR False 0 1 [([0x6D], 0)]]"

lemma specimen_ok: "list_all item_ok specimen" "within_limits specimen"
  by (simp_all add: item_ok_def within_limits_def names_body_def segdef_body_def ledata_start_def export_head_def
      out_export_def out_import_def do_fix_def out_idx_append enc_idx_short out_name_short out_offset_def
      out_byte_def fix_ok_def Let_def del: le_bytes.simps)

lemma specimen_read: "omf_read (enc_module specimen) \<noteq> None"
proof -
  have "module_meaning specimen \<noteq> None" by code_simp
  then show ?thesis by (simp only: omf_read_enc [OF specimen_ok] not_False_eq_True)
qed

lemma specimen_names:
  "fold names_meaning specimen [[]] = [[], [], [0x43, 0x4F, 0x44, 0x45], [0x44, 0x41, 0x54, 0x41]]"
  by (simp add: c_str_def)

lemma specimen_segs:
  "fold (segs_meaning [[], [], [0x43, 0x4F, 0x44, 0x45], [0x44, 0x41, 0x54, 0x41]]) specimen segs_init =
     \<lparr>seg_num = 2, text_seg_idx = 1, data_seg_idx = 2, seg_is_data = (\<lambda>_. False)(1 := False, 2 := True),
      seg_is_bss = (\<lambda>_. False)(1 := False, 2 := False), seg_len = (\<lambda>_. 0)(1 := 6, 2 := 2)\<rparr>"
  by (simp add: segs_init_def seg_classify_def s_CODE_def s_DATA_def s_BSS_def s_CONST_def Let_def
      numeral_2_eq_2 del: fun_upd_apply)

theorem omf_round_trip_witness:
  "\<exists>m. omf_read (enc_module specimen) = Some m
    \<and> code_img (m_coll m) = [0xE8, 0, 0, 0, 0, 0xC3] \<and> data_img (m_coll m) = [7, 8]
    \<and> m_fixups m = [\<lparr>code_offset = 1, ext_idx = 0, target_seg = 0\<rparr>]"
proof -
  obtain m where m: "omf_read (enc_module specimen) = Some m" using specimen_read by blast
  then have "module_meaning specimen = Some m" by (simp only: omf_round_trip [OF specimen_ok])
  then show ?thesis
    unfolding module_meaning_def Let_def specimen_names specimen_segs m
    by (auto simp: collected_init_def fix_init_def Let_def fix_effect_def record_fixup_def fix_method_def fix_tidx_def strip_name_def c_str_def)
qed

theorem omf_read_images_witness: "\<exists>m. omf_read (enc_module specimen) = Some m \<and> exts (m_coll m) = [[0x66]]"
proof -
  obtain m where m: "omf_read (enc_module specimen) = Some m" using specimen_read by blast
  have "concat (map item_exts specimen) = [[0x66]]" by code_simp
  then show ?thesis using omf_read_images [OF specimen_ok m] m by auto
qed

theorem ledata_offset_ignored_witness:
  "omf_read (enc_module (take 4 specimen @ LedataR 1 64 [0xE8, 0, 0, 0, 0, 0xC3] # drop 5 specimen)) =
   omf_read (enc_module (take 4 specimen @ LedataR 1 0 [0xE8, 0, 0, 0, 0, 0xC3] # drop 5 specimen))"
proof -
  have "take 4 specimen @ LedataR 1 0 [0xE8, 0, 0, 0, 0, 0xC3] # drop 5 specimen = specimen" by simp
  then show ?thesis by (intro ledata_offset_ignored) (simp_all only: specimen_ok)
qed

theorem lidata_is_dropped_witness:
  "omf_read (enc_module ([] @ OtherR 0xA3 [2, 0, 0, 0, 0, 100, 0, 0, 0, 0, 0, 1, 0] # specimen))
    = omf_read (enc_module ([] @ specimen))"
  by (rule lidata_is_dropped) (simp_all only: append.left_neutral specimen_ok, simp_all)


theorem omf_read_wf_witness: "\<exists>m. omf_read (enc_module specimen) = Some m \<and> module_wf m"
proof -
  obtain m where m: "omf_read (enc_module specimen) = Some m" using specimen_read by blast
  then show ?thesis using omf_read_wf [OF m] by blast
qed

end
