(* ===== verification/ElfWrite.thy ===== *)
theory ElfWrite
  imports OmfFacts
begin

text \<open>
  The ELF64 writer of \<open>X64ObjFini\<close> (\<open>bld/cg/intel/x64/c/x64obj.c\<close>): string table, symbol table,
  relocations, layout and section headers, as the list of the bytes written to the temporary file.

  The record layouts (\<open>Elf64_Ehdr\<close>, \<open>Elf64_Sym\<close>, \<open>Elf64_Rela\<close>, \<open>Elf64_Shdr\<close>: 64, 24, 24 and 64 bytes)
  and constants are those of the ELF specification.  A field is a natural number or an integer
  written at its width.
\<close>

section \<open>Records of the format\<close>

definition le_int :: "nat \<Rightarrow> int \<Rightarrow> bytes" where
  "le_int n v = le_bytes n (nat (v mod 256 ^ n))"

record elf_sym =
  st_name :: nat
  st_info :: nat
  st_shndx :: nat
  st_value :: nat
  st_size :: nat

definition sym_bytes :: "elf_sym \<Rightarrow> bytes" where
  "sym_bytes s = le_bytes 4 (st_name s) @ le_bytes 1 (st_info s) @ le_bytes 1 0
     @ le_bytes 2 (st_shndx s) @ le_bytes 8 (st_value s) @ le_bytes 8 (st_size s)"

record elf_rela =
  r_offset :: int
  r_sym :: nat
  r_type :: nat
  r_addend :: int

text \<open>\<open>ELF64_R_INFO\<close>: the type in the low and the symbol in the high 32 bits.\<close>

definition rela_bytes :: "elf_rela \<Rightarrow> bytes" where
  "rela_bytes r = le_int 8 (r_offset r) @ le_bytes 8 (push_bit 32 (r_sym r) + r_type r) @ le_int 8 (r_addend r)"

record elf_shdr =
  sh_name :: nat
  sh_type :: nat
  sh_flags :: nat
  sh_offset :: nat
  sh_size :: int
  sh_link :: nat
  sh_info :: nat
  sh_addralign :: nat
  sh_entsize :: nat

definition shdr_zero :: elf_shdr where
  "shdr_zero = \<lparr>sh_name = 0, sh_type = 0, sh_flags = 0, sh_offset = 0, sh_size = 0, sh_link = 0,
     sh_info = 0, sh_addralign = 0, sh_entsize = 0\<rparr>"

definition shdr_bytes :: "elf_shdr \<Rightarrow> bytes" where
  "shdr_bytes s = le_bytes 4 (sh_name s) @ le_bytes 4 (sh_type s) @ le_bytes 8 (sh_flags s) @ le_bytes 8 0
     @ le_bytes 8 (sh_offset s) @ le_int 8 (sh_size s) @ le_bytes 4 (sh_link s) @ le_bytes 4 (sh_info s)
     @ le_bytes 8 (sh_addralign s) @ le_bytes 8 (sh_entsize s)"

definition st_info_of :: "nat \<Rightarrow> nat \<Rightarrow> nat" where
  "st_info_of bnd ty = push_bit 4 bnd + (ty AND 0x0F)"

definition STB_LOCAL :: nat where "STB_LOCAL = 0"
definition STB_GLOBAL :: nat where "STB_GLOBAL = 1"
definition STT_NOTYPE :: nat where "STT_NOTYPE = 0"
definition STT_OBJECT :: nat where "STT_OBJECT = 1"
definition STT_FUNC :: nat where "STT_FUNC = 2"
definition STT_SECTION :: nat where "STT_SECTION = 3"
definition R_X86_64_PC32 :: nat where "R_X86_64_PC32 = 2"
definition R_X86_64_PLT32 :: nat where "R_X86_64_PLT32 = 4"
definition R_X86_64_32 :: nat where "R_X86_64_32 = 10"
definition R_X86_64_32S :: nat where "R_X86_64_32S = 11"

section \<open>The string table\<close>

text \<open>The fixed part: a NUL and the section names, and where each of those starts.\<close>

definition fixed_names :: "bytes list" where
  "fixed_names =
    [[0x2E, 0x74, 0x65, 0x78, 0x74],
     [0x2E, 0x73, 0x74, 0x72, 0x74, 0x61, 0x62],
     [0x2E, 0x73, 0x79, 0x6D, 0x74, 0x61, 0x62],
     [0x2E, 0x64, 0x61, 0x74, 0x61],
     [0x2E, 0x62, 0x73, 0x73],
     [0x2E, 0x72, 0x65, 0x6C, 0x61, 0x2E, 0x74, 0x65, 0x78, 0x74],
     [0x2E, 0x72, 0x65, 0x6C, 0x61, 0x2E, 0x64, 0x61, 0x74, 0x61],
     [0x2E, 0x6E, 0x6F, 0x74, 0x65, 0x2E, 0x47, 0x4E, 0x55, 0x2D, 0x73, 0x74, 0x61, 0x63, 0x6B]]"

definition str_text :: nat where "str_text = 1"
definition str_strtab :: nat where "str_strtab = 7"
definition str_symtab :: nat where "str_symtab = 15"
definition str_data :: nat where "str_data = 23"
definition str_bss :: nat where "str_bss = 29"
definition str_relatext :: nat where "str_relatext = 34"
definition str_reladata :: nat where "str_reladata = 45"
definition str_note :: nat where "str_note = 56"

text \<open>Names appended one after the other, each with its terminator: the table and the positions.\<close>

fun put_names :: "bytes list \<Rightarrow> bytes \<Rightarrow> nat list \<Rightarrow> bytes \<times> nat list" where
  "put_names [] tab pos = (tab, pos)"
| "put_names (n # ns) tab pos = put_names ns (tab @ n @ [0]) (pos @ [length tab])"

definition fixed_strtab :: bytes where
  "fixed_strtab = fst (put_names fixed_names [0] [])"

definition ext_local :: "pub_rec list \<Rightarrow> bytes \<Rightarrow> nat option" where
  "ext_local ps name = find (\<lambda>q. pub_name (ps ! q) = name) [0..<length ps]"

fun put_exts :: "pub_rec list \<Rightarrow> nat list \<Rightarrow> bytes list \<Rightarrow> bytes \<Rightarrow> nat list \<Rightarrow> bytes \<times> nat list" where
  "put_exts ps str_pub [] tab pos = (tab, pos)"
| "put_exts ps str_pub (n # ns) tab pos =
    (case ext_local ps n of
       Some q \<Rightarrow> put_exts ps str_pub ns tab (pos @ [str_pub ! q])
     | None \<Rightarrow> put_exts ps str_pub ns (tab @ n @ [0]) (pos @ [length tab]))"

definition strtab_cap :: nat where "strtab_cap = 262144"

definition build_strtab :: "pub_rec list \<Rightarrow> bytes list \<Rightarrow> (bytes \<times> nat list \<times> nat list) option" where
  "build_strtab ps es =
    (case put_names (map pub_name ps) fixed_strtab [] of (tab, str_pub) \<Rightarrow>
       (case put_exts ps str_pub es tab [] of (tab, str_ext) \<Rightarrow>
          if length tab \<le> strtab_cap then Some (tab, str_pub, str_ext) else None))"

section \<open>Symbol numbers\<close>

text \<open>The two loops that number the local and then the global definitions from 4.\<close>

definition number_pass :: "bool \<Rightarrow> pub_rec list \<Rightarrow> nat list \<times> nat \<Rightarrow> nat list \<times> nat" where
  "number_pass loc ps =
     fold (\<lambda>q (idx, nxt). if pub_local (ps ! q) = loc then (idx[q := nxt], nxt + 1) else (idx, nxt))
       [0..<length ps]"

definition pub_symidx :: "pub_rec list \<Rightarrow> nat list" where
  "pub_symidx ps = fst (number_pass False ps (number_pass True ps (replicate (length ps) 0, 4)))"

definition ext_rank :: "pub_rec list \<Rightarrow> bytes list \<Rightarrow> nat \<Rightarrow> nat" where
  "ext_rank ps es e = length (filter (\<lambda>t. ext_local ps (es ! t) = None) [0..<e])"

definition ext_symidx :: "pub_rec list \<Rightarrow> bytes list \<Rightarrow> nat \<Rightarrow> nat" where
  "ext_symidx ps es e =
    (case ext_local ps (es ! e) of
       Some q \<Rightarrow> pub_symidx ps ! q
     | None \<Rightarrow> 4 + length ps + ext_rank ps es e)"

definition real_ext :: "pub_rec list \<Rightarrow> bytes list \<Rightarrow> nat" where
  "real_ext ps es = length (filter (\<lambda>e. ext_local ps e = None) es)"

definition n_local_pub :: "pub_rec list \<Rightarrow> nat" where
  "n_local_pub ps = length (filter pub_local ps)"

section \<open>Symbols\<close>

definition SEC_TEXT :: nat where "SEC_TEXT = 1"
definition SEC_DATA :: nat where "SEC_DATA = 2"
definition SEC_BSS :: nat where "SEC_BSS = 3"
definition SEC_SYMTAB :: nat where "SEC_SYMTAB = 4"

definition u32n :: "int \<Rightarrow> nat" where
  "u32n v = nat (v mod 2 ^ 32)"

definition section_sym :: "nat \<Rightarrow> nat \<Rightarrow> elf_sym" where
  "section_sym name sec = \<lparr>st_name = name, st_info = st_info_of STB_LOCAL STT_SECTION, st_shndx = sec,
     st_value = 0, st_size = 0\<rparr>"

definition fixed_syms :: "elf_sym list" where
  "fixed_syms =
    [\<lparr>st_name = 0, st_info = 0, st_shndx = 0, st_value = 0, st_size = 0\<rparr>,
     section_sym str_text SEC_TEXT, section_sym str_data SEC_DATA, section_sym str_bss SEC_BSS]"

text \<open>
  \<open>next_off\<close> is the search for the next symbol of the segment; \<open>offs\<close> are the adjusted offsets.
\<close>

definition next_off :: "pub_rec list \<Rightarrow> nat list \<Rightarrow> nat \<Rightarrow> nat \<Rightarrow> nat \<Rightarrow> nat" where
  "next_off ps offs seg off lim =
     fold (\<lambda>r nxt. if pub_seg (ps ! r) = seg \<and> off < offs ! r \<and> offs ! r < nxt then offs ! r else nxt)
       [0..<length ps] lim"

definition seg_anchor :: "omf_module \<Rightarrow> nat \<Rightarrow> nat \<times> int" where
  "seg_anchor m ps =
    (if 0 < ps \<and> ps < 512 \<and> seg_is_bss (m_segs m) ps
     then (SEC_BSS, if 0 \<le> m_bss_base m ps then m_bss_base m ps else 0)
     else (SEC_DATA, if 0 < ps \<and> ps < 512 \<and> 0 \<le> seg_base (m_coll m) ps then seg_base (m_coll m) ps else 0))"

definition pub_sym :: "omf_module \<Rightarrow> nat \<Rightarrow> nat list \<Rightarrow> nat list \<Rightarrow> nat \<Rightarrow> elf_sym" where
  "pub_sym m code_len offs str_pub q =
    (let ps = pubs (m_coll m); p = ps ! q; off = offs ! q; seg = pub_seg p;
         bnd = (if pub_local p then STB_LOCAL else STB_GLOBAL)
     in if seg = text_seg_idx (m_segs m)
        then \<lparr>st_name = str_pub ! q, st_info = st_info_of bnd STT_FUNC, st_shndx = SEC_TEXT,
              st_value = off, st_size = u32n (int (next_off ps offs seg off code_len) - int off)\<rparr>
        else (case seg_anchor m seg of (sec, base) \<Rightarrow>
          (let endoff = next_off ps offs seg off (seg_len (m_segs m) seg)
           in \<lparr>st_name = str_pub ! q, st_info = st_info_of bnd STT_OBJECT, st_shndx = sec,
               st_value = u32n (base + int off), st_size = (if off < endoff then endoff - off else 4)\<rparr>)))"

definition ext_sym :: "nat \<Rightarrow> elf_sym" where
  "ext_sym name = \<lparr>st_name = name, st_info = st_info_of STB_GLOBAL STT_NOTYPE, st_shndx = 0,
     st_value = 0, st_size = 0\<rparr>"

definition symbol_table ::
  "omf_module \<Rightarrow> nat \<Rightarrow> nat list \<Rightarrow> nat list \<Rightarrow> nat list \<Rightarrow> elf_sym list" where
  "symbol_table m code_len offs str_pub str_ext =
    (let ps = pubs (m_coll m); es = exts (m_coll m); qs = [0..<length ps]
     in fixed_syms
        @ map (pub_sym m code_len offs str_pub) (filter (\<lambda>q. pub_local (ps ! q)) qs)
        @ map (pub_sym m code_len offs str_pub) (filter (\<lambda>q. \<not> pub_local (ps ! q)) qs)
        @ map (\<lambda>e. ext_sym (str_ext ! e)) (filter (\<lambda>e. ext_local ps (es ! e) = None) [0..<length es]))"

section \<open>Relocations\<close>

text \<open>Reads of the patched code at a signed offset.\<close>

definition code_at :: "bytes \<Rightarrow> int \<Rightarrow> nat option" where
  "code_at code i = (if 0 \<le> i then rdb code (nat i) else None)"

definition within_at :: "bytes \<Rightarrow> int \<Rightarrow> bytes option" where
  "within_at code off =
    (if off + 4 \<le> int (length code)
     then if 0 \<le> off then rd_slice code (nat off) 4 else None
     else Some [0, 0, 0, 0])"

definition trail_of :: "nat \<Rightarrow> int option" where
  "trail_of op =
    (if op = 0x83 \<or> op = 0xC6 \<or> op = 0x80 \<or> op = 0x6B then Some 1
     else if op = 0x81 \<or> op = 0xC7 \<or> op = 0x69 then Some 4
     else None)"

text \<open>The opcode byte \<open>d\<close> bytes before the fixup, or one further back when that is a REX.W.\<close>

definition opcode_before :: "bytes \<Rightarrow> int \<Rightarrow> int \<Rightarrow> nat option" where
  "opcode_before code off d = do {
     op \<leftarrow> code_at code (off - d);
     if op = 0x48 \<and> d + 1 \<le> off then code_at code (off - d - 1) else Some op
   }"

definition ext_trail :: "bytes \<Rightarrow> int \<Rightarrow> int option" where
  "ext_trail code off =
    (if 2 \<le> off then do {
       op \<leftarrow> opcode_before code off 2;
       case trail_of op of
         Some t \<Rightarrow> Some t
       | None \<Rightarrow> do {
           op2 \<leftarrow> (if 3 \<le> off then opcode_before code off 3 else Some 0);
           Some (case trail_of op2 of Some t \<Rightarrow> t | None \<Rightarrow> 0)
         }
     } else Some 0)"

definition data_trail :: "bytes \<Rightarrow> int \<Rightarrow> int option" where
  "data_trail code off =
    (if 2 \<le> off then map_option (\<lambda>op. case trail_of op of Some t \<Rightarrow> t | None \<Rightarrow> 0) (opcode_before code off 2)
     else Some 0)"

definition text_rela :: "omf_module \<Rightarrow> bytes \<Rightarrow> fixup_rec \<Rightarrow> nat \<Rightarrow> elf_rela option" where
  "text_rela m code f orig =
    (let off = code_offset f in
     if 0 \<le> ext_idx f then do {
       let sym_idx = ext_symidx (pubs (m_coll m)) (exts (m_coll m)) (nat (ext_idx f));
       prev \<leftarrow> (if 1 \<le> off then code_at code (off - 1) else Some 0);
       within \<leftarrow> map_option s32 (within_at code off);
       if 1 \<le> off \<and> (prev = 0xE8 \<or> prev = 0xE9)
       then Some \<lparr>r_offset = off, r_sym = sym_idx, r_type = R_X86_64_PLT32, r_addend = within - 4\<rparr>
       else if prev AND 0xC7 = 0x05 then do {
         trail \<leftarrow> ext_trail code off;
         Some \<lparr>r_offset = off, r_sym = sym_idx, r_type = R_X86_64_PC32, r_addend = within - 4 - trail\<rparr>
       } else Some \<lparr>r_offset = off, r_sym = sym_idx, r_type = R_X86_64_32S, r_addend = within\<rparr>
     } else do {
       within \<leftarrow> map_option (\<lambda>b. int (le_val b)) (within_at code off);
       let ts = target_seg f;
       let (anchor, base) = (if 0 < ts \<and> ts < 512 \<and> seg_is_bss (m_segs m) ts then seg_anchor m ts
                             else if ts = text_seg_idx (m_segs m) then (SEC_TEXT, 0)
                             else seg_anchor m ts);
       let prev = (if 1 \<le> off then orig else 0);
       if (0xB8 \<le> prev \<and> prev \<le> 0xBF) \<or> prev = 0x68 \<or> prev = 0x6A \<or> prev = 0xC7
       then Some \<lparr>r_offset = off, r_sym = anchor, r_type = R_X86_64_32S, r_addend = base + within\<rparr>
       else do {
         trail \<leftarrow> data_trail code off;
         Some \<lparr>r_offset = off, r_sym = anchor, r_type = R_X86_64_PC32, r_addend = base + within - 4 - trail\<rparr>
       }
     })"

definition data_rela :: "omf_module \<Rightarrow> fixup_rec \<Rightarrow> elf_rela" where
  "data_rela m f =
    (let off = code_offset f; d = data_img (m_coll m);
         within = (if 0 \<le> off \<and> off + 4 \<le> int (length d) then int (le_val (take 4 (drop (nat off) d))) else 0)
     in if 0 \<le> ext_idx f
        then \<lparr>r_offset = off, r_sym = ext_symidx (pubs (m_coll m)) (exts (m_coll m)) (nat (ext_idx f)),
              r_type = R_X86_64_32, r_addend = within\<rparr>
        else (case seg_anchor m (target_seg f) of (anchor, base) \<Rightarrow>
               \<lparr>r_offset = off, r_sym = anchor, r_type = R_X86_64_32S, r_addend = base + within\<rparr>))"

fun map_opt :: "('a \<Rightarrow> 'b option) \<Rightarrow> 'a list \<Rightarrow> 'b list option" where
  "map_opt f [] = Some []"
| "map_opt f (x # xs) = do { y \<leftarrow> f x; ys \<leftarrow> map_opt f xs; Some (y # ys) }"

section \<open>Layout\<close>

definition pad_to :: "nat \<Rightarrow> nat \<Rightarrow> nat" where
  "pad_to a n = (a - n mod a) mod a"

record layout =
  l_text_off :: nat
  l_text_pad :: nat
  l_data_off :: nat
  l_data_pad :: nat
  l_symtab_off :: nat
  l_symtab_sz :: nat
  l_rela_off :: nat
  l_rela_sz :: nat
  l_drela_off :: nat
  l_drela_sz :: nat
  l_strtab_off :: nat
  l_strtab_pad :: nat
  l_shdr_off :: nat

definition make_layout :: "nat \<Rightarrow> nat \<Rightarrow> nat \<Rightarrow> nat \<Rightarrow> nat \<Rightarrow> nat \<Rightarrow> layout" where
  "make_layout code_len data_len num_syms num_relas num_drelas st_len =
    (let text_off = 64;
         text_pad = pad_to 16 (text_off + code_len);
         data_off = text_off + code_len + text_pad;
         data_pad = pad_to 16 (data_off + data_len);
         symtab_off = data_off + data_len + data_pad;
         symtab_sz = num_syms * 24;
         rela_off = symtab_off + symtab_sz;
         rela_sz = num_relas * 24;
         drela_off = rela_off + rela_sz;
         drela_sz = num_drelas * 24;
         strtab_off = drela_off + drela_sz;
         strtab_pad = pad_to 8 (strtab_off + st_len)
     in \<lparr>l_text_off = text_off, l_text_pad = text_pad, l_data_off = data_off, l_data_pad = data_pad,
         l_symtab_off = symtab_off, l_symtab_sz = symtab_sz, l_rela_off = rela_off, l_rela_sz = rela_sz,
         l_drela_off = drela_off, l_drela_sz = drela_sz, l_strtab_off = strtab_off,
         l_strtab_pad = strtab_pad, l_shdr_off = strtab_off + st_len + strtab_pad\<rparr>)"

definition num_sections :: "bool \<Rightarrow> bool \<Rightarrow> nat" where
  "num_sections has_rela has_drela = 5 + (if has_rela then 1 else 0) + (if has_drela then 1 else 0) + 2"

definition ehdr_bytes :: "layout \<Rightarrow> nat \<Rightarrow> bytes" where
  "ehdr_bytes l nsec =
     [0x7F, 0x45, 0x4C, 0x46, 2, 1, 1, 0] @ replicate 8 0
     @ le_bytes 2 1 @ le_bytes 2 62 @ le_bytes 4 1 @ le_bytes 8 0 @ le_bytes 8 0 @ le_bytes 8 (l_shdr_off l)
     @ le_bytes 4 0 @ le_bytes 2 64 @ le_bytes 2 0 @ le_bytes 2 0 @ le_bytes 2 64 @ le_bytes 2 nsec
     @ le_bytes 2 (nsec - 1)"

definition section_headers ::
  "layout \<Rightarrow> nat \<Rightarrow> nat \<Rightarrow> int \<Rightarrow> nat \<Rightarrow> nat \<Rightarrow> bool \<Rightarrow> bool \<Rightarrow> elf_shdr list" where
  "section_headers l code_len data_len bss_total st_len num_local has_rela has_drela =
    (let strtab_idx = num_sections has_rela has_drela - 1 in
     [shdr_zero,
      shdr_zero\<lparr>sh_name := str_text, sh_type := 1, sh_flags := 0x2 + 0x4, sh_offset := l_text_off l,
        sh_size := int code_len, sh_addralign := 16\<rparr>,
      shdr_zero\<lparr>sh_name := str_data, sh_type := 1, sh_flags := 0x2 + 0x1, sh_offset := l_data_off l,
        sh_size := int data_len, sh_addralign := 16\<rparr>,
      shdr_zero\<lparr>sh_name := str_bss, sh_type := 8, sh_flags := 0x2 + 0x1, sh_offset := l_symtab_off l,
        sh_size := bss_total, sh_addralign := 16\<rparr>,
      shdr_zero\<lparr>sh_name := str_symtab, sh_type := 2, sh_offset := l_symtab_off l,
        sh_size := int (l_symtab_sz l), sh_link := strtab_idx, sh_info := num_local, sh_addralign := 8,
        sh_entsize := 24\<rparr>]
     @ (if has_rela then [shdr_zero\<lparr>sh_name := str_relatext, sh_type := 4, sh_flags := 0x40,
          sh_offset := l_rela_off l, sh_size := int (l_rela_sz l), sh_link := SEC_SYMTAB,
          sh_info := SEC_TEXT, sh_addralign := 8, sh_entsize := 24\<rparr>] else [])
     @ (if has_drela then [shdr_zero\<lparr>sh_name := str_reladata, sh_type := 4, sh_flags := 0x40,
          sh_offset := l_drela_off l, sh_size := int (l_drela_sz l), sh_link := SEC_SYMTAB,
          sh_info := SEC_DATA, sh_addralign := 8, sh_entsize := 24\<rparr>] else [])
     @ [shdr_zero\<lparr>sh_name := str_note, sh_type := 1, sh_offset := l_strtab_off l, sh_addralign := 1\<rparr>,
        shdr_zero\<lparr>sh_name := str_strtab, sh_type := 3, sh_offset := l_strtab_off l, sh_size := int st_len,
          sh_addralign := 1\<rparr>])"

section \<open>The file\<close>

definition elf_write :: "omf_module \<Rightarrow> pass2 \<Rightarrow> bytes option" where
  "elf_write m p = do {
     let ps = pubs (m_coll m);
     let es = exts (m_coll m);
     let code = p2_code p;
     let data = data_img (m_coll m);
     (strtab, str_pub, str_ext) \<leftarrow> build_strtab ps es;
     relas \<leftarrow> map_opt (\<lambda>(f, orig). text_rela m code f orig) (zip (p2_fixups p) (p2_orig p));
     let drelas = map (data_rela m) (m_dfixups m);
     let syms = symbol_table m (length code) (p2_pub_offs p) str_pub str_ext;
     let num_syms = 4 + length ps + real_ext ps es;
     let l = make_layout (length code) (length data) num_syms (length (p2_fixups p)) (length drelas) (length strtab);
     let has_rela = p2_fixups p \<noteq> [];
     let has_drela = drelas \<noteq> [];
     Some (ehdr_bytes l (num_sections has_rela has_drela)
       @ code @ replicate (l_text_pad l) 0
       @ data @ replicate (l_data_pad l) 0
       @ concat (map sym_bytes syms) @ concat (map rela_bytes relas) @ concat (map rela_bytes drelas)
       @ strtab @ replicate (l_strtab_pad l) 0
       @ concat (map shdr_bytes (section_headers l (length code) (length data) (m_bss_total m) (length strtab)
           (4 + n_local_pub ps) has_rela has_drela)))
   }"

end
