(* ===== verification/ElfFacts.thy ===== *)
theory ElfFacts
  imports ElfWrite
begin

text \<open>
  What holds of the ELF64 file written: where its parts are, that symbol numbers, string
  positions and relocations agree with each other, and when the writer gets through.
\<close>

section \<open>Filters over positions\<close>

definition rank :: "(nat \<Rightarrow> bool) \<Rightarrow> nat \<Rightarrow> nat" where
  "rank P q = length (filter P [0..<q])"

lemma rank_Suc: "rank P (Suc q) = rank P q + (if P q then 1 else 0)"
  by (simp add: rank_def)

lemma rank_0 [simp]: "rank P 0 = 0"
  by (simp add: rank_def)

lemma filter_upt_split: "q < n \<Longrightarrow> P q \<Longrightarrow> filter P [0..<n] = filter P [0..<q] @ q # filter P [Suc q..<n]"
  using upt_add_eq_append [of 0 q "n - q"] by (simp add: upt_conv_Cons [of q n])

lemma filter_at_rank: "q < n \<Longrightarrow> P q \<Longrightarrow> filter P [0..<n] ! rank P q = q"
  by (simp add: filter_upt_split rank_def nth_append)

lemma rank_less: "q < n \<Longrightarrow> P q \<Longrightarrow> rank P q < rank P n"
  by (simp add: filter_upt_split rank_def [of P n]) (simp add: rank_def)

lemma rank_filter: "rank (\<lambda>q. P (xs ! q)) (length xs) = length (filter P xs)"
proof -
  have "length (filter P xs) = length (filter P (map ((!) xs) [0..<length xs]))" by (simp add: map_nth)
  also have "\<dots> = length (filter (P \<circ> (!) xs) [0..<length xs])" by (simp only: filter_map length_map)
  finally show ?thesis by (simp add: rank_def comp_def)
qed

lemma rank_complement: "rank P n + rank (\<lambda>q. \<not> P q) n = n"
  by (induction n) (auto simp: rank_Suc)

section \<open>Symbol numbers\<close>

lemma number_pass_upto:
  assumes "length idx = length ps" and "n \<le> length ps"
  shows "fold (\<lambda>q (idx, nxt). if pub_local (ps ! q) = loc then (idx[q := nxt], nxt + 1) else (idx, nxt)) [0..<n] (idx, nxt)
    = (map (\<lambda>q. if q < n \<and> pub_local (ps ! q) = loc then nxt + rank (\<lambda>q. pub_local (ps ! q) = loc) q else idx ! q)
         [0..<length ps], nxt + rank (\<lambda>q. pub_local (ps ! q) = loc) n)"
  using assms(2)
proof (induction n)
  case 0
  then show ?case using assms(1) by (simp add: map_nth [of idx, unfolded assms(1)])
next
  case (Suc n)
  then show ?case
    by (auto simp: rank_Suc less_Suc_eq nth_list_update intro!: nth_equalityI)
qed

lemma number_pass_eq:
  assumes "length idx = length ps"
  shows "number_pass loc ps (idx, nxt)
    = (map (\<lambda>q. if pub_local (ps ! q) = loc then nxt + rank (\<lambda>q. pub_local (ps ! q) = loc) q else idx ! q)
         [0..<length ps], nxt + rank (\<lambda>q. pub_local (ps ! q) = loc) (length ps))"
  using number_pass_upto [OF assms order.refl, of loc nxt]
  by (simp add: number_pass_def cong: map_cong)

lemma pub_symidx_eq:
  assumes "q < length ps"
  shows "pub_symidx ps ! q =
    (if pub_local (ps ! q) then 4 + rank (\<lambda>q. pub_local (ps ! q)) q
     else 4 + rank (\<lambda>q. pub_local (ps ! q)) (length ps) + rank (\<lambda>q. \<not> pub_local (ps ! q)) q)"
proof -
  have 1: "number_pass True ps (replicate (length ps) 0, 4)
    = (map (\<lambda>q. if pub_local (ps ! q) = True then 4 + rank (\<lambda>q. pub_local (ps ! q) = True) q else replicate (length ps) 0 ! q)
         [0..<length ps], 4 + rank (\<lambda>q. pub_local (ps ! q) = True) (length ps))"
    by (rule number_pass_eq) simp
  show ?thesis
    unfolding pub_symidx_def 1 using assms by (subst number_pass_eq) simp_all
qed

lemma length_symbol_table:
  "length (symbol_table m n offs sp se) = 4 + length (pubs (m_coll m)) + real_ext (pubs (m_coll m)) (exts (m_coll m))"
proof -
  let ?ps = "pubs (m_coll m)" and ?es = "exts (m_coll m)"
  have "length (filter (\<lambda>e. ext_local ?ps (?es ! e) = None) [0..<length ?es]) = real_ext ?ps ?es"
    using rank_filter [of "\<lambda>e. ext_local ?ps e = None" ?es] by (simp add: rank_def real_ext_def)
  moreover have "length (filter (\<lambda>q. pub_local (?ps ! q)) [0..<length ?ps])
      + length (filter (\<lambda>q. \<not> pub_local (?ps ! q)) [0..<length ?ps]) = length ?ps"
    using rank_complement [of "\<lambda>q. pub_local (?ps ! q)" "length ?ps"] by (simp add: rank_def)
  ultimately show ?thesis by (simp add: symbol_table_def Let_def fixed_syms_def)
qed

lemma symbol_table_pub:
  assumes "q < length (pubs (m_coll m))"
  shows "pub_symidx (pubs (m_coll m)) ! q < 4 + length (pubs (m_coll m))
    \<and> symbol_table m n offs sp se ! (pub_symidx (pubs (m_coll m)) ! q) = pub_sym m n offs sp q"
proof -
  let ?ps = "pubs (m_coll m)" and ?L = "\<lambda>q. pub_local (pubs (m_coll m) ! q)"
  let ?G = "\<lambda>q. \<not> pub_local (pubs (m_coll m) ! q)"
  have parts: "length (filter ?L [0..<length ?ps]) = rank ?L (length ?ps)"
    "length (filter ?G [0..<length ?ps]) = rank ?G (length ?ps)" by (simp_all add: rank_def)
  have tot: "rank ?L (length ?ps) + rank ?G (length ?ps) = length ?ps" by (rule rank_complement)
  have four: "length fixed_syms = 4" by (simp add: fixed_syms_def)
  show ?thesis
  proof (cases "?L q")
    case True
    note r = rank_less [of q "length ?ps" ?L, OF assms True]
    show ?thesis
      using True r tot filter_at_rank [of q "length ?ps" ?L, OF assms True]
      by (simp add: pub_symidx_eq [OF assms] symbol_table_def Let_def nth_append four parts)
  next
    case False
    note r = rank_less [of q "length ?ps" ?G, OF assms False]
    show ?thesis
      using False r tot filter_at_rank [of q "length ?ps" ?G, OF assms False]
      by (simp add: pub_symidx_eq [OF assms] symbol_table_def Let_def nth_append four parts)
  qed
qed

lemma ext_local_Some: "ext_local ps name = Some q \<Longrightarrow> q < length ps \<and> pub_name (ps ! q) = name"
  by (auto simp: ext_local_def find_Some_iff)

lemma symbol_table_ext:
  assumes "e < length (exts (m_coll m))" and "ext_local (pubs (m_coll m)) (exts (m_coll m) ! e) = None"
  shows "symbol_table m n offs sp se ! (ext_symidx (pubs (m_coll m)) (exts (m_coll m)) e) = ext_sym (se ! e)
    \<and> ext_symidx (pubs (m_coll m)) (exts (m_coll m)) e < 4 + length (pubs (m_coll m)) + real_ext (pubs (m_coll m)) (exts (m_coll m))"
proof -
  let ?ps = "pubs (m_coll m)" and ?es = "exts (m_coll m)"
  let ?P = "\<lambda>e. ext_local ?ps (?es ! e) = None"
  have lens: "length (fixed_syms @ map (pub_sym m n offs sp) (filter (\<lambda>q. pub_local (?ps ! q)) [0..<length ?ps])
      @ map (pub_sym m n offs sp) (filter (\<lambda>q. \<not> pub_local (?ps ! q)) [0..<length ?ps])) = 4 + length ?ps"
    using rank_complement [of "\<lambda>q. pub_local (?ps ! q)" "length ?ps"] by (simp add: fixed_syms_def rank_def)
  have r: "rank ?P e < rank ?P (length ?es)" by (rule rank_less) (use assms in auto)
  have re: "rank ?P (length ?es) = real_ext ?ps ?es"
    using rank_filter [of "\<lambda>e. ext_local ?ps e = None" ?es] by (simp add: real_ext_def)
  have idx: "ext_symidx ?ps ?es e = 4 + length ?ps + rank ?P e"
    using assms(2) by (simp add: ext_symidx_def ext_rank_def rank_def)
  have tab: "symbol_table m n offs sp se = (fixed_syms @ map (pub_sym m n offs sp) (filter (\<lambda>q. pub_local (?ps ! q)) [0..<length ?ps])
      @ map (pub_sym m n offs sp) (filter (\<lambda>q. \<not> pub_local (?ps ! q)) [0..<length ?ps]))
      @ map (\<lambda>e. ext_sym (se ! e)) (filter ?P [0..<length ?es])"
    by (simp add: symbol_table_def Let_def)
  have "filter ?P [0..<length ?es] ! rank ?P e = e" by (rule filter_at_rank) (use assms in auto)
  moreover have "rank ?P e < length (filter ?P [0..<length ?es])" using r by (simp add: rank_def)
  moreover have "(A @ B) ! (4 + length ?ps + k) = B ! k" if "length A = 4 + length ?ps" for A B :: "elf_sym list" and k
    using that by (metis nth_append_length_plus)
  ultimately show ?thesis
    unfolding tab idx using r re lens by (simp del: length_append append_assoc)
qed


section \<open>Strings\<close>

text \<open>The string at position \<open>p\<close> of the table is \<open>n\<close>, with its terminator.\<close>

definition name_at :: "bytes \<Rightarrow> nat \<Rightarrow> bytes \<Rightarrow> bool" where
  "name_at tab p n \<longleftrightarrow> p < length tab \<and> (\<exists>rest. drop p tab = n @ 0 # rest)"

lemma name_at_append: "name_at tab p n \<Longrightarrow> name_at (tab @ y) p n"
  by (auto simp: name_at_def)

lemma name_at_new: "name_at (tab @ n @ [0]) (length tab) n"
  by (simp add: name_at_def)

lemma name_at_c_str: "name_at tab p n \<Longrightarrow> 0 \<notin> set n \<Longrightarrow> c_str (drop p (tab @ post)) = n"
  by (auto simp: name_at_def c_str_def takeWhile_append)

lemma put_names_spec:
  "put_names ns tab pos = (tab', pos') \<Longrightarrow>
   \<exists>x p. tab' = tab @ x \<and> pos' = pos @ p \<and> length p = length ns
     \<and> length x = sum_list (map (\<lambda>n. length n + 1) ns) \<and> (\<forall>i < length ns. name_at tab' (p ! i) (ns ! i))"
proof (induction ns arbitrary: tab pos)
  case (Cons n ns)
  from Cons.IH [of "tab @ n @ [0]" "pos @ [length tab]"] Cons.prems obtain x p where
    *: "tab' = (tab @ n @ [0]) @ x" "pos' = (pos @ [length tab]) @ p" "length p = length ns"
      "length x = sum_list (map (\<lambda>n. length n + 1) ns)" "\<forall>i < length ns. name_at tab' (p ! i) (ns ! i)"
    by auto
  have "name_at tab' (length tab) n" unfolding *(1) by (intro name_at_append name_at_new)
  then have "\<forall>i < length (n # ns). name_at tab' ((length tab # p) ! i) ((n # ns) ! i)"
    using *(5) by (auto simp: less_Suc_eq_0_disj)
  then show ?case
    using * by (intro exI [of _ "n @ [0] @ x"] exI [of _ "length tab # p"]) simp
qed simp

lemma put_exts_spec:
  "put_exts ps sp es tab pos = (tab', pos') \<Longrightarrow> (\<And>q. q < length ps \<Longrightarrow> name_at tab (sp ! q) (pub_name (ps ! q))) \<Longrightarrow>
   \<exists>x p. tab' = tab @ x \<and> pos' = pos @ p \<and> length p = length es
     \<and> length x \<le> sum_list (map (\<lambda>n. length n + 1) es) \<and> (\<forall>i < length es. name_at tab' (p ! i) (es ! i))"
proof (induction es arbitrary: tab pos)
  case (Cons n es)
  show ?case
  proof (cases "ext_local ps n")
    case None
    from Cons.IH [of "tab @ n @ [0]" "pos @ [length tab]"] Cons.prems None obtain x p where
      *: "tab' = (tab @ n @ [0]) @ x" "pos' = (pos @ [length tab]) @ p" "length p = length es"
        "length x \<le> sum_list (map (\<lambda>n. length n + 1) es)" "\<forall>i < length es. name_at tab' (p ! i) (es ! i)"
      by (auto intro: name_at_append)
    have "name_at tab' (length tab) n" unfolding *(1) by (intro name_at_append name_at_new)
    then have "\<forall>i < length (n # es). name_at tab' ((length tab # p) ! i) ((n # es) ! i)"
      using *(5) by (auto simp: less_Suc_eq_0_disj)
    then show ?thesis
      using * by (intro exI [of _ "n @ [0] @ x"] exI [of _ "length tab # p"]) simp
  next
    case (Some q)
    from Cons.IH [of tab "pos @ [sp ! q]"] Cons.prems Some obtain x p where
      *: "tab' = tab @ x" "pos' = (pos @ [sp ! q]) @ p" "length p = length es"
        "length x \<le> sum_list (map (\<lambda>n. length n + 1) es)" "\<forall>i < length es. name_at tab' (p ! i) (es ! i)"
      by auto
    have "name_at tab' (sp ! q) n"
      using ext_local_Some [OF Some] Cons.prems(2) [of q] name_at_append unfolding *(1) by auto
    then have "\<forall>i < length (n # es). name_at tab' ((sp ! q # p) ! i) ((n # es) ! i)"
      using *(5) by (auto simp: less_Suc_eq_0_disj)
    then show ?thesis
      using * by (intro exI [of _ x] exI [of _ "sp ! q # p"]) simp
  qed
qed simp

lemma length_fixed_strtab: "length fixed_strtab = 72"
  by (simp add: fixed_strtab_def fixed_names_def)

lemma build_strtab_run:
  obtains sp se x where
    "build_strtab ps es = (if length (fixed_strtab @ x) \<le> strtab_cap then Some (fixed_strtab @ x, sp, se) else None)"
    "length sp = length ps" "length se = length es"
    "length x \<le> sum_list (map (\<lambda>p. length (pub_name p) + 1) ps) + sum_list (map (\<lambda>n. length n + 1) es)"
    "\<forall>q < length ps. name_at (fixed_strtab @ x) (sp ! q) (pub_name (ps ! q))"
    "\<forall>e < length es. name_at (fixed_strtab @ x) (se ! e) (es ! e)"
proof -
  obtain t1 sp where 1: "put_names (map pub_name ps) fixed_strtab [] = (t1, sp)" by fastforce
  obtain t2 se where 2: "put_exts ps sp es t1 [] = (t2, se)" by fastforce
  from put_names_spec [OF 1] obtain x1 where
    x1: "t1 = fixed_strtab @ x1" "length sp = length ps"
      "length x1 = sum_list (map (\<lambda>p. length (pub_name p) + 1) ps)"
      "\<forall>q < length ps. name_at t1 (sp ! q) (pub_name (ps ! q))"
    by (auto simp: comp_def)
  from put_exts_spec [OF 2] x1(4) obtain x2 where
    x2: "t2 = t1 @ x2" "length se = length es" "length x2 \<le> sum_list (map (\<lambda>n. length n + 1) es)"
      "\<forall>e < length es. name_at t2 (se ! e) (es ! e)"
    by auto
  show thesis
  proof (rule that [of "x1 @ x2" sp se])
    show "\<forall>q < length ps. name_at (fixed_strtab @ x1 @ x2) (sp ! q) (pub_name (ps ! q))"
      using x1(1,4) name_at_append [of t1] by fastforce
    show "\<forall>e < length es. name_at (fixed_strtab @ x1 @ x2) (se ! e) (es ! e)"
      using x1(1) x2(1,4) by simp
  qed (use 1 2 x1 x2 in \<open>simp_all add: build_strtab_def\<close>)
qed

section \<open>The writer gets through\<close>

lemma map_opt_None_iff: "map_opt f xs = None \<longleftrightarrow> (\<exists>x \<in> set xs. f x = None)"
  by (induction xs) (auto split: bind_splits)

lemma map_opt_Some: "map_opt f xs = Some ys \<Longrightarrow> length ys = length xs \<and> (\<forall>i < length xs. f (xs ! i) = Some (ys ! i))"
proof (induction xs arbitrary: ys)
  case (Cons x xs)
  then show ?case by (auto simp: bind_eq_Some_conv less_Suc_eq_0_disj)
qed simp

lemma code_at_in: "0 \<le> i \<Longrightarrow> i < int (length code) \<Longrightarrow> code_at code i = Some (unat (code ! nat i))"
  by (simp add: code_at_def rdb_def nat_less_iff)

lemma within_at_in: "0 \<le> off \<Longrightarrow> \<exists>b. within_at code off = Some b"
  by (auto simp: within_at_def rd_slice_def)

lemma opcode_before_in:
  "2 \<le> d \<Longrightarrow> d \<le> off \<Longrightarrow> off \<le> int (length code) \<Longrightarrow> \<exists>op. opcode_before code off d = Some op"
  by (auto simp: opcode_before_def code_at_in)

lemma text_rela_defined:
  assumes "0 \<le> code_offset f" and "code_offset f \<le> int (length code)"
  shows "\<exists>r. text_rela m code f orig = Some r \<and> r_offset r = code_offset f
    \<and> (0 \<le> ext_idx f \<longrightarrow> r_sym r = ext_symidx (pubs (m_coll m)) (exts (m_coll m)) (nat (ext_idx f)))"
proof -
  let ?off = "code_offset f"
  obtain w where w: "within_at code ?off = Some w" using within_at_in [OF assms(1)] by blast
  obtain pv where pv: "(if 1 \<le> ?off then code_at code (?off - 1) else Some 0) = Some pv"
    using code_at_in [of "?off - 1" code] assms by (cases "1 \<le> ?off") auto
  have op: "\<exists>op. opcode_before code ?off d = Some op" if "2 \<le> d" "d \<le> ?off" for d
    using opcode_before_in [OF that] assms(2) by blast
  obtain et where et: "ext_trail code ?off = Some et"
    using op [of 2] op [of 3] by (fastforce simp: ext_trail_def split: option.splits)
  obtain dt where dt: "data_trail code ?off = Some dt"
    using op [of 2] by (fastforce simp: data_trail_def)
  show ?thesis
    unfolding text_rela_def Let_def w pv et dt option.map Option.bind.bind_lunit
    by (auto split: prod.split)
qed


lemma sum_list_bound: "(\<And>x. x \<in> set xs \<Longrightarrow> f x \<le> k) \<Longrightarrow> sum_list (map f xs) \<le> k * length (xs :: 'a list)" for f :: "'a \<Rightarrow> nat"
  by (induction xs) (auto simp: add_mono)

lemma build_strtab_defined:
  assumes "collected_wf co"
  shows "build_strtab (pubs co) (exts co) \<noteq> None"
proof -
  obtain sp se x where b: "build_strtab (pubs co) (exts co) =
      (if length (fixed_strtab @ x) \<le> strtab_cap then Some (fixed_strtab @ x, sp, se) else None)"
    and len: "length x \<le> sum_list (map (\<lambda>p. length (pub_name p) + 1) (pubs co)) + sum_list (map (\<lambda>n. length n + 1) (exts co))"
    using build_strtab_run .
  have "sum_list (map (\<lambda>p. length (pub_name p) + 1) (pubs co)) \<le> 256 * length (pubs co)"
    by (rule sum_list_bound) (use assms in \<open>auto simp: collected_wf_def list_all_iff pub_wf_def\<close>)
  moreover have "sum_list (map (\<lambda>n. length n + 1) (exts co)) \<le> 256 * length (exts co)"
    by (rule sum_list_bound) (use assms in \<open>auto simp: collected_wf_def list_all_iff name_wf_def\<close>)
  moreover have "length (pubs co) \<le> 64" "length (exts co) \<le> 64" using assms by (auto simp: collected_wf_def)
  ultimately have "length (fixed_strtab @ x) \<le> strtab_cap"
    using len by (simp add: strtab_cap_def length_fixed_strtab)
  then show ?thesis by (simp add: b)
qed

definition fixups_inside :: "pass2 \<Rightarrow> bool" where
  "fixups_inside p \<longleftrightarrow> list_all (\<lambda>f. 0 \<le> code_offset f \<and> code_offset f \<le> int (length (p2_code p))) (p2_fixups p)"

lemma elf_write_ex:
  assumes "module_wf m" and "fixups_inside p"
  shows "elf_write m p \<noteq> None"
proof -
  obtain st where st: "build_strtab (pubs (m_coll m)) (exts (m_coll m)) = Some st"
    using build_strtab_defined [of "m_coll m"] assms(1) by (auto simp: module_wf_def)
  have "map_opt (\<lambda>(f, orig). text_rela m (p2_code p) f orig) (zip (p2_fixups p) (p2_orig p)) \<noteq> None"
  proof -
    have "text_rela m (p2_code p) f orig \<noteq> None" if "(f, orig) \<in> set (zip (p2_fixups p) (p2_orig p))" for f orig
    proof -
      have "f \<in> set (p2_fixups p)" using that by (rule set_zip_leftD)
      then show ?thesis using assms(2) text_rela_defined [of f "p2_code p" m orig]
        by (auto simp: fixups_inside_def list_all_iff)
    qed
    then show ?thesis by (auto simp: map_opt_None_iff)
  qed
  then show ?thesis
    by (cases st) (auto simp: elf_write_def st Let_def)
qed

text \<open>
  C10.  For a well-formed module whose fixups lie in the patched code, the writer reads nothing
  outside the code image and its string table stays inside its 262144-byte array: a file is
  written.
\<close>

theorem elf_write_defined:
  assumes "module_wf m" and "fixups_inside p"
  shows "elf_write m p \<noteq> None"
  using assms by (rule elf_write_ex)

section \<open>Where the parts are\<close>

definition elf_layout :: "omf_module \<Rightarrow> pass2 \<Rightarrow> nat \<Rightarrow> layout" where
  "elf_layout m p st_len = make_layout (length (p2_code p)) (length (data_img (m_coll m)))
     (4 + length (pubs (m_coll m)) + real_ext (pubs (m_coll m)) (exts (m_coll m)))
     (length (p2_fixups p)) (length (m_dfixups m)) st_len"

lemma length_le_int [simp]: "length (le_int n v) = n"
  by (simp add: le_int_def)

lemma record_sizes [simp]:
  "length (sym_bytes s) = 24" "length (rela_bytes r) = 24" "length (shdr_bytes h) = 64" "length (ehdr_bytes l n) = 64"
  by (simp_all add: sym_bytes_def rela_bytes_def shdr_bytes_def ehdr_bytes_def del: le_bytes.simps)

lemma length_concat_records: "(\<And>x. length (f x) = k) \<Longrightarrow> length (concat (map f xs)) = length xs * k"
  by (induction xs) simp_all

lemma record_at:
  assumes "\<And>x. length (f x) = k" and "i < length xs"
  shows "take k (drop (k * i) (concat (map f xs))) = f (xs ! i)"
  using assms(2)
proof (induction xs arbitrary: i)
  case (Cons x xs)
  then show ?case using assms(1) by (cases i) simp_all
qed simp

lemma elf_write_parts:
  assumes "elf_write m p = Some out" and "length (p2_orig p) = length (p2_fixups p)"
  obtains tab sp se relas where
    "build_strtab (pubs (m_coll m)) (exts (m_coll m)) = Some (tab, sp, se)"
    "map_opt (\<lambda>(f, orig). text_rela m (p2_code p) f orig) (zip (p2_fixups p) (p2_orig p)) = Some relas"
    "length relas = length (p2_fixups p)"
    "out = ehdr_bytes (elf_layout m p (length tab)) (num_sections (p2_fixups p \<noteq> []) (m_dfixups m \<noteq> []))
      @ p2_code p @ replicate (l_text_pad (elf_layout m p (length tab))) 0
      @ data_img (m_coll m) @ replicate (l_data_pad (elf_layout m p (length tab))) 0
      @ concat (map sym_bytes (symbol_table m (length (p2_code p)) (p2_pub_offs p) sp se))
      @ concat (map rela_bytes relas) @ concat (map rela_bytes (map (data_rela m) (m_dfixups m)))
      @ tab @ replicate (l_strtab_pad (elf_layout m p (length tab))) 0
      @ concat (map shdr_bytes (section_headers (elf_layout m p (length tab)) (length (p2_code p))
          (length (data_img (m_coll m))) (m_bss_total m) (length tab) (4 + n_local_pub (pubs (m_coll m)))
          (p2_fixups p \<noteq> []) (m_dfixups m \<noteq> [])))"
proof -
  from assms(1) obtain tab sp se relas where
    1: "build_strtab (pubs (m_coll m)) (exts (m_coll m)) = Some (tab, sp, se)"
      "map_opt (\<lambda>(f, orig). text_rela m (p2_code p) f orig) (zip (p2_fixups p) (p2_orig p)) = Some relas"
    by (auto simp: elf_write_def Let_def bind_eq_Some_conv)
  have "length relas = length (p2_fixups p)" using map_opt_Some [OF 1(2)] assms(2) by simp
  then show thesis
    using assms(1) by (intro that [OF 1]) (simp_all add: elf_write_def Let_def 1 elf_layout_def)
qed


lemma pad_to_aligns: "0 < a \<Longrightarrow> a dvd n + pad_to a n"
proof -
  assume a: "0 < a"
  have "(n + (a - n mod a)) mod a = 0"
  proof -
    have "n + (a - n mod a) = (n div a + 1) * a"
    proof -
      have "n mod a < a" "n = n div a * a + n mod a" using a by simp_all
      then show ?thesis unfolding add_mult_distrib by linarith
    qed
    then show ?thesis by simp
  qed
  then show ?thesis unfolding pad_to_def dvd_eq_mod_eq_0 by (simp add: mod_add_right_eq)
qed

lemma rd_slice_part: "out = pre @ x @ post \<Longrightarrow> length pre = i \<Longrightarrow> length x = n \<Longrightarrow> rd_slice out i n = Some x"
  by auto

lemma length_section_headers: "length (section_headers l c d b s n r dr) = num_sections r dr"
  by (simp add: section_headers_def num_sections_def Let_def)

lemma elf_parts:
  assumes "elf_write m p = Some out" and "length (p2_orig p) = length (p2_fixups p)"
  shows "\<exists>tab sp se relas. build_strtab (pubs (m_coll m)) (exts (m_coll m)) = Some (tab, sp, se)
    \<and> (let l = elf_layout m p (length tab); code = p2_code p; data = data_img (m_coll m);
           has_rela = (p2_fixups p \<noteq> []); has_drela = (m_dfixups m \<noteq> []); nsec = num_sections has_rela has_drela
       in map_opt (\<lambda>(f, orig). text_rela m code f orig) (zip (p2_fixups p) (p2_orig p)) = Some relas
        \<and> rd_slice out 0 64 = Some (ehdr_bytes l nsec)
        \<and> rd_slice out (l_text_off l) (length code) = Some code
        \<and> rd_slice out (l_data_off l) (length data) = Some data
        \<and> rd_slice out (l_symtab_off l) (l_symtab_sz l) =
             Some (concat (map sym_bytes (symbol_table m (length code) (p2_pub_offs p) sp se)))
        \<and> rd_slice out (l_rela_off l) (l_rela_sz l) = Some (concat (map rela_bytes relas))
        \<and> rd_slice out (l_drela_off l) (l_drela_sz l) = Some (concat (map rela_bytes (map (data_rela m) (m_dfixups m))))
        \<and> rd_slice out (l_strtab_off l) (length tab) = Some tab
        \<and> rd_slice out (l_shdr_off l) (64 * nsec) =
             Some (concat (map shdr_bytes (section_headers l (length code) (length data) (m_bss_total m)
               (length tab) (4 + n_local_pub (pubs (m_coll m))) has_rela has_drela)))
        \<and> length out = l_shdr_off l + 64 * nsec
        \<and> 16 dvd l_data_off l \<and> 16 dvd l_symtab_off l \<and> 8 dvd l_shdr_off l)"
proof (rule elf_write_parts [OF assms])
  fix tab :: bytes and sp se relas
  let ?l = "elf_layout m p (length tab)" and ?code = "p2_code p" and ?data = "data_img (m_coll m)"
  let ?nsec = "num_sections (p2_fixups p \<noteq> []) (m_dfixups m \<noteq> [])"
  let ?eh = "ehdr_bytes ?l ?nsec" and ?syms = "concat (map sym_bytes (symbol_table m (length ?code) (p2_pub_offs p) sp se))"
  let ?relas = "concat (map rela_bytes relas)" and ?drelas = "concat (map rela_bytes (map (data_rela m) (m_dfixups m)))"
  let ?sh = "concat (map shdr_bytes (section_headers ?l (length ?code) (length ?data) (m_bss_total m) (length tab)
      (4 + n_local_pub (pubs (m_coll m))) (p2_fixups p \<noteq> []) (m_dfixups m \<noteq> [])))"
  assume st: "build_strtab (pubs (m_coll m)) (exts (m_coll m)) = Some (tab, sp, se)"
    and rel: "map_opt (\<lambda>(f, orig). text_rela m ?code f orig) (zip (p2_fixups p) (p2_orig p)) = Some relas"
    and lr: "length relas = length (p2_fixups p)"
    and out: "out = ?eh @ ?code @ replicate (l_text_pad ?l) 0 @ ?data @ replicate (l_data_pad ?l) 0
      @ ?syms @ ?relas @ ?drelas @ tab @ replicate (l_strtab_pad ?l) 0 @ ?sh"
  define p1 where "p1 = replicate (l_text_pad ?l) (0 :: u8)"
  define p2 where "p2 = replicate (l_data_pad ?l) (0 :: u8)"
  define p3 where "p3 = replicate (l_strtab_pad ?l) (0 :: u8)"
  define A B C D E where ABC: "A = ?eh" "B = ?syms" "C = ?relas" "D = ?drelas" "E = ?sh"
  have out': "out = A @ ?code @ p1 @ ?data @ p2 @ B @ C @ D @ tab @ p3 @ E"
    by (simp only: out p1_def p2_def p3_def ABC)
  have la: "length A = 64" by (simp add: ABC)
  have lb: "length B = l_symtab_sz ?l"
    using length_concat_records [of sym_bytes 24] length_symbol_table [of m "length ?code" "p2_pub_offs p" sp se]
    by (simp add: ABC elf_layout_def make_layout_def Let_def)
  have lc: "length C = l_rela_sz ?l" and ld: "length D = l_drela_sz ?l"
    using length_concat_records [of rela_bytes 24] lr by (simp_all add: ABC elf_layout_def make_layout_def Let_def del: map_map)
  have le: "length E = 64 * ?nsec"
    using length_concat_records [of shdr_bytes 64] by (simp add: ABC length_section_headers)
  have lp: "length p1 = l_text_pad ?l" "length p2 = l_data_pad ?l" "length p3 = l_strtab_pad ?l"
    by (simp_all add: p1_def p2_def p3_def)
  have offs: "l_text_off ?l = 64" "l_data_off ?l = 64 + length ?code + l_text_pad ?l"
    "l_symtab_off ?l = l_data_off ?l + length ?data + l_data_pad ?l"
    "l_rela_off ?l = l_symtab_off ?l + l_symtab_sz ?l" "l_drela_off ?l = l_rela_off ?l + l_rela_sz ?l"
    "l_strtab_off ?l = l_drela_off ?l + l_drela_sz ?l"
    "l_shdr_off ?l = l_strtab_off ?l + length tab + l_strtab_pad ?l"
    by (simp_all add: elf_layout_def make_layout_def Let_def)
  have pads: "l_text_pad ?l = pad_to 16 (64 + length ?code)" "l_data_pad ?l = pad_to 16 (l_data_off ?l + length ?data)"
    "l_strtab_pad ?l = pad_to 8 (l_strtab_off ?l + length tab)"
    by (simp_all add: elf_layout_def make_layout_def Let_def)
  have al: "16 dvd l_data_off ?l" "16 dvd l_symtab_off ?l" "8 dvd l_shdr_off ?l"
    unfolding offs(2,3,7) pads by (rule pad_to_aligns, simp)+
  have s: "rd_slice out 0 64 = Some A" "rd_slice out (l_text_off ?l) (length ?code) = Some ?code"
    "rd_slice out (l_data_off ?l) (length ?data) = Some ?data"
    "rd_slice out (l_symtab_off ?l) (l_symtab_sz ?l) = Some B"
    "rd_slice out (l_rela_off ?l) (l_rela_sz ?l) = Some C"
    "rd_slice out (l_drela_off ?l) (l_drela_sz ?l) = Some D"
    "rd_slice out (l_strtab_off ?l) (length tab) = Some tab"
    "rd_slice out (l_shdr_off ?l) (64 * ?nsec) = Some E"
    by (rule rd_slice_part [of _ "[]" A] rd_slice_part [of _ A ?code] rd_slice_part [of _ "A @ ?code @ p1" ?data]
        rd_slice_part [of _ "A @ ?code @ p1 @ ?data @ p2" B] rd_slice_part [of _ "A @ ?code @ p1 @ ?data @ p2 @ B" C]
        rd_slice_part [of _ "A @ ?code @ p1 @ ?data @ p2 @ B @ C" D]
        rd_slice_part [of _ "A @ ?code @ p1 @ ?data @ p2 @ B @ C @ D" tab]
        rd_slice_part [of _ "A @ ?code @ p1 @ ?data @ p2 @ B @ C @ D @ tab @ p3" E "[]"],
        simp add: out', simp add: la lb lc ld lp offs, simp add: la lb lc ld le)+
  have "length out = l_shdr_off ?l + 64 * ?nsec" by (simp add: out' la lb lc ld le lp offs)
  then show ?thesis
    using st rel s al unfolding ABC Let_def by blast
qed

text \<open>
  Each part of the file lies where the layout puts it: the code, the data, the symbol
  table, the two relocation tables, the string table and the section headers, to the end of the
  file; the code, data and symbol table are aligned to 16, the section headers to 8.
\<close>

theorem elf_parts_at_offsets:
  assumes "elf_write m p = Some out" and "length (p2_orig p) = length (p2_fixups p)"
  shows "\<exists>tab sp se relas. build_strtab (pubs (m_coll m)) (exts (m_coll m)) = Some (tab, sp, se)
    \<and> (let l = elf_layout m p (length tab); code = p2_code p; data = data_img (m_coll m);
           has_rela = (p2_fixups p \<noteq> []); has_drela = (m_dfixups m \<noteq> []); nsec = num_sections has_rela has_drela
       in map_opt (\<lambda>(f, orig). text_rela m code f orig) (zip (p2_fixups p) (p2_orig p)) = Some relas
        \<and> rd_slice out 0 64 = Some (ehdr_bytes l nsec)
        \<and> rd_slice out (l_text_off l) (length code) = Some code
        \<and> rd_slice out (l_data_off l) (length data) = Some data
        \<and> rd_slice out (l_symtab_off l) (l_symtab_sz l) =
             Some (concat (map sym_bytes (symbol_table m (length code) (p2_pub_offs p) sp se)))
        \<and> rd_slice out (l_rela_off l) (l_rela_sz l) = Some (concat (map rela_bytes relas))
        \<and> rd_slice out (l_drela_off l) (l_drela_sz l) = Some (concat (map rela_bytes (map (data_rela m) (m_dfixups m))))
        \<and> rd_slice out (l_strtab_off l) (length tab) = Some tab
        \<and> rd_slice out (l_shdr_off l) (64 * nsec) =
             Some (concat (map shdr_bytes (section_headers l (length code) (length data) (m_bss_total m)
               (length tab) (4 + n_local_pub (pubs (m_coll m))) has_rela has_drela)))
        \<and> length out = l_shdr_off l + 64 * nsec
        \<and> 16 dvd l_data_off l \<and> 16 dvd l_symtab_off l \<and> 8 dvd l_shdr_off l)"
  using assms by (rule elf_parts)

end
