(* ===== verification/ElfLink.thy ===== *)
theory ElfLink
  imports ElfFacts
begin

text \<open>
  The object file as a linker reads it: a reader of ELF64 relocations that finds everything
  through the headers, as the format prescribes, and the theorems that it gets back from the file
  what the compiler put there.
\<close>

section \<open>A reader of the format\<close>

definition sh_field :: "bytes \<Rightarrow> nat \<Rightarrow> nat \<Rightarrow> nat \<Rightarrow> nat option" where
  "sh_field out k at w = do { shoff \<leftarrow> rd_le out 40 8; rd_le out (shoff + 64 * k + at) w }"

text \<open>Name, binding, section and value of symbol \<open>i\<close>; the names are in the section \<open>sh_link\<close> names.\<close>

definition read_symbol :: "bytes \<Rightarrow> nat \<Rightarrow> (bytes \<times> nat \<times> nat \<times> nat) option" where
  "read_symbol out i = do {
     tab \<leftarrow> sh_field out SEC_SYMTAB 24 8;
     link \<leftarrow> sh_field out SEC_SYMTAB 40 4;
     str \<leftarrow> sh_field out link 24 8;
     nm \<leftarrow> rd_le out (tab + 24 * i) 4;
     info \<leftarrow> rd_le out (tab + 24 * i + 4) 1;
     sec \<leftarrow> rd_le out (tab + 24 * i + 6) 2;
     val \<leftarrow> rd_le out (tab + 24 * i + 8) 8;
     Some (c_str (drop (str + nm) out), info div 16, sec, val)
   }"

text \<open>Place and symbol number of relocation \<open>f\<close> of \<open>.rela.text\<close>, which is section 5 when present.\<close>

definition read_reloc :: "bytes \<Rightarrow> nat \<Rightarrow> (nat \<times> nat) option" where
  "read_reloc out f = do {
     tab \<leftarrow> sh_field out 5 24 8;
     place \<leftarrow> rd_le out (tab + 24 * f) 8;
     sym \<leftarrow> rd_le out (tab + 24 * f + 12) 4;
     Some (place, sym)
   }"

section \<open>Reads inside a part\<close>

lemma rd_slice_within:
  assumes "rd_slice out off n = Some x" and "i + k \<le> n"
  shows "rd_slice out (off + i) k = Some (take k (drop i x))"
  using assms by (auto simp: byte_simps drop_take min_def add.commute)

lemma rd_le_within:
  assumes "rd_slice out off n = Some x" and "i + k \<le> n"
  shows "rd_le out (off + i) k = Some (le_val (take k (drop i x)))"
  by (simp add: rd_le_def rd_slice_within [OF assms])

lemma rd_le_record:
  assumes "rd_slice out off n = Some (concat (map f xs))" and "\<And>x. length (f x) = w"
    and "n = w * length xs" and "i < length xs" and "a + k \<le> w"
  shows "rd_le out (off + w * i + a) k = Some (le_val (take k (drop a (f (xs ! i)))))"
proof -
  have fit: "w * i + w \<le> n" unfolding assms(3) using assms(4) by (metis Suc_leI mult.commute mult_Suc mult_le_mono1 add.commute)
  have "rd_slice out (off + w * i) w = Some (f (xs ! i))"
    unfolding rd_slice_within [OF assms(1) fit] by (simp add: record_at [of f w, OF assms(2,4)])
  then show ?thesis using assms(5) by (rule rd_le_within)
qed


lemma take_le_bytes: "k \<le> n \<Longrightarrow> take k (le_bytes n v) = le_bytes k v"
proof (induction n arbitrary: k v)
  case (Suc n)
  then show ?case by (cases k) simp_all
qed simp

lemma drop_le_bytes: "k \<le> n \<Longrightarrow> drop k (le_bytes n v) = le_bytes (n - k) (v div 256 ^ k)"
proof (induction n arbitrary: k v)
  case (Suc n)
  then show ?case by (cases k) (simp_all add: div_mult2_eq)
qed simp

lemma rela_fields:
  assumes "0 \<le> r_offset r" "r_offset r < 2 ^ 64" "r_type r < 2 ^ 32" "r_sym r < 2 ^ 32"
  shows "le_val (take 8 (drop 0 (rela_bytes r))) = nat (r_offset r)"
    and "le_val (take 4 (drop 12 (rela_bytes r))) = r_sym r"
proof -
  have "r_offset r mod 256 ^ 8 = r_offset r" using assms(1,2) by (intro mod_pos_pos_trivial) simp_all
  moreover have "nat (r_offset r) mod 256 ^ 8 = nat (r_offset r)" using assms(1,2) by (intro mod_less) (simp add: nat_less_iff)
  ultimately show "le_val (take 8 (drop 0 (rela_bytes r))) = nat (r_offset r)"
    by (simp add: rela_bytes_def le_int_def byte_simps del: le_bytes.simps)
  have "(push_bit 32 (r_sym r) + r_type r) div 256 ^ 4 = r_sym r"
    using assms(3) by (simp add: push_bit_eq_mult)
  moreover have "r_sym r mod 256 ^ 4 = r_sym r" using assms(4) by (intro mod_less) simp
  ultimately show "le_val (take 4 (drop 12 (rela_bytes r))) = r_sym r"
    by (simp add: rela_bytes_def le_int_def drop_le_bytes byte_simps del: le_bytes.simps)
qed

lemma sym_fields:
  assumes "st_name s < 2 ^ 32" "st_info s < 256" "st_shndx s < 2 ^ 16" "st_value s < 2 ^ 64"
  shows "le_val (take 4 (drop 0 (sym_bytes s))) = st_name s"
    and "le_val (take 1 (drop 4 (sym_bytes s))) = st_info s"
    and "le_val (take 2 (drop 6 (sym_bytes s))) = st_shndx s"
    and "le_val (take 8 (drop 8 (sym_bytes s))) = st_value s"
proof -
  have m: "st_name s mod 256 ^ 4 = st_name s" "st_info s mod 256 ^ 1 = st_info s"
    "st_shndx s mod 256 ^ 2 = st_shndx s" "st_value s mod 256 ^ 8 = st_value s"
    using assms by (simp_all add: mod_less)
  show "le_val (take 4 (drop 0 (sym_bytes s))) = st_name s"
    "le_val (take 1 (drop 4 (sym_bytes s))) = st_info s"
    "le_val (take 2 (drop 6 (sym_bytes s))) = st_shndx s"
    "le_val (take 8 (drop 8 (sym_bytes s))) = st_value s"
    using m by (simp_all add: sym_bytes_def byte_simps del: le_bytes.simps)
qed

lemma shdr_fields:
  assumes "sh_offset h < 2 ^ 64" "sh_link h < 2 ^ 32"
  shows "le_val (take 8 (drop 24 (shdr_bytes h))) = sh_offset h"
    and "le_val (take 4 (drop 40 (shdr_bytes h))) = sh_link h"
    and "sh_info h < 2 ^ 32 \<Longrightarrow> le_val (take 4 (drop 44 (shdr_bytes h))) = sh_info h"
proof -
  have m: "sh_offset h mod 256 ^ 8 = sh_offset h" "sh_link h mod 256 ^ 4 = sh_link h"
    using assms by (simp_all add: mod_less)
  show "le_val (take 8 (drop 24 (shdr_bytes h))) = sh_offset h"
    "le_val (take 4 (drop 40 (shdr_bytes h))) = sh_link h"
    using m by (simp_all add: shdr_bytes_def le_int_def byte_simps del: le_bytes.simps)
  assume "sh_info h < 2 ^ 32"
  then have "sh_info h mod 256 ^ 4 = sh_info h" by (simp add: mod_less)
  then show "le_val (take 4 (drop 44 (shdr_bytes h))) = sh_info h"
    by (simp add: shdr_bytes_def le_int_def byte_simps del: le_bytes.simps)
qed

lemma ehdr_shoff: "l_shdr_off l < 2 ^ 64 \<Longrightarrow> le_val (take 8 (drop 40 (ehdr_bytes l n))) = l_shdr_off l"
proof -
  assume "l_shdr_off l < 2 ^ 64"
  then have "l_shdr_off l mod 256 ^ 8 = l_shdr_off l" by (simp add: mod_less)
  then show ?thesis by (simp add: ehdr_bytes_def byte_simps del: le_bytes.simps)
qed


section \<open>The headers of the file written\<close>

lemma section_headers_at:
  fixes l code_len data_len bss st_len nl r dr
  defines "H \<equiv> section_headers l code_len data_len bss st_len nl r dr"
  shows "sh_offset (H ! SEC_SYMTAB) = l_symtab_off l" "sh_link (H ! SEC_SYMTAB) = num_sections r dr - 1"
    "sh_info (H ! SEC_SYMTAB) = nl"
    "sh_offset (H ! (num_sections r dr - 1)) = l_strtab_off l"
    "r \<Longrightarrow> sh_offset (H ! 5) = l_rela_off l"
  by (simp_all add: H_def section_headers_def num_sections_def Let_def SEC_SYMTAB_def shdr_zero_def nth_append)

text \<open>What the other statements use of a written file.\<close>

definition written :: "bytes \<Rightarrow> omf_module \<Rightarrow> pass2 \<Rightarrow> layout \<Rightarrow> bytes \<Rightarrow> nat list \<Rightarrow> nat list \<Rightarrow> elf_rela list \<Rightarrow> bool" where
  "written out m p l tab sp se relas \<longleftrightarrow>
     build_strtab (pubs (m_coll m)) (exts (m_coll m)) = Some (tab, sp, se)
   \<and> map_opt (\<lambda>(f, orig). text_rela m (p2_code p) f orig) (zip (p2_fixups p) (p2_orig p)) = Some relas
   \<and> length out < 2 ^ 32
   \<and> sh_field out SEC_SYMTAB 24 8 = Some (l_symtab_off l)
   \<and> sh_field out SEC_SYMTAB 44 4 = Some (4 + n_local_pub (pubs (m_coll m)))
   \<and> sh_field out SEC_SYMTAB 40 4 = Some (num_sections (p2_fixups p \<noteq> []) (m_dfixups m \<noteq> []) - 1)
   \<and> sh_field out (num_sections (p2_fixups p \<noteq> []) (m_dfixups m \<noteq> []) - 1) 24 8 = Some (l_strtab_off l)
   \<and> (p2_fixups p \<noteq> [] \<longrightarrow> sh_field out 5 24 8 = Some (l_rela_off l))
   \<and> rd_slice out (l_symtab_off l) (24 * length (symbol_table m (length (p2_code p)) (p2_pub_offs p) sp se)) =
       Some (concat (map sym_bytes (symbol_table m (length (p2_code p)) (p2_pub_offs p) sp se)))
   \<and> rd_slice out (l_rela_off l) (24 * length relas) = Some (concat (map rela_bytes relas))
   \<and> rd_slice out (l_strtab_off l) (length tab) = Some tab
   \<and> length relas = length (p2_fixups p)"

lemma elf_written:
  assumes "elf_write m p = Some out" and "length (p2_orig p) = length (p2_fixups p)" and "length out < 2 ^ 32"
  obtains l tab sp se relas where "written out m p l tab sp se relas"
proof -
  obtain tab sp se relas l where
    st: "build_strtab (pubs (m_coll m)) (exts (m_coll m)) = Some (tab, sp, se)"
    and rel: "map_opt (\<lambda>(f, orig). text_rela m (p2_code p) f orig) (zip (p2_fixups p) (p2_orig p)) = Some relas"
    and l: "l = elf_layout m p (length tab)"
    and eh: "rd_slice out 0 64 = Some (ehdr_bytes l (num_sections (p2_fixups p \<noteq> []) (m_dfixups m \<noteq> [])))"
    and sy: "rd_slice out (l_symtab_off l) (l_symtab_sz l) =
       Some (concat (map sym_bytes (symbol_table m (length (p2_code p)) (p2_pub_offs p) sp se)))"
    and re: "rd_slice out (l_rela_off l) (l_rela_sz l) = Some (concat (map rela_bytes relas))"
    and tb: "rd_slice out (l_strtab_off l) (length tab) = Some tab"
    and sh: "rd_slice out (l_shdr_off l) (64 * num_sections (p2_fixups p \<noteq> []) (m_dfixups m \<noteq> [])) =
       Some (concat (map shdr_bytes (section_headers l (length (p2_code p)) (length (data_img (m_coll m))) (m_bss_total m)
         (length tab) (4 + n_local_pub (pubs (m_coll m))) (p2_fixups p \<noteq> []) (m_dfixups m \<noteq> []))))"
    using elf_parts [OF assms(1,2)] unfolding Let_def by blast
  define N where "N = num_sections (p2_fixups p \<noteq> []) (m_dfixups m \<noteq> [])"
  define H where "H = section_headers l (length (p2_code p)) (length (data_img (m_coll m))) (m_bss_total m)
         (length tab) (4 + n_local_pub (pubs (m_coll m))) (p2_fixups p \<noteq> []) (m_dfixups m \<noteq> [])"
  have H: "length H = N" by (simp add: H_def N_def length_section_headers)
  have N: "SEC_SYMTAB < N" "N - 1 < N" "N \<le> 9" "p2_fixups p \<noteq> [] \<Longrightarrow> 5 < N"
    by (simp_all add: N_def num_sections_def SEC_SYMTAB_def)
  note Hat = section_headers_at [where l = l and code_len = "length (p2_code p)" and data_len = "length (data_img (m_coll m))"
      and bss = "m_bss_total m" and st_len = "length tab" and nl = "4 + n_local_pub (pubs (m_coll m))"
      and r = "p2_fixups p \<noteq> []" and dr = "m_dfixups m \<noteq> []", folded H_def N_def]
  have bnds: "l_symtab_off l < 2 ^ 64" "l_strtab_off l < 2 ^ 64" "l_rela_off l < 2 ^ 64" "l_shdr_off l < 2 ^ 64"
    using sy tb re sh assms(3) by (auto simp: byte_simps)
  have lr: "length relas = length (p2_fixups p)" using map_opt_Some [OF rel] assms(2) by simp
  have shoff: "rd_le out 40 8 = Some (l_shdr_off l)"
    using rd_le_within [OF eh, of 40 8] ehdr_shoff [OF bnds(4)] by simp
  have fld: "sh_field out k 24 8 = Some (sh_offset (H ! k)) \<and> sh_field out k 40 4 = Some (sh_link (H ! k))"
    if "k < N" "sh_offset (H ! k) < 2 ^ 64" "sh_link (H ! k) < 2 ^ 32" for k
    using rd_le_record [OF sh [folded N_def H_def] record_sizes(3) _ _, of k 24 8]
      rd_le_record [OF sh [folded N_def H_def] record_sizes(3) _ _, of k 40 4] that shdr_fields [OF that(2,3)]
    by (simp add: sh_field_def shoff H)
  have links: "sh_link (H ! k) < 2 ^ 32" if "k < N" for k
    using that N(3) unfolding H_def N_def section_headers_def num_sections_def
    by (auto simp: Let_def shdr_zero_def nth_append nth_Cons SEC_SYMTAB_def split: nat.splits if_splits)
  have "length (symbol_table m (length (p2_code p)) (p2_pub_offs p) sp se) \<le> length out"
    using sy length_symbol_table [of m "length (p2_code p)" "p2_pub_offs p" sp se]
    by (simp add: byte_simps l elf_layout_def make_layout_def Let_def)
  then have nl: "4 + n_local_pub (pubs (m_coll m)) < 2 ^ 32"
    using assms(3) length_filter_le [of pub_local "pubs (m_coll m)"]
    unfolding length_symbol_table n_local_pub_def by linarith
  have "sh_offset (H ! SEC_SYMTAB) < 2 ^ 64" "sh_link (H ! SEC_SYMTAB) < 2 ^ 32" "sh_info (H ! SEC_SYMTAB) < 2 ^ 32"
    using Hat bnds N nl by simp_all
  note sf = shdr_fields [OF this(1,2)] this(3)
  have info: "sh_field out SEC_SYMTAB 44 4 = Some (4 + n_local_pub (pubs (m_coll m)))"
    using rd_le_record [OF sh [folded N_def H_def] record_sizes(3) _ _, of SEC_SYMTAB 44 4] N(1) sf(3) [OF sf(4)] Hat(3)
    by (simp add: sh_field_def shoff H)
  have "written out m p l tab sp se relas"
    unfolding written_def N_def [symmetric]
    using st rel info assms(3) fld [OF N(1)] fld [OF N(2)] fld [of 5] N links Hat bnds sy re tb lr
      length_symbol_table [of m "length (p2_code p)" "p2_pub_offs p" sp se]
    by (auto simp: l elf_layout_def make_layout_def Let_def mult.commute)
  then show thesis by (rule that)
qed


section \<open>Symbols read back\<close>

definition sym_small :: "elf_sym \<Rightarrow> bool" where
  "sym_small s \<longleftrightarrow> st_info s < 256 \<and> st_shndx s < 2 ^ 16 \<and> st_value s < 2 ^ 64"

lemma st_info_small: "bnd \<le> 1 \<Longrightarrow> ty \<le> 3 \<Longrightarrow> st_info_of bnd ty < 256 \<and> st_info_of bnd ty div 16 = bnd"
proof -
  assume "bnd \<le> 1" "ty \<le> 3"
  then have "ty AND 15 = ty" by (simp add: and_mask_nat)
  then show ?thesis using \<open>bnd \<le> 1\<close> \<open>ty \<le> 3\<close> by (simp add: st_info_of_def push_bit_eq_mult)
qed

lemma u32n_small: "u32n v < 2 ^ 64"
proof -
  have "v mod 2 ^ 32 < 2 ^ 32" by simp
  then show ?thesis by (simp add: u32n_def nat_less_iff)
qed

lemma pub_sym_small:
  assumes "offs ! q < 2 ^ 32"
  shows "sym_small (pub_sym m n offs sp q) \<and> st_name (pub_sym m n offs sp q) = sp ! q
    \<and> st_info (pub_sym m n offs sp q) div 16 = (if pub_local (pubs (m_coll m) ! q) then STB_LOCAL else STB_GLOBAL)"
  using assms st_info_small [of STB_LOCAL STT_FUNC] st_info_small [of STB_GLOBAL STT_FUNC]
    st_info_small [of STB_LOCAL STT_OBJECT] st_info_small [of STB_GLOBAL STT_OBJECT] u32n_small
  by (auto simp: pub_sym_def sym_small_def Let_def seg_anchor_def STB_LOCAL_def STB_GLOBAL_def STT_FUNC_def
      STT_OBJECT_def SEC_TEXT_def SEC_DATA_def SEC_BSS_def split: prod.splits if_splits)

lemma ext_sym_small: "sym_small (ext_sym n) \<and> st_name (ext_sym n) = n \<and> st_info (ext_sym n) div 16 = STB_GLOBAL \<and> st_shndx (ext_sym n) = 0 \<and> st_value (ext_sym n) = 0"
  using st_info_small [of STB_GLOBAL STT_NOTYPE] by (simp add: ext_sym_def sym_small_def STB_GLOBAL_def STT_NOTYPE_def)

lemma drop_in_slice:
  assumes "rd_slice out off (length tab) = Some tab" and "k \<le> length tab"
  shows "\<exists>post. drop (off + k) out = drop k (tab @ post)"
proof -
  have "tab = take (length tab) (drop off out)" using assms(1) by (simp add: byte_simps)
  then have "drop off out = tab @ drop (length tab) (drop off out)" by (metis append_take_drop_id)
  then show ?thesis by (metis add.commute drop_drop)
qed

lemma read_symbol_at:
  assumes w: "written out m p l tab sp se relas"
    and i: "i < length (symbol_table m (length (p2_code p)) (p2_pub_offs p) sp se)"
    and s: "symbol_table m (length (p2_code p)) (p2_pub_offs p) sp se ! i = s"
    and small: "sym_small s" and nm: "name_at tab (st_name s) n" "0 \<notin> set n"
  shows "read_symbol out i = Some (n, st_info s div 16, st_shndx s, st_value s)"
proof -
  have tab: "rd_slice out (l_strtab_off l) (length tab) = Some tab" and out: "length out < 2 ^ 32"
    using w by (simp_all add: written_def)
  have "st_name s < length tab" using nm by (simp add: name_at_def)
  then have n32: "st_name s < 2 ^ 32" using tab out by (auto simp: byte_simps)
  have "st_info s < 256" "st_shndx s < 2 ^ 16" "st_value s < 2 ^ 64" using small by (simp_all add: sym_small_def)
  note sf = sym_fields [OF n32 this]
  have sy: "rd_slice out (l_symtab_off l) (24 * length (symbol_table m (length (p2_code p)) (p2_pub_offs p) sp se)) =
       Some (concat (map sym_bytes (symbol_table m (length (p2_code p)) (p2_pub_offs p) sp se)))"
    using w by (simp add: written_def)
  have fld: "rd_le out (l_symtab_off l + 24 * i + a) k = Some (le_val (take k (drop a (sym_bytes s))))" if "a + k \<le> 24" for a k
    using rd_le_record [OF sy record_sizes(1) refl i that] by (simp only: s)
  have f: "rd_le out (l_symtab_off l + 24 * i) 4 = Some (st_name s)" "rd_le out (l_symtab_off l + 24 * i + 4) 1 = Some (st_info s)"
    "rd_le out (l_symtab_off l + 24 * i + 6) 2 = Some (st_shndx s)" "rd_le out (l_symtab_off l + 24 * i + 8) 8 = Some (st_value s)"
    using fld [of 0 4] fld [of 4 1] fld [of 6 2] fld [of 8 8] unfolding sf by simp_all
  obtain post where "drop (l_strtab_off l + st_name s) out = drop (st_name s) (tab @ post)"
    using drop_in_slice [OF tab, of "st_name s"] \<open>st_name s < length tab\<close> by auto
  then have "c_str (drop (l_strtab_off l + st_name s) out) = n" using name_at_c_str [OF nm] by simp
  then show ?thesis using w f by (simp add: read_symbol_def written_def)
qed

lemma strtab_names:
  assumes "build_strtab ps es = Some (tab, sp, se)"
  shows "(\<forall>q < length ps. name_at tab (sp ! q) (pub_name (ps ! q))) \<and> (\<forall>e < length es. name_at tab (se ! e) (es ! e))"
proof (rule build_strtab_run [of ps es])
  fix sp' se' x
  assume "build_strtab ps es = (if length (fixed_strtab @ x) \<le> strtab_cap then Some (fixed_strtab @ x, sp', se') else None)"
    "\<forall>q < length ps. name_at (fixed_strtab @ x) (sp' ! q) (pub_name (ps ! q))"
    "\<forall>e < length es. name_at (fixed_strtab @ x) (se' ! e) (es ! e)"
  then show ?thesis using assms by (simp split: if_splits)
qed

lemma read_pub_symbol:
  assumes w: "written out m p l tab sp se relas" and m: "module_wf m" and q: "q < length (pubs (m_coll m))"
    and off: "p2_pub_offs p ! q < 2 ^ 32"
  shows "\<exists>s. s = pub_sym m (length (p2_code p)) (p2_pub_offs p) sp q
    \<and> read_symbol out (pub_symidx (pubs (m_coll m)) ! q) =
        Some (pub_name (pubs (m_coll m) ! q), if pub_local (pubs (m_coll m) ! q) then STB_LOCAL else STB_GLOBAL, st_shndx s, st_value s)"
proof -
  let ?s = "pub_sym m (length (p2_code p)) (p2_pub_offs p) sp q"
  have "build_strtab (pubs (m_coll m)) (exts (m_coll m)) = Some (tab, sp, se)" using w by (simp add: written_def)
  then have nm: "name_at tab (sp ! q) (pub_name (pubs (m_coll m) ! q))" using strtab_names q by blast
  have "0 \<notin> set (pub_name (pubs (m_coll m) ! q))"
    using m q by (auto simp: module_wf_def collected_wf_def list_all_length pub_wf_def)
  then have "read_symbol out (pub_symidx (pubs (m_coll m)) ! q) =
      Some (pub_name (pubs (m_coll m) ! q), st_info ?s div 16, st_shndx ?s, st_value ?s)"
    using pub_sym_small [OF off, of m "length (p2_code p)" sp] nm symbol_table_pub [OF q, of "length (p2_code p)" "p2_pub_offs p" sp se]
    by (intro read_symbol_at [OF w]) (simp_all add: length_symbol_table)
  then show ?thesis using pub_sym_small [OF off, of m "length (p2_code p)" sp] by auto
qed


text \<open>
  C7.  A definition of the module is in the file under its own name: the symbol the writer numbers
  it with has that name, the binding of the record it came from (local for LPUBDEF, global for
  PUBDEF), a section number, and as its value the patched offset, counted from the start of the
  segment's part of the section when it is not in the code.
\<close>

theorem public_is_defined:
  assumes "elf_write m p = Some out" and "length (p2_orig p) = length (p2_fixups p)" and "length out < 2 ^ 32"
    and "module_wf m" and "q < length (pubs (m_coll m))" and "p2_pub_offs p ! q < 2 ^ 32"
  shows "read_symbol out (pub_symidx (pubs (m_coll m)) ! q) =
    Some (pub_name (pubs (m_coll m) ! q), if pub_local (pubs (m_coll m) ! q) then 0 else 1,
      if pub_seg (pubs (m_coll m) ! q) = text_seg_idx (m_segs m) then (SEC_TEXT, p2_pub_offs p ! q)
      else (case seg_anchor m (pub_seg (pubs (m_coll m) ! q)) of (sec, base) \<Rightarrow>
        (sec, nat ((base + int (p2_pub_offs p ! q)) mod 2 ^ 32))))"
proof (rule elf_written [OF assms(1-3)])
  fix l tab sp se relas
  assume "written out m p l tab sp se relas"
  from read_pub_symbol [OF this assms(4-6)] show ?thesis
    by (auto simp: pub_sym_def Let_def u32n_def STB_LOCAL_def STB_GLOBAL_def split: prod.splits)
qed

text \<open>The symbol a relocation against external \<open>e\<close> is given: that of the definition of the same name, if there is one.\<close>

lemma read_ext_symbol:
  assumes w: "written out m p l tab sp se relas" and m: "module_wf m" and e: "e < length (exts (m_coll m))"
    and offs: "\<forall>q < length (pubs (m_coll m)). p2_pub_offs p ! q < 2 ^ 32"
  shows "\<exists>bnd sec val. read_symbol out (ext_symidx (pubs (m_coll m)) (exts (m_coll m)) e) = Some (exts (m_coll m) ! e, bnd, sec, val)
    \<and> (sec = 0 \<longleftrightarrow> exts (m_coll m) ! e \<notin> pub_name ` set (pubs (m_coll m)))"
proof -
  let ?ps = "pubs (m_coll m)" and ?es = "exts (m_coll m)"
  show ?thesis
  proof (cases "ext_local ?ps (?es ! e)")
    case None
    have st: "build_strtab ?ps ?es = Some (tab, sp, se)" using w by (simp add: written_def)
    have "0 \<notin> set (?es ! e)" using m e by (auto simp: module_wf_def collected_wf_def list_all_length name_wf_def)
    moreover have "name_at tab (se ! e) (?es ! e)" using strtab_names [OF st] e by blast
    ultimately have "read_symbol out (ext_symidx ?ps ?es e) =
        Some (?es ! e, st_info (ext_sym (se ! e)) div 16, st_shndx (ext_sym (se ! e)), st_value (ext_sym (se ! e)))"
      using symbol_table_ext [OF e None, of "length (p2_code p)" "p2_pub_offs p" sp se] ext_sym_small [of "se ! e"]
      by (intro read_symbol_at [OF w]) (simp_all only: length_symbol_table not_False_eq_True)
    then have "read_symbol out (ext_symidx ?ps ?es e) = Some (?es ! e, STB_GLOBAL, 0, 0)"
      using ext_sym_small [of "se ! e"] by simp
    moreover have "?es ! e \<notin> pub_name ` set ?ps"
      using None by (auto simp: ext_local_def find_None_iff in_set_conv_nth)
    ultimately show ?thesis by blast
  next
    case (Some q)
    then have q: "q < length ?ps" "pub_name (?ps ! q) = ?es ! e" by (simp_all add: ext_local_Some)
    have sec: "st_shndx (pub_sym m n offs sp q) \<noteq> 0" for n offs
      by (auto simp: pub_sym_def Let_def seg_anchor_def SEC_TEXT_def SEC_DATA_def SEC_BSS_def split: prod.splits if_splits)
    have "?es ! e \<in> pub_name ` set ?ps" using q by (metis nth_mem image_eqI)
    then show ?thesis
      using read_pub_symbol [OF w m q(1)] offs q sec by (auto simp: ext_symidx_def Some)
  qed
qed

lemma external_reference:
  assumes "elf_write m p = Some out" and "length (p2_orig p) = length (p2_fixups p)" and "length out < 2 ^ 32"
    and "module_wf m" and "fixups_inside p" and "\<forall>q < length (pubs (m_coll m)). p2_pub_offs p ! q < 2 ^ 32"
    and "f < length (p2_fixups p)" and "0 \<le> ext_idx (p2_fixups p ! f)"
    and "nat (ext_idx (p2_fixups p ! f)) < length (exts (m_coll m))"
  shows "\<exists>sym bnd sec val. read_reloc out f = Some (nat (code_offset (p2_fixups p ! f)), sym)
    \<and> read_symbol out sym = Some (exts (m_coll m) ! nat (ext_idx (p2_fixups p ! f)), bnd, sec, val)
    \<and> (sec = 0 \<longleftrightarrow> exts (m_coll m) ! nat (ext_idx (p2_fixups p ! f)) \<notin> pub_name ` set (pubs (m_coll m)))"
proof (rule elf_written [OF assms(1-3)])
  fix l tab sp se relas
  assume w: "written out m p l tab sp se relas"
  let ?fx = "p2_fixups p ! f" and ?ps = "pubs (m_coll m)" and ?es = "exts (m_coll m)"
  let ?sym = "ext_symidx ?ps ?es (nat (ext_idx ?fx))"
  have "0 \<le> code_offset ?fx" and le: "code_offset ?fx \<le> int (length (p2_code p))"
    using assms(5,7) by (auto simp: fixups_inside_def list_all_length)
  from text_rela_defined [OF this, of m "p2_orig p ! f"] assms(8)
  obtain r where r: "text_rela m (p2_code p) ?fx (p2_orig p ! f) = Some r" "r_offset r = code_offset ?fx" "r_sym r = ?sym"
    by auto
  have lr: "length relas = length (p2_fixups p)" using w by (simp add: written_def)
  have rel: "map_opt (\<lambda>(f, orig). text_rela m (p2_code p) f orig) (zip (p2_fixups p) (p2_orig p)) = Some relas"
    using w by (simp add: written_def)
  have rf: "relas ! f = r" using map_opt_Some [OF rel] assms(2,7) r(1) by auto
  have code: "length (p2_code p) < 2 ^ 32"
    using elf_parts [OF assms(1,2)] assms(3) by (auto simp: Let_def byte_simps)
  obtain bnd sec val where sym: "read_symbol out ?sym = Some (?es ! nat (ext_idx ?fx), bnd, sec, val)"
    "sec = 0 \<longleftrightarrow> ?es ! nat (ext_idx ?fx) \<notin> pub_name ` set ?ps"
    using read_ext_symbol [OF w assms(4,9,6)] by blast
  have "length (symbol_table m (length (p2_code p)) (p2_pub_offs p) sp se) < 2 ^ 32"
    using w by (auto simp: written_def byte_simps)
  moreover have "?sym < length (symbol_table m (length (p2_code p)) (p2_pub_offs p) sp se)"
    using symbol_table_ext [OF assms(9), of "length (p2_code p)" "p2_pub_offs p" sp se]
      symbol_table_pub [of _ m "length (p2_code p)" "p2_pub_offs p" sp se] ext_local_Some [of ?ps]
    by (cases "ext_local ?ps (?es ! nat (ext_idx ?fx))") (force simp: length_symbol_table ext_symidx_def)+
  ultimately have small: "?sym < 2 ^ 32" by simp
  have ty: "r_type r < 2 ^ 32"
    using r(1) assms(8) by (auto simp: text_rela_def Let_def bind_eq_Some_conv R_X86_64_PC32_def R_X86_64_PLT32_def R_X86_64_32S_def split: if_splits)
  have slice: "rd_slice out (l_rela_off l) (24 * length relas) = Some (concat (map rela_bytes relas))"
    and sh: "sh_field out 5 24 8 = Some (l_rela_off l)"
    using w assms(7) by (auto simp: written_def)
  have f: "f < length relas" using lr assms(7) by simp
  have "0 \<le> r_offset r" "r_offset r < 2 ^ 64" using r(2) \<open>0 \<le> code_offset ?fx\<close> le code by simp_all
  note rf' = rela_fields [OF this ty small [folded r(3)]]
  have "read_reloc out f = Some (nat (code_offset ?fx), ?sym)"
    using rd_le_record [OF slice record_sizes(2) refl f, of 0 8] rd_le_record [OF slice record_sizes(2) refl f, of 12 4]
    unfolding rf rf' by (simp add: read_reloc_def sh r)
  then show ?thesis using sym by blast
qed

text \<open>
  C6.  A reference survives the trip: relocation \<open>f\<close> of \<open>.rela.text\<close>, made of a fixup against an
  external of the compiler's module, is at the fixup's place in the patched code and its symbol
  has that external's name; the symbol is undefined exactly when the module itself has no
  definition of the name.
\<close>

theorem external_reference_resolves:
  assumes "elf_write m p = Some out" and "length (p2_orig p) = length (p2_fixups p)" and "length out < 2 ^ 32"
    and "module_wf m" and "fixups_inside p" and "\<forall>q < length (pubs (m_coll m)). p2_pub_offs p ! q < 2 ^ 32"
    and "f < length (p2_fixups p)" and "0 \<le> ext_idx (p2_fixups p ! f)"
    and "nat (ext_idx (p2_fixups p ! f)) < length (exts (m_coll m))"
  shows "\<exists>sym bnd sec val. read_reloc out f = Some (nat (code_offset (p2_fixups p ! f)), sym)
    \<and> read_symbol out sym = Some (exts (m_coll m) ! nat (ext_idx (p2_fixups p ! f)), bnd, sec, val)
    \<and> (sec = 0 \<longleftrightarrow> exts (m_coll m) ! nat (ext_idx (p2_fixups p ! f)) \<notin> pub_name ` set (pubs (m_coll m)))"
  using assms by (rule external_reference)


section \<open>Local symbols come first\<close>

lemma symbol_bindings:
  assumes "i < length (symbol_table m n offs sp se)" and "\<forall>q < length (pubs (m_coll m)). offs ! q < 2 ^ 32"
  shows "st_info (symbol_table m n offs sp se ! i) < 256 \<and>
    (st_info (symbol_table m n offs sp se ! i) div 16 = STB_LOCAL \<longleftrightarrow> i < 4 + n_local_pub (pubs (m_coll m)))"
proof -
  let ?ps = "pubs (m_coll m)" and ?es = "exts (m_coll m)"
  define L where "L = map (pub_sym m n offs sp) (filter (\<lambda>q. pub_local (?ps ! q)) [0..<length ?ps])"
  define G where "G = map (pub_sym m n offs sp) (filter (\<lambda>q. \<not> pub_local (?ps ! q)) [0..<length ?ps])"
  define X where "X = map (\<lambda>e. ext_sym (se ! e)) (filter (\<lambda>e. ext_local ?ps (?es ! e) = None) [0..<length ?es])"
  have tab: "symbol_table m n offs sp se = (fixed_syms @ L) @ (G @ X)"
    by (simp add: symbol_table_def L_def G_def X_def Let_def)
  have len: "length (fixed_syms @ L) = 4 + n_local_pub ?ps"
    using rank_filter [of pub_local ?ps] by (simp add: fixed_syms_def L_def n_local_pub_def rank_def)
  have loc: "st_info s < 256 \<and> st_info s div 16 = STB_LOCAL" if "s \<in> set (fixed_syms @ L)" for s
    using that assms(2) pub_sym_small [of offs _ m n sp] st_info_small [of STB_LOCAL STT_SECTION]
    by (auto simp: L_def fixed_syms_def section_sym_def sym_small_def STB_LOCAL_def STT_SECTION_def)
  have glob: "st_info s < 256 \<and> st_info s div 16 \<noteq> STB_LOCAL" if "s \<in> set (G @ X)" for s
    using that assms(2) pub_sym_small [of offs _ m n sp] ext_sym_small
    by (auto simp: G_def X_def sym_small_def STB_LOCAL_def STB_GLOBAL_def)
  define A B where AB: "A = fixed_syms @ L" "B = G @ X"
  show ?thesis
  proof (cases "i < length A")
    case True
    then have "symbol_table m n offs sp se ! i \<in> set A" unfolding tab AB [symmetric] by (simp add: nth_append)
    then show ?thesis using loc True len unfolding AB by auto
  next
    case False
    then have "i - length A < length B" using assms(1) unfolding tab AB [symmetric] by simp
    then have "symbol_table m n offs sp se ! i \<in> set B"
      unfolding tab AB [symmetric] using False by (simp add: nth_append)
    then show ?thesis using glob False len unfolding AB by auto
  qed
qed

text \<open>
  The ELF rule that local symbols precede the others: the header of the symbol table gives the
  first nonlocal number, and every symbol of the file below it is local, every one from it on is
  not.
\<close>

theorem local_symbols_first:
  assumes "elf_write m p = Some out" and "length (p2_orig p) = length (p2_fixups p)" and "length out < 2 ^ 32"
    and "\<forall>q < length (pubs (m_coll m)). p2_pub_offs p ! q < 2 ^ 32"
  shows "\<exists>first tab. sh_field out SEC_SYMTAB 44 4 = Some first \<and> sh_field out SEC_SYMTAB 24 8 = Some tab
    \<and> (\<forall>i < 4 + length (pubs (m_coll m)) + real_ext (pubs (m_coll m)) (exts (m_coll m)).
         \<exists>info. rd_le out (tab + 24 * i + 4) 1 = Some info \<and> (info div 16 = 0 \<longleftrightarrow> i < first))"
proof (rule elf_written [OF assms(1-3)])
  fix l tab sp se relas
  assume w: "written out m p l tab sp se relas"
  let ?syms = "symbol_table m (length (p2_code p)) (p2_pub_offs p) sp se"
  have sy: "rd_slice out (l_symtab_off l) (24 * length ?syms) = Some (concat (map sym_bytes ?syms))"
    using w by (simp add: written_def)
  have "\<exists>info. rd_le out (l_symtab_off l + 24 * i + 4) 1 = Some info \<and> (info div 16 = 0 \<longleftrightarrow> i < 4 + n_local_pub (pubs (m_coll m)))"
    if "i < 4 + length (pubs (m_coll m)) + real_ext (pubs (m_coll m)) (exts (m_coll m))" for i
  proof -
    have i: "i < length ?syms" using that by (simp only: length_symbol_table)
    have b: "st_info (?syms ! i) mod 256 ^ 1 = st_info (?syms ! i)" using symbol_bindings [OF i assms(4)] by simp
    have "le_val (take 1 (drop 4 (sym_bytes (?syms ! i)))) = st_info (?syms ! i)"
      using b by (simp add: sym_bytes_def byte_simps del: le_bytes.simps)
    then show ?thesis
      using rd_le_record [OF sy record_sizes(1) refl i, of 4 1] symbol_bindings [OF i assms(4)] by (simp add: STB_LOCAL_def)
  qed
  then show ?thesis using w by (auto simp: written_def)
qed


section \<open>A small module\<close>

text \<open>Code that calls \<open>f\<close> and returns, one global definition \<open>m\<close>, two bytes of data.\<close>

abbreviation small_module :: omf_module where
  "small_module \<equiv> \<lparr>m_segs = segs_init\<lparr>text_seg_idx := 1\<rparr>, m_bss_base = (\<lambda>_. 0), m_bss_total = 0,
     m_coll = collected_init\<lparr>code_img := [0xE8, 0, 0, 0, 0, 0xC3], data_img := [7, 8],
        pubs := [\<lparr>pub_name = [0x6D], pub_off = 0, pub_seg = 1, pub_local = False\<rparr>], exts := [[0x66]]\<rparr>,
     m_fixups = [\<lparr>code_offset = 1, ext_idx = 0, target_seg = 0\<rparr>], m_dfixups = []\<rparr>"

abbreviation small_pass2 :: pass2 where
  "small_pass2 \<equiv> \<lparr>p2_code = [0xE8, 0, 0, 0, 0, 0xC3], p2_pub_offs = [0],
     p2_fixups = [\<lparr>code_offset = 1, ext_idx = 0, target_seg = 0\<rparr>], p2_orig = [0xE8]\<rparr>"

lemma small_wf: "module_wf small_module" "fixups_inside small_pass2"
  by (simp_all add: module_wf_def segs_wf_def segs_init_def collected_wf_def collected_init_def pub_wf_def
      name_wf_def fixup_wf_def fixups_inside_def)

lemma build_strtab_cap: "build_strtab ps es = Some (tab, sp, se) \<Longrightarrow> length tab \<le> strtab_cap"
  by (auto simp: build_strtab_def split: prod.splits if_splits)

lemma small_real_ext: "real_ext (pubs (m_coll small_module)) (exts (m_coll small_module)) = 1"
  by (simp add: real_ext_def ext_local_def collected_init_def)

lemma small_out: "\<exists>out. elf_write small_module small_pass2 = Some out \<and> length out < 2 ^ 32"
proof -
  obtain out where out: "elf_write small_module small_pass2 = Some out"
    using elf_write_ex [OF small_wf] by blast
  obtain tab sp se where b: "build_strtab (pubs (m_coll small_module)) (exts (m_coll small_module)) = Some (tab, sp, se)"
    and len: "length out = l_shdr_off (elf_layout small_module small_pass2 (length tab))
        + 64 * num_sections (p2_fixups small_pass2 \<noteq> []) (m_dfixups small_module \<noteq> [])"
    using elf_parts [OF out] unfolding Let_def by (auto simp del: One_nat_def)
  have "length tab \<le> strtab_cap" using b by (rule build_strtab_cap)
  then have tab: "length tab \<le> 262144" by (simp add: strtab_cap_def)
  have "l_strtab_off (elf_layout small_module small_pass2 (length tab)) = 264"
    unfolding elf_layout_def small_real_ext make_layout_def Let_def by (simp add: collected_init_def) (simp add: pad_to_def)
  moreover have "l_shdr_off l = l_strtab_off l + length tab + l_strtab_pad l" "l_strtab_pad l \<le> 8"
    if "l = elf_layout small_module small_pass2 (length tab)" for l
    unfolding that elf_layout_def make_layout_def Let_def pad_to_def by (simp_all add: less_imp_le)
  ultimately have "l_shdr_off (elf_layout small_module small_pass2 (length tab)) \<le> 264 + length tab + 8"
    by (metis add_le_cancel_left)
  then have "length out < 2 ^ 32"
    using tab unfolding len num_sections_def by simp
  then show ?thesis using out by blast
qed


theorem public_is_defined_witness:
  "\<exists>out. elf_write small_module small_pass2 = Some out
     \<and> read_symbol out (pub_symidx (pubs (m_coll small_module)) ! 0) = Some ([0x6D], 1, 1, 0)"
proof -
  obtain out where out: "elf_write small_module small_pass2 = Some out" "length out < 2 ^ 32" using small_out by blast
  have "read_symbol out (pub_symidx (pubs (m_coll small_module)) ! 0) = Some ([0x6D], 1, 1, 0)"
    by (subst public_is_defined [OF out(1) _ out(2) small_wf(1)])
       (simp_all add: collected_init_def segs_init_def SEC_TEXT_def)
  then show ?thesis using out(1) by blast
qed

theorem external_reference_resolves_witness:
  "\<exists>out sym bnd val. elf_write small_module small_pass2 = Some out
     \<and> read_reloc out 0 = Some (1, sym) \<and> read_symbol out sym = Some ([0x66], bnd, 0, val)"
proof -
  obtain out where out: "elf_write small_module small_pass2 = Some out" "length out < 2 ^ 32" using small_out by blast
  have "\<exists>sym bnd sec val. read_reloc out 0 = Some (nat (code_offset (p2_fixups small_pass2 ! 0)), sym)
    \<and> read_symbol out sym = Some (exts (m_coll small_module) ! nat (ext_idx (p2_fixups small_pass2 ! 0)), bnd, sec, val)
    \<and> (sec = 0 \<longleftrightarrow> exts (m_coll small_module) ! nat (ext_idx (p2_fixups small_pass2 ! 0)) \<notin> pub_name ` set (pubs (m_coll small_module)))"
    by (rule external_reference_resolves [OF out(1) _ out(2) small_wf]) (simp_all add: collected_init_def)
  then show ?thesis using out(1) by (auto simp: collected_init_def)
qed

theorem local_symbols_first_witness:
  "\<exists>out first. elf_write small_module small_pass2 = Some out \<and> sh_field out SEC_SYMTAB 44 4 = Some first"
proof -
  obtain out where out: "elf_write small_module small_pass2 = Some out" "length out < 2 ^ 32" using small_out by blast
  show ?thesis
    using local_symbols_first [OF out(1) _ out(2)] out(1) by (auto simp: collected_init_def)
qed

theorem elf_write_defined_witness: "elf_write small_module small_pass2 \<noteq> None"
  by (rule elf_write_defined [OF small_wf])

theorem elf_parts_at_offsets_witness:
  "\<exists>out (l::layout). elf_write small_module small_pass2 = Some out
     \<and> rd_slice out (l_text_off l) (length (p2_code small_pass2)) = Some (p2_code small_pass2)"
proof -
  obtain out where out: "elf_write small_module small_pass2 = Some out" using small_out by blast
  have len: "length (p2_orig small_pass2) = length (p2_fixups small_pass2)" by simp
  show ?thesis
    using elf_parts_at_offsets [OF out len] unfolding Let_def
    by - (elim exE conjE, rule exI [of _ out], rule exI, rule conjI [OF out], assumption)
qed

end
