(* ===== verification/X64Obj.thy ===== *)
theory X64Obj
  imports OmfRoundTrip ElfLink
begin

text \<open>
  The life of one object file: \<open>X64CheckDispatch\<close> (\<open>bld/cg/intel/c/x64dispatch.c\<close>) decides from the
  name of the output that an ELF file is wanted, \<open>X64ObjInit\<close> notes the name, and after the OMF
  file is closed \<open>X64ObjFini\<close> (\<open>bld/cg/intel/x64/c/x64obj.c\<close>) converts it in place.

  The file system is a map from names to contents.  Whether a file can be opened for reading or
  for writing is a parameter; a \<open>remove\<close> or \<open>rename\<close> of a file the process has just written
  succeeds.  A run that reads or writes outside a buffer is \<open>None\<close>.
\<close>

section \<open>State\<close>

record host =
  may_read :: "string \<Rightarrow> bool"
  may_write :: "string \<Rightarrow> bool"

text \<open>
  The pointer to the name is null at first; \<open>X64ObjFini\<close> frees the name and leaves the pointer, which must not be followed then.
\<close>

datatype name_ref = Null | Name string | Freed

record x64_state =
  x64_active :: bool
  x64_elf_active :: bool
  obj_filename :: name_ref
  fs :: "string \<rightharpoonup> bytes"

section \<open>Dispatch and start\<close>






section \<open>The conversion\<close>

text \<open>All of the passes over the contents of the file: whether it has code, and the ELF file.\<close>

definition x64_convert :: "bytes \<Rightarrow> (bool \<times> bytes) option" where
  "x64_convert omf = do {
     m \<leftarrow> omf_read omf;
     p \<leftarrow> pass2_run (length omf) (code_img (m_coll m)) (map pub_off (pubs (m_coll m))) (m_fixups m);
     out \<leftarrow> elf_write m p;
     Some (0 < length (p2_code p), out)
   }"

definition dbg_name_of :: "string \<Rightarrow> string" where
  "dbg_name_of name = take 255 (name @ ''.omf'')"

definition temp_name_of :: "string \<Rightarrow> string" where
  "temp_name_of name = name @ ''.tmp''"

text \<open>The debug copy: the target is truncated by its \<open>fopen\<close> before the source is read.\<close>

definition save_omf_copy :: "host \<Rightarrow> string \<Rightarrow> (string \<rightharpoonup> bytes) \<Rightarrow> (string \<rightharpoonup> bytes)" where
  "save_omf_copy h name files =
    (if may_write h (dbg_name_of name)
     then (let files' = files(dbg_name_of name \<mapsto> [])
           in case files' name of
                Some b \<Rightarrow> if may_read h name then files'(dbg_name_of name \<mapsto> b) else files'
              | None \<Rightarrow> files')
     else files)"

definition x64_obj_fini :: "host \<Rightarrow> x64_state \<Rightarrow> x64_state option" where
  "x64_obj_fini h st =
    (if \<not> x64_active st then Some st
     else case obj_filename st of
       Null \<Rightarrow> Some st
     | Freed \<Rightarrow> None
     | Name name \<Rightarrow>
         let st1 = st\<lparr>fs := save_omf_copy h name (fs st)\<rparr> in
         (case fs st1 name of
            None \<Rightarrow> Some st1
          | Some omf \<Rightarrow>
              if \<not> may_read h name then Some st1
              else (case x64_convert omf of
                  None \<Rightarrow> None
                | Some (has_code, out) \<Rightarrow>
                    let temp = temp_name_of name in
                    if \<not> may_write h temp then Some st1
                    else let files = (fs st1)(temp \<mapsto> out);
                             files' = (if has_code then files(name := files temp, temp := None)
                                       else files(temp := None))
                         in Some (st1\<lparr>fs := files', obj_filename := Freed, x64_active := False\<rparr>))))"



section \<open>What a run leaves behind\<close>

lemma dbg_name_short: "length name < 252 \<Longrightarrow> dbg_name_of name = name @ ''.omf''"
  by (simp add: dbg_name_of_def)

lemma names_differ [simp]:
  "name @ ''.omf'' \<noteq> name" "name @ ''.tmp'' \<noteq> name" "name @ ''.omf'' \<noteq> name @ ''.tmp''"
  "name \<noteq> name @ ''.omf''" "name \<noteq> name @ ''.tmp''" "name @ ''.tmp'' \<noteq> name @ ''.omf''"
  by simp_all

definition ready :: "host \<Rightarrow> x64_state \<Rightarrow> string \<Rightarrow> bytes \<Rightarrow> bool" where
  "ready h st name omf \<longleftrightarrow> x64_active st \<and> obj_filename st = Name name \<and> fs st name = Some omf
     \<and> may_read h name \<and> may_write h (name @ ''.omf'') \<and> may_write h (name @ ''.tmp'') \<and> length name < 252"

lemma x64_obj_fini_run:
  assumes "ready h st name omf" and "x64_convert omf = Some (has_code, out)"
  shows "x64_obj_fini h st = Some (st\<lparr>fs := (fs st)(name @ ''.omf'' \<mapsto> omf,
      name \<mapsto> (if has_code then out else omf), name @ ''.tmp'' := None), obj_filename := Freed, x64_active := False\<rparr>)"
  using assms by (auto simp: x64_obj_fini_def ready_def Let_def save_omf_copy_def dbg_name_short temp_name_of_def fun_eq_iff)

section \<open>From the code generator's records to the linker\<close>

lemma pass2_run_fixups:
  assumes "pass2_run cap code offs fxs = Some p"
  shows "length (p2_orig p) = length (p2_fixups p) \<and> length (p2_fixups p) = length fxs
    \<and> length (p2_pub_offs p) = length offs \<and> (\<forall>f < length fxs. ext_idx (p2_fixups p ! f) = ext_idx (fxs ! f))"
  using assms by (auto simp: pass2_run_eq pass2_of_def bind_eq_Some_conv fixup_of_def split: if_splits)

text \<open>Where a fixup at \<open>off\<close> is after the pass: the offset map tells for one inside the code, any other stays.\<close>

definition moved_offset :: "bytes \<Rightarrow> int list \<Rightarrow> int \<Rightarrow> nat" where
  "moved_offset code omap off = nat (if 0 \<le> off \<and> off < int (length code) then omap ! nat off else off)"

lemma pass2_run_moves:
  assumes "pass2_run cap code offs fxs = Some p"
  shows "\<exists>omap. patch_code code fxs = Some (p2_code p, omap) \<and> length code \<le> length (p2_code p)
    \<and> length (p2_code p) \<le> 3 * length code
    \<and> (\<forall>f < length fxs. nat (code_offset (p2_fixups p ! f)) = moved_offset code omap (code_offset (fxs ! f)))"
proof -
  obtain omap where pc: "patched_of code fxs = Some (p2_code p, omap)"
    and fx: "p2_fixups p = map (fixup_of (length code) omap) fxs"
    using assms by (auto simp: pass2_run_eq pass2_of_def bind_eq_Some_conv split: if_splits)
  obtain P0 where img: "image_of code fxs = (P0, omap)" and loop: "aim_loop code omap 0 P0 = Some (p2_code p)"
    using patch_code_image [OF pc] .
  have "length code \<le> length (p2_code p)" "length (p2_code p) \<le> 3 * length code"
    using retarget_loop_frame [OF loop] patch_image_facts(2,3) [OF img] by simp_all
  then show ?thesis by (auto simp: patch_code_eq pc fx fixup_of_def moved_offset_def)
qed

section \<open>What a session leaves behind\<close>





section \<open>From end to end\<close>

text \<open>The numbers of the patched module are machine integers, and its fixups lie in its code.\<close>

definition in_range :: "pass2 \<Rightarrow> bytes \<Rightarrow> bool" where
  "in_range p out \<longleftrightarrow> length out < 2 ^ 32 \<and> fixups_inside p \<and> (\<forall>o' \<in> set (p2_pub_offs p). o' < 2 ^ 32)"

text \<open>
  C1.  From end to end: when the code generator writes records whose meaning is the module \<open>m\<close>
  and the file is converted, relocation \<open>f\<close> of the ELF file in place of the object file, read as a
  linker reads it, has the name of the external the code generator's fixup \<open>f\<close> refers to, and its place is where
  the offset map of pass 2 moves the fixup (a fixup outside of the code is not moved).
\<close>

theorem external_call_reaches_linker:
  assumes "list_all item_ok its" and "within_limits its" and "module_meaning its = Some m"
    and "ready h st name (enc_module its)"
    and "pass2_run (length (enc_module its)) (code_img (m_coll m)) (map pub_off (pubs (m_coll m))) (m_fixups m) = Some p"
    and "elf_write m p = Some out" and "in_range p out" and "p2_code p \<noteq> []"
    and "f < length (m_fixups m)" and "0 \<le> ext_idx (m_fixups m ! f)"
  shows "\<exists>st' elf patched omap sym bnd sec val. x64_obj_fini h st = Some st' \<and> fs st' name = Some elf
    \<and> patch_code (code_img (m_coll m)) (m_fixups m) = Some (patched, omap)
    \<and> read_reloc elf f = Some (moved_offset (code_img (m_coll m)) omap (code_offset (m_fixups m ! f)), sym)
    \<and> read_symbol elf sym = Some (exts (m_coll m) ! nat (ext_idx (m_fixups m ! f)), bnd, sec, val)"
proof -
  have read: "omf_read (enc_module its) = Some m" using omf_read_enc [OF assms(1,2)] assms(3) by simp
  have conv: "x64_convert (enc_module its) = Some (True, out)"
    using assms(8) by (simp add: x64_convert_def read assms(5,6))
  note p2 = pass2_run_fixups [OF assms(5)]
  have wf: "module_wf m" using omf_module_wf [OF read] .
  then have ext: "nat (ext_idx (m_fixups m ! f)) < length (exts (m_coll m))"
    using assms(9,10) by (auto simp: module_wf_def list_all_length fixup_wf_def nat_less_iff)
  obtain sym bnd sec val where
    "read_reloc out f = Some (nat (code_offset (p2_fixups p ! f)), sym)"
    "read_symbol out sym = Some (exts (m_coll m) ! nat (ext_idx (p2_fixups p ! f)), bnd, sec, val)"
    using external_reference [OF assms(6) _ _ wf, of f] p2 assms(7,9,10) ext
    by (auto simp: in_range_def)
  moreover obtain omap where "patch_code (code_img (m_coll m)) (m_fixups m) = Some (p2_code p, omap)"
    "nat (code_offset (p2_fixups p ! f)) = moved_offset (code_img (m_coll m)) omap (code_offset (m_fixups m ! f))"
    using pass2_run_moves [OF assms(5)] assms(9) by blast
  ultimately show ?thesis using x64_obj_fini_run [OF assms(4) conv] p2 assms(9) by auto
qed

section \<open>Where it goes wrong\<close>

text \<open>
  A code segment that the patches lengthen past the size of the OMF file overruns the buffer
  it is copied back into: the conversion of ten stack-pointer moves has no defined result.
\<close>

abbreviation ten_moves :: bytes where
  "ten_moves \<equiv> [0xA1, 26, 0, 1, 0, 0, 0, 0] @ concat (replicate 10 [0x89, 0xE5]) @ [0]"

theorem patched_code_overruns_buffer: "x64_convert ten_moves = None"
proof -
  have read: "map_option (\<lambda>m. (code_img (m_coll m), m_fixups m)) (omf_read ten_moves)
      = Some (concat (replicate 10 [0x89, 0xE5]), [])"
    by code_simp
  have patch: "map_option (\<lambda>(code, omap). length code) (patch_code (concat (replicate 10 [0x89, 0xE5])) []) = Some 30"
    by code_simp
  have "length ten_moves = 29" by code_simp
  then have "pass2_run (length ten_moves) (concat (replicate 10 [0x89, 0xE5])) offs [] = None" for offs
    using patch by (auto simp: pass2_run_def split: prod.splits)
  then show ?thesis using read by (auto simp: x64_convert_def bind_eq_None_conv)
qed

lemma convert_empty: "\<exists>out. x64_convert [] = Some (False, out)"
proof -
  have "map_option (\<lambda>m. (code_img (m_coll m), pubs (m_coll m), m_fixups m)) (omf_read []) = Some ([], [], [])"
    by code_simp
  then obtain m where m: "omf_read [] = Some m" "code_img (m_coll m) = []" "pubs (m_coll m) = []" "m_fixups m = []"
    by auto
  have p: "pass2_run 0 [] [] [] = Some \<lparr>p2_code = [], p2_pub_offs = [], p2_fixups = [], p2_orig = []\<rparr>"
    by code_simp
  have "elf_write m \<lparr>p2_code = [], p2_pub_offs = [], p2_fixups = [], p2_orig = []\<rparr> \<noteq> None"
    by (rule elf_write_ex [OF omf_module_wf [OF m(1)]]) (simp add: fixups_inside_def)
  then show ?thesis using m p by (auto simp: x64_convert_def)
qed

text \<open>
  A name of 255 characters is also the name of its debug copy, which is cut to fit the array
  it is built in: opening the copy empties the object file, and the run ends with an empty file
  in its place.
\<close>

theorem long_name_empties_object:
  assumes "x64_active st" and "obj_filename st = Name name" and "length name = 255"
    and "fs st name = Some omf" and "may_write h name" and "may_read h name" and "may_write h (name @ ''.tmp'')"
  shows "map_option (\<lambda>st'. fs st' name) (x64_obj_fini h st) = Some (Some [])"
proof -
  have dbg: "dbg_name_of name = name" using assms(3) by (simp add: dbg_name_of_def)
  have copy: "save_omf_copy h name (fs st) = (fs st)(name \<mapsto> [])"
    using assms by (simp add: save_omf_copy_def dbg Let_def)
  obtain out where "x64_convert [] = Some (False, out)" using convert_empty by blast
  then show ?thesis using assms by (simp add: x64_obj_fini_def copy Let_def temp_name_of_def)
qed

section \<open>A whole run\<close>

lemma pad_to_le: "0 < a \<Longrightarrow> pad_to a n \<le> a"
  by (simp add: pad_to_def less_imp_le)

lemma elf_length_bound:
  assumes "elf_write m p = Some out" and "length (p2_orig p) = length (p2_fixups p)"
  shows "length out \<le> 262144 + 1000 + length (p2_code p) + length (data_img (m_coll m))
    + 24 * (length (pubs (m_coll m)) + length (exts (m_coll m)) + length (p2_fixups p) + length (m_dfixups m))"
proof -
  obtain tab sp se where b: "build_strtab (pubs (m_coll m)) (exts (m_coll m)) = Some (tab, sp, se)"
    and len: "length out = l_shdr_off (elf_layout m p (length tab)) + 64 * num_sections (p2_fixups p \<noteq> []) (m_dfixups m \<noteq> [])"
    using elf_parts [OF assms] unfolding Let_def by blast
  have "length tab \<le> 262144" using build_strtab_cap [OF b] by (simp add: strtab_cap_def)
  moreover have "real_ext (pubs (m_coll m)) (exts (m_coll m)) \<le> length (exts (m_coll m))"
    by (simp add: real_ext_def)
  moreover obtain N where N: "num_sections (p2_fixups p \<noteq> []) (m_dfixups m \<noteq> []) = N" "N \<le> 9"
    by (simp add: num_sections_def)
  moreover define l where "l = elf_layout m p (length tab)"
  moreover have "l_shdr_off l = 160 + length (p2_code p) + l_text_pad l + length (data_img (m_coll m)) + l_data_pad l
      + 24 * length (pubs (m_coll m)) + 24 * real_ext (pubs (m_coll m)) (exts (m_coll m))
      + 24 * length (p2_fixups p) + 24 * length (m_dfixups m) + length tab + l_strtab_pad l"
    "l_text_pad l \<le> 16" "l_data_pad l \<le> 16" "l_strtab_pad l \<le> 8"
    by (simp_all add: l_def elf_layout_def make_layout_def Let_def pad_to_le)
  ultimately show ?thesis unfolding len l_def [symmetric] N(1) by simp
qed


abbreviation all_open :: host where
  "all_open \<equiv> \<lparr>may_read = (\<lambda>_. True), may_write = (\<lambda>_. True)\<rparr>"

abbreviation started :: "bytes \<Rightarrow> x64_state" where
  "started omf \<equiv> \<lparr>x64_active = True, x64_elf_active = True, obj_filename = Name ''f.o'', fs = [''f.o'' \<mapsto> omf]\<rparr>"

lemma started_ready: "ready all_open (started omf) ''f.o'' omf"
  by (simp add: ready_def)

theorem long_name_empties_object_witness:
  "map_option (\<lambda>st'. fs st' (replicate 255 CHR ''a''))
     (x64_obj_fini all_open \<lparr>x64_active = True, x64_elf_active = True, obj_filename = Name (replicate 255 CHR ''a''),
        fs = [replicate 255 CHR ''a'' \<mapsto> [1]]\<rparr>) = Some (Some [])"
  by (rule long_name_empties_object) simp_all

lemma specimen_pass2:
  "pass2_run n [0xE8, 0, 0, 0, 0, 0xC3] offs [\<lparr>code_offset = 1, ext_idx = 0, target_seg = 0\<rparr>] =
   (if 6 \<le> n then Some \<lparr>p2_code = [0xE8, 0, 0, 0, 0, 0xC3], p2_pub_offs = map (pub_off_of 6 [0, 1, 2, 3, 4, 5, 6]) offs,
      p2_fixups = [\<lparr>code_offset = 1, ext_idx = 0, target_seg = 0\<rparr>], p2_orig = [0xE8]\<rparr> else None)"
proof -
  have "patched_of [0xE8, 0, 0, 0, 0, 0xC3] [\<lparr>code_offset = 1, ext_idx = 0, target_seg = 0\<rparr>]
      = Some ([0xE8, 0, 0, 0, 0, 0xC3], [0, 1, 2, 3, 4, 5, 6])"
    by code_simp
  moreover have "length [0xE8, 0, 0, 0, 0, 0xC3 :: u8] = 6" by simp
  ultimately show ?thesis by (simp add: pass2_run_eq pass2_of_def fixup_of_def byte_of_def del: list.size length_Cons)
qed

text \<open>The whole way of the specimen module: a call of an external, and two bytes of data.\<close>

lemma specimen_run:
  obtains m p out where "module_meaning specimen = Some m" "omf_read (enc_module specimen) = Some m"
    "pass2_run (length (enc_module specimen)) (code_img (m_coll m)) (map pub_off (pubs (m_coll m))) (m_fixups m) = Some p"
    "elf_write m p = Some out" "in_range p out" "p2_code p = [0xE8, 0, 0, 0, 0, 0xC3]"
    "code_img (m_coll m) = [0xE8, 0, 0, 0, 0, 0xC3]" "exts (m_coll m) = [[0x66]]"
    "m_fixups m = [\<lparr>code_offset = 1, ext_idx = 0, target_seg = 0\<rparr>]"
proof -
  have mm: "map_option (\<lambda>m. (code_img (m_coll m), data_img (m_coll m), map pub_off (pubs (m_coll m)), exts (m_coll m), m_fixups m, m_dfixups m))
      (module_meaning specimen) = Some ([0xE8, 0, 0, 0, 0, 0xC3], [7, 8], [0], [[0x66]], [\<lparr>code_offset = 1, ext_idx = 0, target_seg = 0\<rparr>], [])"
    by code_simp
  then obtain m where m: "module_meaning specimen = Some m" "code_img (m_coll m) = [0xE8, 0, 0, 0, 0, 0xC3]"
    "data_img (m_coll m) = [7, 8]" "map pub_off (pubs (m_coll m)) = [0]" "exts (m_coll m) = [[0x66]]"
    "m_fixups m = [\<lparr>code_offset = 1, ext_idx = 0, target_seg = 0\<rparr>]" "m_dfixups m = []"
    by auto
  have read: "omf_read (enc_module specimen) = Some m" using omf_read_enc [OF specimen_ok] m(1) by simp
  have wf: "module_wf m" using omf_module_wf [OF read] .
  have "length (pubs (m_coll m)) = 1" using m(4) by (metis length_map length_Cons list.size(3) One_nat_def)
  have len: "6 \<le> length (enc_module specimen)" by code_simp
  obtain p where p: "pass2_run (length (enc_module specimen)) (code_img (m_coll m)) (map pub_off (pubs (m_coll m))) (m_fixups m) = Some p"
    "p2_code p = [0xE8, 0, 0, 0, 0, 0xC3]" "p2_pub_offs p = [0]" "length (p2_orig p) = length (p2_fixups p)"
    "p2_fixups p = [\<lparr>code_offset = 1, ext_idx = 0, target_seg = 0\<rparr>]"
    unfolding m specimen_pass2 using len by (simp add: pub_off_of_def)
  have ins: "fixups_inside p" using p by (simp add: fixups_inside_def)
  obtain out where out: "elf_write m p = Some out" using elf_write_ex [OF wf ins] by blast
  have "length out < 2 ^ 32"
    using elf_length_bound [OF out p(4)] p m \<open>length (pubs (m_coll m)) = 1\<close> by simp
  then have "in_range p out" using ins p(3) by (simp add: in_range_def)
  from that [OF m(1) read p(1) out this p(2) m(2,5,6)] show thesis .
qed

theorem external_call_reaches_linker_witness:
  "\<exists>st' elf sym bnd sec val. x64_obj_fini all_open (started (enc_module specimen)) = Some st' \<and> fs st' ''f.o'' = Some elf
    \<and> read_reloc elf 0 = Some (1, sym) \<and> read_symbol elf sym = Some ([0x66], bnd, sec, val)"
proof -
  obtain m p out where run: "module_meaning specimen = Some m"
    "pass2_run (length (enc_module specimen)) (code_img (m_coll m)) (map pub_off (pubs (m_coll m))) (m_fixups m) = Some p"
    "elf_write m p = Some out" "in_range p out" "p2_code p = [0xE8, 0, 0, 0, 0, 0xC3]"
    "code_img (m_coll m) = [0xE8, 0, 0, 0, 0, 0xC3]" "exts (m_coll m) = [[0x66]]"
    "m_fixups m = [\<lparr>code_offset = 1, ext_idx = 0, target_seg = 0\<rparr>]"
    using specimen_run by metis
  have "patch_code [0xE8, 0, 0, 0, 0, 0xC3] [\<lparr>code_offset = 1, ext_idx = 0, target_seg = 0\<rparr>]
      = Some ([0xE8, 0, 0, 0, 0, 0xC3], [0, 1, 2, 3, 4, 5, 6])"
    by code_simp
  moreover have "moved_offset [0xE8, 0, 0, 0, 0, 0xC3] [0, 1, 2, 3, 4, 5, 6] 1 = 1" by code_simp
  ultimately show ?thesis
    using external_call_reaches_linker [OF specimen_ok run(1) started_ready run(2-4), of 0] run(5-8) by auto
qed


end
