(* ===== verification/U64Arith.thy ===== *)
theory U64Arith
  imports OwPrelude
    "HOL-Library.While_Combinator" "HOL-Library.Signed_Division"
begin

text \<open>
  The 64-bit integers of the compilers (\<open>bld/watcom/c/i64.c\<close>, \<open>bld/watcom/h/i64.h\<close>): a pair of
  32-bit halves, and the routines on them that work where the host has no 64-bit type.

  A routine gets pointers, and the file warns of overlap between arguments and result, so the
  routines that write their result while they still read their arguments are modelled on a memory
  of such pairs; a local variable of a caller, which overlaps nothing, is passed as its value.  The
  theorems say what is computed for every overlap.
\<close>

section \<open>Representation\<close>

record u64p =
  lo32 :: u32
  hi32 :: u32

abbreviation pair64 :: "u32 \<Rightarrow> u32 \<Rightarrow> u64p" where
  "pair64 l h \<equiv> \<lparr>lo32 = l, hi32 = h\<rparr>"

definition v64 :: "u64p \<Rightarrow> nat" where
  "v64 x = unat (lo32 x) + 2 ^ 32 * unat (hi32 x)"

definition w64 :: "u64p \<Rightarrow> u64" where
  "w64 x = push_bit 32 (ucast (hi32 x)) OR ucast (lo32 x)"

type_synonym mem64 = "nat \<Rightarrow> u64p"

datatype operand = Ptr nat | Local u64p

fun fetch :: "mem64 \<Rightarrow> operand \<Rightarrow> u64p" where
  "fetch m (Ptr p) = m p"
| "fetch m (Local v) = v"

definition set_lo :: "nat \<Rightarrow> u32 \<Rightarrow> mem64 \<Rightarrow> mem64" where
  "set_lo p v m = m(p := (m p)\<lparr>lo32 := v\<rparr>)"

definition set_hi :: "nat \<Rightarrow> u32 \<Rightarrow> mem64 \<Rightarrow> mem64" where
  "set_hi p v m = m(p := (m p)\<lparr>hi32 := v\<rparr>)"

section \<open>Sums\<close>

definition U64Not :: "nat \<Rightarrow> operand \<Rightarrow> mem64 \<Rightarrow> mem64" where
  "U64Not res a m = (let m = set_lo res (NOT (lo32 (fetch m a))) m in set_hi res (NOT (hi32 (fetch m a))) m)"

definition U64Inc :: "nat \<Rightarrow> mem64 \<Rightarrow> mem64" where
  "U64Inc r m = (let m = set_lo r (lo32 (m r) + 1) m in if lo32 (m r) = 0 then set_hi r (hi32 (m r) + 1) m else m)"

definition U64Neg :: "nat \<Rightarrow> operand \<Rightarrow> mem64 \<Rightarrow> mem64" where
  "U64Neg res a m = U64Inc res (U64Not res a m)"

definition U64Add :: "nat \<Rightarrow> operand \<Rightarrow> operand \<Rightarrow> mem64 \<Rightarrow> mem64" where
  "U64Add res a b m =
    (let m = set_hi res (hi32 (fetch m a) + hi32 (fetch m b)) m;
         new_value = lo32 (fetch m a) + lo32 (fetch m b);
         m = (if new_value < lo32 (fetch m a) then set_hi res (hi32 (m res) + 1) m else m)
     in set_lo res new_value m)"

definition U64AddI32 :: "nat \<Rightarrow> u32 \<Rightarrow> mem64 \<Rightarrow> mem64" where
  "U64AddI32 res i m =
    (let new_value = lo32 (m res) + i;
         m = (if 0 \<le> sint i
              then if new_value < lo32 (m res) then set_hi res (hi32 (m res) + 1) m else m
              else if lo32 (m res) < new_value then set_hi res (hi32 (m res) - 1) m else m)
     in set_lo res new_value m)"

text \<open>A call whose result is a local variable, as a function of its arguments.\<close>

definition run1 :: "(nat \<Rightarrow> operand \<Rightarrow> mem64 \<Rightarrow> mem64) \<Rightarrow> u64p \<Rightarrow> u64p" where
  "run1 op x = op 0 (Local x) (\<lambda>_. pair64 0 0) 0"

definition run2 :: "(nat \<Rightarrow> operand \<Rightarrow> operand \<Rightarrow> mem64 \<Rightarrow> mem64) \<Rightarrow> u64p \<Rightarrow> u64p \<Rightarrow> u64p" where
  "run2 op x y = op 0 (Local x) (Local y) (\<lambda>_. pair64 0 0) 0"

definition U64Sub :: "nat \<Rightarrow> operand \<Rightarrow> operand \<Rightarrow> mem64 \<Rightarrow> mem64" where
  "U64Sub res a b m = (let tmp = run1 U64Neg (fetch m b) in U64Add res a (Local tmp) m)"

section \<open>Shifts\<close>

definition I64ShiftR :: "nat \<Rightarrow> operand \<Rightarrow> nat \<Rightarrow> mem64 \<Rightarrow> mem64" where
  "I64ShiftR res a shift m =
    (let shift = shift mod 64 in
     if shift < 32
     then (let tmp = hi32 (fetch m a);
               save = push_bit 1 tmp;
               m = set_hi res (signed_drop_bit shift tmp) m;
               m = set_lo res (drop_bit shift (lo32 (fetch m a))) m
           in set_lo res (lo32 (m res) OR push_bit (31 - shift) save) m)
     else (let shift = shift - 32;
               tmp = hi32 (fetch m a);
               m = set_hi res (if sint tmp < 0 then - 1 else 0) m
           in set_lo res (signed_drop_bit shift tmp) m))"

definition U64ShiftR :: "nat \<Rightarrow> operand \<Rightarrow> nat \<Rightarrow> mem64 \<Rightarrow> mem64" where
  "U64ShiftR res a shift m =
    (let shift = shift mod 64 in
     if shift < 32
     then (let save = push_bit 1 (hi32 (fetch m a));
               m = set_hi res (drop_bit shift (hi32 (fetch m a))) m;
               m = set_lo res (drop_bit shift (lo32 (fetch m a))) m
           in set_lo res (lo32 (m res) OR push_bit (31 - shift) save) m)
     else (let shift = shift - 32;
               save = hi32 (fetch m a);
               m = set_hi res 0 m
           in set_lo res (drop_bit shift save) m))"

definition U64ShiftL :: "nat \<Rightarrow> operand \<Rightarrow> nat \<Rightarrow> mem64 \<Rightarrow> mem64" where
  "U64ShiftL res a shift m =
    (let shift = shift mod 64 in
     if shift < 32
     then (let save = drop_bit 1 (lo32 (fetch m a));
               m = set_lo res (push_bit shift (lo32 (fetch m a))) m;
               m = set_hi res (push_bit shift (hi32 (fetch m a))) m
           in set_hi res (hi32 (m res) OR drop_bit (31 - shift) save) m)
     else (let shift = shift - 32;
               save = lo32 (fetch m a);
               m = set_lo res 0 m
           in set_hi res (push_bit shift save) m))"


section \<open>The readings of a pair\<close>

lemma unat_u32_lt: "unat (x :: u32) < 4294967296"
  using unsigned_less [of x, where ?'a = nat] by simp

lemma unat_w64: "unat (w64 x) = v64 x"
proof -
  have d: "(push_bit 32 (ucast (hi32 x)) :: u64) AND ucast (lo32 x) = 0"
    by (rule bit_word_eqI) (auto simp: bit_simps dest: bit_imp_le_length)
  have "w64 x = push_bit 32 (ucast (hi32 x)) + ucast (lo32 x)"
    unfolding w64_def by (rule disjunctive_add_eq_or [OF d, symmetric])
  also have "\<dots> = word_of_nat (v64 x)"
    by (simp add: v64_def push_bit_eq_mult)
  finally have "unat (w64 x) = v64 x mod 2 ^ LENGTH(64)" by (simp only: unat_of_nat)
  moreover have "v64 x < 2 ^ LENGTH(64)"
    using unat_u32_lt [of "lo32 x"] unat_u32_lt [of "hi32 x"] by (simp add: v64_def)
  ultimately show ?thesis by simp
qed

lemma v64_parts: "v64 x mod 2 ^ 32 = unat (lo32 x)" "v64 x div 2 ^ 32 = unat (hi32 x)"
  using unat_u32_lt [of "lo32 x"] by (simp_all add: v64_def)

lemma v64_lt: "v64 x < 2 ^ 64"
  unfolding unat_w64 [symmetric] using unsigned_less [of "w64 x", where ?'a = nat] by simp

lemma w64_of_v64: "w64 x = word_of_nat (v64 x)"
  by (simp flip: unat_w64)

lemma w64_eqI: "v64 x = n mod 2 ^ 64 \<Longrightarrow> w64 x = word_of_nat n"
  by (simp flip: word_unat_eq_iff add: unat_w64 [symmetric] unat_of_nat word_unat_eq_iff)

lemma w64_eq_iff: "w64 x = w64 y \<longleftrightarrow> x = y"
proof
  assume "w64 x = w64 y"
  then have "v64 x = v64 y" by (simp flip: unat_w64)
  then have "unat (lo32 x) = unat (lo32 y)" "unat (hi32 x) = unat (hi32 y)"
    by (simp_all flip: v64_parts)
  then show "x = y" by (simp add: word_unat_eq_iff)
qed simp

section \<open>Sums are sums modulo 2\<open>^\<close>64\<close>

text \<open>What is written for any overlap of the result with the arguments.\<close>

definition sum64 :: "u64p \<Rightarrow> u64p \<Rightarrow> u64p" where
  "sum64 x y = pair64 (lo32 x + lo32 y) (hi32 x + hi32 y + (if lo32 x + lo32 y < lo32 x then 1 else 0))"

definition neg64 :: "u64p \<Rightarrow> u64p" where
  "neg64 x = pair64 (NOT (lo32 x) + 1) (NOT (hi32 x) + (if NOT (lo32 x) + 1 = 0 then 1 else 0))"

lemma U64Add_writes: "U64Add res a b m = m(res := sum64 (fetch m a) (fetch m b))"
  by (cases a; cases b) (auto simp: U64Add_def sum64_def set_lo_def set_hi_def Let_def fun_eq_iff)

lemma U64Neg_writes: "U64Neg res a m = m(res := neg64 (fetch m a))"
  by (cases a) (auto simp: U64Neg_def U64Not_def U64Inc_def neg64_def set_lo_def set_hi_def Let_def fun_eq_iff)

lemma carry_iff: "(a :: u32) + b < a \<longleftrightarrow> 2 ^ 32 \<le> unat a + unat b"
proof -
  have m: "(unat a + unat b) mod 2 ^ 32 = (if 2 ^ 32 \<le> unat a + unat b then unat a + unat b - 2 ^ 32 else unat a + unat b)"
    using unat_u32_lt [of a] unat_u32_lt [of b] by (simp add: le_mod_geq)
  show ?thesis
    unfolding word_less_nat_alt unat_word_ariths(1) using m unat_u32_lt [of a] unat_u32_lt [of b]
    by (cases "2 ^ 32 \<le> unat a + unat b") simp_all
qed

lemma split64: "l < 2 ^ 32 \<Longrightarrow> (l + 2 ^ 32 * h) mod 2 ^ 64 = l + 2 ^ 32 * (h mod 2 ^ 32)" for l :: nat
  using mod_mult2_eq [of "l + 2 ^ 32 * h" "2 ^ 32" "2 ^ 32"] by simp

lemma w64_sum64: "w64 (sum64 x y) = w64 x + w64 y"
proof -
  let ?l = "unat (lo32 x) + unat (lo32 y)" and ?h = "unat (hi32 x) + unat (hi32 y)"
  have lx: "unat (lo32 x) < 2 ^ 32" "unat (lo32 y) < 2 ^ 32" "unat (hi32 x) < 2 ^ 32" "unat (hi32 y) < 2 ^ 32"
    using unat_u32_lt by simp_all
  note carry = carry_iff [of "lo32 x" "lo32 y"]
  have "v64 (sum64 x y) = (v64 x + v64 y) mod 2 ^ 64"
  proof (cases "2 ^ 32 \<le> ?l")
    case True
    have "v64 x + v64 y = (?l - 2 ^ 32) + 2 ^ 32 * (?h + 1)" using True by (simp add: v64_def)
    moreover have "v64 (sum64 x y) = (?l - 2 ^ 32) + 2 ^ 32 * ((?h + 1) mod 2 ^ 32)"
      using True lx carry by (simp add: v64_def sum64_def unat_word_ariths le_mod_geq mod_simps)
    moreover have "?l - 2 ^ 32 < 2 ^ 32" using lx by linarith
    ultimately show ?thesis using split64 by presburger
  next
    case False
    have "v64 x + v64 y = ?l + 2 ^ 32 * ?h" by (simp add: v64_def)
    moreover have "v64 (sum64 x y) = ?l + 2 ^ 32 * (?h mod 2 ^ 32)"
      using False carry by (simp add: v64_def sum64_def unat_word_ariths)
    ultimately show ?thesis using split64 False by (metis not_le_imp_less)
  qed
  then show ?thesis by (simp add: w64_eqI w64_of_v64 [of x] w64_of_v64 [of y])
qed

lemma w64_neg64: "w64 (neg64 x) = - w64 x"
proof -
  have "w64 (pair64 (NOT (lo32 x)) (NOT (hi32 x))) = NOT (w64 x)"
    by (rule bit_word_eqI) (auto simp: w64_def bit_simps dest: bit_imp_le_length)
  moreover have "neg64 x = sum64 (pair64 (NOT (lo32 x)) (NOT (hi32 x))) (pair64 1 0)"
  proof -
    have "z + 1 < z \<longleftrightarrow> z + 1 = 0" for z :: u32
    proof -
      have "z + 1 = 0 \<longleftrightarrow> (unat z + 1) mod 2 ^ 32 = 0" by (simp add: word_unat_eq_iff unat_word_ariths)
      also have "\<dots> \<longleftrightarrow> 2 ^ 32 \<le> unat z + 1"
        using unat_u32_lt [of z] by (cases "unat z + 1 = 2 ^ 32") simp_all
      finally show ?thesis by (simp add: carry_iff)
    qed
    then show ?thesis by (simp add: neg64_def sum64_def)
  qed
  moreover have "w64 (pair64 1 0) = 1" by (simp add: w64_def)
  ultimately show ?thesis by (simp add: w64_sum64 minus_eq_not_plus_1)
qed


lemma run_sums [simp]: "run2 U64Add x y = sum64 x y" "run1 U64Neg x = neg64 x"
  by (simp_all add: run1_def run2_def U64Add_writes U64Neg_writes)

lemma U64Sub_writes: "U64Sub res a b m = m(res := sum64 (fetch m a) (neg64 (fetch m b)))"
  by (simp add: U64Sub_def U64Add_writes)

lemma run_sub [simp]: "run2 U64Sub x y = sum64 x (neg64 y)"
  by (simp add: run2_def U64Sub_writes)

text \<open>A signed 32-bit summand: the carry is a borrow when it is negative.\<close>

definition sext64 :: "u32 \<Rightarrow> u64p" where
  "sext64 i = pair64 i (if sint i < 0 then - 1 else 0)"

lemma w64_sext64: "w64 (sext64 i) = scast i"
proof (rule bit_word_eqI)
  fix n
  have "sint i < 0 \<longleftrightarrow> bit i 31" using bit_last_iff [of i] by simp
  then show "bit (w64 (sext64 i)) n = bit (scast i :: u64) n" if "n < LENGTH(64)"
    using that by (cases "n = 31") (auto simp: w64_def sext64_def bit_simps min_def not_less dest: bit_imp_le_length)
qed

lemma U64AddI32_writes: "U64AddI32 res i m = m(res := sum64 (m res) (sext64 i))"
proof (cases "0 \<le> sint i")
  case True
  then show ?thesis
    by (simp add: U64AddI32_def sum64_def sext64_def set_lo_def set_hi_def Let_def fun_eq_iff)
next
  case False
  define l where "l = lo32 (m res)"
  have ne: "i \<noteq> 0" using False by auto
  have "unat l + unat i \<noteq> unat l" using ne by (simp add: unat_eq_0)
  then have "l < l + i \<longleftrightarrow> \<not> l + i < l"
    using ne by (auto simp: not_less_iff_gr_or_eq)
  then show ?thesis
    using False by (auto simp: U64AddI32_def sum64_def sext64_def set_lo_def set_hi_def Let_def fun_eq_iff l_def [symmetric])
qed

text \<open>
  The sums are sums modulo 2 to the 64, whatever of their arguments is the same variable as
  the result, and write nothing else.
\<close>

theorem U64_sums_with_overlap:
  "w64 (U64Add res a b m res) = w64 (fetch m a) + w64 (fetch m b)
   \<and> w64 (U64Sub res a b m res) = w64 (fetch m a) - w64 (fetch m b)
   \<and> w64 (U64Neg res a m res) = - w64 (fetch m a)
   \<and> w64 (U64AddI32 res i m res) = w64 (m res) + scast i
   \<and> (U64Add res a b m)(res := m res) = m \<and> (U64Sub res a b m)(res := m res) = m
   \<and> (U64Neg res a m)(res := m res) = m \<and> (U64AddI32 res i m)(res := m res) = m"
  by (simp add: U64Add_writes U64Sub_writes U64Neg_writes U64AddI32_writes w64_sum64 w64_neg64 w64_sext64)

section \<open>Shifts are shifts\<close>

definition sar64 :: "nat \<Rightarrow> u64p \<Rightarrow> u64p" where
  "sar64 n x = (let w = signed_drop_bit (n mod 64) (w64 x) in pair64 (ucast w) (ucast (drop_bit 32 w)))"

definition shr64 :: "nat \<Rightarrow> u64p \<Rightarrow> u64p" where
  "shr64 n x = (let w = drop_bit (n mod 64) (w64 x) in pair64 (ucast w) (ucast (drop_bit 32 w)))"

definition shl64 :: "nat \<Rightarrow> u64p \<Rightarrow> u64p" where
  "shl64 n x = (let w = push_bit (n mod 64) (w64 x) in pair64 (ucast w) (ucast (drop_bit 32 w)))"

lemma w64_halves: "w64 (pair64 (ucast w) (ucast (drop_bit 32 w))) = w" for w :: u64
  by (rule bit_word_eqI) (auto simp: w64_def bit_simps dest: bit_imp_le_length)

lemmas w64_shifts = w64_halves [of "signed_drop_bit (n mod 64) (w64 x)" for n x, folded sar64_def [unfolded Let_def]]
  w64_halves [of "drop_bit (n mod 64) (w64 x)" for n x, folded shr64_def [unfolded Let_def]]
  w64_halves [of "push_bit (n mod 64) (w64 x)" for n x, folded shl64_def [unfolded Let_def]]

lemma U64ShiftR_writes: "U64ShiftR res a n m = m(res := shr64 n (fetch m a))"
proof -
  obtain l h where x: "fetch m a = pair64 l h" by (cases "fetch m a")
  define s where "s = n mod 64"
  have s: "s < 64" by (simp add: s_def)
  have pp: "push_bit (31 - s) (push_bit 1 h) = push_bit (32 - s) h" if "s < 32"
  proof -
    have "31 - s + 1 = 32 - s" using that by simp
    then show ?thesis unfolding push_bit_push_bit by (simp only:)
  qed
  have lo: "drop_bit s l OR push_bit (31 - s) (push_bit 1 h) = ucast (drop_bit s (w64 (pair64 l h)))" if "s < 32"
    unfolding pp [OF that] by (rule bit_word_eqI) (use that in \<open>auto simp: w64_def bit_simps add.commute dest: bit_imp_le_length\<close>)
  have hi: "drop_bit s h = ucast (drop_bit 32 (drop_bit s (w64 (pair64 l h))))"
    by (rule bit_word_eqI) (auto simp: w64_def bit_simps dest: bit_imp_le_length)
  have hi32: "drop_bit (s - 32) h = ucast (drop_bit s (w64 (pair64 l h)))" "ucast (drop_bit 32 (drop_bit s (w64 (pair64 l h)))) = (0 :: u32)"
    if "\<not> s < 32"
    by (rule bit_word_eqI; use that s in \<open>auto simp: w64_def bit_simps dest: bit_imp_le_length\<close>)+
  show ?thesis
    using x lo hi hi32 by (cases a) (auto simp: U64ShiftR_def shr64_def set_lo_def set_hi_def Let_def fun_eq_iff s_def [symmetric])
qed


lemma U64ShiftL_writes: "U64ShiftL res a n m = m(res := shl64 n (fetch m a))"
proof -
  obtain l h where x: "fetch m a = pair64 l h" by (cases "fetch m a")
  define s where "s = n mod 64"
  have s: "s < 64" by (simp add: s_def)
  have pp: "drop_bit (31 - s) (drop_bit 1 l) = drop_bit (32 - s) l" if "s < 32"
  proof -
    have "31 - s + 1 = 32 - s" using that by simp
    then show ?thesis unfolding drop_bit_drop_bit by (simp only:)
  qed
  have hi: "push_bit s h OR drop_bit (31 - s) (drop_bit 1 l) = ucast (drop_bit 32 (push_bit s (w64 (pair64 l h))))" if "s < 32"
    unfolding pp [OF that] by (rule bit_word_eqI) (use that in \<open>auto simp: w64_def bit_simps add.commute dest: bit_imp_le_length\<close>)
  have lo: "push_bit s l = ucast (push_bit s (w64 (pair64 l h)))" if "s < 32"
    by (rule bit_word_eqI) (use that in \<open>auto simp: w64_def bit_simps dest: bit_imp_le_length\<close>)
  have hi32: "push_bit (s - 32) l = ucast (drop_bit 32 (push_bit s (w64 (pair64 l h))))" if "\<not> s < 32"
    by (rule bit_word_eqI) (use that s in \<open>auto simp: w64_def bit_simps add.commute dest: bit_imp_le_length\<close>)
  have lo32: "ucast (push_bit s (w64 (pair64 l h))) = (0 :: u32)" if "\<not> s < 32"
    by (rule bit_word_eqI) (use that s in \<open>auto simp: w64_def bit_simps dest: bit_imp_le_length\<close>)
  show ?thesis
    using x lo hi hi32 lo32 by (cases a) (auto simp: U64ShiftL_def shl64_def set_lo_def set_hi_def Let_def fun_eq_iff s_def [symmetric])
qed

lemma I64ShiftR_writes: "I64ShiftR res a n m = m(res := sar64 n (fetch m a))"
proof -
  obtain l h where x: "fetch m a = pair64 l h" by (cases "fetch m a")
  define s where "s = n mod 64"
  have s: "s < 64" by (simp add: s_def)
  have pp: "push_bit (31 - s) (push_bit 1 h) = push_bit (32 - s) h" if "s < 32"
  proof -
    have "31 - s + 1 = 32 - s" using that by simp
    then show ?thesis unfolding push_bit_push_bit by (simp only:)
  qed
  have sgn: "sint h < 0 \<longleftrightarrow> bit h 31" using bit_last_iff [of h] by simp
  have lo: "drop_bit s l OR push_bit (31 - s) (push_bit 1 h) = ucast (signed_drop_bit s (w64 (pair64 l h)))" if "s < 32"
    unfolding pp [OF that] by (rule bit_word_eqI) (use that in \<open>auto simp: w64_def bit_simps add.commute dest: bit_imp_le_length\<close>)
  have hi: "signed_drop_bit s h = ucast (drop_bit 32 (signed_drop_bit s (w64 (pair64 l h))))" if "s < 32"
    by (rule bit_word_eqI) (use that in \<open>auto simp: w64_def bit_simps add.commute dest: bit_imp_le_length\<close>)
  have lo32: "signed_drop_bit (s - 32) h = ucast (signed_drop_bit s (w64 (pair64 l h)))" if "\<not> s < 32"
    by (rule bit_word_eqI) (use that s in \<open>auto simp: w64_def bit_simps dest: bit_imp_le_length\<close>)
  have hi32: "(if sint h < 0 then - 1 else 0) = (ucast (drop_bit 32 (signed_drop_bit s (w64 (pair64 l h)))) :: u32)" if "\<not> s < 32"
    unfolding sgn by (rule bit_word_eqI) (use that s in \<open>auto simp: w64_def bit_simps dest: bit_imp_le_length\<close>)
  show ?thesis
    using x lo hi hi32 lo32 by (cases a) (auto simp: I64ShiftR_def sar64_def set_lo_def set_hi_def Let_def fun_eq_iff s_def [symmetric])
qed


definition run_shift :: "(nat \<Rightarrow> operand \<Rightarrow> nat \<Rightarrow> mem64 \<Rightarrow> mem64) \<Rightarrow> u64p \<Rightarrow> nat \<Rightarrow> u64p" where
  "run_shift op x n = op 0 (Local x) n (\<lambda>_. pair64 0 0) 0"

lemma run_shifts [simp]:
  "run_shift U64ShiftR x n = shr64 n x" "run_shift U64ShiftL x n = shl64 n x" "run_shift I64ShiftR x n = sar64 n x"
  by (simp_all add: run_shift_def U64ShiftR_writes U64ShiftL_writes I64ShiftR_writes)

definition U64Shift :: "nat \<Rightarrow> operand \<Rightarrow> int \<Rightarrow> mem64 \<Rightarrow> mem64" where
  "U64Shift res a shift m = (if shift < 0 then U64ShiftL res a (nat (- shift)) m else U64ShiftR res a (nat shift) m)"

text \<open>
  The shifts agree with those of 64-bit words at the shift count modulo 64, whatever
  overlaps; the right shift of a signed value copies its sign.
\<close>

theorem U64_shifts_with_overlap:
  "w64 (U64ShiftL res a n m res) = push_bit (n mod 64) (w64 (fetch m a))
   \<and> w64 (U64ShiftR res a n m res) = drop_bit (n mod 64) (w64 (fetch m a))
   \<and> w64 (I64ShiftR res a n m res) = signed_drop_bit (n mod 64) (w64 (fetch m a))
   \<and> w64 (U64Shift res a k m res) = (if k < 0 then push_bit (nat (- k) mod 64) (w64 (fetch m a))
        else drop_bit (nat k mod 64) (w64 (fetch m a)))"
  by (simp add: U64ShiftL_writes U64ShiftR_writes I64ShiftR_writes U64Shift_def w64_shifts)

section \<open>Comparisons\<close>

definition U64Cmp :: "u64p \<Rightarrow> u64p \<Rightarrow> int" where
  "U64Cmp a b =
    (if hi32 b < hi32 a then 1
     else if hi32 a < hi32 b then - 1
     else if lo32 b < lo32 a then 1
     else if lo32 a < lo32 b then - 1
     else 0)"

definition I64Cmp :: "u64p \<Rightarrow> u64p \<Rightarrow> int" where
  "I64Cmp a b =
    (let ah = sint (hi32 a); bh = sint (hi32 b) in
     if bh < ah then 1
     else if ah < bh then - 1
     else if lo32 b < lo32 a then 1
     else if lo32 a < lo32 b then - 1
     else 0)"

definition sign_v :: "u64p \<Rightarrow> bool" where
  "sign_v x \<longleftrightarrow> bit (hi32 x) 31"

section \<open>Multiplication\<close>

definition U64Mul :: "u64p \<Rightarrow> u64p \<Rightarrow> u64p option" where
  "U64Mul a b =
     map_option fst (while_option (\<lambda>(res, tmp_a, tmp_b). lo32 tmp_b OR hi32 tmp_b \<noteq> 0)
       (\<lambda>(res, tmp_a, tmp_b).
          (if lo32 tmp_b AND 1 \<noteq> 0 then run2 U64Add res tmp_a else res,
           run_shift U64ShiftL tmp_a 1, run_shift U64ShiftR tmp_b 1))
       (pair64 0 0, a, b))"

section \<open>Division\<close>

definition U64Div :: "u64p \<Rightarrow> u64p \<Rightarrow> (u64p \<times> u64p) option" where
  "U64Div a b =
    (if hi32 a = 0 \<and> hi32 b = 0
     then if lo32 b = 0 then None
          else Some (pair64 (lo32 a div lo32 b) 0, pair64 (lo32 a mod lo32 b) 0)
     else do {
       (tmp_b, count) \<leftarrow> while_option (\<lambda>(tmp_b, count). \<not> sign_v tmp_b \<and> 0 < U64Cmp a tmp_b)
         (\<lambda>(tmp_b, count). (run_shift U64ShiftL tmp_b 1, count + 1)) (b, 0 :: int);
       (dv, tmp_a, _, _) \<leftarrow> while_option (\<lambda>(dv, tmp_a, tmp_b, count). 0 \<le> count)
         (\<lambda>(dv, tmp_a, tmp_b, count).
            (let dv = run_shift U64ShiftL dv 1;
                 (dv, tmp_a) = (if 0 \<le> U64Cmp tmp_a tmp_b
                   then (dv\<lparr>lo32 := lo32 dv OR 1\<rparr>, run2 U64Sub tmp_a tmp_b) else (dv, tmp_a))
             in (dv, tmp_a, run_shift U64ShiftR tmp_b 1, count - 1)))
         (pair64 0 0, a, tmp_b, count);
       Some (dv, tmp_a)
     })"

text \<open>The truncating signed division: quotient and remainder of the absolute values, then the signs.\<close>

definition I64Div :: "u64p \<Rightarrow> u64p \<Rightarrow> (u64p \<times> u64p) option" where
  "I64Div a b =
    (let (tmp_a, neg, remneg) = (if sign_v a then (run1 U64Neg a, True, True) else (a, False, False));
         (tmp_b, neg) = (if sign_v b then (run1 U64Neg b, \<not> neg) else (b, neg))
     in map_option (\<lambda>(dv, rm). (if neg then run1 U64Neg dv else dv, if remneg then run1 U64Neg rm else rm))
          (U64Div tmp_a tmp_b))"


section \<open>Readings of the steps\<close>

lemma while_total:
  assumes "\<And>s. P s \<Longrightarrow> b s \<Longrightarrow> P (c s) \<and> f (c s) < (f s :: nat)" and "P s"
  shows "\<exists>t. while_option b c s = Some t \<and> P t \<and> \<not> b t"
proof -
  obtain t where t: "while_option b c s = Some t"
    using measure_while_option_Some [of P b c f s] assms by blast
  then show ?thesis using while_option_rule [of P b c s t] while_option_stop [OF t] assms by blast
qed

lemma while_forever:
  assumes "\<And>s. P s \<Longrightarrow> b s \<and> P (c s)" and "P s"
  shows "while_option b c s = None"
proof (rule ccontr)
  assume "while_option b c s \<noteq> None"
  then obtain t where t: "while_option b c s = Some t" by blast
  then have "P t" using while_option_rule [of P b c s t] assms by blast
  then show False using while_option_stop [OF t] assms(1) by blast
qed

lemma v64_shl: "v64 (shl64 1 x) = 2 * v64 x mod 2 ^ 64"
  unfolding unat_w64 [symmetric] w64_shifts by (simp add: unat_word_ariths push_bit_eq_mult mult.commute)

lemma v64_shr: "v64 (shr64 1 x) = v64 x div 2"
  unfolding unat_w64 [symmetric] w64_shifts by (simp add: unat_drop_bit_eq) (simp add: drop_bit_eq_div)

lemma v64_sub: "v64 y \<le> v64 x \<Longrightarrow> v64 (sum64 x (neg64 y)) = v64 x - v64 y"
  unfolding unat_w64 [symmetric] w64_sum64 w64_neg64 by (simp add: unat_sub word_le_nat_alt)

lemma U64Cmp_less: "0 < U64Cmp a b \<longleftrightarrow> v64 b < v64 a"
  using unat_u32_lt [of "lo32 a"] unat_u32_lt [of "lo32 b"]
  by (auto simp: U64Cmp_def v64_def word_less_nat_alt)

lemma U64Cmp_flip: "U64Cmp b a = - U64Cmp a b"
  by (auto simp: U64Cmp_def)

lemma U64Cmp_le: "0 \<le> U64Cmp a b \<longleftrightarrow> v64 b \<le> v64 a"
  using U64Cmp_less [of b a] by (auto simp: U64Cmp_flip [of b a])

lemma sign_v_iff: "sign_v x \<longleftrightarrow> 2 ^ 63 \<le> v64 x"
proof -
  have "sign_v x \<longleftrightarrow> 2 ^ 31 \<le> unat (hi32 x)"
  proof -
    have "bit (hi32 x) 31 \<longleftrightarrow> odd (unat (hi32 x) div 2 ^ 31)"
      using bit_unsigned_iff [of "hi32 x" 31, where ?'a = nat] by (simp add: bit_iff_odd)
    also have "\<dots> \<longleftrightarrow> 2 ^ 31 \<le> unat (hi32 x)"
    proof (cases "2 ^ 31 \<le> unat (hi32 x)")
      case True
      then have "unat (hi32 x) div 2 ^ 31 = 1" using unat_u32_lt [of "hi32 x"] by (intro div_nat_eqI) simp_all
      then show ?thesis using True by simp
    qed (simp add: div_less)
    finally show ?thesis by (simp add: sign_v_def)
  qed
  also have "\<dots> \<longleftrightarrow> 2 ^ 63 \<le> v64 x"
    using unat_u32_lt [of "lo32 x"] by (auto simp: v64_def)
  finally show ?thesis .
qed

lemma v64_or1: "even (v64 x) \<Longrightarrow> v64 (x\<lparr>lo32 := lo32 x OR 1\<rparr>) = v64 x + 1"
proof -
  assume "even (v64 x)"
  then have "even (unat (lo32 x))" by (simp add: v64_def)
  then have "unat (lo32 x) OR 1 = unat (lo32 x) + 1" unfolding or_one_eq by simp
  then have "unat (lo32 x OR 1) = unat (lo32 x) + 1" by (simp only: unsigned_or_eq unsigned_1)
  then show ?thesis by (simp add: v64_def)
qed


definition pair_of :: "u64 \<Rightarrow> u64p" where
  "pair_of w = pair64 (ucast w) (ucast (drop_bit 32 w))"

lemma w64_pair_of [simp]: "w64 (pair_of w) = w"
  by (simp add: pair_of_def w64_halves)

lemma pair_of_eqI: "w64 x = w \<Longrightarrow> x = pair_of w"
  by (simp flip: w64_eq_iff)

lemma pair_of_v64: "x = pair_of (word_of_nat (v64 x))"
  by (rule pair_of_eqI) (simp add: w64_of_v64)

section \<open>Multiplication and division terminate with the right result\<close>

lemma w64_halve: "w64 x = 2 * w64 (shr64 1 x) + (if lo32 x AND 1 \<noteq> 0 then 1 else 0)"
proof -
  have "lo32 x AND 1 \<noteq> 0 \<longleftrightarrow> odd (v64 x)"
    by (simp add: and_one_eq v64_def word_unat_eq_iff unat_mod_distrib) presburger
  moreover define d where "d = v64 (shr64 1 x)"
  moreover have "(word_of_nat (v64 x) :: u64) = 2 * word_of_nat d + (if odd (v64 x) then 1 else 0)"
  proof (cases "odd (v64 x)")
    case True
    then have "v64 x = 2 * d + 1" unfolding d_def v64_shr by presburger
    then show ?thesis using True by simp
  next
    case False
    then have "v64 x = 2 * d" unfolding d_def v64_shr by presburger
    then show ?thesis using False by simp
  qed
  ultimately show ?thesis
    unfolding w64_of_v64 [of x] w64_of_v64 [of "shr64 1 x"] by simp
qed

text \<open>
  C38.  The shift-and-add multiplication ends for all arguments, with the product modulo 2 to the
  64.
\<close>

theorem U64Mul_correct: "U64Mul a b = Some (pair_of (w64 a * w64 b))"
proof -
  let ?b = "\<lambda>(res, tmp_a, tmp_b). lo32 tmp_b OR hi32 tmp_b \<noteq> 0"
  let ?c = "\<lambda>(res, tmp_a, tmp_b). (if lo32 tmp_b AND 1 \<noteq> 0 then run2 U64Add res tmp_a else res,
      run_shift U64ShiftL tmp_a 1, run_shift U64ShiftR tmp_b 1)"
  let ?P = "\<lambda>(res, tmp_a, tmp_b). w64 res + w64 tmp_a * w64 tmp_b = w64 a * w64 b"
  have nz: "lo32 x OR hi32 x \<noteq> 0 \<longleftrightarrow> 0 < v64 x" for x
    by (auto simp: v64_def or_eq_0_iff unat_gt_0)
  have "\<exists>t. while_option ?b ?c (pair64 0 0, a, b) = Some t \<and> ?P t \<and> \<not> ?b t"
  proof (rule while_total [where f = "\<lambda>(res, tmp_a, tmp_b). v64 tmp_b"])
    fix s assume P: "?P s" and b: "?b s"
    obtain res ta tb where s: "s = (res, ta, tb)" by (cases s)
    have dec: "v64 tb div 2 < v64 tb" using b nz [of tb] by (simp add: s)
    have shl: "w64 (shl64 1 ta) = 2 * w64 ta" by (simp add: w64_shifts push_bit_eq_mult)
    have P': "w64 res + w64 ta * w64 tb = w64 a * w64 b" using P by (simp add: s)
    show "?P (?c s) \<and> (\<lambda>(res, tmp_a, tmp_b). v64 tmp_b) (?c s) < (\<lambda>(res, tmp_a, tmp_b). v64 tmp_b) s"
      using P' dec unfolding s w64_halve [of tb]
      by (cases "lo32 tb AND 1 = 0")
        (simp_all add: shl [unfolded One_nat_def] w64_sum64 v64_shr [unfolded One_nat_def] algebra_simps)
  qed (simp add: w64_def)
  then obtain res ta tb where t: "while_option ?b ?c (pair64 0 0, a, b) = Some (res, ta, tb)"
    "w64 res + w64 ta * w64 tb = w64 a * w64 b" "\<not> 0 < v64 tb"
    unfolding nz by auto
  have "w64 tb = 0" using t(3) by (simp add: w64_of_v64)
  then have "res = pair_of (w64 a * w64 b)" using t(2) by (intro pair_of_eqI) simp
  then show ?thesis using t(1) by (simp add: U64Mul_def)
qed


lemma div_first_loop:
  assumes "0 < v64 b"
  shows "\<exists>tb c. while_option (\<lambda>(tmp_b, count). \<not> sign_v tmp_b \<and> 0 < U64Cmp a tmp_b)
      (\<lambda>(tmp_b, count). (shl64 1 tmp_b, count + 1)) (b, 0 :: int) = Some (tb, int c)
    \<and> v64 tb = v64 b * 2 ^ c \<and> v64 a < 2 * v64 tb"
proof -
  let ?b = "\<lambda>(tmp_b, count). \<not> sign_v tmp_b \<and> 0 < U64Cmp a tmp_b"
  let ?c = "\<lambda>(tmp_b, count). (shl64 1 tmp_b, count + 1)"
  let ?P = "\<lambda>(tb, k :: int). \<exists>c. k = int c \<and> v64 tb = v64 b * 2 ^ c"
  have "\<exists>t. while_option ?b ?c (b, 0) = Some t \<and> ?P t \<and> \<not> ?b t"
  proof (rule while_total [where f = "\<lambda>(tb, k). v64 a - v64 tb"])
    fix s assume P: "?P s" and b: "?b s"
    obtain tb k where s: "s = (tb, k)" by (cases s)
    obtain c where c: "k = int c" "v64 tb = v64 b * 2 ^ c" using P s by auto
    have "v64 (shl64 1 tb) = 2 * v64 tb" using b by (simp add: s v64_shl [unfolded One_nat_def] sign_v_iff)
    moreover have "0 < v64 tb" using c assms by simp
    moreover have "v64 tb < v64 a" using b by (simp add: s U64Cmp_less)
    ultimately show "?P (?c s) \<and> (\<lambda>(tb, k). v64 a - v64 tb) (?c s) < (\<lambda>(tb, k). v64 a - v64 tb) s"
      using c by (auto simp: s intro!: exI [of _ "Suc c"] diff_less_mono2)
  qed (auto intro: exI [of _ 0])
  then obtain tb c where t: "while_option ?b ?c (b, 0) = Some (tb, int c)" "v64 tb = v64 b * 2 ^ c"
    "2 ^ 63 \<le> v64 tb \<or> v64 a \<le> v64 tb"
    by (auto simp: sign_v_iff U64Cmp_less)
  have "0 < v64 tb" using t(2) assms by simp
  then have "v64 a < 2 * v64 tb"
    using t(3) v64_lt [of a] by auto
  then show ?thesis using t(1,2) by blast
qed


lemma div_second_loop:
  assumes "v64 tb = B * 2 ^ c" and "A < 2 * v64 tb" and "0 < B" and "v64 a = A"
  shows "\<exists>dv rm tb' k. while_option (\<lambda>(dv, tmp_a, tmp_b, count). 0 \<le> count)
      (\<lambda>(dv, tmp_a, tmp_b, count).
        (let dv = shl64 1 dv;
             (dv, tmp_a) = (if 0 \<le> U64Cmp tmp_a tmp_b
               then (dv\<lparr>lo32 := lo32 dv OR 1\<rparr>, sum64 tmp_a (neg64 tmp_b)) else (dv, tmp_a))
         in (dv, tmp_a, shr64 1 tmp_b, count - 1)))
      (pair64 0 0, a, tb, int c) = Some (dv, rm, tb', k) \<and> A = v64 dv * B + v64 rm \<and> v64 rm < B"
proof -
  let ?b = "\<lambda>(dv, tmp_a, tmp_b, count). (0 :: int) \<le> count"
  let ?c = "\<lambda>(dv, tmp_a, tmp_b, count :: int).
        (let dv = shl64 1 dv;
             (dv, tmp_a) = (if 0 \<le> U64Cmp tmp_a tmp_b
               then (dv\<lparr>lo32 := lo32 dv OR 1\<rparr>, sum64 tmp_a (neg64 tmp_b)) else (dv, tmp_a))
         in (dv, tmp_a, shr64 1 tmp_b, count - 1))"
  let ?P = "\<lambda>(dv, ta, tb, k :: int). - 1 \<le> k \<and> (0 \<le> k \<longrightarrow> v64 tb = B * 2 ^ nat k)
      \<and> A = v64 dv * (B * 2 ^ nat (k + 1)) + v64 ta \<and> v64 ta < B * 2 ^ nat (k + 1)"
  have "\<exists>t. while_option ?b ?c (pair64 0 0, a, tb, int c) = Some t \<and> ?P t \<and> \<not> ?b t"
  proof (rule while_total [where f = "\<lambda>(dv, ta, tb, k). nat (k + 1)"])
    fix s assume P: "?P s" and b: "?b s"
    obtain dv ta tb k where s: "s = (dv, ta, tb, k)" by (cases s)
    obtain j where k: "k = int j" using b by (auto simp: s dest: nonneg_int_cases)
    define M where "M = B * 2 ^ j"
    have M: "0 < M" using assms(3) by (simp add: M_def)
    have eqs: "v64 tb = M" "A = v64 dv * (2 * M) + v64 ta" "v64 ta < 2 * M"
      using P by (simp_all add: s k M_def nat_add_distrib mult.assoc mult.left_commute)
    have "2 * v64 dv \<le> v64 dv * (2 * M)" using M by simp
    then have "2 * v64 dv < 2 ^ 64" using eqs(2) v64_lt [of a] assms(4) by linarith
    then have dv: "v64 (shl64 1 dv) = 2 * v64 dv" by (simp add: v64_shl [unfolded One_nat_def])
    have tb': "v64 (shr64 1 tb) = B * 2 ^ (j - 1)" if "0 < j"
      using that eqs(1) by (cases j) (simp_all add: v64_shr [unfolded One_nat_def] M_def)
    have kj: "nat (int j - 1 + 1) = j" "nat (int j - 1) = j - 1" by simp_all
    show "?P (?c s) \<and> (\<lambda>(dv, ta, tb, k). nat (k + 1)) (?c s) < (\<lambda>(dv, ta, tb, k). nat (k + 1)) s"
    proof (cases "M \<le> v64 ta")
      case True
      have "v64 ((shl64 1 dv)\<lparr>lo32 := lo32 (shl64 1 dv) OR 1\<rparr>) = 2 * v64 dv + 1"
        using v64_or1 [of "shl64 1 dv"] dv by simp
      moreover have "v64 (sum64 ta (neg64 tb)) = v64 ta - M" using v64_sub [of tb ta] True eqs(1) by simp
      moreover have "A = (2 * v64 dv + 1) * M + (v64 ta - M)" using eqs(2) True by (simp add: algebra_simps)
      moreover have "v64 ta - M < M" using eqs(3) True by linarith
      ultimately show ?thesis
        using True tb' by (simp add: s k U64Cmp_le eqs(1) Let_def kj M_def [symmetric])
    next
      case False
      have "A = 2 * v64 dv * M + v64 ta" using eqs(2) by simp
      then show ?thesis
        using False dv tb' by (simp add: s k U64Cmp_le eqs(1) Let_def kj M_def [symmetric])
    qed
  next
    show "?P (pair64 0 0, a, tb, int c)"
      using assms by (simp add: nat_add_distrib mult.left_commute v64_def [of "pair64 0 0"])
  qed
  then obtain dv rm tb' k where t: "while_option ?b ?c (pair64 0 0, a, tb, int c) = Some (dv, rm, tb', k)"
    "?P (dv, rm, tb', k)" "\<not> 0 \<le> k"
    by auto
  have "k = - 1" using t(2,3) by simp
  then have "A = v64 dv * B + v64 rm \<and> v64 rm < B" using t(2) by simp
  then show ?thesis using t(1) by blast
qed


lemma v64_small: "hi32 x = 0 \<Longrightarrow> v64 x = unat (lo32 x)"
  by (simp add: v64_def)

lemma quotient_pair: "v64 q = n \<Longrightarrow> q = pair_of (word_of_nat n)"
  by (metis pair_of_v64)

lemma U64Div_result:
  "U64Div a b = (if v64 b = 0 then None
     else Some (pair_of (word_of_nat (v64 a div v64 b)), pair_of (word_of_nat (v64 a mod v64 b))))"
proof (cases "hi32 a = 0 \<and> hi32 b = 0")
  case True
  have "v64 (pair64 (lo32 a div lo32 b) 0) = v64 a div v64 b" "v64 (pair64 (lo32 a mod lo32 b) 0) = v64 a mod v64 b"
    using True by (simp_all add: v64_small unat_div_distrib unat_mod_distrib)
  then show ?thesis
    using True by (simp add: U64Div_def v64_small [of b] unat_eq_0 quotient_pair)
next
  case False
  show ?thesis
  proof (cases "v64 b = 0")
    case True
    then have hb: "hi32 b = 0" by (simp add: v64_def unat_eq_0)
    then have "unat (hi32 a) \<noteq> 0" using False by (simp add: unat_eq_0)
    then have a: "0 < v64 a" by (simp add: v64_def)
    have "while_option (\<lambda>(tmp_b, count). \<not> sign_v tmp_b \<and> 0 < U64Cmp a tmp_b)
         (\<lambda>(tmp_b, count). (shl64 1 tmp_b, count + 1)) (b, 0 :: int) = None"
      by (rule while_forever [where P = "\<lambda>(tb, k). v64 tb = 0"])
        (use True a in \<open>auto simp: sign_v_iff U64Cmp_less v64_shl [unfolded One_nat_def]\<close>)
    then show ?thesis using False True by (simp add: U64Div_def)
  next
    case bnz: False
    obtain tb c where 1: "while_option (\<lambda>(tmp_b, count). \<not> sign_v tmp_b \<and> 0 < U64Cmp a tmp_b)
      (\<lambda>(tmp_b, count). (shl64 1 tmp_b, count + 1)) (b, 0 :: int) = Some (tb, int c)"
      "v64 tb = v64 b * 2 ^ c" "v64 a < 2 * v64 tb"
      using div_first_loop [of b a] bnz by auto
    obtain dv rm tb' k where 2: "while_option (\<lambda>(dv, tmp_a, tmp_b, count). 0 \<le> count)
      (\<lambda>(dv, tmp_a, tmp_b, count).
        (let dv = shl64 1 dv;
             (dv, tmp_a) = (if 0 \<le> U64Cmp tmp_a tmp_b
               then (dv\<lparr>lo32 := lo32 dv OR 1\<rparr>, sum64 tmp_a (neg64 tmp_b)) else (dv, tmp_a))
         in (dv, tmp_a, shr64 1 tmp_b, count - 1)))
      (pair64 0 0, a, tb, int c) = Some (dv, rm, tb', k)" "v64 a = v64 dv * v64 b + v64 rm" "v64 rm < v64 b"
      using div_second_loop [OF 1(2,3) _ refl] bnz by auto
    have "v64 a div v64 b = v64 dv" "v64 a mod v64 b = v64 rm" using 2(2,3) by simp_all
    then have "dv = pair_of (word_of_nat (v64 a div v64 b))" "rm = pair_of (word_of_nat (v64 a mod v64 b))"
      by (simp_all add: quotient_pair)
    moreover have "U64Div a b = Some (dv, rm)"
      unfolding U64Div_def if_not_P [OF False] run_shifts run_sums run_sub 1(1) Option.bind.bind_lunit case_prod_conv 2(1) ..
    ultimately show ?thesis using bnz by simp
  qed
qed

text \<open>
  C29.  Unsigned division returns the quotient and the remainder of every pair of numbers with a
  nonzero divisor; with a zero divisor it does not return.
\<close>

theorem U64Div_correct:
  "U64Div a b = (if v64 b = 0 then None
     else Some (pair_of (word_of_nat (v64 a div v64 b)), pair_of (word_of_nat (v64 a mod v64 b))))"
  by (rule U64Div_result)

text \<open>The absolute value of a signed number, as the number the division works on.\<close>

lemma sign_v_sint: "sign_v x \<longleftrightarrow> sint (w64 x) < 0"
proof -
  have "\<not> bit (lo32 x) 63" by (auto dest: bit_imp_le_length)
  then have "bit (w64 x) 63 = bit (hi32 x) 31" by (simp add: w64_def bit_simps)
  then show ?thesis using bit_last_iff [of "w64 x"] by (simp add: sign_v_def)
qed

lemma v64_magnitude: "v64 (if sign_v x then neg64 x else x) = nat \<bar>sint (w64 x)\<bar>"
proof (cases "sign_v x")
  case True
  then have neg: "sint (w64 x) < 0" by (simp add: sign_v_sint)
  have lt: "- sint (w64 x) < 2 ^ 64" using sint_greater_eq [of "w64 x"] by simp
  have e: "- w64 x = word_of_int (- sint (w64 x))" by simp
  have "uint (word_of_int (- sint (w64 x)) :: u64) = - sint (w64 x)"
    using neg lt unfolding uint_word_of_int_eq by (simp only: take_bit_int_eq_self_iff) simp
  then have "uint (- w64 x) = - sint (w64 x)" by (simp only: e)
  moreover have "int (v64 (neg64 x)) = uint (- w64 x)" by (simp flip: unat_w64 add: w64_neg64)
  ultimately show ?thesis using True neg by simp
next
  case False
  then have "0 \<le> sint (w64 x)" by (simp add: sign_v_sint)
  have "int (v64 x) < 2 ^ 63" using False by (simp add: sign_v_iff)
  moreover have "uint (w64 x) = int (v64 x)" by (simp flip: unat_w64)
  ultimately have "sint (w64 x) = uint (w64 x)"
    unfolding sint_uint by (simp add: signed_take_bit_int_eq_self)
  then show ?thesis using False by (simp flip: unat_w64)
qed


text \<open>
  C30.  Signed division truncates towards zero and the remainder has the sign of the dividend; the
  one quotient that does not fit, of the smallest number by minus one, wraps.
\<close>

theorem I64Div_correct:
  "I64Div a b = (if w64 b = 0 then None
     else Some (pair_of (word_of_int (sint (w64 a) sdiv sint (w64 b))), pair_of (word_of_int (sint (w64 a) smod sint (w64 b)))))"
proof -
  define A where "A = sint (w64 a)"
  define B where "B = sint (w64 b)"
  define a' where "a' = (if sign_v a then neg64 a else a)"
  define b' where "b' = (if sign_v b then neg64 b else b)"
  have mag: "v64 a' = nat \<bar>A\<bar>" "v64 b' = nat \<bar>B\<bar>"
    unfolding a'_def b'_def A_def B_def by (rule v64_magnitude)+
  have sg: "sign_v a \<longleftrightarrow> A < 0" "sign_v b \<longleftrightarrow> B < 0" by (simp_all add: sign_v_sint A_def B_def)
  have zero: "w64 b = 0 \<longleftrightarrow> B = 0" proof -
    have "w64 b = word_of_int B" by (simp add: B_def)
    then show ?thesis unfolding B_def by (metis signed_0 of_int_0)
  qed
  have "I64Div a b = map_option (\<lambda>(dv, rm). (if (A < 0) \<noteq> (B < 0) then neg64 dv else dv, if A < 0 then neg64 rm else rm)) (U64Div a' b')"
    by (auto simp: I64Div_def a'_def b'_def sg Let_def)
  also have "\<dots> = (if B = 0 then None
     else Some (pair_of (word_of_int (A sdiv B)), pair_of (word_of_int (A smod B))))"
  proof (cases "B = 0")
    case False
    have "word_of_nat (nat \<bar>A\<bar> div nat \<bar>B\<bar>) = (word_of_int (\<bar>A\<bar> div \<bar>B\<bar>) :: u64)"
      "word_of_nat (nat \<bar>A\<bar> mod nat \<bar>B\<bar>) = (word_of_int (\<bar>A\<bar> mod \<bar>B\<bar>) :: u64)"
      using False by (simp_all add: of_nat_nat div_int_pos_iff flip: nat_div_distrib nat_mod_distrib)
    then show ?thesis
      using False mag
      by (auto simp: U64Div_result w64_neg64 signed_divide_int_def signed_modulo_int_def sgn_if intro!: pair_of_eqI)
  qed (use mag in \<open>simp add: U64Div_result\<close>)
  finally show ?thesis by (simp add: zero A_def B_def)
qed


section \<open>Reading numerals\<close>

text \<open>
  The digit steps of the scanners (\<open>U64Cnv10\<close> and its relatives): the new value, and whether the
  number overflowed.
\<close>

definition U64Cnv10 :: "u64p \<Rightarrow> u8 \<Rightarrow> u64p \<times> bool" where
  "U64Cnv10 res ch =
    (let tmp8 = res; tmp2 = tmp8; c = ucast ch :: u32;
         over = (hi32 tmp8 AND 0xE0000000 \<noteq> 0);
         over = (over \<or> hi32 tmp8 AND 0x80000000 \<noteq> 0);
         save = lo32 tmp8;
         tmp8 = pair64 (push_bit 3 (lo32 tmp8)) (push_bit 3 (hi32 tmp8) OR drop_bit (32 - 3) save);
         save = lo32 tmp2;
         tmp2 = pair64 (push_bit 1 (lo32 tmp2)) (push_bit 1 (hi32 tmp2) OR drop_bit (32 - 1) save);
         save = lo32 tmp8 + lo32 tmp2;
         tmp2 = tmp2\<lparr>lo32 := save\<rparr>;
         (tmp8, over) = (if save < lo32 tmp8
           then (tmp8\<lparr>hi32 := hi32 tmp8 + 1\<rparr>, over \<or> hi32 tmp8 + 1 = 0) else (tmp8, over));
         save = hi32 tmp8 + hi32 tmp2;
         tmp2 = tmp2\<lparr>hi32 := save\<rparr>;
         over = (over \<or> save < hi32 tmp8);
         save = lo32 tmp2 + c;
         tmp2 = tmp2\<lparr>lo32 := save\<rparr>;
         (tmp2, over) = (if save < c
           then (tmp2\<lparr>hi32 := hi32 tmp2 + 1\<rparr>, over \<or> hi32 tmp2 + 1 = 0) else (tmp2, over))
     in (tmp2, over))"

text \<open>The three whose base is a power of 2 differ in the shift count and the mask alone.\<close>

definition cnv_pow2 :: "nat \<Rightarrow> u32 \<Rightarrow> u64p \<Rightarrow> u8 \<Rightarrow> u64p \<times> bool" where
  "cnv_pow2 k msk res ch =
    (let over = (hi32 res AND msk \<noteq> 0);
         save = lo32 res;
         t = pair64 (push_bit k (lo32 res)) (push_bit k (hi32 res) OR drop_bit (32 - k) save)
     in (t\<lparr>lo32 := lo32 t OR ucast ch\<rparr>, over))"

definition U64Cnv8 :: "u64p \<Rightarrow> u8 \<Rightarrow> u64p \<times> bool" where
  "U64Cnv8 = cnv_pow2 3 0xE0000000"

definition U64Cnv2 :: "u64p \<Rightarrow> u8 \<Rightarrow> u64p \<times> bool" where
  "U64Cnv2 = cnv_pow2 1 0x80000000"

definition U64Cnv16 :: "u64p \<Rightarrow> u8 \<Rightarrow> u64p \<times> bool" where
  "U64Cnv16 = cnv_pow2 4 0xF0000000"

lemma high_part_nonzero: "k \<le> 32 \<Longrightarrow> h AND NOT (mask k) \<noteq> 0 \<longleftrightarrow> 2 ^ k \<le> unat h" for h :: u32
proof -
  assume k: "k \<le> 32"
  have "h AND NOT (mask k) = 0 \<longleftrightarrow> take_bit k h = h"
    by (auto simp: bit_eq_iff bit_simps)
  also have "\<dots> \<longleftrightarrow> unat h < 2 ^ k"
    by (simp add: word_unat_eq_iff unsigned_take_bit_eq take_bit_nat_eq_self_iff)
  finally show ?thesis by (simp add: not_less)
qed

lemma top_masks:
  "(0xE0000000 :: u32) = NOT (mask 29)" "(0x80000000 :: u32) = NOT (mask 31)" "(0xF0000000 :: u32) = NOT (mask 28)"
  by (simp_all add: mask_eq_exp_minus_1)

lemma high_v64: "k \<le> 32 \<Longrightarrow> 2 ^ k \<le> unat (hi32 x) \<longleftrightarrow> 2 ^ (32 + k) \<le> v64 x"
proof -
  have "2 ^ k \<le> unat (hi32 x) \<longleftrightarrow> 2 ^ k \<le> v64 x div 2 ^ 32" by (simp only: v64_parts)
  also have "\<dots> \<longleftrightarrow> 2 ^ k * 2 ^ 32 \<le> v64 x" by (simp add: less_eq_div_iff_mult_less_eq)
  finally show ?thesis by (simp add: power_add mult.commute)
qed

lemma pair_shl:
  assumes "0 < k" and "k < 32"
  shows "pair64 (push_bit k (lo32 x)) (push_bit k (hi32 x) OR drop_bit (32 - k) (lo32 x)) = shl64 k x"
proof -
  have "w64 (pair64 (push_bit k (lo32 x)) (push_bit k (hi32 x) OR drop_bit (32 - k) (lo32 x))) = push_bit (k mod 64) (w64 x)"
    by (rule bit_word_eqI) (use assms in \<open>auto simp: w64_def bit_simps add.commute dest: bit_imp_le_length\<close>)
  then show ?thesis by (simp flip: w64_eq_iff add: w64_shifts)
qed

lemma v64_shl_k: "k < 64 \<Longrightarrow> v64 (shl64 k x) = 2 ^ k * v64 x mod 2 ^ 64"
  unfolding unat_w64 [symmetric] w64_shifts by (simp add: unsigned_push_bit_eq) (simp add: take_bit_eq_mod push_bit_eq_mult mult.commute)

lemma v64_sum64: "v64 (sum64 x y) = (v64 x + v64 y) mod 2 ^ 64"
  unfolding unat_w64 [symmetric] w64_sum64 by (simp add: unat_word_ariths)

lemma unat_succ: "unat (z + 1 :: u32) = (if unat z = 2 ^ 32 - 1 then 0 else unat z + 1)"
  using unat_u32_lt [of z] by (simp add: unat_word_ariths)

lemma sum_overflow:
  "(lo32 x + lo32 y < lo32 x \<and> hi32 x + 1 = 0)
     \<or> (hi32 x + (if lo32 x + lo32 y < lo32 x then 1 else 0)) + hi32 y < hi32 x + (if lo32 x + lo32 y < lo32 x then 1 else 0)
   \<longleftrightarrow> 2 ^ 64 \<le> v64 x + v64 y"
proof -
  note bnd = unat_u32_lt [of "lo32 x"] unat_u32_lt [of "lo32 y"] unat_u32_lt [of "hi32 x"] unat_u32_lt [of "hi32 y"]
  show ?thesis
  proof (cases "lo32 x + lo32 y < lo32 x")
    case False
    then show ?thesis
      using bnd carry_iff [of "lo32 x" "lo32 y"] carry_iff [of "hi32 x" "hi32 y"] by (auto simp: v64_def)
  next
    case True
    then have l: "2 ^ 32 \<le> unat (lo32 x) + unat (lo32 y)" by (simp add: carry_iff)
    show ?thesis
    proof (cases "hi32 x + 1 = 0")
      case z: True
      then have "unat (hi32 x + 1) = 0" by simp
      then have "unat (hi32 x) = 2 ^ 32 - 1" by (simp only: unat_succ split: if_splits)
      then show ?thesis using z True l by (simp add: v64_def)
    next
      case False
      then have "unat (hi32 x + 1) \<noteq> 0" by (simp add: unat_eq_0)
      then have "unat (hi32 x + 1) = unat (hi32 x) + 1" by (simp only: unat_succ split: if_splits) simp
      then show ?thesis
        using True False l bnd carry_iff [of "hi32 x + 1" "hi32 y"] by (auto simp: v64_def)
    qed
  qed
qed


lemma Cnv10_sums:
  "U64Cnv10 x ch =
     (let t8 = shl64 3 x; t2 = shl64 1 x; s = sum64 t8 t2; d = pair64 (ucast ch) 0
      in (sum64 s d, 2 ^ 61 \<le> v64 x \<or> 2 ^ 64 \<le> v64 t8 + v64 t2 \<or> 2 ^ 64 \<le> v64 s + v64 d))"
proof -
  define t8 where "t8 = shl64 3 x"
  define t2 where "t2 = shl64 1 x"
  define d where "d = pair64 (ucast ch :: u32) 0"
  have t8: "pair64 (push_bit 3 (lo32 x)) (push_bit 3 (hi32 x) OR drop_bit (32 - 3) (lo32 x)) = t8"
    and t2: "pair64 (push_bit 1 (lo32 x)) (push_bit 1 (hi32 x) OR drop_bit (32 - 1) (lo32 x)) = t2"
    unfolding t8_def t2_def by (rule pair_shl; simp)+
  have big: "hi32 x AND 0xE0000000 \<noteq> 0 \<or> hi32 x AND 0x80000000 \<noteq> 0 \<longleftrightarrow> 2 ^ 61 \<le> v64 x"
  proof -
    have "hi32 x AND 0xE0000000 \<noteq> 0 \<longleftrightarrow> 2 ^ 61 \<le> v64 x" "hi32 x AND 0x80000000 \<noteq> 0 \<longleftrightarrow> 2 ^ 63 \<le> v64 x"
      unfolding top_masks using high_part_nonzero [of 29 "hi32 x"] high_v64 [of 29 x]
        high_part_nonzero [of 31 "hi32 x"] high_v64 [of 31 x] by simp_all
    then show ?thesis by auto
  qed
  define s where "s = sum64 t8 t2"
  have s_eq: "lo32 s = lo32 t8 + lo32 t2" "hi32 s = (hi32 t8 + (if lo32 t8 + lo32 t2 < lo32 t8 then 1 else 0)) + hi32 t2"
    by (simp_all add: s_def sum64_def)
  have digit: "lo32 s + lo32 d < lo32 d \<longleftrightarrow> lo32 s + lo32 d < lo32 s"
    using carry_iff [of "lo32 s" "lo32 d"] carry_iff [of "lo32 d" "lo32 s"] by (simp add: add.commute)
  have o2: "(lo32 s + lo32 d < lo32 d \<and> hi32 s + 1 = 0) \<longleftrightarrow> 2 ^ 64 \<le> v64 s + v64 d"
    using sum_overflow [of s d] unfolding digit by (auto simp: d_def)
  have "U64Cnv10 x ch = (pair64 (lo32 s + lo32 d) (hi32 s + (if lo32 s + lo32 d < lo32 d then 1 else 0)),
      (2 ^ 61 \<le> v64 x \<or> ((lo32 t8 + lo32 t2 < lo32 t8 \<and> hi32 t8 + 1 = 0)
        \<or> (hi32 t8 + (if lo32 t8 + lo32 t2 < lo32 t8 then 1 else 0)) + hi32 t2
            < hi32 t8 + (if lo32 t8 + lo32 t2 < lo32 t8 then 1 else 0)))
      \<or> (lo32 s + lo32 d < lo32 d \<and> hi32 s + 1 = 0))"
    unfolding U64Cnv10_def Let_def t8 t2 big [symmetric] s_eq
    by (auto simp: d_def split: if_splits)
  also have "\<dots> = (sum64 s d, 2 ^ 61 \<le> v64 x \<or> 2 ^ 64 \<le> v64 t8 + v64 t2 \<or> 2 ^ 64 \<le> v64 s + v64 d)"
    unfolding sum_overflow o2 by (simp add: sum64_def d_def add.commute digit [unfolded d_def, simplified])
  finally show ?thesis by (simp add: t8_def t2_def s_def d_def Let_def)
qed

text \<open>
  A decimal digit is appended to the number modulo 2 to the 64, and overflow is reported
  exactly when the number no longer fits.
\<close>

theorem U64Cnv10_exact:
  "U64Cnv10 x ch = (pair_of (word_of_nat (10 * v64 x + unat ch)), 2 ^ 64 \<le> 10 * v64 x + unat ch)"
proof -
  have d: "v64 (pair64 (ucast ch) 0) = unat ch" 
    using unat_u8_lt [of ch] by (simp add: v64_def unsigned_ucast_eq take_bit_nat_eq_self_iff order.strict_trans del: unat_u8_lt)
  have t: "v64 (shl64 3 x) = 8 * v64 x mod 2 ^ 64" "v64 (shl64 1 x) = 2 * v64 x mod 2 ^ 64"
    using v64_shl_k [of 3 x] v64_shl_k [of 1 x] by simp_all
  have val: "sum64 (sum64 (shl64 3 x) (shl64 1 x)) (pair64 (ucast ch) 0) = pair_of (word_of_nat (10 * v64 x + unat ch))"
  proof (rule pair_of_eqI)
    show "w64 (sum64 (sum64 (shl64 3 x) (shl64 1 x)) (pair64 (ucast ch) 0)) = word_of_nat (10 * v64 x + unat ch)"
      by (rule w64_eqI) (simp add: v64_sum64 d t [unfolded One_nat_def] mod_simps)
  qed
  have over: "2 ^ 61 \<le> v64 x \<or> 2 ^ 64 \<le> v64 (shl64 3 x) + v64 (shl64 1 x)
      \<or> 2 ^ 64 \<le> v64 (sum64 (shl64 3 x) (shl64 1 x)) + v64 (pair64 (ucast ch) 0) \<longleftrightarrow> 2 ^ 64 \<le> 10 * v64 x + unat ch"
  proof (cases "2 ^ 61 \<le> v64 x")
    case False
    then have "v64 (shl64 3 x) = 8 * v64 x" "v64 (shl64 1 x) = 2 * v64 x" unfolding t by simp_all
    then show ?thesis
      using False unfolding v64_sum64 d by (cases "10 * v64 x < 2 ^ 64") auto
  qed auto
  show ?thesis unfolding Cnv10_sums Let_def val over ..
qed

end
