(* ===== verification/X64Sysv.thy ===== *)
theory X64Sysv
  imports OwPrelude
begin

unbundle bit_operations_syntax

text \<open>
  The System V calling convention of the x86-64 back end (\<open>bld/cg/intel/x64/h/x64sysv.h\<close>): the
  classification of structures, the assignment of parameters to registers and stack slots, and the
  layout of the stack frame.  A C \<open>int\<close> is an integer here: the sizes and counts of a function stay
  far below 2 to the 31.  A field of \<open>sysv_parm_info_t\<close> that the code leaves unset is \<open>None\<close>.
\<close>

section \<open>Registers\<close>

record arg_reg =
  ar_encoding :: nat
  ar_extended :: bool

definition SYSV_NUM_INT_ARGS :: int where "SYSV_NUM_INT_ARGS = 6"
definition SYSV_NUM_FLOAT_ARGS :: int where "SYSV_NUM_FLOAT_ARGS = 8"

definition sysv_int_arg_regs :: "arg_reg list" where
  "sysv_int_arg_regs =
    map (\<lambda>(n, e). \<lparr>ar_encoding = n, ar_extended = e\<rparr>)
      [(7, False), (6, False), (2, False), (1, False), (0, True), (1, True)]"

definition sysv_callee_saved :: "arg_reg list" where
  "sysv_callee_saved =
    map (\<lambda>(n, e). \<lparr>ar_encoding = n, ar_extended = e\<rparr>)
      [(3, False), (5, False), (4, True), (5, True), (6, True), (7, True)]"

section \<open>Classification of structures\<close>

datatype sysv_class =
  CLASS_NO_CLASS | CLASS_INTEGER | CLASS_SSE | CLASS_SSEUP | CLASS_X87 | CLASS_X87UP | CLASS_COMPLEX_X87 | CLASS_MEMORY

record sysv_field =
  fld_offset :: int
  fld_size :: int
  fld_is_float :: bool

definition merge_class :: "sysv_class \<Rightarrow> sysv_class \<Rightarrow> sysv_class" where
  "merge_class target fclass =
    (if target = CLASS_NO_CLASS then fclass
     else if target \<noteq> fclass then CLASS_MEMORY
     else target)"

fun classify_fields :: "sysv_field list \<Rightarrow> sysv_class \<times> sysv_class \<Rightarrow> sysv_class \<times> sysv_class" where
  "classify_fields [] c = c"
| "classify_fields (f # fs) (lo, hi) =
    (let fclass = (if fld_is_float f then CLASS_SSE else CLASS_INTEGER)
     in if fld_offset f < 8 then classify_fields fs (merge_class lo fclass, hi)
        else classify_fields fs (lo, merge_class hi fclass))"

definition sysv_classify_struct :: "sysv_field list \<Rightarrow> int \<Rightarrow> sysv_class \<times> sysv_class" where
  "sysv_classify_struct flds struct_size =
    (if 16 < struct_size then (CLASS_MEMORY, CLASS_MEMORY)
     else let (lo, hi) = classify_fields flds (CLASS_NO_CLASS, CLASS_NO_CLASS);
              (lo, hi) = (if lo = CLASS_MEMORY \<or> hi = CLASS_MEMORY then (CLASS_MEMORY, CLASS_MEMORY) else (lo, hi))
          in (lo, if struct_size \<le> 8 then CLASS_NO_CLASS else hi))"

section \<open>Assignment of parameters\<close>

record sysv_call_state =
  next_int_reg :: int
  next_float_reg :: int
  stack_offset :: int
  num_stack_args :: int
  is_varargs :: bool

definition sysv_call_init :: "bool \<Rightarrow> sysv_call_state" where
  "sysv_call_init varargs =
    \<lparr>next_int_reg = 0, next_float_reg = 0, stack_offset = 0, num_stack_args = 0, is_varargs = varargs\<rparr>"

datatype sysv_parm_loc = PARM_IN_INT_REG | PARM_IN_FLOAT_REG | PARM_ON_STACK | PARM_BY_REFERENCE

record sysv_parm_info =
  parm_location :: sysv_parm_loc
  parm_reg :: "int option"
  parm_stack :: "int option"
  parm_size :: int

record sysv_parm =
  p_is_float :: bool
  p_size :: int
  p_is_struct :: bool
  p_fields :: "sysv_field list"

definition round8 :: "int \<Rightarrow> int" where
  "round8 sz = (sz + 7) AND NOT 7"

definition in_int_reg :: "sysv_parm_loc \<Rightarrow> int \<Rightarrow> sysv_call_state \<Rightarrow> sysv_parm_info \<times> sysv_call_state" where
  "in_int_reg loc sz st =
    (\<lparr>parm_location = loc, parm_reg = Some (next_int_reg st), parm_stack = None, parm_size = sz\<rparr>,
     st\<lparr>next_int_reg := next_int_reg st + 1\<rparr>)"

definition in_float_reg :: "int \<Rightarrow> sysv_call_state \<Rightarrow> sysv_parm_info \<times> sysv_call_state" where
  "in_float_reg sz st =
    (\<lparr>parm_location = PARM_IN_FLOAT_REG, parm_reg = Some (next_float_reg st), parm_stack = None, parm_size = sz\<rparr>,
     st\<lparr>next_float_reg := next_float_reg st + 1\<rparr>)"

definition on_stack :: "int \<Rightarrow> int \<Rightarrow> sysv_call_state \<Rightarrow> sysv_parm_info \<times> sysv_call_state" where
  "on_stack area sz st =
    (\<lparr>parm_location = PARM_ON_STACK, parm_reg = None, parm_stack = Some (stack_offset st), parm_size = sz\<rparr>,
     st\<lparr>stack_offset := stack_offset st + area, num_stack_args := num_stack_args st + 1\<rparr>)"

definition sysv_alloc_parm :: "sysv_parm \<Rightarrow> sysv_call_state \<Rightarrow> sysv_parm_info \<times> sysv_call_state" where
  "sysv_alloc_parm p st =
    (let sz = p_size p in
     if p_is_struct p \<and> 16 < sz then
       (if next_int_reg st < SYSV_NUM_INT_ARGS then in_int_reg PARM_BY_REFERENCE sz st else on_stack 8 sz st)
     else if p_is_struct p then
       (let (lo, hi) = sysv_classify_struct (p_fields p) sz in
        if lo = CLASS_MEMORY then on_stack (round8 sz) sz st
        else let needed_int = (if lo = CLASS_INTEGER then 1 else 0) + (if hi = CLASS_INTEGER then 1 else 0);
                 needed_sse = (if lo = CLASS_SSE then 1 else 0) + (if hi = CLASS_SSE then 1 else 0)
             in if SYSV_NUM_INT_ARGS < next_int_reg st + needed_int \<or> SYSV_NUM_FLOAT_ARGS < next_float_reg st + needed_sse
                then on_stack (round8 sz) sz st
                else let (info, st) = (if lo = CLASS_INTEGER then in_int_reg PARM_IN_INT_REG sz st else in_float_reg sz st)
                     in (info, if hi = CLASS_INTEGER then st\<lparr>next_int_reg := next_int_reg st + 1\<rparr>
                               else if hi = CLASS_SSE then st\<lparr>next_float_reg := next_float_reg st + 1\<rparr>
                               else st))
     else if p_is_float p then
       (if next_float_reg st < SYSV_NUM_FLOAT_ARGS then in_float_reg sz st else on_stack 8 sz st)
     else
       (if next_int_reg st < SYSV_NUM_INT_ARGS then in_int_reg PARM_IN_INT_REG sz st else on_stack 8 sz st))"

text \<open>The parameters of a call, in order.\<close>

fun alloc_parms :: "sysv_parm list \<Rightarrow> sysv_call_state \<Rightarrow> sysv_parm_info list \<times> sysv_call_state" where
  "alloc_parms [] st = ([], st)"
| "alloc_parms (p # ps) st =
    (let (info, st') = sysv_alloc_parm p st; (infos, st'') = alloc_parms ps st' in (info # infos, st''))"

definition sysv_count_vararg_xmm :: "sysv_call_state \<Rightarrow> int" where
  "sysv_count_vararg_xmm st = next_float_reg st"

section \<open>The stack frame\<close>

record sysv_frame =
  locals_size :: int
  callee_save_size :: int
  outgoing_args_size :: int
  frame_size :: int
  num_callee_saved :: int
  use_frame_pointer :: bool
  is_leaf :: bool

definition round16 :: "int \<Rightarrow> int" where
  "round16 sz = (sz + 15) AND NOT 15"

definition sysv_compute_frame :: "int \<Rightarrow> int \<Rightarrow> int \<Rightarrow> bool \<Rightarrow> sysv_frame" where
  "sysv_compute_frame locals max_outgoing_stack_args num_callee_saved_used has_calls =
    (let outgoing = max_outgoing_stack_args * 8;
         raw_size = locals + outgoing;
         pushes = 1 + num_callee_saved_used;
         fsize = (if pushes mod 2 = 0 then round16 raw_size
                  else let f = round16 raw_size + 8 in if 15 < f - raw_size then f - 16 else f);
         fsize = (if \<not> has_calls \<and> raw_size \<le> 128 \<and> 0 < raw_size then 0 else fsize)
     in \<lparr>locals_size = locals, callee_save_size = num_callee_saved_used * 8, outgoing_args_size = outgoing,
         frame_size = fsize, num_callee_saved = num_callee_saved_used, use_frame_pointer = True, is_leaf = \<not> has_calls\<rparr>)"

section \<open>Rounding\<close>

lemma clear_low_bits: "x AND NOT (mask n) = x - x mod 2 ^ n" for x :: int
proof -
  have "x AND NOT (mask n) = push_bit n (drop_bit n x)"
    by (rule bit_eqI) (auto simp: bit_simps)
  then show ?thesis by (simp add: push_bit_eq_mult drop_bit_eq_div minus_mod_eq_div_mult [symmetric])
qed

lemma round8_eq: "round8 x = (x + 7) - (x + 7) mod 8"
  using clear_low_bits [of "x + 7" 3] by (simp add: round8_def mask_eq_exp_minus_1)

lemma round16_eq: "round16 x = (x + 15) - (x + 15) mod 16"
  using clear_low_bits [of "x + 15" 4] by (simp add: round16_def mask_eq_exp_minus_1)

lemma round8_bounds: "x \<le> round8 x" "round8 x < x + 8" "round8 x mod 8 = 0"
  unfolding round8_eq by presburger+

lemma round16_bounds: "x \<le> round16 x" "round16 x < x + 16" "round16 x mod 16 = 0"
  unfolding round16_eq by presburger+

section \<open>Classification\<close>

text \<open>What the classes say: an eightbyte is in a class when it has fields and all of them are of it.\<close>

definition eightbyte_class :: "sysv_field list \<Rightarrow> sysv_class" where
  "eightbyte_class fs =
    (if fs = [] then CLASS_NO_CLASS
     else if list_all fld_is_float fs then CLASS_SSE
     else if list_all (\<lambda>f. \<not> fld_is_float f) fs then CLASS_INTEGER
     else CLASS_MEMORY)"

lemma merge_eightbyte:
  "merge_class (eightbyte_class fs) (if fld_is_float f then CLASS_SSE else CLASS_INTEGER) = eightbyte_class (fs @ [f])"
  by (cases fs) (auto simp: merge_class_def eightbyte_class_def)

lemma classify_fields_spec:
  "classify_fields fs (eightbyte_class los, eightbyte_class his)
   = (eightbyte_class (los @ filter (\<lambda>f. fld_offset f < 8) fs), eightbyte_class (his @ filter (\<lambda>f. \<not> fld_offset f < 8) fs))"
proof (induction fs arbitrary: los his)
  case (Cons f fs)
  show ?case
    using Cons.IH [of "los @ [f]" his] Cons.IH [of los "his @ [f]"]
    by (auto simp: merge_eightbyte Let_def)
qed simp

lemma sysv_classify_struct_spec:
  "sysv_classify_struct fs sz =
    (let lo = eightbyte_class (filter (\<lambda>f. fld_offset f < 8) fs); hi = eightbyte_class (filter (\<lambda>f. \<not> fld_offset f < 8) fs)
     in if 16 < sz then (CLASS_MEMORY, CLASS_MEMORY)
        else if lo = CLASS_MEMORY \<or> hi = CLASS_MEMORY then (CLASS_MEMORY, if sz \<le> 8 then CLASS_NO_CLASS else CLASS_MEMORY)
        else (lo, if sz \<le> 8 then CLASS_NO_CLASS else hi))"
  using classify_fields_spec [of fs "[]" "[]"]
  by (simp add: sysv_classify_struct_def eightbyte_class_def [of "[]"] Let_def)

section \<open>Registers and slots of a call\<close>

definition slot_size :: "sysv_parm \<Rightarrow> int" where
  "slot_size p = (if p_is_struct p \<and> 16 < p_size p then 8 else p_size p)"

definition parm_ok :: "sysv_parm \<Rightarrow> bool" where
  "parm_ok p \<longleftrightarrow> 0 < p_size p \<and> (\<not> p_is_struct p \<longrightarrow> p_size p \<le> 8)
     \<and> (p_is_struct p \<longrightarrow> (\<exists>f \<in> set (p_fields p). fld_offset f < 8))"

text \<open>
  The registers a parameter has, by the convention: a structure passed in registers has one for each of its eightbytes,
  in the class of that eightbyte, in the order of the registers left when it is its turn; \<open>sysv_parm_info_t\<close> names
  only the register of the first.
\<close>

definition eightbytes :: "sysv_parm \<Rightarrow> sysv_class list" where
  "eightbytes p =
    (if p_is_struct p
     then [eightbyte_class (filter (\<lambda>f. fld_offset f < 8) (p_fields p)),
           if p_size p \<le> 8 then CLASS_NO_CLASS else eightbyte_class (filter (\<lambda>f. \<not> fld_offset f < 8) (p_fields p))]
     else [if p_is_float p then CLASS_SSE else CLASS_INTEGER])"

fun place_eightbytes :: "sysv_class list \<Rightarrow> int \<Rightarrow> int \<Rightarrow> int list \<times> int list" where
  "place_eightbytes [] ni nf = ([], [])"
| "place_eightbytes (c # cs) ni nf =
    (if c = CLASS_INTEGER then map_prod ((#) ni) id (place_eightbytes cs (ni + 1) nf)
     else if c = CLASS_SSE then map_prod id ((#) nf) (place_eightbytes cs ni (nf + 1))
     else place_eightbytes cs ni nf)"

definition parm_regs :: "sysv_parm \<Rightarrow> sysv_call_state \<Rightarrow> sysv_parm_info \<Rightarrow> int list \<times> int list" where
  "parm_regs p st i =
    (case parm_location i of
       PARM_ON_STACK \<Rightarrow> ([], [])
     | PARM_BY_REFERENCE \<Rightarrow> ([next_int_reg st], [])
     | PARM_IN_INT_REG \<Rightarrow> place_eightbytes (eightbytes p) (next_int_reg st) (next_float_reg st)
     | PARM_IN_FLOAT_REG \<Rightarrow> place_eightbytes (eightbytes p) (next_int_reg st) (next_float_reg st))"

fun call_regs :: "sysv_parm list \<Rightarrow> sysv_call_state \<Rightarrow> (int list \<times> int list) list" where
  "call_regs [] st = []"
| "call_regs (p # ps) st = (let (i, st') = sysv_alloc_parm p st in parm_regs p st i # call_regs ps st')"

definition int_regs :: "(int list \<times> int list) list \<Rightarrow> int list" where
  "int_regs rs = concat (map fst rs)"

definition float_regs :: "(int list \<times> int list) list \<Rightarrow> int list" where
  "float_regs rs = concat (map snd rs)"

text \<open>The register recorded for a parameter is that of its first eightbyte.\<close>

definition records_first :: "sysv_parm_info \<Rightarrow> int list \<times> int list \<Rightarrow> bool" where
  "records_first i rs =
    (case parm_location i of
       PARM_ON_STACK \<Rightarrow> fst rs = [] \<and> snd rs = [] \<and> parm_reg i = None \<and> parm_stack i \<noteq> None
     | PARM_IN_FLOAT_REG \<Rightarrow> snd rs \<noteq> [] \<and> parm_reg i = Some (hd (snd rs)) \<and> parm_stack i = None
     | _ \<Rightarrow> fst rs \<noteq> [] \<and> parm_reg i = Some (hd (fst rs)) \<and> parm_stack i = None)"

definition slots :: "sysv_parm list \<Rightarrow> sysv_parm_info list \<Rightarrow> (int \<times> int) list" where
  "slots ps infos = concat (map (\<lambda>(p, i). case parm_stack i of Some off \<Rightarrow> [(off, slot_size p)] | None \<Rightarrow> []) (zip ps infos))"

definition call_inv :: "sysv_call_state \<Rightarrow> bool" where
  "call_inv st \<longleftrightarrow> 0 \<le> next_int_reg st \<and> next_int_reg st \<le> 6 \<and> 0 \<le> next_float_reg st \<and> next_float_reg st \<le> 8
     \<and> 0 \<le> stack_offset st \<and> stack_offset st mod 8 = 0"

definition regs_from :: "int \<Rightarrow> int \<Rightarrow> int list \<Rightarrow> bool" where
  "regs_from a n rs \<longleftrightarrow> sorted_wrt (<) rs \<and> (\<forall>r \<in> set rs. a \<le> r \<and> r < n)"

definition slots_in :: "int \<Rightarrow> int \<Rightarrow> (int \<times> int) list \<Rightarrow> bool" where
  "slots_in a e sl \<longleftrightarrow> sorted_wrt (\<lambda>(o1, s1) (o2, s2). o1 + s1 \<le> o2) sl \<and> (\<forall>(off, s) \<in> set sl. a \<le> off \<and> off + s \<le> e)"

text \<open>The registers and the slot of one parameter lie between the counters before it and those after it.\<close>

definition step_ok :: "sysv_parm \<Rightarrow> sysv_call_state \<Rightarrow> sysv_parm_info \<times> sysv_call_state \<Rightarrow> bool" where
  "step_ok p st r \<longleftrightarrow> (case r of (i, st') \<Rightarrow> call_inv st' \<and> next_int_reg st \<le> next_int_reg st' \<and> next_float_reg st \<le> next_float_reg st'
     \<and> stack_offset st \<le> stack_offset st' \<and> records_first i (parm_regs p st i)
     \<and> regs_from (next_int_reg st) (next_int_reg st') (fst (parm_regs p st i))
     \<and> regs_from (next_float_reg st) (next_float_reg st') (snd (parm_regs p st i))
     \<and> slots_in (stack_offset st) (stack_offset st') (slots [p] [i]))"

lemmas alloc_defs = in_int_reg_def in_float_reg_def on_stack_def call_inv_def slots_def slots_in_def regs_from_def
  parm_regs_def records_first_def SYSV_NUM_INT_ARGS_def SYSV_NUM_FLOAT_ARGS_def slot_size_def

lemma step_on_stack:
  assumes "call_inv st" and "slot_size p \<le> area" and "0 \<le> slot_size p" and "area mod 8 = 0"
  shows "step_ok p st (on_stack area sz st)"
  using assms by (simp add: step_ok_def alloc_defs mod_add_left_eq [symmetric, of "stack_offset st"] split: if_splits)

lemma classes_of_parm:
  assumes "parm_ok p" "p_is_struct p" "\<not> 16 < p_size p" "sysv_classify_struct (p_fields p) (p_size p) = (lo, hi)"
  shows "lo = CLASS_INTEGER \<or> lo = CLASS_SSE \<or> lo = CLASS_MEMORY"
proof -
  have "filter (\<lambda>f. fld_offset f < 8) (p_fields p) \<noteq> []"
    using assms(1,2) by (auto simp: parm_ok_def filter_empty_conv)
  then show ?thesis using assms(3,4)
    by (auto simp: sysv_classify_struct_spec Let_def eightbyte_class_def split: if_splits)
qed

lemma alloc_scalar_ok:
  assumes "call_inv st" "parm_ok p" "\<not> p_is_struct p"
  shows "step_ok p st (sysv_alloc_parm p st)"
proof -
  have sl: "slot_size p \<le> 8" "0 \<le> slot_size p" using assms(2,3) by (simp_all add: slot_size_def parm_ok_def)
  have i: "step_ok p st (in_int_reg PARM_IN_INT_REG (p_size p) st)" if "next_int_reg st < 6" "\<not> p_is_float p"
    using that assms(1,3) by (simp add: step_ok_def alloc_defs eightbytes_def)
  have f: "step_ok p st (in_float_reg (p_size p) st)" if "next_float_reg st < 8" "p_is_float p"
    using that assms(1,3) by (simp add: step_ok_def alloc_defs eightbytes_def)
  show ?thesis
    using i f step_on_stack [OF assms(1) sl(1,2), of "p_size p"] assms(3)
    by (simp add: sysv_alloc_parm_def Let_def SYSV_NUM_INT_ARGS_def SYSV_NUM_FLOAT_ARGS_def)
qed

lemma alloc_large_struct_ok:
  assumes "call_inv st" "parm_ok p" "p_is_struct p" "16 < p_size p"
  shows "step_ok p st (sysv_alloc_parm p st)"
proof -
  have "step_ok p st (in_int_reg PARM_BY_REFERENCE (p_size p) st)" if "next_int_reg st < 6"
    using that assms by (simp add: step_ok_def alloc_defs)
  then show ?thesis
    using step_on_stack [OF assms(1), of p 8 "p_size p"] assms(3,4)
    by (simp add: sysv_alloc_parm_def Let_def SYSV_NUM_INT_ARGS_def slot_size_def)
qed

text \<open>A structure in registers: the state after it has counted both of its eightbytes.\<close>

lemma two_eightbytes_ok:
  assumes inv: "call_inv st" and classes: "eightbytes p = [lo, hi]" and lo: "lo = CLASS_INTEGER \<or> lo = CLASS_SSE"
    and ni: "ni = next_int_reg st + (if lo = CLASS_INTEGER then 1 else 0) + (if hi = CLASS_INTEGER then 1 else 0)" "ni \<le> 6"
    and nf: "nf = next_float_reg st + (if lo = CLASS_SSE then 1 else 0) + (if hi = CLASS_SSE then 1 else 0)" "nf \<le> 8"
    and r: "r = (fst (if lo = CLASS_INTEGER then in_int_reg PARM_IN_INT_REG sz st else in_float_reg sz st),
      st\<lparr>next_int_reg := ni, next_float_reg := nf\<rparr>)"
  shows "step_ok p st r"
proof (cases "lo = CLASS_INTEGER")
  case True
  have "next_int_reg st < ni" "next_float_reg st \<le> nf" using ni(1) nf(1) True by simp_all
  then show ?thesis using inv True ni nf r by (cases hi) (simp_all add: step_ok_def alloc_defs classes)
next
  case False
  then have "lo = CLASS_SSE" using lo by simp
  moreover have "next_int_reg st \<le> ni" "next_float_reg st < nf" using ni(1) nf(1) calculation by simp_all
  ultimately show ?thesis using inv ni nf r by (cases hi) (simp_all add: step_ok_def alloc_defs classes)
qed

lemma classes_of_small:
  assumes "p_is_struct p" "\<not> 16 < p_size p" "sysv_classify_struct (p_fields p) (p_size p) = (lo, hi)" "lo \<noteq> CLASS_MEMORY"
  shows "eightbytes p = [lo, hi]"
  using assms by (auto simp: eightbytes_def sysv_classify_struct_spec Let_def split: if_splits)

lemma alloc_small_struct_ok:
  assumes "call_inv st" "parm_ok p" "p_is_struct p" "\<not> 16 < p_size p"
  shows "step_ok p st (sysv_alloc_parm p st)"
proof -
  obtain lo hi where c: "sysv_classify_struct (p_fields p) (p_size p) = (lo, hi)" by fastforce
  have lo: "lo = CLASS_INTEGER \<or> lo = CLASS_SSE \<or> lo = CLASS_MEMORY" by (rule classes_of_parm [OF assms(2-4) c])
  have sl: "slot_size p = p_size p" "0 < p_size p" using assms(2-4) by (simp_all add: slot_size_def parm_ok_def)
  have stack: "step_ok p st (on_stack (round8 (p_size p)) (p_size p) st)"
    by (rule step_on_stack [OF assms(1)]) (use sl round8_bounds [of "p_size p"] in simp_all)
  note unf = sysv_alloc_parm_def Let_def c SYSV_NUM_INT_ARGS_def SYSV_NUM_FLOAT_ARGS_def
  define ni where "ni = next_int_reg st + (if lo = CLASS_INTEGER then 1 else 0) + (if hi = CLASS_INTEGER then 1 else 0)"
  define nf where "nf = next_float_reg st + (if lo = CLASS_SSE then 1 else 0) + (if hi = CLASS_SSE then 1 else 0)"
  show ?thesis
  proof (cases "lo = CLASS_MEMORY \<or> 6 < ni \<or> 8 < nf")
    case True
    have "sysv_alloc_parm p st = on_stack (round8 (p_size p)) (p_size p) st"
      using True assms(3,4) by (auto simp: unf ni_def nf_def add.assoc)
    then show ?thesis using stack by simp
  next
    case False
    then have lo': "lo = CLASS_INTEGER \<or> lo = CLASS_SSE" using lo by simp
    have "sysv_alloc_parm p st = (fst (if lo = CLASS_INTEGER then in_int_reg PARM_IN_INT_REG (p_size p) st else in_float_reg (p_size p) st),
        st\<lparr>next_int_reg := ni, next_float_reg := nf\<rparr>)"
      using False lo' assms(3,4) by (auto simp: unf ni_def nf_def in_int_reg_def in_float_reg_def split: if_splits)
    then show ?thesis
      using False classes_of_small [OF assms(3,4) c] by (intro two_eightbytes_ok [OF assms(1) _ lo' ni_def _ nf_def]) simp_all
  qed
qed

lemma sysv_alloc_parm_ok: "call_inv st \<Longrightarrow> parm_ok p \<Longrightarrow> step_ok p st (sysv_alloc_parm p st)"
  using alloc_scalar_ok [of st p] alloc_large_struct_ok [of st p] alloc_small_struct_ok [of st p] by blast

lemma split_regs:
  "int_regs (r # rs) = fst r @ int_regs rs" "float_regs (r # rs) = snd r @ float_regs rs"
  "slots (p # ps) (i # js) = slots [p] [i] @ slots ps js"
  by (simp_all add: int_regs_def float_regs_def slots_def)

lemma regs_from_append:
  "regs_from a m xs \<Longrightarrow> regs_from m n ys \<Longrightarrow> a \<le> m \<Longrightarrow> m \<le> n \<Longrightarrow> regs_from a n (xs @ ys)"
  by (fastforce simp: regs_from_def sorted_wrt_append)

lemma slots_in_append:
  "slots_in a m xs \<Longrightarrow> slots_in m n ys \<Longrightarrow> a \<le> m \<Longrightarrow> m \<le> n \<Longrightarrow> slots_in a n (xs @ ys)"
  by (fastforce simp: slots_in_def sorted_wrt_append)

lemma alloc_parms_ok:
  assumes "call_inv st" and "\<forall>p \<in> set ps. parm_ok p" and "alloc_parms ps st = (infos, st')"
  shows "call_inv st' \<and> regs_from (next_int_reg st) (next_int_reg st') (int_regs (call_regs ps st))
    \<and> regs_from (next_float_reg st) (next_float_reg st') (float_regs (call_regs ps st))
    \<and> slots_in (stack_offset st) (stack_offset st') (slots ps infos) \<and> list_all2 records_first infos (call_regs ps st)
    \<and> next_int_reg st \<le> next_int_reg st' \<and> next_float_reg st \<le> next_float_reg st' \<and> stack_offset st \<le> stack_offset st'"
  using assms
proof (induction ps arbitrary: st infos st')
  case Nil
  then show ?case by (simp add: int_regs_def float_regs_def slots_def regs_from_def slots_in_def)
next
  case (Cons p ps)
  obtain i st1 where i: "sysv_alloc_parm p st = (i, st1)" by fastforce
  obtain js st2 where js: "alloc_parms ps st1 = (js, st2)" by fastforce
  have eq: "infos = i # js" "st' = st2" "call_regs (p # ps) st = parm_regs p st i # call_regs ps st1"
    using Cons.prems(3) i js by (simp_all add: Let_def)
  have step: "step_ok p st (i, st1)" using sysv_alloc_parm_ok [OF Cons.prems(1), of p] Cons.prems(2) i by simp
  then have s: "call_inv st1" "next_int_reg st \<le> next_int_reg st1" "next_float_reg st \<le> next_float_reg st1" "stack_offset st \<le> stack_offset st1"
    "records_first i (parm_regs p st i)" "regs_from (next_int_reg st) (next_int_reg st1) (fst (parm_regs p st i))"
    "regs_from (next_float_reg st) (next_float_reg st1) (snd (parm_regs p st i))"
    "slots_in (stack_offset st) (stack_offset st1) (slots [p] [i])"
    by (simp_all add: step_ok_def)
  have ih: "call_inv st2" "regs_from (next_int_reg st1) (next_int_reg st2) (int_regs (call_regs ps st1))"
    "regs_from (next_float_reg st1) (next_float_reg st2) (float_regs (call_regs ps st1))"
    "slots_in (stack_offset st1) (stack_offset st2) (slots ps js)" "list_all2 records_first js (call_regs ps st1)"
    "next_int_reg st1 \<le> next_int_reg st2" "next_float_reg st1 \<le> next_float_reg st2" "stack_offset st1 \<le> stack_offset st2"
    using Cons.IH [OF s(1) _ js] Cons.prems(2) by simp_all
  show ?case
    unfolding eq split_regs(1,2) split_regs(3) [of p ps]
    using regs_from_append [OF s(6) ih(2) s(2) ih(6)] regs_from_append [OF s(7) ih(3) s(3) ih(7)]
      slots_in_append [OF s(8) ih(4) s(4) ih(8)] s ih by simp
qed

section \<open>Properties\<close>

text \<open>
  C39.  The parameters of a call never share a place.  A structure in registers has a register for each of its eightbytes: with those of the second eightbytes
  counted, the integer registers of all parameters are strictly
  increasing indices below 6 and the XMM registers below 8; the register recorded for a parameter is that of its first eightbyte;
  and the stack slots are disjoint areas inside the
  argument area of the call, whose size is a multiple of 8.  Every structure has a field in its first eightbyte.
\<close>
theorem parameters_do_not_overlap:
  assumes "\<forall>p \<in> set ps. parm_ok p" and "alloc_parms ps (sysv_call_init va) = (infos, st)"
  shows "regs_from 0 6 (int_regs (call_regs ps (sysv_call_init va))) \<and> regs_from 0 8 (float_regs (call_regs ps (sysv_call_init va)))
    \<and> list_all2 records_first infos (call_regs ps (sysv_call_init va)) \<and> slots_in 0 (stack_offset st) (slots ps infos)
    \<and> stack_offset st mod 8 = 0 \<and> sysv_count_vararg_xmm st \<in> {0..8}"
proof -
  have "call_inv (sysv_call_init va)" by (simp add: call_inv_def sysv_call_init_def)
  from alloc_parms_ok [OF this assms] have "call_inv st" "regs_from 0 (next_int_reg st) (int_regs (call_regs ps (sysv_call_init va)))"
    "regs_from 0 (next_float_reg st) (float_regs (call_regs ps (sysv_call_init va)))" "slots_in 0 (stack_offset st) (slots ps infos)"
    "list_all2 records_first infos (call_regs ps (sysv_call_init va))"
    by (simp_all add: sysv_call_init_def)
  then show ?thesis by (auto simp: call_inv_def regs_from_def sysv_count_vararg_xmm_def)
qed

definition some_parms :: "sysv_parm list" where
  "some_parms =
    [\<lparr>p_is_float = False, p_size = 8, p_is_struct = False, p_fields = []\<rparr>,
     \<lparr>p_is_float = True, p_size = 8, p_is_struct = False, p_fields = []\<rparr>,
     \<lparr>p_is_float = False, p_size = 16, p_is_struct = True,
       p_fields = [\<lparr>fld_offset = 0, fld_size = 8, fld_is_float = False\<rparr>, \<lparr>fld_offset = 8, fld_size = 8, fld_is_float = True\<rparr>]\<rparr>,
     \<lparr>p_is_float = False, p_size = 8, p_is_struct = True,
       p_fields = [\<lparr>fld_offset = 0, fld_size = 4, fld_is_float = False\<rparr>, \<lparr>fld_offset = 4, fld_size = 4, fld_is_float = True\<rparr>]\<rparr>,
     \<lparr>p_is_float = False, p_size = 16, p_is_struct = True,
       p_fields = [\<lparr>fld_offset = 0, fld_size = 8, fld_is_float = False\<rparr>, \<lparr>fld_offset = 8, fld_size = 8, fld_is_float = False\<rparr>]\<rparr>,
     \<lparr>p_is_float = True, p_size = 8, p_is_struct = False, p_fields = []\<rparr>,
     \<lparr>p_is_float = False, p_size = 24, p_is_struct = True, p_fields = [\<lparr>fld_offset = 0, fld_size = 24, fld_is_float = False\<rparr>]\<rparr>]"

theorem parameters_do_not_overlap_witness:
  "regs_from 0 6 (int_regs (call_regs some_parms (sysv_call_init True)))
   \<and> call_regs some_parms (sysv_call_init True) = [([0], []), ([], [0]), ([1], [1]), ([], []), ([2, 3], []), ([], [2]), ([4], [])]
   \<and> map parm_reg (fst (alloc_parms some_parms (sysv_call_init True))) = [Some 0, Some 0, Some 1, None, Some 2, Some 2, Some 4]
   \<and> slots some_parms (fst (alloc_parms some_parms (sysv_call_init True))) = [(0, 8)]"
proof -
  have ok: "\<forall>p \<in> set some_parms. parm_ok p" by (simp add: some_parms_def parm_ok_def)
  obtain infos st where r: "alloc_parms some_parms (sysv_call_init True) = (infos, st)" by fastforce
  have "call_regs some_parms (sysv_call_init True) = [([0], []), ([], [0]), ([1], [1]), ([], []), ([2, 3], []), ([], [2]), ([4], [])]"
    "map parm_reg (fst (alloc_parms some_parms (sysv_call_init True))) = [Some 0, Some 0, Some 1, None, Some 2, Some 2, Some 4]"
    "slots some_parms (fst (alloc_parms some_parms (sysv_call_init True))) = [(0, 8)]"
    by code_simp+
  then show ?thesis using parameters_do_not_overlap [OF ok r] r by simp
qed

text \<open>An empty structure asks for no register and is given one all the same, also when none is left.\<close>

lemma empty_struct_gets_xmm8:
  "parm_reg (last (fst (alloc_parms (replicate 8 \<lparr>p_is_float = True, p_size = 8, p_is_struct = False, p_fields = []\<rparr>
     @ [\<lparr>p_is_float = False, p_size = 1, p_is_struct = True, p_fields = []\<rparr>]) (sysv_call_init False)))) = Some 8"
  by code_simp

text \<open>
  The frame has room for the locals and the outgoing arguments, but the stack pointer at a call is
  never a multiple of 16, as the convention asks: whatever the sizes and the number of saved registers,
  it is 8 more than one.
\<close>
theorem frame_leaves_calls_misaligned:
  assumes "rsp mod 16 = 8"
  shows "(let frame = sysv_compute_frame locals outgoing saved True;
              rsp' = rsp - 8 - callee_save_size frame - frame_size frame
          in rsp' mod 16 = 8 \<and> locals + outgoing * 8 \<le> frame_size frame \<and> frame_size frame < locals + outgoing * 8 + 16)"
proof -
  define raw where "raw = locals + outgoing * 8"
  define f where "f = frame_size (sysv_compute_frame locals outgoing saved True)"
  have c: "callee_save_size (sysv_compute_frame locals outgoing saved True) = saved * 8"
    by (simp add: sysv_compute_frame_def Let_def)
  have r: "raw \<le> round16 raw" "round16 raw < raw + 16" "round16 raw mod 16 = 0" by (rule round16_bounds)+
  have f: "f = (if (1 + saved) mod 2 = 0 then round16 raw else if 15 < round16 raw + 8 - raw then round16 raw - 8 else round16 raw + 8)"
    by (simp add: f_def sysv_compute_frame_def Let_def raw_def)
  have "raw \<le> f" using r unfolding f by (simp split: if_splits)
  moreover have "f < raw + 16" using r unfolding f by (simp split: if_splits)
  ultimately have bounds: "raw \<le> f" "f < raw + 16" .
  have "(rsp - 8 - saved * 8 - f) mod 16 = 8"
    using assms r(3) unfolding f by (auto split: if_splits; presburger?)
  then show ?thesis using bounds by (simp add: Let_def c f_def [symmetric] raw_def)
qed

theorem frame_leaves_calls_misaligned_witness:
  "(let frame = sysv_compute_frame 24 1 2 True in (1000 - 8 - callee_save_size frame - frame_size frame) mod 16 = (8 :: int))"
  using frame_leaves_calls_misaligned [of 1000 24 1 2] by (simp add: Let_def)

end
