(* ===== verification/OwlBuffer.thy ===== *)
theory OwlBuffer
  imports OwPrelude
begin

text \<open>
  The section buffer of the object writer library (\<open>bld/owl/c/owbuffer.c\<close>): a growing file kept in
  16 bins of equal size, which are collapsed into one bin of 16 times the size when they are full.

  A cell of allocated memory is \<open>None\<close> until it is written.  Reading an unwritten cell or outside a
  bin, or a failing assertion, makes an operation \<open>None\<close>.  Sizes and the location inside the buffer are \<open>size_t\<close>, natural numbers
  here: that they wrap around at 2 to the 64 is modelled only where an offset of the client meets them, and allocation succeeds.
  The client's offsets are 32-bit signed integers (\<open>owl_offset\<close>): going in they are sign-extended, coming out the
  location and the size are cut to 32 bits.
\<close>

section \<open>Offsets\<close>

type_synonym owl_offset = u32

definition to_size :: "owl_offset \<Rightarrow> nat" where
  "to_size w = unat (scast w :: u64)"

definition to_offset :: "nat \<Rightarrow> owl_offset" where
  "to_offset n = word_of_nat n"

text \<open>Below two gigabytes neither conversion changes the number.\<close>

lemma sint_small:
  assumes "unat w < 2 ^ 31"
  shows "sint (w :: u32) = int (unat w)"
proof -
  have u: "uint w = int (unat w)" by simp
  have "int (unat w) < 2 ^ 31" using assms by (metis of_nat_less_iff of_nat_numeral of_nat_power)
  moreover have "sint w = signed_take_bit 31 (uint w)" by (simp add: sint_uint)
  moreover have "- (2 ^ 31) \<le> int (unat w)" by (rule order_trans [of _ 0]) simp_all
  ultimately show ?thesis unfolding u using signed_take_bit_int_eq_self [of 31 "int (unat w)"] by metis
qed

lemma scast_small:
  assumes "unat w < 2 ^ 31"
  shows "unat (scast (w :: u32) :: u64) = unat w"
proof -
  have "(scast w :: u64) = word_of_int (sint w)" by (simp add: of_int_sint)
  also have "\<dots> = word_of_nat (unat w)" unfolding sint_small [OF assms] by (rule of_int_of_nat_eq)
  finally have s: "(scast w :: u64) = word_of_nat (unat w)" .
  show ?thesis unfolding s using assms by (simp add: unsigned_ucast_eq take_bit_nat_eq_self)
qed

lemma to_size_small [simp]: "unat w < 2 ^ 31 \<Longrightarrow> to_size w = unat w"
  by (simp add: to_size_def scast_small)

lemma unat_ucast_mod: "unat (ucast (v :: u64) :: u32) = unat v mod 2 ^ 32"
  by (simp add: unsigned_ucast_eq take_bit_eq_mod)

lemma to_size_ge: "unat w \<le> to_size w"
proof -
  have "(ucast (scast w :: u64) :: u32) = w" by (rule bit_word_eqI) (auto simp: bit_simps)
  then have "unat w = unat (scast w :: u64) mod 2 ^ 32"
    by (metis unat_ucast_mod)
  then show ?thesis by (simp add: to_size_def)
qed

lemma unat_to_offset [simp]: "n < 2 ^ 32 \<Longrightarrow> unat (to_offset n) = n"
  by (simp add: to_offset_def unat_of_nat)

section \<open>What a byte store promises\<close>

definition overwrite :: "bytes \<Rightarrow> nat \<Rightarrow> bytes \<Rightarrow> bytes" where
  "overwrite c i d = take i (c @ replicate (i - length c) 0) @ d @ drop (i + length d) c"

lemma length_overwrite: "length (overwrite c i d) = max (length c) (i + length d)"
  by (auto simp: overwrite_def max_def min_def)

lemma take_overwrite: "i \<le> length c \<Longrightarrow> take i (overwrite c i d) = take i c"
  by (simp add: overwrite_def)

lemma overwrite_at: "take (length d) (drop i (overwrite c i d)) = d"
  by (simp add: overwrite_def)

lemma overwrite_end: "overwrite c (length c) d = c @ d"
  by (simp add: overwrite_def)

lemma nth_overwrite:
  assumes "p < max (length c) (i + length d)"
  shows "overwrite c i d ! p = (if i \<le> p \<and> p < i + length d then d ! (p - i) else if p < length c then c ! p else 0)"
  using assms by (auto simp: overwrite_def nth_append min_def max_def not_less split: if_splits)

lemma overwrite_overwrite: "overwrite (overwrite c i d) (i + length d) e = overwrite c i (d @ e)"
proof (rule nth_equalityI)
  fix p assume "p < length (overwrite (overwrite c i d) (i + length d) e)"
  then show "overwrite (overwrite c i d) (i + length d) e ! p = overwrite c i (d @ e) ! p"
    by (auto simp: nth_overwrite length_overwrite nth_append max_def split: if_splits)
qed (simp add: length_overwrite max_def)

text \<open>
  A client writes at the current position, moves it, and reads back; the laws relate the operations
  to the contents as one sequence of bytes, in which a gap left by a move past the end is zeros.
\<close>

locale byte_store =
  fixes inv :: "'s \<Rightarrow> bool"
    and contents :: "'s \<Rightarrow> bytes"
    and pos :: "'s \<Rightarrow> nat"
    and tell :: "'s \<Rightarrow> owl_offset"
    and put :: "'s \<Rightarrow> bytes \<Rightarrow> 's option"
    and seek :: "'s \<Rightarrow> owl_offset \<Rightarrow> 's"
    and get :: "'s \<Rightarrow> owl_offset \<Rightarrow> nat \<Rightarrow> bytes option"
  assumes write_law: "inv s \<Longrightarrow> d \<noteq> [] \<Longrightarrow> \<exists>s'. put s d = Some s' \<and> inv s'
      \<and> contents s' = overwrite (contents s) (pos s) d \<and> pos s' = pos s + length d"
    and tell_law: "pos s < 2 ^ 32 \<Longrightarrow> unat (tell s) = pos s"
    and seek_law: "inv s \<Longrightarrow> inv (seek s i) \<and> contents (seek s i) = contents s"
    and seek_pos: "unat i < 2 ^ 31 \<Longrightarrow> pos (seek s i) = unat i"
    and read_law: "inv s \<Longrightarrow> unat i + n \<le> length (contents s) \<Longrightarrow> unat i < 2 ^ 31 \<Longrightarrow> unat i + n \<le> 2 ^ 31 \<Longrightarrow>
      get s i n = Some (take n (drop (unat i) (contents s)))"
begin

lemma write_read_back:
  assumes "inv s" and "d \<noteq> []" and "pos s + length d \<le> 2 ^ 31"
  shows "\<exists>s'. put s d = Some s' \<and> inv s' \<and> get s' (tell s) (length d) = Some d"
proof -
  have pos: "pos s < 2 ^ 31" using assms(2,3) by (cases d) simp_all
  then have tell: "unat (tell s) = pos s" by (intro tell_law) simp
  obtain s' where s': "put s d = Some s'" "inv s'" "contents s' = overwrite (contents s) (pos s) d"
    using write_law [OF assms(1,2)] by blast
  then have "get s' (tell s) (length d) = Some (take (length d) (drop (pos s) (contents s')))"
    using read_law [OF s'(2), of "tell s" "length d"] pos tell assms(3) by (simp add: s'(3) length_overwrite)
  then show ?thesis using s' by (simp add: overwrite_at)
qed

lemma write_keeps_rest:
  assumes "inv s" and "d \<noteq> []" and "unat i + n \<le> pos s" and "unat i + n \<le> length (contents s)" and "pos s < 2 ^ 31"
  shows "\<exists>s'. put s d = Some s' \<and> get s' i n = get s i n"
proof -
  obtain s' where s': "put s d = Some s'" "inv s'" "contents s' = overwrite (contents s) (pos s) d"
    using write_law [OF assms(1,2)] by blast
  have "take n (drop (unat i) (contents s')) = take n (drop (unat i) (contents s))"
  proof (rule nth_equalityI)
    show "length (take n (drop (unat i) (contents s'))) = length (take n (drop (unat i) (contents s)))"
      using assms(4) by (simp add: s'(3) length_overwrite min_absorb2 le_max_iff_disj)
    fix k assume "k < length (take n (drop (unat i) (contents s')))"
    then have "unat i + k < unat i + n" by simp
    then show "take n (drop (unat i) (contents s')) ! k = take n (drop (unat i) (contents s)) ! k"
      using assms(3,4) by (simp add: s'(3) nth_overwrite length_overwrite)
  qed
  then show ?thesis using s' assms by (simp add: read_law length_overwrite)
qed

lemma write_write:
  assumes "inv s" and "d \<noteq> []" and "e \<noteq> []"
  shows "\<exists>s1 s2 s3. put s d = Some s1 \<and> put s1 e = Some s2 \<and> put s (d @ e) = Some s3
    \<and> contents s2 = contents s3 \<and> pos s2 = pos s3"
proof -
  obtain s1 where s1: "put s d = Some s1" "inv s1" "contents s1 = overwrite (contents s) (pos s) d" "pos s1 = pos s + length d"
    using write_law [OF assms(1,2)] by blast
  obtain s2 where s2: "put s1 e = Some s2" "contents s2 = overwrite (contents s1) (pos s1) e" "pos s2 = pos s1 + length e"
    using write_law [OF s1(2) assms(3)] by blast
  obtain s3 where s3: "put s (d @ e) = Some s3" "contents s3 = overwrite (contents s) (pos s) (d @ e)" "pos s3 = pos s + length (d @ e)"
    using write_law [OF assms(1), of "d @ e"] assms(2) by auto
  show ?thesis using s1 s2 s3 by (simp add: overwrite_overwrite)
qed

end

section \<open>The buffer\<close>

type_synonym cell = "u8 option"

record owl_buffer =
  location :: nat
  bsize :: nat
  bin_size :: nat
  bins :: "cell list option list"

definition NUM_BINS :: nat where "NUM_BINS = 16"
definition INITIAL_BIN_SIZE :: nat where "INITIAL_BIN_SIZE = 8 * 1024"

definition bin_init :: "cell list option list" where
  "bin_init = replicate NUM_BINS None"

fun all_some :: "'a option list \<Rightarrow> 'a list option" where
  "all_some [] = Some []"
| "all_some (x # xs) = do { y \<leftarrow> x; ys \<leftarrow> all_some xs; Some (y # ys) }"

definition buffer_collapse :: "owl_buffer \<Rightarrow> owl_buffer option" where
  "buffer_collapse b =
    (if bsize b \<noteq> bin_size b * NUM_BINS then None
     else do {
       bs \<leftarrow> all_some (bins b);
       Some (b\<lparr>bins := (bin_init)[0 := Some (concat bs)], bin_size := bsize b\<rparr>)
     })"

definition bin_bytes_left :: "owl_buffer \<Rightarrow> nat" where
  "bin_bytes_left b = bin_size b - location b mod bin_size b"

definition buffer_full :: "owl_buffer \<Rightarrow> bool" where
  "buffer_full b \<longleftrightarrow> bsize b = bin_size b * NUM_BINS"

text \<open>\<open>bufferFull\<close> with its assertion.\<close>

definition bufferFull :: "owl_buffer \<Rightarrow> bool option" where
  "bufferFull b = (if bsize b \<le> bin_size b * NUM_BINS then Some (bsize b = bin_size b * NUM_BINS) else None)"

text \<open>\<open>bufferFill\<close>; the data are absent when zeros are wanted.\<close>

definition buffer_fill :: "owl_buffer \<Rightarrow> bytes option \<Rightarrow> nat \<Rightarrow> owl_buffer option" where
  "buffer_fill b data len =
    (let index = location b div bin_size b; off = location b mod bin_size b;
         src = (case data of Some d \<Rightarrow> map Some (take len d) | None \<Rightarrow> replicate len (Some 0))
     in if \<not> len \<le> bin_bytes_left b \<or> length (bins b) \<le> index \<or> length src \<noteq> len then None
        else (let bin = (case bins b ! index of None \<Rightarrow> replicate (bin_size b) None | Some c \<Rightarrow> c)
              in do {
                bin' \<leftarrow> wr_slice bin off src;
                Some (b\<lparr>bins := (bins b)[index := Some bin'],
                        bsize := (if bsize b < location b + len then location b + len else bsize b)\<rparr>)
              }))"

text \<open>
  The loop of \<open>bufferWrite\<close>.  A chunk is never empty in a buffer whose bins have a size; with no size
  the loop would not end, which is \<open>None\<close> here.
\<close>

function write_chunks :: "owl_buffer \<Rightarrow> bytes option \<Rightarrow> nat \<Rightarrow> owl_buffer option" where
  "write_chunks b data n =
    (if n = 0 then Some b
     else (case bufferFull b of
             None \<Rightarrow> None
           | Some full \<Rightarrow>
               (case (if full then buffer_collapse b else Some b) of
                  None \<Rightarrow> None
                | Some b1 \<Rightarrow>
                    let chunk = min n (bin_bytes_left b1) in
                    if chunk = 0 then None
                    else (case buffer_fill b1 data chunk of
                            None \<Rightarrow> None
                          | Some b2 \<Rightarrow> write_chunks (b2\<lparr>location := location b2 + chunk\<rparr>) (map_option (drop chunk) data) (n - chunk)))))"
  by pat_completeness auto
termination
  by (relation "measure (\<lambda>(b, data, n). n)") auto

declare write_chunks.simps [simp del]

definition buffer_write :: "owl_buffer \<Rightarrow> bytes option \<Rightarrow> nat \<Rightarrow> owl_buffer option" where
  "buffer_write b data n = (if location b \<le> bsize b then write_chunks b data n else None)"

definition buffer_pad :: "owl_buffer \<Rightarrow> nat \<Rightarrow> owl_buffer option" where
  "buffer_pad b to =
    (if bsize b < to then do {
       let old_location = location b;
       b' \<leftarrow> buffer_write (b\<lparr>location := bsize b\<rparr>) None (to - bsize b);
       Some (b'\<lparr>location := old_location\<rparr>)
     } else Some b)"

definition OWLBufferInit :: owl_buffer where
  "OWLBufferInit = \<lparr>location = 0, bsize = 0, bin_size = INITIAL_BIN_SIZE, bins = bin_init\<rparr>"

definition OWLBufferWrite :: "owl_buffer \<Rightarrow> bytes \<Rightarrow> owl_buffer option" where
  "OWLBufferWrite b src = do {
     b' \<leftarrow> (if bsize b < location b then buffer_pad b (location b) else Some b);
     buffer_write b' (Some src) (length src)
   }"

text \<open>
  The loop of \<open>OWLBufferRead\<close>, with the zeros for an index past the bins.  The location stays an
  \<open>owl_offset\<close> from chunk to chunk; the sum in the assertion is of \<open>size_t\<close>.
\<close>

function buffer_read :: "owl_buffer \<Rightarrow> owl_offset \<Rightarrow> nat \<Rightarrow> bytes option" where
  "buffer_read b loc n =
    (if n = 0 then Some []
     else (let index = to_size loc div bin_size b in
       if NUM_BINS \<le> index then Some (replicate n 0)
       else (let chunk = min (bin_size b - to_size loc mod bin_size b) n in
         if chunk = 0 then None
         else (case rd (bins b) index of
                 Some (Some bin) \<Rightarrow>
                   (case rd_slice bin (to_size loc mod bin_size b) chunk of
                      None \<Rightarrow> None
                    | Some cs \<Rightarrow>
                        (case all_some cs of
                           None \<Rightarrow> None
                         | Some d \<Rightarrow> map_option (\<lambda>r. d @ r) (buffer_read b (to_offset (to_size loc + chunk)) (n - chunk))))
               | _ \<Rightarrow> None))))"
  by pat_completeness auto
termination
  by (relation "measure (\<lambda>(b, loc, n). n)") auto

declare buffer_read.simps [simp del]

definition OWLBufferRead :: "owl_buffer \<Rightarrow> owl_offset \<Rightarrow> nat \<Rightarrow> bytes option" where
  "OWLBufferRead b loc len = (if (to_size loc + len) mod 2 ^ 64 \<le> bsize b then buffer_read b loc len else None)"

definition OWLBufferTell :: "owl_buffer \<Rightarrow> owl_offset" where
  "OWLBufferTell b = to_offset (location b)"

definition OWLBufferSeek :: "owl_buffer \<Rightarrow> owl_offset \<Rightarrow> owl_buffer" where
  "OWLBufferSeek b loc = b\<lparr>location := to_size loc\<rparr>"

definition OWLBufferSize :: "owl_buffer option \<Rightarrow> owl_offset" where
  "OWLBufferSize b = (case b of None \<Rightarrow> 0 | Some b \<Rightarrow> to_offset (bsize b))"

text \<open>What \<open>OWLBufferEmit\<close> writes to the file: whole bins, then the rest of the last one.\<close>

definition OWLBufferEmit :: "owl_buffer \<Rightarrow> bytes option" where
  "OWLBufferEmit b =
    (let last_bin = bsize b div bin_size b;
         rest = bsize b mod bin_size b
     in do {
       bs \<leftarrow> all_some (take last_bin (bins b));
       whole \<leftarrow> all_some (concat (map (take (bin_size b)) bs));
       bin \<leftarrow> rd (bins b) last_bin;
       part \<leftarrow> (if rest = 0 then Some []
                else (case bin of
                        Some c \<Rightarrow> (case rd_slice c 0 rest of Some cs \<Rightarrow> all_some cs | None \<Rightarrow> None)
                      | None \<Rightarrow> None));
       Some (whole @ part)
     })"


section \<open>The invariant and the contents\<close>

definition cell_at :: "owl_buffer \<Rightarrow> nat \<Rightarrow> cell" where
  "cell_at b p = (case bins b ! (p div bin_size b) of Some c \<Rightarrow> c ! (p mod bin_size b) | None \<Rightarrow> None)"

definition buffer_inv :: "owl_buffer \<Rightarrow> bool" where
  "buffer_inv b \<longleftrightarrow> 0 < bin_size b \<and> length (bins b) = NUM_BINS \<and> bsize b \<le> bin_size b * NUM_BINS
     \<and> (\<forall>i < NUM_BINS. \<forall>c. bins b ! i = Some c \<longrightarrow> length c = bin_size b)
     \<and> (\<forall>p < bsize b. cell_at b p \<noteq> None)"

definition buffer_contents :: "owl_buffer \<Rightarrow> bytes" where
  "buffer_contents b = map (\<lambda>p. the (cell_at b p)) [0..<bsize b]"

lemma length_buffer_contents [simp]: "length (buffer_contents b) = bsize b"
  by (simp add: buffer_contents_def)

lemma nth_buffer_contents: "p < bsize b \<Longrightarrow> buffer_contents b ! p = the (cell_at b p)"
  by (simp add: buffer_contents_def)

lemma cell_at_content: "buffer_inv b \<Longrightarrow> p < bsize b \<Longrightarrow> cell_at b p = Some (buffer_contents b ! p)"
  by (auto simp: buffer_inv_def nth_buffer_contents)

lemma bin_below: "p < s * n \<Longrightarrow> p div s < n" for p s n :: nat
  by (metis less_mult_imp_div_less mult.commute)

lemma cell_at_location [simp]: "cell_at (b\<lparr>location := l\<rparr>) p = cell_at b p"
  by (simp add: cell_at_def split: option.split)

lemma buffer_inv_location [simp]: "buffer_inv (b\<lparr>location := l\<rparr>) \<longleftrightarrow> buffer_inv b"
  by (simp add: buffer_inv_def)

lemma buffer_contents_location [simp]: "buffer_contents (b\<lparr>location := l\<rparr>) = buffer_contents b"
  by (simp add: buffer_contents_def)

text \<open>Below the size every bin is there.\<close>

lemma bin_present:
  assumes "buffer_inv b" and "p < bsize b"
  obtains c where "bins b ! (p div bin_size b) = Some c" "length c = bin_size b" "p div bin_size b < NUM_BINS"
proof -
  have lt: "p div bin_size b < NUM_BINS"
    using assms by (intro bin_below) (auto simp: buffer_inv_def intro: less_le_trans)
  have "cell_at b p \<noteq> None" using assms by (simp add: buffer_inv_def)
  then obtain c where "bins b ! (p div bin_size b) = Some c" by (auto simp: cell_at_def split: option.splits)
  then show thesis using assms(1) lt by (intro that) (auto simp: buffer_inv_def)
qed

lemma all_some_map: "all_some xs = Some ys \<longleftrightarrow> xs = map Some ys"
proof (induction xs arbitrary: ys)
  case (Cons x xs)
  then show ?case by (cases ys) (auto simp: bind_eq_Some_conv)
qed auto

lemma all_some_nth: "(\<forall>i < length xs. xs ! i = Some (f i)) \<Longrightarrow> all_some xs = Some (map f [0..<length xs])"
  unfolding all_some_map by (rule nth_equalityI) simp_all

lemma nth_concat_equal:
  assumes "\<forall>x \<in> set xs. length x = n" and "p < n * length xs"
  shows "concat xs ! p = xs ! (p div n) ! (p mod n)"
  using assms
proof (induction xs arbitrary: p)
  case (Cons x xs)
  then have n: "length x = n" "0 < n" by (auto intro: gr0I)
  show ?case
  proof (cases "p < n")
    case True
    then show ?thesis using n by (simp add: nth_append)
  next
    case False
    then have "p div n = Suc ((p - n) div n)" "p mod n = (p - n) mod n"
      using n(2) by (simp_all add: le_div_geq le_mod_geq)
    then show ?thesis using Cons False n by (simp add: nth_append)
  qed
qed simp

lemma length_concat_equal: "\<forall>x \<in> set xs. length x = n \<Longrightarrow> length (concat xs) = n * length xs"
  by (induction xs) auto

section \<open>The operations keep it\<close>

lemma buffer_collapse_ok:
  assumes "buffer_inv b" and "buffer_full b"
  shows "\<exists>b'. buffer_collapse b = Some b' \<and> buffer_inv b' \<and> bsize b' = bsize b \<and> location b' = location b
    \<and> \<not> buffer_full b' \<and> (\<forall>p < bsize b. cell_at b' p = cell_at b p)"
proof -
  have n: "0 < bin_size b" "length (bins b) = NUM_BINS" and sz: "bsize b = bin_size b * NUM_BINS"
    using assms by (simp_all add: buffer_inv_def buffer_full_def)
  define f where "f i = the (bins b ! i)" for i
  have bin: "bins b ! i = Some (f i) \<and> length (f i) = bin_size b" if "i < NUM_BINS" for i
  proof -
    have "i * bin_size b < bsize b" using that n(1) by (simp add: sz mult.commute)
    then obtain c where "bins b ! (i * bin_size b div bin_size b) = Some c" "length c = bin_size b"
      using bin_present [OF assms(1)] by blast
    moreover have "i * bin_size b div bin_size b = i" using n(1) by simp
    ultimately show ?thesis by (simp add: f_def)
  qed
  define bs where "bs = map f [0..<NUM_BINS]"
  have bs: "all_some (bins b) = Some bs"
    using all_some_nth [of "bins b" f] bin n(2) by (simp add: bs_def)
  have eq: "\<forall>x \<in> set bs. length x = bin_size b" "length bs = NUM_BINS" using bin by (auto simp: bs_def)
  define b' where "b' = b\<lparr>bins := bin_init[0 := Some (concat bs)], bin_size := bsize b\<rparr>"
  have run: "buffer_collapse b = Some b'" using sz by (simp add: buffer_collapse_def bs b'_def)
  have bins': "bins b' ! i = (if i = 0 then Some (concat bs) else None)" if "i < NUM_BINS" for i
    using that by (simp add: b'_def bin_init_def nth_list_update)
  have cells: "cell_at b' p = cell_at b p" if "p < bsize b" for p
  proof -
    have "p div bin_size b < NUM_BINS" using that by (intro bin_below) (simp add: sz)
    then have "cell_at b p = concat bs ! p"
      using that nth_concat_equal [OF eq(1), of p] eq(2) bin by (simp add: cell_at_def sz bs_def)
    moreover have "cell_at b' p = concat bs ! p"
      using that bins' [of 0] by (simp add: cell_at_def b'_def NUM_BINS_def bin_init_def)
    ultimately show ?thesis by simp
  qed
  have "0 < bsize b" using n(1) by (simp add: sz NUM_BINS_def)
  moreover have "length (concat bs) = bsize b" using length_concat_equal [OF eq(1)] eq(2) by (simp add: sz)
  ultimately have "buffer_inv b'"
    using cells bins' assms(1) unfolding buffer_inv_def by (auto simp: b'_def bin_init_def NUM_BINS_def split: if_splits)
  moreover have "\<not> buffer_full b'" using \<open>0 < bsize b\<close> by (simp add: buffer_full_def b'_def NUM_BINS_def)
  ultimately show ?thesis using run cells by (auto simp: b'_def)
qed

text \<open>The byte \<open>k\<close> of what is written: of the data, or zero.\<close>

definition src_byte :: "bytes option \<Rightarrow> nat \<Rightarrow> u8" where
  "src_byte data k = (case data of Some d \<Rightarrow> d ! k | None \<Rightarrow> 0)"

lemma src_byte_drop: "(\<forall>d. data = Some d \<longrightarrow> c + k \<le> length d) \<Longrightarrow> src_byte (map_option (drop c) data) k = src_byte data (c + k)"
  by (cases data) (simp_all add: src_byte_def)

lemma buffer_fill_ok:
  assumes inv: "buffer_inv b" and loc: "location b \<le> bsize b" and nf: "\<not> buffer_full b"
    and len: "len \<le> bin_bytes_left b" and src: "\<forall>d. data = Some d \<longrightarrow> len \<le> length d"
  shows "\<exists>b'. buffer_fill b data len = Some b' \<and> buffer_inv b' \<and> location b' = location b
    \<and> bin_size b' = bin_size b \<and> bsize b' = max (bsize b) (location b + len)
    \<and> (\<forall>p < bsize b'. cell_at b' p = (if location b \<le> p \<and> p < location b + len
         then Some (src_byte data (p - location b)) else cell_at b p))"
proof -
  define index where "index = location b div bin_size b"
  define off where "off = location b mod bin_size b"
  define src' where "src' = (case data of Some d \<Rightarrow> map Some (take len d) | None \<Rightarrow> replicate len (Some 0))"
  define bin where "bin = (case bins b ! index of None \<Rightarrow> replicate (bin_size b) None | Some c \<Rightarrow> c)"
  have n: "0 < bin_size b" "length (bins b) = NUM_BINS" using inv by (simp_all add: buffer_inv_def)
  have "location b < bin_size b * NUM_BINS"
    using loc nf inv by (auto simp: buffer_full_def buffer_inv_def)
  then have index: "index < NUM_BINS" unfolding index_def by (rule bin_below)
  have lsrc: "length src' = len" using src by (cases data) (simp_all add: src'_def min_def)
  have nsrc: "src' ! k = Some (src_byte data k)" if "k < len" for k
    using that src by (cases data) (simp_all add: src'_def src_byte_def)
  have lbin: "length bin = bin_size b" using inv index by (auto simp: bin_def buffer_inv_def split: option.splits)
  have off: "off < bin_size b" "off + len \<le> bin_size b"
    using n(1) len by (simp_all add: off_def bin_bytes_left_def) (metis le_diff_conv2 add.commute mod_less_divisor less_imp_le)
  have at: "location b = bin_size b * index + off" by (simp add: index_def off_def)
  define bin' where "bin' = take off bin @ src' @ drop (off + len) bin"
  have wr: "wr_slice bin off src' = Some bin'" using off lbin lsrc by (simp add: wr_slice_def bin'_def)
  have nbin': "length bin' = bin_size b" "\<And>k. k < bin_size b \<Longrightarrow>
      bin' ! k = (if off \<le> k \<and> k < off + len then src' ! (k - off) else bin ! k)"
    using wr_slice_length [OF wr] wr_slice_nth [OF wr] lbin lsrc by simp_all
  define b' where "b' = b\<lparr>bins := (bins b)[index := Some bin'], bsize := max (bsize b) (location b + len)\<rparr>"
  have run: "buffer_fill b data len = Some b'"
    using len index n(2) lsrc wr
    by (auto simp: buffer_fill_def Let_def index_def [symmetric] off_def [symmetric] src'_def [symmetric] bin_def [symmetric] b'_def)
  have cells: "cell_at b' p = (if location b \<le> p \<and> p < location b + len then Some (src_byte data (p - location b)) else cell_at b p)"
    if "p < bin_size b * NUM_BINS" for p
  proof (cases "p div bin_size b = index")
    case True
    then have p: "p = bin_size b * index + p mod bin_size b" by (metis div_mult_mod_eq mult.commute)
    have cell: "cell_at b p = bin ! (p mod bin_size b)"
      using True n(1) by (auto simp: cell_at_def bin_def split: option.splits)
    have range: "location b \<le> p \<and> p < location b + len \<longleftrightarrow> off \<le> p mod bin_size b \<and> p mod bin_size b < off + len"
      unfolding at by (subst (1 2) p) simp
    have diff: "p - location b = p mod bin_size b - off" unfolding at by (subst p) simp
    have "cell_at b' p = bin' ! (p mod bin_size b)" using True index n(2) by (simp add: cell_at_def b'_def)
    then show ?thesis
      using nbin'(2) [of "p mod bin_size b"] n(1) nsrc [of "p mod bin_size b - off"] cell range diff by auto
  next
    case False
    have "\<not> (location b \<le> p \<and> p < location b + len)"
    proof
      assume r: "location b \<le> p \<and> p < location b + len"
      have "p div bin_size b = index"
        by (rule div_nat_eqI) (use r off at in \<open>simp_all add: mult.commute\<close>)
      then show False using False by simp
    qed
    then show ?thesis using False by (auto simp: cell_at_def b'_def split: option.split)
  qed
  have fits: "location b + len \<le> bin_size b * NUM_BINS"
  proof -
    have "location b + len \<le> bin_size b * index + bin_size b" using off at by simp
    also have "\<dots> = bin_size b * Suc index" by simp
    also have "\<dots> \<le> bin_size b * NUM_BINS" using index by (intro mult_le_mono2) simp
    finally show ?thesis .
  qed
  have sz: "bsize b' \<le> bin_size b * NUM_BINS" using fits inv by (simp add: b'_def buffer_inv_def)
  have "buffer_inv b'"
    unfolding buffer_inv_def
  proof (intro conjI allI impI)
    show "length (bins b') = NUM_BINS" "0 < bin_size b'" "bsize b' \<le> bin_size b' * NUM_BINS" using n sz by (simp_all add: b'_def)
    show "length c = bin_size b'" if "i < NUM_BINS" "bins b' ! i = Some c" for i c
      using that nbin'(1) inv index n(2) by (auto simp: b'_def buffer_inv_def nth_list_update split: if_splits)
    show "cell_at b' p \<noteq> None" if "p < bsize b'" for p
      using cells [of p] that sz inv loc by (auto simp: buffer_inv_def b'_def max_def not_less split: if_splits)
  qed
  then show ?thesis using run cells sz by (auto simp: b'_def)
qed

lemma bin_bytes_left_pos: "buffer_inv b \<Longrightarrow> 0 < bin_bytes_left b"
  by (simp add: buffer_inv_def bin_bytes_left_def)

lemma write_chunks_ok:
  assumes "buffer_inv b" and "location b \<le> bsize b" and "\<forall>d. data = Some d \<longrightarrow> n \<le> length d"
  shows "\<exists>b'. write_chunks b data n = Some b' \<and> buffer_inv b' \<and> location b' = location b + n
    \<and> bsize b' = max (bsize b) (location b + n)
    \<and> (\<forall>p < bsize b'. cell_at b' p = (if location b \<le> p \<and> p < location b + n
         then Some (src_byte data (p - location b)) else cell_at b p))"
  using assms
proof (induction n arbitrary: b data rule: less_induct)
  case (less n)
  show ?case
  proof (cases "n = 0")
    case True
    then have "write_chunks b data n = Some b" by (subst write_chunks.simps) simp
    then show ?thesis using less.prems True by (intro exI [of _ b]) auto
  next
    case False
    have "bsize b \<le> bin_size b * NUM_BINS" using less.prems(1) by (simp add: buffer_inv_def)
    then have full: "bufferFull b = Some (buffer_full b)" by (simp add: bufferFull_def buffer_full_def)
    obtain b1 where b1: "(if buffer_full b then buffer_collapse b else Some b) = Some b1" "buffer_inv b1"
      "bsize b1 = bsize b" "location b1 = location b" "\<not> buffer_full b1" "\<forall>p < bsize b. cell_at b1 p = cell_at b p"
      using buffer_collapse_ok [OF less.prems(1)] less.prems(1) by (cases "buffer_full b") auto
    define k where "k = min n (bin_bytes_left b1)"
    have k: "0 < k" "k \<le> n" "k \<le> bin_bytes_left b1" using False bin_bytes_left_pos [OF b1(2)] by (simp_all add: k_def)
    obtain b2 where b2: "buffer_fill b1 data k = Some b2" "buffer_inv b2" "location b2 = location b"
      "bsize b2 = max (bsize b) (location b + k)"
      "\<forall>p < bsize b2. cell_at b2 p = (if location b \<le> p \<and> p < location b + k then Some (src_byte data (p - location b)) else cell_at b1 p)"
      using buffer_fill_ok [OF b1(2) _ b1(5) k(3), of data] b1(3,4) less.prems(2,3) k(2) by fastforce
    define b3 where "b3 = b2\<lparr>location := location b2 + k\<rparr>"
    have inv3: "buffer_inv b3" and cell3: "cell_at b3 p = cell_at b2 p" for p using b2(2) by (simp_all add: b3_def)
    have "n - k < n" "location b3 \<le> bsize b3" "\<forall>d. map_option (drop k) data = Some d \<longrightarrow> n - k \<le> length d"
      using k b2(3,4) less.prems(3) by (auto simp: b3_def)
    then obtain b' where b': "write_chunks b3 (map_option (drop k) data) (n - k) = Some b'" "buffer_inv b'"
      "location b' = location b3 + (n - k)" "bsize b' = max (bsize b3) (location b3 + (n - k))"
      "\<forall>p < bsize b'. cell_at b' p = (if location b3 \<le> p \<and> p < location b3 + (n - k)
         then Some (src_byte (map_option (drop k) data) (p - location b3)) else cell_at b3 p)"
      using less.IH [of "n - k" b3 "map_option (drop k) data"] inv3 by blast
    have l3: "location b3 = location b + k" "bsize b3 = max (bsize b) (location b + k)" using b2 by (simp_all add: b3_def)
    have run: "write_chunks b data n = Some b'"
      using False k(1) b1(1) b2(1) b'(1) full by (simp add: write_chunks.simps [of b data n] k_def [symmetric] b3_def)
    have sizes: "location b' = location b + n" "bsize b' = max (bsize b) (location b + n)"
      using b'(3,4) l3 k(2) by simp_all
    have "cell_at b' p = (if location b \<le> p \<and> p < location b + n then Some (src_byte data (p - location b)) else cell_at b p)"
      if p: "p < bsize b'" for p
    proof (cases "location b + k \<le> p \<and> p < location b + n")
      case True
      have d: "src_byte (map_option (drop k) data) (p - (location b + k)) = src_byte data (p - location b)"
        using src_byte_drop [of data k "p - (location b + k)"] less.prems(3) True by fastforce
      have "cell_at b' p = Some (src_byte (map_option (drop k) data) (p - (location b + k)))"
        using b'(5) p True l3(1) k(2) by simp
      then show ?thesis using True d by simp
    next
      case False
      then have "p < bsize b2" using p sizes(2) b2(4) by (auto simp: max_def split: if_splits)
      moreover have "cell_at b' p = cell_at b2 p" using b'(5) p False l3(1) k(2) cell3 by auto
      moreover have "p < bsize b" if "\<not> (location b \<le> p \<and> p < location b + k)"
        using p sizes(2) False that less.prems(2) by (auto simp: max_def split: if_splits)
      ultimately show ?thesis using b2(5) b1(6) False k(2) by (cases "location b \<le> p \<and> p < location b + k") auto
    qed
    then show ?thesis using run b'(2) sizes by blast
  qed
qed

lemma buffer_write_ok:
  assumes "buffer_inv b" and "location b \<le> bsize b" and "\<forall>d. data = Some d \<longrightarrow> n \<le> length d"
  shows "\<exists>b'. buffer_write b data n = Some b' \<and> buffer_inv b' \<and> location b' = location b + n
    \<and> bsize b' = max (bsize b) (location b + n)
    \<and> (\<forall>p < bsize b'. cell_at b' p = (if location b \<le> p \<and> p < location b + n
         then Some (src_byte data (p - location b)) else cell_at b p))"
  using write_chunks_ok [OF assms] assms(2) by (simp add: buffer_write_def)

lemma buffer_write_contents:
  assumes "buffer_inv b" and "location b \<le> bsize b"
  shows "\<exists>b'. buffer_write b (Some d) (length d) = Some b' \<and> buffer_inv b' \<and> location b' = location b + length d
    \<and> buffer_contents b' = overwrite (buffer_contents b) (location b) d"
proof -
  obtain b' where b': "buffer_write b (Some d) (length d) = Some b'" "buffer_inv b'" "location b' = location b + length d"
    "bsize b' = max (bsize b) (location b + length d)"
    "\<forall>p < bsize b'. cell_at b' p = (if location b \<le> p \<and> p < location b + length d
         then Some (src_byte (Some d) (p - location b)) else cell_at b p)"
    using buffer_write_ok [OF assms, of "Some d" "length d"] by auto
  have "buffer_contents b' = overwrite (buffer_contents b) (location b) d"
  proof (rule nth_equalityI)
    fix p assume "p < length (buffer_contents b')"
    then show "buffer_contents b' ! p = overwrite (buffer_contents b) (location b) d ! p"
      using b'(4,5) assms(2) by (auto simp: nth_overwrite nth_buffer_contents src_byte_def max_def not_less split: if_splits)
  qed (simp add: length_overwrite b'(4))
  then show ?thesis using b' by blast
qed

lemma buffer_pad_contents:
  assumes "buffer_inv b"
  shows "\<exists>b'. buffer_pad b to = Some b' \<and> buffer_inv b' \<and> location b' = location b
    \<and> buffer_contents b' = buffer_contents b @ replicate (to - bsize b) 0"
proof (cases "bsize b < to")
  case True
  obtain b' where b': "buffer_write (b\<lparr>location := bsize b\<rparr>) None (to - bsize b) = Some b'" "buffer_inv b'" "bsize b' = to"
    "\<forall>p < bsize b'. cell_at b' p = (if bsize b \<le> p \<and> p < bsize b + (to - bsize b) then Some (src_byte None (p - bsize b)) else cell_at b p)"
    using buffer_write_ok [of "b\<lparr>location := bsize b\<rparr>" None "to - bsize b"] assms True by auto
  have "buffer_contents (b'\<lparr>location := location b\<rparr>) = buffer_contents b @ replicate (to - bsize b) 0"
    by (rule nth_equalityI) (use b'(3,4) True in
      \<open>auto simp: nth_buffer_contents nth_append src_byte_def\<close>)
  then show ?thesis using True b'(1,2) by (simp add: buffer_pad_def)
qed (use assms in \<open>simp add: buffer_pad_def\<close>)

lemma overwrite_padded: "overwrite (c @ replicate (i - length c) 0) i d = overwrite c i d"
  by (auto simp: overwrite_def)

lemma OWLBufferWrite_ok:
  assumes "buffer_inv b"
  shows "\<exists>b'. OWLBufferWrite b d = Some b' \<and> buffer_inv b' \<and> location b' = location b + length d
    \<and> (d \<noteq> [] \<longrightarrow> buffer_contents b' = overwrite (buffer_contents b) (location b) d)"
proof -
  obtain b1 where b1: "(if bsize b < location b then buffer_pad b (location b) else Some b) = Some b1" "buffer_inv b1"
    "location b1 = location b" "buffer_contents b1 = buffer_contents b @ replicate (location b - bsize b) 0"
    using buffer_pad_contents [OF assms, of "location b"] assms by (cases "bsize b < location b") auto
  have "bsize b1 = bsize b + (location b - bsize b)"
    using b1(4) by (metis length_append length_buffer_contents length_replicate)
  then have "location b1 \<le> bsize b1" using b1(3) by simp
  then obtain b' where "buffer_write b1 (Some d) (length d) = Some b'" "buffer_inv b'" "location b' = location b1 + length d"
    "buffer_contents b' = overwrite (buffer_contents b1) (location b1) d"
    using buffer_write_contents [OF b1(2)] by blast
  then show ?thesis
    using b1 overwrite_padded [of "buffer_contents b" "location b" d] by (auto simp: OWLBufferWrite_def)
qed

lemma OWLBufferWrite_empty_size:
  assumes "buffer_inv b"
  shows "\<exists>b'. OWLBufferWrite b [] = Some b' \<and> buffer_inv b' \<and> location b' = location b
    \<and> bsize b' = max (bsize b) (location b)"
proof -
  have nil: "location c \<le> bsize c \<Longrightarrow> buffer_write c d 0 = Some c" for c d
    by (simp add: buffer_write_def write_chunks.simps)
  show ?thesis
  proof (cases "bsize b < location b")
    case True
    obtain b1 where "buffer_pad b (location b) = Some b1" "buffer_inv b1" "location b1 = location b"
      "buffer_contents b1 = buffer_contents b @ replicate (location b - bsize b) 0"
      using buffer_pad_contents [OF assms] by blast
    moreover from this(4) have "bsize b1 = location b"
      using True by (metis length_append length_buffer_contents length_replicate le_add_diff_inverse less_imp_le)
    ultimately show ?thesis using True nil by (simp add: OWLBufferWrite_def)
  qed (use assms nil in \<open>simp add: OWLBufferWrite_def\<close>)
qed

lemma OWLBufferWrite_nonempty:
  assumes "buffer_inv b" and "d \<noteq> []"
  shows "\<exists>b'. OWLBufferWrite b d = Some b' \<and> buffer_inv b'
    \<and> buffer_contents b' = overwrite (buffer_contents b) (location b) d \<and> location b' = location b + length d"
  using OWLBufferWrite_ok [OF assms(1), of d] assms(2) by auto

lemma buffer_read_ok:
  assumes "buffer_inv b" and "unat w + n \<le> bsize b" and "unat w + n \<le> 2 ^ 31"
  shows "buffer_read b w n = Some (take n (drop (unat w) (buffer_contents b)))"
  using assms(2,3)
proof (induction n arbitrary: w rule: less_induct)
  case (less n)
  define loc where "loc = unat w"
  note bounds = less.prems [folded loc_def]
  have sz: "to_size w = loc" if "n \<noteq> 0" using bounds(2) that by (simp add: loc_def)
  have "buffer_read b w n = Some (take n (drop loc (buffer_contents b)))"
  proof (cases "n = 0")
    case True
    then show ?thesis by (subst buffer_read.simps) simp
  next
    case False
    then have lt: "loc < bsize b" using bounds(1) by simp
    obtain c where c: "bins b ! (loc div bin_size b) = Some c" "length c = bin_size b" "loc div bin_size b < NUM_BINS"
      using bin_present [OF assms(1) lt] .
    have n: "0 < bin_size b" "length (bins b) = NUM_BINS" using assms(1) by (simp_all add: buffer_inv_def)
    define off where "off = loc mod bin_size b"
    define k where "k = min (bin_size b - off) n"
    have off: "off < bin_size b" using n(1) by (simp add: off_def)
    have k: "0 < k" "k \<le> n" "off + k \<le> bin_size b" using off False by (auto simp: k_def)
    have sl: "take k (drop off c) = map Some (take k (drop loc (buffer_contents b)))"
    proof (rule nth_equalityI)
      show "length (take k (drop off c)) = length (map Some (take k (drop loc (buffer_contents b))))"
      proof -
        have "k \<le> length c - off" "k \<le> bsize b - loc" using k c(2) bounds(1) by simp_all
        then show ?thesis by (simp add: min_absorb2)
      qed
      fix j assume "j < length (take k (drop off c))"
      then have j: "j < k" by simp
      have at: "loc + j = loc div bin_size b * bin_size b + (off + j)" by (simp add: off_def)
      have "(loc + j) div bin_size b = (off + j) div bin_size b + loc div bin_size b"
        unfolding at using n(1) by (simp add: add.commute)
      then have "(loc + j) div bin_size b = loc div bin_size b" using j k by simp
      moreover have "(loc + j) mod bin_size b = off + j"
        using at j k by (metis add.commute mod_mult_self1 mod_less add_strict_left_mono less_le_trans)
      ultimately have "cell_at b (loc + j) = c ! (off + j)" using c(1) by (simp add: cell_at_def)
      moreover have "cell_at b (loc + j) = Some (buffer_contents b ! (loc + j))"
        using cell_at_content [OF assms(1)] j k bounds(1) by simp
      ultimately show "take k (drop off c) ! j = map Some (take k (drop loc (buffer_contents b))) ! j"
        using j k c(2) bounds(1) by simp
    qed
    have next_off: "unat (to_offset (loc + k)) = loc + k" using bounds(2) k(2) by simp
    have "buffer_read b (to_offset (loc + k)) (n - k) = Some (take (n - k) (drop (loc + k) (buffer_contents b)))"
      using less.IH [of "n - k" "to_offset (loc + k)"] bounds k unfolding next_off by simp
    then have "buffer_read b w n = Some (take k (drop loc (buffer_contents b)) @ take (n - k) (drop (loc + k) (buffer_contents b)))"
      using False c k n(2) off sl sz
      by (subst buffer_read.simps)
        (simp add: Let_def off_def [symmetric] k_def [symmetric] rd_slice_def all_some_map [THEN iffD2, OF refl])
    also have "take k (drop loc (buffer_contents b)) @ take (n - k) (drop (loc + k) (buffer_contents b)) = take n (drop loc (buffer_contents b))"
      using take_add [of k "n - k" "drop loc (buffer_contents b)"] k(2) by (simp add: add.commute)
    finally show ?thesis .
  qed
  then show ?case by (simp add: loc_def)
qed

lemma OWLBufferRead_ok:
  assumes "buffer_inv b" and "unat i + n \<le> length (buffer_contents b)" and "unat i < 2 ^ 31" and "unat i + n \<le> 2 ^ 31"
  shows "OWLBufferRead b i n = Some (take n (drop (unat i) (buffer_contents b)))"
proof -
  have "(to_size i + n) mod 2 ^ 64 = unat i + n" using assms(3,4) by simp
  then show ?thesis using assms by (simp add: OWLBufferRead_def buffer_read_ok)
qed

interpretation owl: byte_store buffer_inv buffer_contents location OWLBufferTell OWLBufferWrite OWLBufferSeek OWLBufferRead
proof unfold_locales
  fix b :: owl_buffer and d :: bytes and n :: nat and i :: owl_offset
  show "\<exists>b'. OWLBufferWrite b d = Some b' \<and> buffer_inv b' \<and> buffer_contents b' = overwrite (buffer_contents b) (location b) d
      \<and> location b' = location b + length d" if "buffer_inv b" "d \<noteq> []"
    using OWLBufferWrite_nonempty [OF that] .
  show "unat (OWLBufferTell b) = location b" if "location b < 2 ^ 32" using that by (simp add: OWLBufferTell_def)
  show "buffer_inv (OWLBufferSeek b i) \<and> buffer_contents (OWLBufferSeek b i) = buffer_contents b" if "buffer_inv b"
    using that by (simp add: OWLBufferSeek_def)
  show "location (OWLBufferSeek b i) = unat i" if "unat i < 2 ^ 31" using that by (simp add: OWLBufferSeek_def)
  show "OWLBufferRead b i n = Some (take n (drop (unat i) (buffer_contents b)))"
    if "buffer_inv b" "unat i + n \<le> length (buffer_contents b)" "unat i < 2 ^ 31" "unat i + n \<le> 2 ^ 31"
    using OWLBufferRead_ok [OF that] .
qed

lemma buffer_init_inv: "buffer_inv OWLBufferInit \<and> buffer_contents OWLBufferInit = []"
  by (simp add: OWLBufferInit_def buffer_inv_def bin_init_def INITIAL_BIN_SIZE_def NUM_BINS_def buffer_contents_def)

section \<open>Emitting the buffer\<close>

lemma emit_whole_bins:
  assumes inv: "buffer_inv b" and le: "bin_size b * k \<le> bsize b"
  shows "\<exists>bs. all_some (take k (bins b)) = Some bs
    \<and> all_some (concat (map (take (bin_size b)) bs)) = Some (take (bin_size b * k) (buffer_contents b))"
proof -
  define s where "s = bin_size b"
  have s: "0 < s" "length (bins b) = NUM_BINS" "bsize b \<le> s * NUM_BINS" using inv by (simp_all add: buffer_inv_def s_def)
  have k: "k \<le> NUM_BINS" using order_trans [OF le [folded s_def] s(3)] s(1) by simp
  define bs where "bs = map (\<lambda>i. the (bins b ! i)) [0..<k]"
  have bin: "bins b ! i = Some (the (bins b ! i)) \<and> length (the (bins b ! i)) = s" if i: "i < k" for i
  proof -
    have "s * i < bsize b" using i le s(1) unfolding s_def
      by (meson less_le_trans mult_less_cancel1 s_def)
    then obtain c where "bins b ! (s * i div bin_size b) = Some c" "length c = bin_size b" by (rule bin_present [OF inv])
    then show ?thesis using s(1) by (simp add: s_def)
  qed
  have "all_some (take k (bins b)) = Some (map (\<lambda>i. the (bins b ! i)) [0..<length (take k (bins b))])"
    by (rule all_some_nth) (use bin k s(2) in auto)
  then have first: "all_some (take k (bins b)) = Some bs" using k s(2) by (simp add: bs_def min_absorb2)
  have len: "\<forall>x \<in> set bs. length x = s" using bin by (auto simp: bs_def)
  have "map (take s) bs = bs" using len by (simp add: map_idI)
  moreover have "all_some (concat bs) = Some (map (\<lambda>p. buffer_contents b ! p) [0..<length (concat bs)])"
  proof (rule all_some_nth, intro allI impI)
    fix p assume "p < length (concat bs)"
    then have p: "p < s * k" using length_concat_equal [OF len] by (simp add: bs_def)
    have "p div s < k" using p by (rule bin_below)
    then have "concat bs ! p = cell_at b p"
      using nth_concat_equal [OF len, of p] p bin [of "p div s"] by (auto simp: bs_def cell_at_def s_def split: option.split)
    then show "concat bs ! p = Some (buffer_contents b ! p)"
      using cell_at_content [OF inv, of p] p le by (simp add: s_def)
  qed
  moreover have "map (\<lambda>p. buffer_contents b ! p) [0..<length (concat bs)] = take (s * k) (buffer_contents b)"
    using length_concat_equal [OF len] le by (intro nth_equalityI) (simp_all add: bs_def s_def)
  ultimately show ?thesis using first by (simp add: s_def)
qed

lemma OWLBufferEmit_ok:
  assumes inv: "buffer_inv b"
  shows "OWLBufferEmit b = (if buffer_full b then None else Some (buffer_contents b))"
proof -
  define s where "s = bin_size b"
  define l where "l = bsize b div s"
  have s: "0 < s" "length (bins b) = NUM_BINS" "bsize b \<le> s * NUM_BINS" using inv by (simp_all add: buffer_inv_def s_def)
  have at: "bsize b = s * l + bsize b mod s" by (simp add: l_def)
  obtain bs where bs: "all_some (take l (bins b)) = Some bs"
    "all_some (concat (map (take (bin_size b)) bs)) = Some (take (s * l) (buffer_contents b))"
    using emit_whole_bins [OF inv, of l] at by (metis le_add1 s_def)
  show ?thesis
  proof (cases "buffer_full b")
    case True
    then have "l = NUM_BINS" using s(1) by (simp add: buffer_full_def l_def s_def)
    then show ?thesis using True s(2) bs
      by (simp add: OWLBufferEmit_def Let_def l_def [symmetric] s_def [symmetric] rd_def)
  next
    case False
    then have "bsize b < s * NUM_BINS" using s(3) by (simp add: buffer_full_def s_def)
    then have lt: "l < length (bins b)" unfolding l_def s(2) by (rule bin_below)
    show ?thesis
    proof (cases "bsize b mod s = 0")
      case True
      then have "take (s * l) (buffer_contents b) = buffer_contents b" using at by simp
      then show ?thesis using True False lt bs
        by (simp add: OWLBufferEmit_def Let_def l_def [symmetric] s_def [symmetric] rd_def)
    next
      case rest: False
      then have p: "s * l < bsize b" using at by linarith
      then obtain c where "bins b ! (s * l div bin_size b) = Some c" "length c = bin_size b" by (rule bin_present [OF inv])
      then have c: "bins b ! l = Some c" "length c = s" using s(1) by (simp_all add: s_def)
      have r: "bsize b mod s < s" using s(1) by simp
      have "all_some (take (bsize b mod s) c) = Some (map (\<lambda>j. buffer_contents b ! (s * l + j)) [0..<length (take (bsize b mod s) c)])"
      proof (rule all_some_nth, intro allI impI)
        fix j assume "j < length (take (bsize b mod s) c)"
        then have j: "j < bsize b mod s" by simp
        then have "cell_at b (s * l + j) = c ! j" using c r by (simp add: cell_at_def s_def [symmetric])
        then show "take (bsize b mod s) c ! j = Some (buffer_contents b ! (s * l + j))"
          using cell_at_content [OF inv, of "s * l + j"] j at by simp
      qed
      moreover have "map (\<lambda>j. buffer_contents b ! (s * l + j)) [0..<length (take (bsize b mod s) c)] = drop (s * l) (buffer_contents b)"
        by (rule nth_equalityI) (use c r at in \<open>auto simp: min_def\<close>)
      ultimately have "rd_slice c 0 (bsize b mod s) = Some (take (bsize b mod s) c)"
        "all_some (take (bsize b mod s) c) = Some (drop (s * l) (buffer_contents b))"
        using c(2) r by (simp_all add: rd_slice_def)
      then show ?thesis using rest False lt bs c(1)
        by (simp add: OWLBufferEmit_def Let_def l_def [symmetric] s_def [symmetric] rd_def)
    qed
  qed
qed

section \<open>Properties\<close>

text \<open>C25.  What is written to a section buffer is read back, as long as position and size stay below the two gigabytes an offset
  can count: after a write at the current position, which may be far past the end, may fill every bin and collapse them
  any number of times, no assertion has failed, the invariant holds, the written range reads as the data, a range before the position reads as
  it did, and the position and size reported have moved by the length of the data.\<close>
theorem buffer_write_reads_back:
  assumes "buffer_inv b" and "d \<noteq> []" and "location b + length d < 2 ^ 31" and "bsize b < 2 ^ 31"
  shows "\<exists>b'. OWLBufferWrite b d = Some b' \<and> buffer_inv b'
    \<and> OWLBufferRead b' (OWLBufferTell b) (length d) = Some d
    \<and> sint (OWLBufferTell b') = sint (OWLBufferTell b) + int (length d)
    \<and> sint (OWLBufferSize (Some b')) = max (sint (OWLBufferSize (Some b))) (sint (OWLBufferTell b) + int (length d))
    \<and> buffer_contents b' = overwrite (buffer_contents b) (nat (sint (OWLBufferTell b))) d
    \<and> (\<forall>i n. unat i + n \<le> location b \<longrightarrow> unat i + n \<le> bsize b \<longrightarrow> OWLBufferRead b' i n = OWLBufferRead b i n)"
proof -
  obtain b' where b': "OWLBufferWrite b d = Some b'" "buffer_inv b'" "OWLBufferRead b' (OWLBufferTell b) (length d) = Some d"
    using owl.write_read_back [OF assms(1,2)] assms(3) by auto
  have c: "buffer_contents b' = overwrite (buffer_contents b) (location b) d" "location b' = location b + length d"
    using owl.write_law [OF assms(1,2)] b'(1) by auto
  have size: "bsize b' = max (bsize b) (location b + length d)"
    using arg_cong [OF c(1), of length] by (simp add: length_overwrite)
  have read: "OWLBufferRead b' i n = OWLBufferRead b i n" if "unat i + n \<le> location b" "unat i + n \<le> bsize b" for i n
    using owl.write_keeps_rest [OF assms(1,2) that(1)] that(2) assms(3) b'(1) by auto
  have sint: "sint (to_offset n) = int n" if "n < 2 ^ 31" for n
    using that sint_small [of "to_offset n"] by simp
  have "sint (OWLBufferTell b) = int (location b)" "sint (OWLBufferTell b') = int (location b + length d)"
    "sint (OWLBufferSize (Some b)) = int (bsize b)" "sint (OWLBufferSize (Some b')) = int (max (bsize b) (location b + length d))"
    using assms(3,4) by (simp_all add: OWLBufferTell_def OWLBufferSize_def c(2) size sint)
  then show ?thesis using b' c(1) read by auto
qed

theorem buffer_write_reads_back_witness:
  "\<exists>b'. OWLBufferWrite OWLBufferInit [0x90, 0xC3] = Some b' \<and> OWLBufferRead b' 0 2 = Some [0x90, 0xC3]
    \<and> sint (OWLBufferSize (Some b')) = 2"
proof -
  have [simp]: "OWLBufferTell OWLBufferInit = 0" "OWLBufferSize (Some OWLBufferInit) = 0"
    and "location OWLBufferInit = 0" "bsize OWLBufferInit = 0"
    by (simp_all add: OWLBufferInit_def OWLBufferTell_def OWLBufferSize_def to_offset_def)
  moreover have "length [0x90, 0xC3 :: u8] = 2" by simp
  ultimately obtain b' where "OWLBufferWrite OWLBufferInit [0x90, 0xC3] = Some b'"
    "OWLBufferRead b' (OWLBufferTell OWLBufferInit) (length [0x90, 0xC3 :: u8]) = Some [0x90, 0xC3]"
    "sint (OWLBufferSize (Some b')) = max (sint (OWLBufferSize (Some OWLBufferInit))) (sint (OWLBufferTell OWLBufferInit) + int (length [0x90, 0xC3 :: u8]))"
    using buffer_write_reads_back [of OWLBufferInit "[0x90, 0xC3]"] buffer_init_inv by (simp del: length_Cons list.size) blast
  moreover note \<open>OWLBufferTell OWLBufferInit = 0\<close> \<open>OWLBufferSize (Some OWLBufferInit) = 0\<close> \<open>length [0x90, 0xC3 :: u8] = 2\<close>
  ultimately show ?thesis by (simp del: length_Cons list.size)
qed

text \<open>The bytes given to the client's file are exactly the contents, unless the size is exactly 16 bins:
  then the pointer after the array of bins is read.\<close>
theorem buffer_emit_contents:
  assumes "buffer_inv b"
  shows "OWLBufferEmit b = (if buffer_full b then None else Some (buffer_contents b))"
  using assms by (rule OWLBufferEmit_ok)

theorem buffer_emit_contents_witness:
  "\<exists>b'. OWLBufferWrite OWLBufferInit [0x90, 0xC3] = Some b' \<and> OWLBufferEmit b' = Some [0x90, 0xC3]"
proof -
  obtain b' where b': "OWLBufferWrite OWLBufferInit [0x90, 0xC3] = Some b'" "buffer_inv b'"
    "buffer_contents b' = overwrite (buffer_contents OWLBufferInit) (location OWLBufferInit) [0x90, 0xC3]"
    using OWLBufferWrite_nonempty [of OWLBufferInit "[0x90, 0xC3]"] buffer_init_inv by blast
  have "location OWLBufferInit = 0" by (simp add: OWLBufferInit_def)
  then have c: "buffer_contents b' = [0x90, 0xC3]" using b'(3) buffer_init_inv by (simp add: overwrite_def)
  then have "bsize b' = 2" using length_buffer_contents [of b'] by simp
  then have "\<not> buffer_full b'" by (simp add: buffer_full_def NUM_BINS_def)
  then show ?thesis using buffer_emit_contents [OF b'(2)] b'(1) c by simp
qed

end
