(* ===== verification/OwlReloc.thy ===== *)
theory OwlReloc
  imports OwPrelude "HOL-Library.Word"
begin

unbundle bit_operations_syntax

text \<open>
  Relocation types of the object writer library (\<open>bld/owl/c/owreloc.c\<close>, \<open>bld/owl/h/owl.h\<close>).  Each
  processor has a table with a row for each relocation; the arrays of COFF types, ELF types and masks are
  its columns, which the code indexes with the position of the type in the enumeration.  The first
  component of a row is the name the source writes beside it.  Indexing outside an array, and an
  \<open>assert( 0 )\<close>, is \<open>None\<close>.
\<close>

section \<open>Enumerations\<close>

datatype owl_cpu = OWL_CPU_PPC | OWL_CPU_ALPHA | OWL_CPU_MIPS | OWL_CPU_X86 | OWL_CPU_X64 | OWL_CPU_ARM | OWL_CPU_A64

datatype owl_format = OWL_FORMAT_ELF | OWL_FORMAT_COFF

datatype owl_reloc_type =
  OWL_RELOC_ABSOLUTE
| OWL_RELOC_WORD
| OWL_RELOC_HALF_HI
| OWL_RELOC_HALF_HA
| OWL_RELOC_PAIR
| OWL_RELOC_HALF_LO
| OWL_RELOC_BRANCH_REL
| OWL_RELOC_BRANCH_ABS
| OWL_RELOC_JUMP_REL
| OWL_RELOC_JUMP_ABS
| OWL_RELOC_SECTION_OFFSET
| OWL_RELOC_SECTION_INDEX
| OWL_RELOC_TOC_OFFSET
| OWL_RELOC_GLUE
| OWL_RELOC_FP_OFFSET

definition owl_relocs :: "owl_reloc_type list" where
  "owl_relocs =
    [OWL_RELOC_ABSOLUTE,
     OWL_RELOC_WORD,
     OWL_RELOC_HALF_HI,
     OWL_RELOC_HALF_HA,
     OWL_RELOC_PAIR,
     OWL_RELOC_HALF_LO,
     OWL_RELOC_BRANCH_REL,
     OWL_RELOC_BRANCH_ABS,
     OWL_RELOC_JUMP_REL,
     OWL_RELOC_JUMP_ABS,
     OWL_RELOC_SECTION_OFFSET,
     OWL_RELOC_SECTION_INDEX,
     OWL_RELOC_TOC_OFFSET,
     OWL_RELOC_GLUE,
     OWL_RELOC_FP_OFFSET]"

text \<open>The value of a C enumerator is its position.\<close>

definition reloc_index :: "owl_reloc_type \<Rightarrow> nat" where
  "reloc_index t = length (takeWhile (\<lambda>u. u \<noteq> t) owl_relocs)"

section \<open>Tables\<close>

definition ppc_relocs :: "(owl_reloc_type \<times> u32 \<times> u32 \<times> u32) list" where
  "ppc_relocs =
    [(OWL_RELOC_ABSOLUTE, 0x0, 0, 0xFFFFFFFF),
     (OWL_RELOC_WORD, 0x2, 1, 0xFFFFFFFF),
     (OWL_RELOC_HALF_HI, 0x4, 5, 0x0000FFFF),
     (OWL_RELOC_HALF_HA, 0x4, 6, 0x0000FFFF),
     (OWL_RELOC_PAIR, 0x4, 0, 0x00000000),
     (OWL_RELOC_HALF_LO, 0x4, 4, 0x0000FFFF),
     (OWL_RELOC_BRANCH_REL, 0x7, 11, 0x0000FFFC),
     (OWL_RELOC_BRANCH_ABS, 0x5, 7, 0x0000FFFC),
     (OWL_RELOC_JUMP_REL, 0x6, 10, 0x03FFFFFC),
     (OWL_RELOC_JUMP_ABS, 0x3, 2, 0x03FFFFFC),
     (OWL_RELOC_SECTION_INDEX, 0xC, 0, 0x0000FFFF),
     (OWL_RELOC_SECTION_OFFSET, 0xB, 0, 0xFFFFFFFF),
     (OWL_RELOC_TOC_OFFSET, 0x8, 14, 0x0000FFFF),
     (OWL_RELOC_GLUE, 0xD, 0, 0xFFFFFFFF)]"

definition mips_relocs :: "(owl_reloc_type \<times> u32 \<times> u32 \<times> u32) list" where
  "mips_relocs =
    [(OWL_RELOC_ABSOLUTE, 0x0, 0, 0xFFFFFFFF),
     (OWL_RELOC_WORD, 0x2, 2, 0xFFFFFFFF),
     (OWL_RELOC_HALF_HI, 0x4, 5, 0x0000FFFF),
     (OWL_RELOC_HALF_HA, 0x0, 0, 0x0000FFFF),
     (OWL_RELOC_PAIR, 0x25, 0, 0x00000000),
     (OWL_RELOC_HALF_LO, 0x5, 6, 0x0000FFFF),
     (OWL_RELOC_BRANCH_REL, 0x5, 10, 0x0000FFFF),
     (OWL_RELOC_BRANCH_ABS, 0x0, 0, 0x0000FFFF),
     (OWL_RELOC_JUMP_REL, 0x0, 0, 0x03FFFFFF),
     (OWL_RELOC_JUMP_ABS, 0x3, 4, 0x03FFFFFF),
     (OWL_RELOC_SECTION_INDEX, 0xA, 0, 0x0000FFFF),
     (OWL_RELOC_SECTION_OFFSET, 0xB, 0, 0xFFFFFFFF),
     (OWL_RELOC_TOC_OFFSET, 0x6, 9, 0x0000FFFF),
     (OWL_RELOC_GLUE, 0x0, 0, 0xFFFFFFFF)]"

definition alpha_relocs :: "(owl_reloc_type \<times> u32 \<times> u32 \<times> u32) list" where
  "alpha_relocs =
    [(OWL_RELOC_ABSOLUTE, 0x0, 0, 0xFFFFFFFF),
     (OWL_RELOC_WORD, 0x1, 1, 0xFFFFFFFF),
     (OWL_RELOC_HALF_HI, 0xA, 17, 0x0000FFFF),
     (OWL_RELOC_HALF_HA, 0x0, 0, 0x0000FFFF),
     (OWL_RELOC_PAIR, 0xC, 0, 0x00000000),
     (OWL_RELOC_HALF_LO, 0xB, 18, 0x0000FFFF),
     (OWL_RELOC_BRANCH_REL, 0x7, 7, 0x001FFFFF),
     (OWL_RELOC_BRANCH_ABS, 0x0, 0, 0x001FFFFF),
     (OWL_RELOC_JUMP_REL, 0x8, 9, 0x00003FFF),
     (OWL_RELOC_JUMP_ABS, 0x0, 0, 0x00003FFF),
     (OWL_RELOC_SECTION_INDEX, 0xE, 0, 0x0000FFFF),
     (OWL_RELOC_SECTION_OFFSET, 0xF, 0, 0xFFFFFFFF),
     (OWL_RELOC_TOC_OFFSET, 0x0, 19, 0x0000FFFF),
     (OWL_RELOC_GLUE, 0x0, 0, 0xFFFFFFFF)]"

definition i386_relocs :: "(owl_reloc_type \<times> u32 \<times> u32) list" where
  "i386_relocs =
    [(OWL_RELOC_ABSOLUTE, 0x0, 0),
     (OWL_RELOC_WORD, 0x6, 1),
     (OWL_RELOC_HALF_HI, 0x0, 0),
     (OWL_RELOC_HALF_HA, 0x0, 0),
     (OWL_RELOC_PAIR, 0x0, 0),
     (OWL_RELOC_HALF_LO, 0x0, 0),
     (OWL_RELOC_BRANCH_REL, 0x14, 2),
     (OWL_RELOC_BRANCH_ABS, 0x0, 0),
     (OWL_RELOC_JUMP_REL, 0x0, 0),
     (OWL_RELOC_JUMP_ABS, 0x0, 0),
     (OWL_RELOC_SECTION_INDEX, 0xA, 1),
     (OWL_RELOC_SECTION_OFFSET, 0xB, 1),
     (OWL_RELOC_TOC_OFFSET, 0x0, 3),
     (OWL_RELOC_GLUE, 0x0, 0)]"

definition x64_relocs :: "(owl_reloc_type \<times> u32 \<times> u32) list" where
  "x64_relocs =
    [(OWL_RELOC_ABSOLUTE, 0x0, 0),
     (OWL_RELOC_WORD, 0x1, 1),
     (OWL_RELOC_HALF_HI, 0x0, 0),
     (OWL_RELOC_HALF_HA, 0x0, 0),
     (OWL_RELOC_PAIR, 0x0, 0),
     (OWL_RELOC_HALF_LO, 0x4, 2),
     (OWL_RELOC_BRANCH_REL, 0x4, 4),
     (OWL_RELOC_BRANCH_ABS, 0x0, 0),
     (OWL_RELOC_JUMP_REL, 0x4, 4),
     (OWL_RELOC_JUMP_ABS, 0x0, 0),
     (OWL_RELOC_SECTION_INDEX, 0xA, 0),
     (OWL_RELOC_SECTION_OFFSET, 0xB, 2),
     (OWL_RELOC_TOC_OFFSET, 0x0, 9),
     (OWL_RELOC_GLUE, 0x0, 0)]"

section \<open>Lookup\<close>

definition ElfRelocType :: "owl_reloc_type \<Rightarrow> owl_cpu \<Rightarrow> u32 option" where
  "ElfRelocType t cpu =
    (case cpu of
       OWL_CPU_PPC \<Rightarrow> rd (map (\<lambda>(_, _, elf, _). elf) ppc_relocs) (reloc_index t)
     | OWL_CPU_MIPS \<Rightarrow> rd (map (\<lambda>(_, _, elf, _). elf) mips_relocs) (reloc_index t)
     | OWL_CPU_ALPHA \<Rightarrow> rd (map (\<lambda>(_, _, elf, _). elf) alpha_relocs) (reloc_index t)
     | OWL_CPU_X86 \<Rightarrow> rd (map (\<lambda>(_, _, elf). elf) i386_relocs) (reloc_index t)
     | OWL_CPU_X64 \<Rightarrow> rd (map (\<lambda>(_, _, elf). elf) x64_relocs) (reloc_index t)
     | _ \<Rightarrow> None)"

definition CoffRelocType :: "owl_reloc_type \<Rightarrow> owl_cpu \<Rightarrow> u32 option" where
  "CoffRelocType t cpu =
    (case cpu of
       OWL_CPU_PPC \<Rightarrow> rd (map (\<lambda>(_, coff, _, _). coff) ppc_relocs) (reloc_index t)
     | OWL_CPU_MIPS \<Rightarrow> rd (map (\<lambda>(_, coff, _, _). coff) mips_relocs) (reloc_index t)
     | OWL_CPU_ALPHA \<Rightarrow> rd (map (\<lambda>(_, coff, _, _). coff) alpha_relocs) (reloc_index t)
     | OWL_CPU_X86 \<Rightarrow> rd (map (\<lambda>(_, coff, _). coff) i386_relocs) (reloc_index t)
     | OWL_CPU_X64 \<Rightarrow> rd (map (\<lambda>(_, coff, _). coff) i386_relocs) (reloc_index t)
     | _ \<Rightarrow> None)"

definition OWLRelocBitMask :: "owl_cpu \<Rightarrow> owl_reloc_type \<Rightarrow> u32 option" where
  "OWLRelocBitMask cpu t =
    (case cpu of
       OWL_CPU_PPC \<Rightarrow> rd (map (\<lambda>(_, _, _, msk). msk) ppc_relocs) (reloc_index t)
     | OWL_CPU_ALPHA \<Rightarrow> rd (map (\<lambda>(_, _, _, msk). msk) alpha_relocs) (reloc_index t)
     | OWL_CPU_X86 \<Rightarrow> Some 0xffffffff
     | OWL_CPU_X64 \<Rightarrow> Some 0xffffffff
     | OWL_CPU_MIPS \<Rightarrow> rd (map (\<lambda>(_, _, _, msk). msk) mips_relocs) (reloc_index t)
     | _ \<Rightarrow> None)"

text \<open>Offsets are 32-bit signed integers; their right shift is the arithmetic one.\<close>

definition OWLRelocTargetDisp :: "owl_cpu \<Rightarrow> u32 \<Rightarrow> u32 \<Rightarrow> u32 option" where
  "OWLRelocTargetDisp cpu frm to =
    (let frm = (if cpu = OWL_CPU_ALPHA \<or> cpu = OWL_CPU_X86 \<or> cpu = OWL_CPU_X64 \<or> cpu = OWL_CPU_MIPS then frm + 4 else frm)
     in if cpu \<noteq> OWL_CPU_X86 \<and> cpu \<noteq> OWL_CPU_X64 \<and> (to AND 3 \<noteq> 0 \<or> frm AND 3 \<noteq> 0) then None
        else let ret = to - frm
             in Some (if cpu = OWL_CPU_PPC \<or> cpu = OWL_CPU_X86 \<or> cpu = OWL_CPU_X64 then ret else signed_drop_bit 2 ret))"

definition OWLRelocIsRelative :: "owl_reloc_type \<Rightarrow> bool" where
  "OWLRelocIsRelative t \<longleftrightarrow> t = OWL_RELOC_BRANCH_REL \<or> t = OWL_RELOC_JUMP_REL"

text \<open>The field of an instruction a relocation changes: the masked bits, to which the displacement is added.\<close>

definition add_in_mask :: "u32 \<Rightarrow> u32 \<Rightarrow> u32 \<Rightarrow> u32" where
  "add_in_mask msk v data = (data AND NOT msk) OR (((v AND msk) + (data AND msk)) AND msk)"

section \<open>Properties\<close>

text \<open>The row of a table the source writes for a relocation.\<close>

definition row_value :: "(owl_reloc_type \<times> 'b) list \<Rightarrow> owl_reloc_type \<Rightarrow> 'b option" where
  "row_value rows t = map_of rows t"

definition coff_row :: "owl_cpu \<Rightarrow> owl_reloc_type \<Rightarrow> u32 option" where
  "coff_row cpu t =
    (case cpu of
       OWL_CPU_PPC \<Rightarrow> map_option fst (row_value ppc_relocs t)
     | OWL_CPU_MIPS \<Rightarrow> map_option fst (row_value mips_relocs t)
     | OWL_CPU_ALPHA \<Rightarrow> map_option fst (row_value alpha_relocs t)
     | OWL_CPU_X86 \<Rightarrow> map_option fst (row_value i386_relocs t)
     | OWL_CPU_X64 \<Rightarrow> map_option fst (row_value i386_relocs t)
     | _ \<Rightarrow> None)"

definition elf_row :: "owl_cpu \<Rightarrow> owl_reloc_type \<Rightarrow> u32 option" where
  "elf_row cpu t =
    (case cpu of
       OWL_CPU_PPC \<Rightarrow> map_option (fst \<circ> snd) (row_value ppc_relocs t)
     | OWL_CPU_MIPS \<Rightarrow> map_option (fst \<circ> snd) (row_value mips_relocs t)
     | OWL_CPU_ALPHA \<Rightarrow> map_option (fst \<circ> snd) (row_value alpha_relocs t)
     | OWL_CPU_X86 \<Rightarrow> map_option snd (row_value i386_relocs t)
     | OWL_CPU_X64 \<Rightarrow> map_option snd (row_value x64_relocs t)
     | _ \<Rightarrow> None)"

definition swap_section :: "owl_reloc_type \<Rightarrow> owl_reloc_type" where
  "swap_section t =
    (if t = OWL_RELOC_SECTION_INDEX then OWL_RELOC_SECTION_OFFSET
     else if t = OWL_RELOC_SECTION_OFFSET then OWL_RELOC_SECTION_INDEX else t)"

lemmas reloc_tables = ppc_relocs_def mips_relocs_def alpha_relocs_def i386_relocs_def x64_relocs_def

text \<open>
  Every lookup returns the row the source writes for the relocation, on every processor, but for two:
  the enumeration has the section offset before the section index and the tables have them the other
  way round, so each of the two gets the types of the other.  The last enumerator has no row.
\<close>
theorem reloc_lookup_swaps_section_rows:
  "CoffRelocType t cpu = coff_row cpu (swap_section t) \<and> ElfRelocType t cpu = elf_row cpu (swap_section t)"
  by (cases cpu; cases t)
    (simp_all add: CoffRelocType_def ElfRelocType_def coff_row_def elf_row_def row_value_def swap_section_def reloc_index_def
      owl_relocs_def reloc_tables rd_def)

text \<open>On x86-64 a section offset gets the ELF type 0, which relocates nothing, instead of type 2.\<close>

lemma x64_section_offset_is_none:
  "ElfRelocType OWL_RELOC_SECTION_OFFSET OWL_CPU_X64 = Some 0" "elf_row OWL_CPU_X64 OWL_RELOC_SECTION_OFFSET = Some 2"
  by (simp_all add: ElfRelocType_def elf_row_def row_value_def reloc_index_def owl_relocs_def x64_relocs_def rd_def)

end
