(* ===== verification/OwlObject.thy ===== *)
theory OwlObject
  imports OwlBuffer OwlReloc
begin

text \<open>
  The object file a client of the object writer library builds: \<open>bld/owl/c/owsect.c\<close>,
  \<open>owsymbol.c\<close>, \<open>owemit.c\<close> and the part of \<open>owfile.c\<close> that finishes it.

  Handles are positions: a symbol handle in the list of all symbols, in the order of their creation, which
  is the order of the linked list of the symbol table, and a section handle in the list of all sections
  ever made; the linked list of the live sections is \<open>sec_list\<close>.  The name of a symbol or section is
  its text: the string table is not part of this model.  Offsets are 32-bit signed integers.  A failing
  assertion, a handle of nothing and an access outside a buffer are \<open>None\<close>.
\<close>

section \<open>State\<close>

datatype owl_sym_linkage = OWL_SYM_UNDEFINED | OWL_SYM_FUNCTION | OWL_SYM_STATIC | OWL_SYM_GLOBAL | OWL_SYM_WEAK

datatype owl_sym_type = OWL_TYPE_FUNCTION | OWL_TYPE_OBJECT | OWL_TYPE_SECTION | OWL_TYPE_FILE

datatype owl_wksym_flags = OWL_WKSYM_NORMAL | OWL_WKSYM_LAZY | OWL_WKSYM_ALIAS

definition linkage_global :: "owl_sym_linkage \<Rightarrow> bool" where
  "linkage_global x \<longleftrightarrow> x = OWL_SYM_GLOBAL \<or> x = OWL_SYM_WEAK \<or> x = OWL_SYM_UNDEFINED"

definition meta_symbol :: "owl_sym_type \<Rightarrow> bool" where
  "meta_symbol x \<longleftrightarrow> x = OWL_TYPE_SECTION \<or> x = OWL_TYPE_FILE"

definition OWL_SEC_ATTR_BSS :: u32 where "OWL_SEC_ATTR_BSS = 0x0004"
definition OWL_SEC_ATTR_COMDAT :: u32 where "OWL_SEC_ATTR_COMDAT = 0x0040"

definition OWL_SYM_FLAG_COMDAT :: u32 where "OWL_SYM_FLAG_COMDAT = 0x0001"
definition OWL_SYM_LAZY :: u32 where "OWL_SYM_LAZY = 0x0004"
definition OWL_SYM_EXPORT :: u32 where "OWL_SYM_EXPORT = 0x0008"
definition OWL_SYM_DEAD :: u32 where "OWL_SYM_DEAD = 0x0010"
definition OWL_SYM_COMDEF :: u32 where "OWL_SYM_COMDEF = 0x0020"
definition OWL_SYM_ALIAS :: u32 where "OWL_SYM_ALIAS = 0x0040"

record owl_reloc_info =
  rel_symbol :: nat
  rel_type :: owl_reloc_type
  rel_location :: u32

record owl_section_info =
  sec_name :: string
  sec_type :: u32
  sec_align :: u32
  sec_index :: nat
  sec_buffer :: "owl_buffer option"
  sec_size :: u32
  sec_location :: u32
  sec_relocs :: "owl_reloc_info list"
  num_relocs :: u32
  sec_sym :: nat
  comdat_sym :: "nat option"
  comdat_dep :: "nat option"

record owl_symbol_info =
  sym_section :: "nat option"
  sym_name :: "string option"
  sym_type :: owl_sym_type
  sym_linkage :: owl_sym_linkage
  sym_offset :: u32
  sym_num_relocs :: u32
  sym_flags :: u32
  x_func :: "nat option"
  x_alt_sym :: "nat option"
  x_section :: "nat option"
  x_file :: bool

record owl_file =
  f_format :: owl_format
  f_cpu :: owl_cpu
  next_index :: nat
  secs :: "owl_section_info list"
  sec_list :: "nat list"
  syms :: "owl_symbol_info list"
  num_global_symbols :: u32
  num_local_symbols :: u32

definition section_bss :: "owl_section_info \<Rightarrow> bool" where
  "section_bss s \<longleftrightarrow> sec_type s AND OWL_SEC_ATTR_BSS \<noteq> 0"

definition section_comdat :: "owl_section_info \<Rightarrow> bool" where
  "section_comdat s \<longleftrightarrow> sec_type s AND OWL_SEC_ATTR_COMDAT \<noteq> 0"

definition set_sec :: "nat \<Rightarrow> owl_section_info \<Rightarrow> owl_file \<Rightarrow> owl_file" where
  "set_sec i s f = f\<lparr>secs := (secs f)[i := s]\<rparr>"

definition set_sym :: "nat \<Rightarrow> owl_symbol_info \<Rightarrow> owl_file \<Rightarrow> owl_file" where
  "set_sym i s f = f\<lparr>syms := (syms f)[i := s]\<rparr>"

section \<open>Symbols\<close>

definition OWLSymbolInit :: "string option \<Rightarrow> owl_file \<Rightarrow> nat \<times> owl_file" where
  "OWLSymbolInit name f =
    (length (syms f),
     f\<lparr>syms := syms f @ [\<lparr>sym_section = None, sym_name = name, sym_type = OWL_TYPE_OBJECT,
          sym_linkage = OWL_SYM_UNDEFINED, sym_offset = 0, sym_num_relocs = 0, sym_flags = 0,
          x_func = None, x_alt_sym = None, x_section = None, x_file = False\<rparr>],
       num_global_symbols := num_global_symbols f + 1\<rparr>)"

definition OWLSymbolDefine ::
  "nat \<Rightarrow> nat option \<Rightarrow> u32 \<Rightarrow> owl_sym_type \<Rightarrow> owl_sym_linkage \<Rightarrow> owl_file \<Rightarrow> owl_file option" where
  "OWLSymbolDefine h section off typ link f = do {
     s \<leftarrow> rd (syms f) h;
     let s = s\<lparr>sym_section := section, sym_type := typ, sym_offset := off, sym_linkage := link\<rparr>;
     let f = (if \<not> linkage_global link
              then f\<lparr>num_local_symbols := num_local_symbols f + 1, num_global_symbols := num_global_symbols f - 1\<rparr>
              else f);
     (case section of
        None \<Rightarrow> Some (set_sym h s f)
      | Some i \<Rightarrow> do {
          sec \<leftarrow> rd (secs f) i;
          Some (if section_comdat sec \<and> \<not> meta_symbol typ
                then set_sym h (s\<lparr>sym_flags := sym_flags s OR OWL_SYM_FLAG_COMDAT\<rparr>) (set_sec i (sec\<lparr>comdat_sym := Some h\<rparr>) f)
                else set_sym h s f)
        })
   }"

section \<open>Sections\<close>

definition add_section :: "owl_section_info \<Rightarrow> owl_file \<Rightarrow> nat \<times> owl_file" where
  "add_section s f =
    (length (secs f),
     f\<lparr>secs := secs f @ [s\<lparr>sec_index := next_index f\<rparr>], sec_list := sec_list f @ [length (secs f)],
       next_index := next_index f + 1\<rparr>)"

definition add_section_symbol :: "nat \<Rightarrow> string \<Rightarrow> owl_file \<Rightarrow> owl_file option" where
  "add_section_symbol i name f = do {
     let (h, f) = OWLSymbolInit (Some name) f;
     sec \<leftarrow> rd (secs f) i;
     let f = set_sec i (sec\<lparr>sec_sym := h\<rparr>) f;
     f \<leftarrow> OWLSymbolDefine h (Some i) 0 OWL_TYPE_SECTION OWL_SYM_GLOBAL f;
     s \<leftarrow> rd (syms f) h;
     Some (set_sym h (s\<lparr>x_section := Some i\<rparr>) f)
   }"

definition OWLSectionInit :: "string \<Rightarrow> u32 \<Rightarrow> u32 \<Rightarrow> owl_file \<Rightarrow> (nat \<times> owl_file) option" where
  "OWLSectionInit name typ align f = do {
     let s = \<lparr>sec_name = name, sec_type = typ, sec_align = align, sec_index = 0,
              sec_buffer = (if typ AND OWL_SEC_ATTR_BSS \<noteq> 0 then None else Some OWLBufferInit),
              sec_size = 0, sec_location = 0, sec_relocs = [], num_relocs = 0, sec_sym = 0,
              comdat_sym = None, comdat_dep = None\<rparr>;
     let (i, f) = add_section s f;
     f \<leftarrow> add_section_symbol i name f;
     Some (i, f)
   }"

definition OWLComdatDep :: "nat \<Rightarrow> nat \<Rightarrow> owl_file \<Rightarrow> owl_file option" where
  "OWLComdatDep i dep f = do { s \<leftarrow> rd (secs f) i; Some (set_sec i (s\<lparr>comdat_dep := Some dep\<rparr>) f) }"

text \<open>
  \<open>OWLSectionFree\<close> takes the section off the list and frees it: from then on its handle leads nowhere.  \<open>rd_section\<close>
  follows a handle that may be such a one.
\<close>

definition delete_section :: "nat \<Rightarrow> owl_file \<Rightarrow> owl_file option" where
  "delete_section i f = (if i \<in> set (sec_list f) then Some (f\<lparr>sec_list := remove1 i (sec_list f)\<rparr>) else None)"

definition rd_section :: "owl_file \<Rightarrow> nat \<Rightarrow> owl_section_info option" where
  "rd_section f i = (if i \<in> set (sec_list f) then rd (secs f) i else None)"

section \<open>Emission\<close>

definition OWLEmitLabel :: "nat \<Rightarrow> nat \<Rightarrow> owl_sym_type \<Rightarrow> owl_sym_linkage \<Rightarrow> owl_file \<Rightarrow> owl_file option" where
  "OWLEmitLabel i h typ link f = do {
     s \<leftarrow> rd (syms f) h;
     sec \<leftarrow> rd (secs f) i;
     if sym_section s \<noteq> None then None
     else OWLSymbolDefine h (Some i) (sec_location sec) typ link f
   }"

definition OWLWeakExt :: "nat \<Rightarrow> nat \<Rightarrow> owl_wksym_flags \<Rightarrow> owl_file \<Rightarrow> owl_file option" where
  "OWLWeakExt wk alt flags f = do {
     a \<leftarrow> rd (syms f) alt;
     s \<leftarrow> rd (syms f) wk;
     if sym_linkage a = OWL_SYM_WEAK then None
     else Some (set_sym wk (s\<lparr>sym_linkage := OWL_SYM_WEAK, x_alt_sym := Some alt,
            sym_flags := (case flags of
                OWL_WKSYM_NORMAL \<Rightarrow> sym_flags s
              | OWL_WKSYM_LAZY \<Rightarrow> sym_flags s OR OWL_SYM_LAZY
              | OWL_WKSYM_ALIAS \<Rightarrow> sym_flags s OR OWL_SYM_ALIAS)\<rparr>) f)
   }"

text \<open>Moving the location to \<open>loc\<close>, and the size with it where it is exceeded.\<close>

definition move_to :: "u32 \<Rightarrow> owl_section_info \<Rightarrow> owl_section_info" where
  "move_to loc s = s\<lparr>sec_location := loc, sec_size := (if sec_size s <s loc then loc else sec_size s)\<rparr>"

definition OWLEmitData :: "nat \<Rightarrow> bytes \<Rightarrow> owl_file \<Rightarrow> owl_file option" where
  "OWLEmitData i data f = do {
     s \<leftarrow> rd (secs f) i;
     let s = move_to (sec_location s + word_of_nat (length data)) s;
     (case sec_buffer s of
        None \<Rightarrow> Some (set_sec i s f)
      | Some b \<Rightarrow> do { b' \<leftarrow> OWLBufferWrite b data; Some (set_sec i (s\<lparr>sec_buffer := Some b'\<rparr>) f) })
   }"

definition do_new_reloc :: "nat \<Rightarrow> nat \<Rightarrow> u32 \<Rightarrow> owl_reloc_type \<Rightarrow> owl_file \<Rightarrow> owl_file option" where
  "do_new_reloc i h off typ f = do {
     s \<leftarrow> rd (secs f) i;
     Some (set_sec i (s\<lparr>sec_relocs := sec_relocs s @ [\<lparr>rel_symbol = h, rel_type = typ, rel_location = off\<rparr>],
                        num_relocs := num_relocs s + 1\<rparr>) f)
   }"

definition OWLEmitReloc :: "nat \<Rightarrow> u32 \<Rightarrow> nat \<Rightarrow> owl_reloc_type \<Rightarrow> owl_file \<Rightarrow> owl_file option" where
  "OWLEmitReloc i off h typ f =
    (if f_format f = OWL_FORMAT_ELF \<and> typ = OWL_RELOC_PAIR then Some f else do_new_reloc i h off typ f)"

definition OWLEmitMetaReloc :: "nat \<Rightarrow> u32 \<Rightarrow> nat \<Rightarrow> owl_reloc_type \<Rightarrow> owl_file \<Rightarrow> owl_file option" where
  "OWLEmitMetaReloc i off target typ f = do { t \<leftarrow> rd (secs f) target; do_new_reloc i (sec_sym t) off typ f }"

definition OWLTellData :: "nat \<Rightarrow> u32 \<Rightarrow> nat \<Rightarrow> owl_file \<Rightarrow> bytes option" where
  "OWLTellData i loc len f = do { s \<leftarrow> rd (secs f) i; b \<leftarrow> sec_buffer s; OWLBufferRead b loc len }"

definition OWLEmitRelocAddend :: "nat \<Rightarrow> owl_reloc_type \<Rightarrow> u32 \<Rightarrow> owl_file \<Rightarrow> owl_file option" where
  "OWLEmitRelocAddend i typ addend f = do {
     s \<leftarrow> rd (secs f) i;
     d \<leftarrow> OWLTellData i (sec_location s) 4 f;
     msk \<leftarrow> OWLRelocBitMask (f_cpu f) typ;
     OWLEmitData i (le_bytes 4 (unat (add_in_mask msk addend (word_of_nat (le_val d))))) f
   }"

definition OWLEmitImport :: "string \<Rightarrow> owl_file \<Rightarrow> owl_file option" where
  "OWLEmitImport name f = (case OWLSymbolInit (Some name) f of (h, f) \<Rightarrow> OWLSymbolDefine h None 0 OWL_TYPE_OBJECT OWL_SYM_UNDEFINED f)"

definition OWLEmitExport :: "nat \<Rightarrow> owl_file \<Rightarrow> owl_file option" where
  "OWLEmitExport h f = do { s \<leftarrow> rd (syms f) h; Some (set_sym h (s\<lparr>sym_flags := sym_flags s OR OWL_SYM_EXPORT\<rparr>) f) }"

definition OWLSetLocation :: "nat \<Rightarrow> u32 \<Rightarrow> owl_file \<Rightarrow> owl_file option" where
  "OWLSetLocation i loc f = do {
     s \<leftarrow> rd (secs f) i;
     let s = move_to loc s;
     Some (set_sec i (s\<lparr>sec_buffer := map_option (\<lambda>b. OWLBufferSeek b loc) (sec_buffer s)\<rparr>) f)
   }"

definition OWLTellLocation :: "nat \<Rightarrow> owl_file \<Rightarrow> u32 option" where
  "OWLTellLocation i f = map_option sec_location (rd (secs f) i)"

definition OWLTellSize :: "nat \<Rightarrow> owl_file \<Rightarrow> u32 option" where
  "OWLTellSize i f = map_option sec_size (rd (secs f) i)"

definition OWLTellSectionType :: "nat \<Rightarrow> owl_file \<Rightarrow> u32 option" where
  "OWLTellSectionType i f = map_option sec_type (rd (secs f) i)"

definition OWLTellSymbolLinkage :: "nat option \<Rightarrow> owl_file \<Rightarrow> owl_sym_linkage option" where
  "OWLTellSymbolLinkage h f = (case h of Some h \<Rightarrow> map_option sym_linkage (rd (syms f) h) | None \<Rightarrow> Some OWL_SYM_UNDEFINED)"

section \<open>Files\<close>

definition OWLFileSymbol :: "string \<Rightarrow> owl_file \<Rightarrow> owl_file option" where
  "OWLFileSymbol name f = (case OWLSymbolInit (Some name) f of (h, f) \<Rightarrow> do {
     f \<leftarrow> OWLSymbolDefine h None 0 OWL_TYPE_FILE OWL_SYM_GLOBAL f;
     s \<leftarrow> rd (syms f) h;
     Some (set_sym h (s\<lparr>x_file := True\<rparr>) f)
   })"

definition OWLFileInit :: "owl_cpu \<Rightarrow> string \<Rightarrow> owl_format \<Rightarrow> owl_file option" where
  "OWLFileInit cpu name fmt =
     OWLFileSymbol name
       \<lparr>f_format = fmt, f_cpu = cpu, next_index = 0, secs = [], sec_list = [], syms = [],
        num_global_symbols = 0, num_local_symbols = 0\<rparr>"

section \<open>Finishing a file\<close>

text \<open>\<open>doReloc\<close>: a relative relocation to its own section is applied to the contents.\<close>

definition reloc_disp :: "owl_file \<Rightarrow> owl_reloc_info \<Rightarrow> u32 \<Rightarrow> u32 option" where
  "reloc_disp f r target = do {
     displacement \<leftarrow> OWLRelocTargetDisp (f_cpu f) (rel_location r) target;
     let displacement = (if f_format f = OWL_FORMAT_COFF \<and> f_cpu f = OWL_CPU_PPC \<and> rel_type r = OWL_RELOC_JUMP_REL
                         then displacement + rel_location r else displacement);
     Some (if f_format f = OWL_FORMAT_ELF \<and> f_cpu f = OWL_CPU_X86 \<and> rel_type r = OWL_RELOC_BRANCH_REL
           then displacement + 4 else displacement)
   }"

definition do_reloc :: "nat \<Rightarrow> owl_reloc_info \<Rightarrow> owl_file \<Rightarrow> owl_file option" where
  "do_reloc i r f = do {
     s \<leftarrow> rd (secs f) i;
     target \<leftarrow> rd (syms f) (rel_symbol r);
     displacement \<leftarrow> reloc_disp f r (sym_offset target);
     msk \<leftarrow> OWLRelocBitMask (f_cpu f) (rel_type r);
     b \<leftarrow> sec_buffer s;
     let old_loc = OWLBufferTell b;
     let b = OWLBufferSeek b (rel_location r);
     d \<leftarrow> OWLBufferRead b (rel_location r) 4;
     b \<leftarrow> OWLBufferWrite b (le_bytes 4 (unat (add_in_mask msk displacement (word_of_nat (le_val d)))));
     Some (set_sec i (s\<lparr>sec_buffer := Some (OWLBufferSeek b old_loc), num_relocs := num_relocs s - 1\<rparr>) f)
   }"

text \<open>The inner loop of \<open>resolveRelativeRelocs\<close>; the result has the relocations that stay.\<close>

fun resolve_relocs :: "nat \<Rightarrow> owl_reloc_info list \<Rightarrow> owl_file \<Rightarrow> (owl_reloc_info list \<times> owl_file) option" where
  "resolve_relocs i [] f = Some ([], f)"
| "resolve_relocs i (r # rs) f = do {
     s \<leftarrow> rd (syms f) (rel_symbol r);
     if sym_section s = Some i \<and> OWLRelocIsRelative (rel_type r)
     then do { f \<leftarrow> do_reloc i r f; resolve_relocs i rs f }
     else do {
       (kept, f) \<leftarrow> resolve_relocs i rs (set_sym (rel_symbol r) (s\<lparr>sym_num_relocs := sym_num_relocs s + 1\<rparr>) f);
       Some (r # kept, f)
     }
   }"

definition resolve_section :: "nat \<Rightarrow> owl_file \<Rightarrow> owl_file option" where
  "resolve_section i f = do {
     s \<leftarrow> rd (secs f) i;
     if num_relocs s = 0 then Some f
     else do {
       (kept, f) \<leftarrow> resolve_relocs i (sec_relocs s) f;
       s \<leftarrow> rd (secs f) i;
       Some (set_sec i (s\<lparr>sec_relocs := kept\<rparr>) f)
     }
   }"

fun resolve_sections :: "nat list \<Rightarrow> owl_file \<Rightarrow> owl_file option" where
  "resolve_sections [] f = Some f"
| "resolve_sections (i # js) f = do { f \<leftarrow> resolve_section i f; resolve_sections js f }"

definition resolveRelativeRelocs :: "owl_file \<Rightarrow> owl_file option" where
  "resolveRelativeRelocs f = resolve_sections (sec_list f) f"

text \<open>Names for the labels without one: \<open>L$\<close> and the number in hexadecimal.\<close>

function hex_digits :: "nat \<Rightarrow> string" where
  "hex_digits n = (if n < 16 then [''0123456789abcdef'' ! n] else hex_digits (n div 16) @ [''0123456789abcdef'' ! (n mod 16)])"
  by pat_completeness auto
termination
  by (relation "measure id") auto

declare hex_digits.simps [simp del]

definition make_unique_name :: "nat \<Rightarrow> string" where
  "make_unique_name index = ''L$'' @ hex_digits index"

definition count_dead :: "owl_symbol_info \<Rightarrow> owl_file \<Rightarrow> owl_file" where
  "count_dead s f =
    (if linkage_global (sym_linkage s) then f\<lparr>num_global_symbols := num_global_symbols f - 1\<rparr>
     else f\<lparr>num_local_symbols := num_local_symbols f - 1\<rparr>)"

definition name_step :: "nat \<Rightarrow> nat \<times> owl_file \<Rightarrow> nat \<times> owl_file" where
  "name_step h x =
    (case x of (index, f) \<Rightarrow>
       let s = syms f ! h in
       if meta_symbol (sym_type s) \<or> sym_name s \<noteq> None then (index, f)
       else if sym_num_relocs s = 0 \<and> x_func s = None
       then (index, count_dead s (set_sym h (s\<lparr>sym_flags := sym_flags s OR OWL_SYM_DEAD\<rparr>) f))
       else (index + 1, set_sym h (s\<lparr>sym_name := Some (make_unique_name index)\<rparr>) f))"

definition resolveLabelNames :: "owl_file \<Rightarrow> owl_file" where
  "resolveLabelNames f = snd (fold name_step [0..<length (syms f)] (0, f))"

text \<open>Uninitialised sections with one label become common symbols, and empty ones vanish.\<close>

definition comdef_section :: "owl_section_info \<Rightarrow> bool" where
  "comdef_section s \<longleftrightarrow> section_comdat s \<and> (section_bss s \<or> sec_size s = 0 \<and> comdat_sym s = None)"

definition redo_section_indices :: "owl_file \<Rightarrow> owl_file" where
  "redo_section_indices f =
    (let f' = fold (\<lambda>(k, i) f. set_sec i ((secs f ! i)\<lparr>sec_index := k\<rparr>) f) (enumerate 0 (sec_list f)) f
     in f'\<lparr>next_index := length (sec_list f)\<rparr>)"

definition comdef_step :: "nat \<Rightarrow> owl_file \<Rightarrow> owl_file option" where
  "comdef_step i f = do {
     s \<leftarrow> rd (secs f) i;
     if \<not> comdef_section s then Some f
     else do {
       y \<leftarrow> rd (syms f) (sec_sym s);
       let f = set_sym (sec_sym s) (y\<lparr>sym_flags := sym_flags y OR OWL_SYM_DEAD\<rparr>) (count_dead y f);
       f \<leftarrow> delete_section i f;
       (case comdat_sym s of
          None \<Rightarrow> Some f
        | Some h \<Rightarrow> do {
            c \<leftarrow> rd (syms f) h;
            Some (set_sym h (c\<lparr>sym_section := None, sym_offset := sec_size s, sym_flags := sym_flags c OR OWL_SYM_COMDEF\<rparr>) f)
          })
     }
   }"

fun comdef_steps :: "nat list \<Rightarrow> owl_file \<Rightarrow> owl_file option" where
  "comdef_steps [] f = Some f"
| "comdef_steps (i # js) f = do { f \<leftarrow> comdef_step i f; comdef_steps js f }"

definition resolveComdefSymbols :: "owl_file \<Rightarrow> owl_file option" where
  "resolveComdefSymbols f = map_option redo_section_indices (comdef_steps (sec_list f) f)"

section \<open>The invariant of a file under construction\<close>

definition is_local :: "owl_symbol_info \<Rightarrow> bool" where
  "is_local y \<longleftrightarrow> \<not> linkage_global (sym_linkage y)"

definition position_ok :: "owl_section_info \<Rightarrow> bool" where
  "position_ok s \<longleftrightarrow> unat (sec_location s) \<le> unat (sec_size s) \<and> unat (sec_size s) < 2 ^ 31
     \<and> (case sec_buffer s of
          None \<Rightarrow> section_bss s
        | Some b \<Rightarrow> \<not> section_bss s \<and> buffer_inv b \<and> location b = unat (sec_location s) \<and> bsize b \<le> unat (sec_size s))"

definition section_ok :: "owl_symbol_info list \<Rightarrow> nat \<Rightarrow> owl_section_info \<Rightarrow> bool" where
  "section_ok ys i s \<longleftrightarrow> sec_index s = i \<and> position_ok s
     \<and> num_relocs s = word_of_nat (length (sec_relocs s)) \<and> (\<forall>r \<in> set (sec_relocs s). rel_symbol r < length ys)
     \<and> sec_sym s < length ys \<and> sym_type (ys ! sec_sym s) = OWL_TYPE_SECTION
     \<and> sym_section (ys ! sec_sym s) = Some i \<and> x_section (ys ! sec_sym s) = Some i"

definition symbol_ok :: "nat \<Rightarrow> owl_symbol_info \<Rightarrow> bool" where
  "symbol_ok n y \<longleftrightarrow> (is_local y \<longrightarrow> sym_section y \<noteq> None) \<and> (\<forall>i. sym_section y = Some i \<longrightarrow> i < n)"

definition tables_inv :: "owl_file \<Rightarrow> bool" where
  "tables_inv f \<longleftrightarrow> sec_list f = [0..<length (secs f)] \<and> next_index f = length (secs f)
     \<and> (\<forall>i < length (secs f). section_ok (syms f) i (secs f ! i))
     \<and> (\<forall>h < length (syms f). symbol_ok (length (secs f)) (syms f ! h))"

definition locals_count :: "owl_file \<Rightarrow> nat" where
  "locals_count f = length (filter is_local (syms f))"

definition counts_inv :: "owl_file \<Rightarrow> bool" where
  "counts_inv f \<longleftrightarrow> num_local_symbols f = word_of_nat (locals_count f)
     \<and> num_local_symbols f + num_global_symbols f = word_of_nat (length (syms f))"

definition file_inv :: "owl_file \<Rightarrow> bool" where
  "file_inv f \<longleftrightarrow> tables_inv f \<and> counts_inv f"

lemma filter_update:
  "h < length xs \<Longrightarrow> length (filter P (xs[h := y])) + (if P (xs ! h) then 1 else 0) = length (filter P xs) + (if P y then 1 else 0)"
proof (induction xs arbitrary: h)
  case (Cons x xs)
  then show ?case
  proof (cases h)
    case (Suc k)
    then show ?thesis using Cons.IH [of k] Cons.prems by (simp split: if_splits)
  qed simp
qed simp

lemma tables_set_sec:
  "tables_inv f \<Longrightarrow> i < length (secs f) \<Longrightarrow> section_ok (syms f) i s \<Longrightarrow> tables_inv (set_sec i s f)"
  by (auto simp: tables_inv_def set_sec_def nth_list_update)

lemma counts_set_sec: "counts_inv (set_sec i s f) = counts_inv f"
  by (simp add: counts_inv_def set_sec_def locals_count_def)

lemma file_set_sec:
  "file_inv f \<Longrightarrow> i < length (secs f) \<Longrightarrow> section_ok (syms f) i s \<Longrightarrow> file_inv (set_sec i s f)"
  by (simp add: file_inv_def counts_set_sec tables_set_sec)

text \<open>A symbol may change freely while it is in no section; later its place is fixed.\<close>

definition symbol_keeps :: "owl_symbol_info \<Rightarrow> owl_symbol_info \<Rightarrow> bool" where
  "symbol_keeps y y' \<longleftrightarrow> sym_section y = None
     \<or> sym_type y' = sym_type y \<and> sym_section y' = sym_section y \<and> x_section y' = x_section y"

lemma section_ok_set_sym:
  assumes "section_ok ys i s" and "h < length ys" and "symbol_keeps (ys ! h) y"
  shows "section_ok (ys[h := y]) i s"
  using assms by (cases "sec_sym s = h") (auto simp: section_ok_def symbol_keeps_def)

lemma tables_set_sym:
  assumes "tables_inv f" and "h < length (syms f)" and "symbol_keeps (syms f ! h) y" and "symbol_ok (length (secs f)) y"
  shows "tables_inv (set_sym h y f)"
  using assms section_ok_set_sym [OF _ assms(2,3)] by (auto simp: tables_inv_def set_sym_def nth_list_update)

lemma counts_set_sym:
  "h < length (syms f) \<Longrightarrow> is_local y = is_local (syms f ! h) \<Longrightarrow> counts_inv (set_sym h y f) = counts_inv f"
  using filter_update [of h "syms f" is_local y] by (simp add: counts_inv_def locals_count_def set_sym_def split: if_splits)

lemma file_set_sym:
  assumes "file_inv f" and "h < length (syms f)" and "symbol_keeps (syms f ! h) y" and "symbol_ok (length (secs f)) y"
    and "is_local y = is_local (syms f ! h)"
  shows "file_inv (set_sym h y f)"
  using assms by (simp add: file_inv_def tables_set_sym counts_set_sym)

lemma symbol_of: "file_inv f \<Longrightarrow> h < length (syms f) \<Longrightarrow> symbol_ok (length (secs f)) (syms f ! h)"
  by (simp add: file_inv_def tables_inv_def)

lemma section_of: "file_inv f \<Longrightarrow> i < length (secs f) \<Longrightarrow> section_ok (syms f) i (secs f ! i)"
  by (simp add: file_inv_def tables_inv_def)

lemma section_ok_comdat: "section_ok ys i (s\<lparr>comdat_sym := c\<rparr>) = section_ok ys i s"
  by (simp add: section_ok_def position_ok_def section_bss_def split: option.split)

subsection \<open>Symbols\<close>

lemma section_ok_more_syms: "section_ok ys i s \<Longrightarrow> section_ok (ys @ zs) i s"
  by (auto simp: section_ok_def nth_append)

lemma OWLSymbolInit_inv:
  assumes "file_inv f" and "OWLSymbolInit name f = (h, f')"
  shows "file_inv f'"
  using assms
  by (auto simp: OWLSymbolInit_def file_inv_def tables_inv_def counts_inv_def locals_count_def section_ok_more_syms
      nth_append symbol_ok_def is_local_def linkage_global_def algebra_simps less_Suc_eq)

lemma OWLSymbolInit_new:
  "OWLSymbolInit name f = (h, f') \<Longrightarrow> h < length (syms f') \<and> sym_section (syms f' ! h) = None
    \<and> secs f' = secs f \<and> length (syms f') = Suc (length (syms f)) \<and> h = length (syms f)"
  by (auto simp: OWLSymbolInit_def)

lemma counts_after_define:
  assumes "counts_inv f" and "h < length (syms f)" and "\<not> is_local (syms f ! h)"
    and "f1 = (if \<not> linkage_global link then f\<lparr>num_local_symbols := num_local_symbols f + 1, num_global_symbols := num_global_symbols f - 1\<rparr> else f)"
    and "sym_linkage y = link"
  shows "counts_inv (set_sym h y f1)"
  using assms filter_update [of h "syms f" is_local y]
  by (auto simp: counts_inv_def locals_count_def set_sym_def is_local_def split: if_splits)

lemma OWLSymbolDefine_inv:
  assumes f: "file_inv f" and h: "h < length (syms f)" and new: "sym_section (syms f ! h) = None"
    and sec: "\<forall>i. section = Some i \<longrightarrow> i < length (secs f)" and loc: "section = None \<longrightarrow> linkage_global link"
  shows "\<exists>f'. OWLSymbolDefine h section off typ link f = Some f' \<and> file_inv f' \<and> length (syms f') = length (syms f)
    \<and> length (secs f') = length (secs f) \<and> (\<forall>i < length (secs f). sec_sym (secs f' ! i) = sec_sym (secs f ! i))
    \<and> sym_section (syms f' ! h) = section \<and> sym_type (syms f' ! h) = typ \<and> x_section (syms f' ! h) = x_section (syms f ! h)
    \<and> sym_offset (syms f' ! h) = off \<and> sym_linkage (syms f' ! h) = link"
proof -
  define f1 where "f1 = (if \<not> linkage_global link
    then f\<lparr>num_local_symbols := num_local_symbols f + 1, num_global_symbols := num_global_symbols f - 1\<rparr> else f)"
  define y where "y = (syms f ! h)\<lparr>sym_section := section, sym_type := typ, sym_offset := off, sym_linkage := link\<rparr>"
  define y2 where "y2 = y\<lparr>sym_flags := sym_flags y OR OWL_SYM_FLAG_COMDAT\<rparr>"
  have tables: "tables_inv f1" "counts_inv f" using f by (auto simp: f1_def file_inv_def tables_inv_def)
  have same: "syms f1 = syms f" "secs f1 = secs f" by (simp_all add: f1_def)
  have notlocal: "\<not> is_local (syms f ! h)" using symbol_of [OF f h] new by (simp add: symbol_ok_def)
  have keeps: "symbol_keeps (syms f ! h) z" for z using new by (simp add: symbol_keeps_def)
  have ok: "symbol_ok (length (secs f)) y" "symbol_ok (length (secs f)) y2"
    using sec loc by (auto simp: symbol_ok_def y_def y2_def is_local_def)
  have inv: "file_inv (set_sym h y f1)" "file_inv (set_sym h y2 f1)"
    using tables_set_sym [OF tables(1), of h y] tables_set_sym [OF tables(1), of h y2] keeps ok h
      counts_after_define [OF tables(2) h notlocal f1_def, of y] counts_after_define [OF tables(2) h notlocal f1_def, of y2]
    by (simp_all add: file_inv_def same y_def y2_def)
  have with_sec: "file_inv (set_sym h y2 (set_sec i ((secs f ! i)\<lparr>comdat_sym := Some h\<rparr>) f1))"
    if "i < length (secs f)" for i
  proof -
    have "set_sym h y2 (set_sec i ((secs f ! i)\<lparr>comdat_sym := Some h\<rparr>) f1) = set_sec i ((secs f ! i)\<lparr>comdat_sym := Some h\<rparr>) (set_sym h y2 f1)"
      by (simp add: set_sym_def set_sec_def)
    moreover have "section_ok (syms (set_sym h y2 f1)) i (secs f ! i)"
      using section_of [OF inv(2), of i] that by (simp add: set_sym_def same)
    ultimately show ?thesis using file_set_sec [OF inv(2), of i "(secs f ! i)\<lparr>comdat_sym := Some h\<rparr>"] that
      by (simp add: section_ok_comdat same) (simp add: set_sym_def same)
  qed
  have run: "OWLSymbolDefine h section off typ link f =
    (case section of None \<Rightarrow> Some (set_sym h y f1)
     | Some i \<Rightarrow> Some (if section_comdat (secs f ! i) \<and> \<not> meta_symbol typ
         then set_sym h y2 (set_sec i ((secs f ! i)\<lparr>comdat_sym := Some h\<rparr>) f1) else set_sym h y f1))"
    using h sec by (auto simp: OWLSymbolDefine_def Let_def f1_def y_def y2_def split: option.split)
  show ?thesis
    using run inv with_sec h sec
    by (cases "section") (auto simp: set_sym_def set_sec_def same y_def y2_def nth_list_update)
qed

lemma OWLEmitImport_inv: "file_inv f \<Longrightarrow> OWLEmitImport name f = Some f' \<Longrightarrow> file_inv f'"
proof -
  assume f: "file_inv f" and run: "OWLEmitImport name f = Some f'"
  obtain h f1 where h: "OWLSymbolInit (Some name) f = (h, f1)" by fastforce
  note n = OWLSymbolInit_new [OF h]
  from OWLSymbolDefine_inv [OF OWLSymbolInit_inv [OF f h], of h None OWL_SYM_UNDEFINED 0 OWL_TYPE_OBJECT] n run h
  show ?thesis by (auto simp: OWLEmitImport_def linkage_global_def)
qed

lemma OWLEmitLabel_inv: "file_inv f \<Longrightarrow> OWLEmitLabel i h typ link f = Some f' \<Longrightarrow> file_inv f'"
  using OWLSymbolDefine_inv [of f h "Some i" link "sec_location (secs f ! i)" "typ"]
  by (auto simp: OWLEmitLabel_def bind_eq_Some_conv rd_Some_iff split: if_splits)

lemma OWLWeakExt_inv:
  "file_inv f \<Longrightarrow> \<not> is_local (syms f ! wk) \<Longrightarrow> OWLWeakExt wk alt flags f = Some f' \<Longrightarrow> file_inv f'"
  using symbol_of [of f wk]
  by (auto simp: OWLWeakExt_def bind_eq_Some_conv rd_Some_iff symbol_keeps_def symbol_ok_def is_local_def linkage_global_def
      intro!: file_set_sym split: if_splits)

lemma OWLEmitExport_inv: "file_inv f \<Longrightarrow> OWLEmitExport h f = Some f' \<Longrightarrow> file_inv f'"
  using symbol_of [of f h]
  by (auto simp: OWLEmitExport_def bind_eq_Some_conv rd_Some_iff symbol_keeps_def symbol_ok_def is_local_def intro!: file_set_sym)

subsection \<open>Sections\<close>

lemma locals_upto: "[0..<Suc n] = [0..<n] @ [n]"
  by simp

lemma position_ok_new:
  "position_ok \<lparr>sec_name = name, sec_type = ty, sec_align = al, sec_index = i,
     sec_buffer = (if ty AND OWL_SEC_ATTR_BSS \<noteq> 0 then None else Some OWLBufferInit),
     sec_size = 0, sec_location = 0, sec_relocs = [], num_relocs = 0, sec_sym = h, comdat_sym = None, comdat_dep = None\<rparr>"
  using buffer_init_inv by (auto simp: position_ok_def section_bss_def OWLBufferInit_def)

text \<open>A section whose symbol is not defined yet; the other sections are in order.\<close>

lemma OWLSectionInit_inv:
  assumes f: "file_inv f" and run: "OWLSectionInit name ty al f = Some (i, f')"
  shows "file_inv f' \<and> i = length (secs f) \<and> length (secs f') = Suc (length (secs f))"
proof -
  define n where "n = length (secs f)"
  define h where "h = length (syms f)"
  define s where "s = \<lparr>sec_name = name, sec_type = ty, sec_align = al, sec_index = n,
     sec_buffer = (if ty AND OWL_SEC_ATTR_BSS \<noteq> 0 then None else Some OWLBufferInit),
     sec_size = 0, sec_location = 0, sec_relocs = [], num_relocs = 0, sec_sym = h, comdat_sym = None, comdat_dep = None\<rparr>"
  define y where "y = \<lparr>sym_section = Some n, sym_name = Some name, sym_type = OWL_TYPE_SECTION,
          sym_linkage = OWL_SYM_GLOBAL, sym_offset = 0, sym_num_relocs = 0, sym_flags = 0,
          x_func = None, x_alt_sym = None, x_section = Some n, x_file = False\<rparr>"
  have t: "sec_list f = [0..<n]" "next_index f = n" "\<forall>i < n. section_ok (syms f) i (secs f ! i)"
    "\<forall>h < length (syms f). symbol_ok n (syms f ! h)" "counts_inv f"
    using f by (simp_all add: file_inv_def tables_inv_def n_def)
  have res: "i = n" "f' = f\<lparr>next_index := n + 1, secs := secs f @ [s], sec_list := [0..<Suc n], syms := syms f @ [y],
      num_global_symbols := num_global_symbols f + 1\<rparr>"
    using run t(1,2)
    by (auto simp: OWLSectionInit_def add_section_def add_section_symbol_def OWLSymbolInit_def OWLSymbolDefine_def
        set_sec_def set_sym_def meta_symbol_def linkage_global_def bind_eq_Some_conv rd_def Let_def n_def h_def s_def y_def
        nth_append list_update_append split: if_splits)
  have "section_ok (syms f @ [y]) n s"
    using position_ok_new [of name ty al n h] by (simp add: section_ok_def s_def y_def h_def)
  moreover have "symbol_ok (Suc n) z" if "symbol_ok n z" for z using that by (auto simp: symbol_ok_def)
  moreover have "symbol_ok (Suc n) y" "\<not> is_local y" by (simp_all add: symbol_ok_def y_def is_local_def linkage_global_def)
  ultimately show ?thesis
    using t by (auto simp: res file_inv_def tables_inv_def counts_inv_def locals_count_def nth_append less_Suc_eq
        section_ok_more_syms n_def algebra_simps)
qed

lemma file_upd_section:
  assumes f: "file_inv f" and i: "i < length (secs f)"
    and keep: "sec_index s = sec_index (secs f ! i)" "sec_sym s = sec_sym (secs f ! i)" and pos: "position_ok s"
    and rel: "num_relocs s = word_of_nat (length (sec_relocs s))" "\<forall>r \<in> set (sec_relocs s). rel_symbol r < length (syms f)"
  shows "file_inv (set_sec i s f)"
  using file_set_sec [OF f i] section_of [OF f i] keep pos rel by (simp add: section_ok_def)

lemma do_new_reloc_inv:
  assumes "file_inv f" and "h < length (syms f)" and "do_new_reloc i h off ty f = Some f'"
  shows "file_inv f'"
proof -
  have i: "i < length (secs f)" and f': "f' = set_sec i ((secs f ! i)\<lparr>sec_relocs := sec_relocs (secs f ! i) @
      [\<lparr>rel_symbol = h, rel_type = ty, rel_location = off\<rparr>], num_relocs := num_relocs (secs f ! i) + 1\<rparr>) f"
    using assms(3) by (auto simp: do_new_reloc_def bind_eq_Some_conv rd_Some_iff)
  have "section_ok (syms f) i (secs f ! i)" by (rule section_of [OF assms(1) i])
  then have "section_ok (syms f) i ((secs f ! i)\<lparr>sec_relocs := sec_relocs (secs f ! i) @
      [\<lparr>rel_symbol = h, rel_type = ty, rel_location = off\<rparr>], num_relocs := num_relocs (secs f ! i) + 1\<rparr>)"
    using assms(2) by (auto simp: section_ok_def position_ok_def section_bss_def add.commute split: option.splits)
  then show ?thesis using file_set_sec [OF assms(1) i] f' by simp
qed

lemma OWLEmitReloc_inv:
  "file_inv f \<Longrightarrow> h < length (syms f) \<Longrightarrow> OWLEmitReloc i off h ty f = Some f' \<Longrightarrow> file_inv f'"
  using do_new_reloc_inv [of f h i off ty f'] by (auto simp: OWLEmitReloc_def split: if_splits)

lemma OWLEmitMetaReloc_inv:
  assumes "file_inv f" and "OWLEmitMetaReloc i off target ty f = Some f'"
  shows "file_inv f'"
proof -
  have t: "target < length (secs f)" "do_new_reloc i (sec_sym (secs f ! target)) off ty f = Some f'"
    using assms(2) by (auto simp: OWLEmitMetaReloc_def bind_eq_Some_conv rd_Some_iff)
  have "sec_sym (secs f ! target) < length (syms f)" using section_of [OF assms(1) t(1)] by (simp add: section_ok_def)
  then show ?thesis using do_new_reloc_inv [OF assms(1) _ t(2)] by simp
qed

text \<open>Positions below two gigabytes are their unsigned readings, and sums of them do not wrap.\<close>

lemma unat_move:
  assumes "unat loc < 2 ^ 31" and "unat (sec_size s) < 2 ^ 31"
  shows "unat (sec_size (move_to loc s)) = max (unat (sec_size s)) (unat loc)"
proof -
  have "sec_size s <s loc \<longleftrightarrow> unat (sec_size s) < unat loc"
    unfolding word_sless_alt sint_small [OF assms(1)] sint_small [OF assms(2)] by (rule of_nat_less_iff)
  then show ?thesis by (simp add: move_to_def max_def)
qed

lemma move_to_fields [simp]:
  "sec_location (move_to loc s) = loc" "sec_index (move_to loc s) = sec_index s" "sec_sym (move_to loc s) = sec_sym s"
  "sec_relocs (move_to loc s) = sec_relocs s" "num_relocs (move_to loc s) = num_relocs s" "sec_buffer (move_to loc s) = sec_buffer s"
  "section_bss (move_to loc s) = section_bss s"
  by (simp_all add: move_to_def section_bss_def)

lemma section_bss_buffer [simp]: "section_bss (s\<lparr>sec_buffer := b\<rparr>) = section_bss s"
  by (simp add: section_bss_def)

definition section_contents :: "owl_section_info \<Rightarrow> bytes" where
  "section_contents s = (case sec_buffer s of None \<Rightarrow> [] | Some b \<Rightarrow> buffer_contents b)"

lemma OWLEmitData_ok:
  assumes f: "file_inv f" and i: "i < length (secs f)" and fits: "unat (sec_location (secs f ! i)) + length d < 2 ^ 31"
  shows "\<exists>f'. OWLEmitData i d f = Some f' \<and> file_inv f' \<and> f' = set_sec i (secs f' ! i) f
    \<and> unat (sec_location (secs f' ! i)) = unat (sec_location (secs f ! i)) + length d
    \<and> unat (sec_size (secs f' ! i)) = max (unat (sec_size (secs f ! i))) (unat (sec_location (secs f ! i)) + length d)
    \<and> (section_bss (secs f ! i) \<or> d = [] \<or> section_contents (secs f' ! i)
         = overwrite (section_contents (secs f ! i)) (unat (sec_location (secs f ! i))) d)"
proof -
  define s where "s = secs f ! i"
  define loc where "loc = sec_location s + word_of_nat (length d)"
  have s: "section_ok (syms f) i s" using section_of [OF f i] by (simp add: s_def)
  then have pos: "position_ok s" by (simp add: section_ok_def)
  have loc: "unat loc = unat (sec_location s) + length d"
    using fits by (simp add: loc_def s_def unat_word_ariths unat_of_nat)
  have sz: "unat (sec_size (move_to loc s)) = max (unat (sec_size s)) (unat loc)"
    using unat_move [of loc s] pos fits loc by (simp add: position_ok_def s_def)
  have upd: "secs (set_sec i z f) ! i = z" for z using i by (simp add: set_sec_def)
  show ?thesis
  proof (cases "sec_buffer s")
    case None
    then have bss: "section_bss s" using pos by (simp add: position_ok_def)
    have run: "OWLEmitData i d f = Some (set_sec i (move_to loc s) f)"
      using i None by (simp add: OWLEmitData_def s_def loc_def Let_def)
    have "position_ok (move_to loc s)" using pos None bss sz fits loc by (simp add: position_ok_def s_def)
    then have "file_inv (set_sec i (move_to loc s) f)"
      using file_upd_section [OF f i, of "move_to loc s"] s by (simp add: section_ok_def s_def)
    then show ?thesis using run upd sz loc bss by (simp add: s_def [symmetric])
  next
    case (Some b)
    have b: "\<not> section_bss s" "buffer_inv b" "location b = unat (sec_location s)" "bsize b \<le> unat (sec_size s)"
      and small: "unat (sec_size s) < 2 ^ 31"
      using pos Some by (simp_all add: position_ok_def)
    obtain b' where b': "OWLBufferWrite b d = Some b'" "buffer_inv b'" "location b' = location b + length d"
      "d \<noteq> [] \<longrightarrow> buffer_contents b' = overwrite (buffer_contents b) (location b) d"
      "bsize b' \<le> max (bsize b) (location b + length d)"
      using OWLBufferWrite_ok [OF b(2), of d] OWLBufferWrite_empty_size [OF b(2)] length_overwrite length_buffer_contents
      by (cases "d = []") (force, metis order_refl)
    define s' where "s' = (move_to loc s)\<lparr>sec_buffer := Some b'\<rparr>"
    have run: "OWLEmitData i d f = Some (set_sec i s' f)"
      using i Some b'(1) by (simp add: OWLEmitData_def s_def loc_def Let_def s'_def)
    have "position_ok s'" using b b' sz loc fits small by (auto simp: position_ok_def s'_def s_def [symmetric])
    then have "file_inv (set_sec i s' f)"
      using file_upd_section [OF f i, of s'] s by (simp add: section_ok_def s_def s'_def)
    moreover have "section_contents s' = overwrite (section_contents s) (unat (sec_location s)) d" if "d \<noteq> []"
      using that b'(4) b(3) Some by (simp add: section_contents_def s'_def)
    ultimately show ?thesis using run upd sz loc by (auto simp: s_def [symmetric] s'_def)
  qed
qed

lemma OWLSetLocation_ok:
  assumes f: "file_inv f" and i: "i < length (secs f)" and fits: "unat loc < 2 ^ 31"
  shows "\<exists>f'. OWLSetLocation i loc f = Some f' \<and> file_inv f' \<and> f' = set_sec i (secs f' ! i) f
    \<and> sec_location (secs f' ! i) = loc \<and> unat (sec_size (secs f' ! i)) = max (unat (sec_size (secs f ! i))) (unat loc)
    \<and> section_contents (secs f' ! i) = section_contents (secs f ! i) \<and> section_bss (secs f' ! i) = section_bss (secs f ! i)"
proof -
  define s where "s = secs f ! i"
  have s: "section_ok (syms f) i s" using section_of [OF f i] by (simp add: s_def)
  then have pos: "position_ok s" by (simp add: section_ok_def)
  have sz: "unat (sec_size (move_to loc s)) = max (unat (sec_size s)) (unat loc)"
    using unat_move [OF fits, of s] pos by (simp add: position_ok_def)
  define s' where "s' = (move_to loc s)\<lparr>sec_buffer := map_option (\<lambda>b. OWLBufferSeek b loc) (sec_buffer s)\<rparr>"
  have run: "OWLSetLocation i loc f = Some (set_sec i s' f)"
    using i by (simp add: OWLSetLocation_def s_def Let_def s'_def)
  have "position_ok s'"
    using pos sz fits by (auto simp: position_ok_def s'_def OWLBufferSeek_def split: option.splits)
  then have "file_inv (set_sec i s' f)"
    using file_upd_section [OF f i, of s'] s by (simp add: section_ok_def s_def s'_def)
  moreover have "section_contents s' = section_contents s"
    by (simp add: section_contents_def s'_def OWLBufferSeek_def split: option.split)
  moreover have "secs (set_sec i s' f) ! i = s'" using i by (simp add: set_sec_def)
  ultimately show ?thesis using run sz by (auto simp: s_def [symmetric] s'_def)
qed

lemma OWLEmitData_inv:
  assumes "file_inv f" and "i < length (secs f)" and "unat (sec_location (secs f ! i)) + length d < 2 ^ 31" and "OWLEmitData i d f = Some f'"
  shows "file_inv f'"
  using OWLEmitData_ok [OF assms(1-3)] assms(4) by auto

lemma OWLSetLocation_inv:
  assumes "file_inv f" and "i < length (secs f)" and "unat loc < 2 ^ 31" and "OWLSetLocation i loc f = Some f'"
  shows "file_inv f'"
  using OWLSetLocation_ok [OF assms(1-3)] assms(4) by auto

lemma OWLEmitRelocAddend_inv:
  assumes f: "file_inv f" and run: "OWLEmitRelocAddend i ty addend f = Some f'"
  shows "file_inv f'"
proof -
  obtain d msk where d: "i < length (secs f)" "OWLTellData i (sec_location (secs f ! i)) 4 f = Some d"
    "OWLEmitData i (le_bytes 4 (unat (add_in_mask msk addend (word_of_nat (le_val d))))) f = Some f'"
    using run by (auto simp: OWLEmitRelocAddend_def bind_eq_Some_conv rd_Some_iff)
  obtain b where b: "sec_buffer (secs f ! i) = Some b"
    "OWLBufferRead b (sec_location (secs f ! i)) 4 = Some d"
    using d(1,2) by (auto simp: OWLTellData_def bind_eq_Some_conv rd_Some_iff)
  have pos: "position_ok (secs f ! i)" using section_of [OF f d(1)] by (simp add: section_ok_def)
  then have "unat (sec_location (secs f ! i)) < 2 ^ 31" by (simp add: position_ok_def)
  then have "unat (sec_location (secs f ! i)) + 4 \<le> bsize b" using b(2) by (simp add: OWLBufferRead_def split: if_splits)
  then have "unat (sec_location (secs f ! i)) + 4 < 2 ^ 31" using pos b(1) by (simp add: position_ok_def)
  then show ?thesis using OWLEmitData_inv [OF f d(1) _ d(3)] by simp
qed

lemma OWLComdatDep_inv: "file_inv f \<Longrightarrow> OWLComdatDep i dep f = Some f' \<Longrightarrow> file_inv f'"
  using section_of [of f i]
  by (auto simp: OWLComdatDep_def bind_eq_Some_conv rd_Some_iff section_ok_def position_ok_def section_bss_def split: option.splits
      intro!: file_set_sec)

section \<open>Files a client builds\<close>

text \<open>One call of the client.  A section stays below two gigabytes, and a symbol made weak is not a local one.\<close>

inductive owl_step :: "owl_file \<Rightarrow> owl_file \<Rightarrow> bool" where
  step_symbol: "OWLSymbolInit name f = (h, f') \<Longrightarrow> owl_step f f'"
| step_section: "OWLSectionInit name ty al f = Some (i, f') \<Longrightarrow> owl_step f f'"
| step_label: "OWLEmitLabel i h ty link f = Some f' \<Longrightarrow> owl_step f f'"
| step_weak: "\<not> is_local (syms f ! wk) \<Longrightarrow> OWLWeakExt wk alt flags f = Some f' \<Longrightarrow> owl_step f f'"
| step_data: "i < length (secs f) \<Longrightarrow> unat (sec_location (secs f ! i)) + length d < 2 ^ 31 \<Longrightarrow> OWLEmitData i d f = Some f' \<Longrightarrow> owl_step f f'"
| step_reloc: "h < length (syms f) \<Longrightarrow> OWLEmitReloc i off h ty f = Some f' \<Longrightarrow> owl_step f f'"
| step_metareloc: "OWLEmitMetaReloc i off target ty f = Some f' \<Longrightarrow> owl_step f f'"
| step_addend: "OWLEmitRelocAddend i ty addend f = Some f' \<Longrightarrow> owl_step f f'"
| step_import: "OWLEmitImport name f = Some f' \<Longrightarrow> owl_step f f'"
| step_export: "OWLEmitExport h f = Some f' \<Longrightarrow> owl_step f f'"
| step_location: "i < length (secs f) \<Longrightarrow> unat loc < 2 ^ 31 \<Longrightarrow> OWLSetLocation i loc f = Some f' \<Longrightarrow> owl_step f f'"
| step_comdat: "OWLComdatDep i dep f = Some f' \<Longrightarrow> owl_step f f'"

inductive owl_built :: "owl_cpu \<Rightarrow> owl_format \<Rightarrow> owl_file \<Rightarrow> bool" where
  built_init: "OWLFileInit cpu name fmt = Some f \<Longrightarrow> owl_built cpu fmt f"
| built_step: "owl_built cpu fmt f \<Longrightarrow> owl_step f f' \<Longrightarrow> owl_built cpu fmt f'"

inductive_cases owl_stepE: "owl_step f f'"

lemma owl_step_inv: "owl_step f f' \<Longrightarrow> file_inv f \<Longrightarrow> file_inv f'"
  by (erule owl_stepE)
    (auto dest: OWLSymbolInit_inv OWLSectionInit_inv OWLEmitLabel_inv OWLWeakExt_inv OWLEmitData_inv OWLEmitReloc_inv
      OWLEmitMetaReloc_inv OWLEmitRelocAddend_inv OWLEmitImport_inv OWLEmitExport_inv OWLSetLocation_inv OWLComdatDep_inv)

lemma OWLFileInit_inv: "\<exists>f. OWLFileInit cpu name fmt = Some f \<and> file_inv f"
  by (simp add: OWLFileInit_def OWLFileSymbol_def OWLSymbolInit_def OWLSymbolDefine_def set_sym_def linkage_global_def
      file_inv_def tables_inv_def counts_inv_def locals_count_def symbol_ok_def is_local_def Let_def)

lemma owl_built_inv: "owl_built cpu fmt f \<Longrightarrow> file_inv f"
proof (induction rule: owl_built.induct)
  case (built_init cpu name fmt f)
  then show ?case using OWLFileInit_inv [of cpu name fmt] by auto
qed (rule owl_step_inv)

section \<open>Names of labels\<close>

lemma hex_digit_inj: "a < 16 \<Longrightarrow> b < 16 \<Longrightarrow> ''0123456789abcdef'' ! a = ''0123456789abcdef'' ! b \<Longrightarrow> a = b"
proof -
  have d: "distinct ''0123456789abcdef''" by simp
  assume "a < 16" "b < 16" "''0123456789abcdef'' ! a = ''0123456789abcdef'' ! b"
  then show "a = b" using nth_eq_iff_index_eq [OF d, of a b] by simp
qed

lemma hex_digits_nonempty: "hex_digits n \<noteq> []"
  by (subst hex_digits.simps) simp

lemma hex_digits_inj: "hex_digits m = hex_digits n \<Longrightarrow> m = n"
proof (induction m arbitrary: n rule: less_induct)
  case (less m)
  have m: "hex_digits m = (if m < 16 then [''0123456789abcdef'' ! m] else hex_digits (m div 16) @ [''0123456789abcdef'' ! (m mod 16)])"
    and n: "hex_digits n = (if n < 16 then [''0123456789abcdef'' ! n] else hex_digits (n div 16) @ [''0123456789abcdef'' ! (n mod 16)])"
    by (subst hex_digits.simps, rule refl)+
  have last: "m mod 16 = n mod 16"
    using less.prems m n hex_digit_inj [of "m mod 16" "n mod 16"] by (auto simp: hex_digits_nonempty split: if_splits)
  show ?case
  proof (cases "m < 16 \<or> n < 16")
    case True
    then have "m < 16 \<and> n < 16"
      using less.prems m n by (auto simp: hex_digits_nonempty hex_digits_nonempty [symmetric] split: if_splits)
    then show ?thesis using last by simp
  next
    case False
    then have "m div 16 < m" by simp
    moreover have "hex_digits (m div 16) = hex_digits (n div 16)" using False less.prems m n by simp
    ultimately have "m div 16 = n div 16" using less.IH by blast
    then show ?thesis using last by (metis div_mult_mod_eq)
  qed
qed

lemma make_unique_name_inj: "make_unique_name m = make_unique_name n \<longleftrightarrow> m = n"
  by (auto simp: make_unique_name_def dest: hex_digits_inj)

text \<open>Up to symbol \<open>m\<close>, the labels named so far have numbers below the index, in the order of the labels.\<close>

definition named_upto :: "nat \<Rightarrow> owl_file \<Rightarrow> nat \<times> owl_file \<Rightarrow> bool" where
  "named_upto m f0 x \<longleftrightarrow> length (syms (snd x)) = length (syms f0)
     \<and> (\<forall>h < length (syms f0). m \<le> h \<longrightarrow> syms (snd x) ! h = syms f0 ! h)
     \<and> (\<exists>num. (\<forall>h < m. sym_name (syms f0 ! h) = None \<longrightarrow> sym_name (syms (snd x) ! h) \<noteq> None
            \<longrightarrow> sym_name (syms (snd x) ! h) = Some (make_unique_name (num h)) \<and> num h < fst x)
          \<and> (\<forall>h < m. \<forall>k < m. sym_name (syms f0 ! h) = None \<longrightarrow> sym_name (syms (snd x) ! h) \<noteq> None
            \<longrightarrow> sym_name (syms f0 ! k) = None \<longrightarrow> sym_name (syms (snd x) ! k) \<noteq> None \<longrightarrow> h \<noteq> k \<longrightarrow> num h \<noteq> num k))"

lemma name_step_named:
  assumes "named_upto m f0 x" and "m < length (syms f0)"
  shows "named_upto (Suc m) f0 (name_step m x)"
proof -
  obtain index f where x: "x = (index, f)" by fastforce
  obtain num where num: "length (syms f) = length (syms f0)" "\<forall>h < length (syms f0). m \<le> h \<longrightarrow> syms f ! h = syms f0 ! h"
    "\<forall>h < m. sym_name (syms f0 ! h) = None \<longrightarrow> sym_name (syms f ! h) \<noteq> None
            \<longrightarrow> sym_name (syms f ! h) = Some (make_unique_name (num h)) \<and> num h < index"
    "\<forall>h < m. \<forall>k < m. sym_name (syms f0 ! h) = None \<longrightarrow> sym_name (syms f ! h) \<noteq> None
            \<longrightarrow> sym_name (syms f0 ! k) = None \<longrightarrow> sym_name (syms f ! k) \<noteq> None \<longrightarrow> h \<noteq> k \<longrightarrow> num h \<noteq> num k"
    using assms(1) by (auto simp: named_upto_def x)
  have at: "syms f ! m = syms f0 ! m" using num(2) assms(2) by simp
  define y where "y = syms f ! m"
  consider (keep) "name_step m x = (index, f)"
    | (dead) f' where "name_step m x = (index, f')" "syms f' = (syms f)[m := y\<lparr>sym_flags := sym_flags y OR OWL_SYM_DEAD\<rparr>]"
        "sym_name y = None"
    | (named) f' where "name_step m x = (index + 1, f')" "syms f' = (syms f)[m := y\<lparr>sym_name := Some (make_unique_name index)\<rparr>]"
  proof (cases "meta_symbol (sym_type y) \<or> sym_name y \<noteq> None")
    case True
    then have "name_step m x = (index, f)" by (auto simp: name_step_def x Let_def y_def)
    then show thesis by (rule keep)
  next
    case no: False
    show thesis
    proof (cases "sym_num_relocs y = 0 \<and> x_func y = None")
      case True
      then show thesis using no dead by (auto simp: name_step_def x Let_def y_def set_sym_def count_dead_def)
    next
      case False
      then show thesis using no named by (auto simp: name_step_def x Let_def y_def set_sym_def)
    qed
  qed
  then show ?thesis
  proof cases
    case keep
    then show ?thesis using num at assms(2) unfolding named_upto_def
      by (intro conjI exI [of _ num]) (auto simp: less_Suc_eq)
  next
    case dead
    then show ?thesis using num at assms(2) unfolding named_upto_def
      by (intro conjI exI [of _ num]) (auto simp: less_Suc_eq nth_list_update y_def)
  next
    case named
    then show ?thesis using num at assms(2) unfolding named_upto_def
      by (intro conjI exI [of _ "num(m := index)"]) (auto simp: less_Suc_eq nth_list_update)
  qed
qed

lemma resolveLabelNames_distinct:
  assumes "h < length (syms f)" "k < length (syms f)" "h \<noteq> k"
    and "sym_name (syms f ! h) = None" "sym_name (syms f ! k) = None"
    and "sym_name (syms (resolveLabelNames f) ! h) = Some a" "sym_name (syms (resolveLabelNames f) ! k) = Some b"
  shows "a \<noteq> b"
proof -
  have "m \<le> length (syms f) \<Longrightarrow> named_upto m f (fold name_step [0..<m] (0, f))" for m
  proof (induction m)
    case 0
    then show ?case by (simp add: named_upto_def)
  next
    case (Suc m)
    then show ?case using name_step_named [of m f "fold name_step [0..<m] (0, f)"] by simp
  qed
  from this [of "length (syms f)"] show ?thesis
  proof -
    define g where "g = resolveLabelNames f"
    assume "length (syms f) \<le> length (syms f) \<Longrightarrow> named_upto (length (syms f)) f (fold name_step [0..<length (syms f)] (0, f))"
    then obtain num where num: "\<forall>h < length (syms f). sym_name (syms f ! h) = None \<longrightarrow> sym_name (syms g ! h) \<noteq> None
            \<longrightarrow> sym_name (syms g ! h) = Some (make_unique_name (num h))"
      "\<forall>h < length (syms f). \<forall>k < length (syms f). sym_name (syms f ! h) = None \<longrightarrow> sym_name (syms g ! h) \<noteq> None
            \<longrightarrow> sym_name (syms f ! k) = None \<longrightarrow> sym_name (syms g ! k) \<noteq> None \<longrightarrow> h \<noteq> k \<longrightarrow> num h \<noteq> num k"
      by (auto simp: named_upto_def g_def resolveLabelNames_def)
    have "a = make_unique_name (num h)" "b = make_unique_name (num k)" "num h \<noteq> num k"
      using num(1) [rule_format, OF assms(1)] num(1) [rule_format, OF assms(2)] num(2) [rule_format, OF assms(1,2)] assms(3-7)
      by (simp_all add: g_def)
    then show ?thesis by (simp add: make_unique_name_inj)
  qed
qed

section \<open>Relocations applied in place\<close>

lemma add_in_mask_full: "add_in_mask 0xffffffff v d = v + d"
proof -
  have m: "(0xffffffff :: u32) = - 1" by simp
  show ?thesis unfolding add_in_mask_def m by simp
qed

lemma word_of_le_val: "length d = 4 \<Longrightarrow> le_bytes 4 (unat (word_of_nat (le_val d) :: u32)) = d"
  using le_val_bound [of d] by (simp add: unat_of_nat le_bytes_le_val)

lemma do_reloc_x64:
  assumes f: "file_inv f" and i: "i < length (secs f)" and cpu: "f_cpu f = OWL_CPU_X64"
    and sy: "rel_symbol r < length (syms f)"
    and fits: "unat (rel_location r) + 4 \<le> length (section_contents (secs f ! i))"
  shows "\<exists>f'. do_reloc i r f = Some f' \<and> f' = set_sec i (secs f' ! i) f
    \<and> sec_location (secs f' ! i) = sec_location (secs f ! i) \<and> sec_size (secs f' ! i) = sec_size (secs f ! i)
    \<and> num_relocs (secs f' ! i) = num_relocs (secs f ! i) - 1
    \<and> section_contents (secs f' ! i) = overwrite (section_contents (secs f ! i)) (unat (rel_location r))
         (le_bytes 4 (unat (sym_offset (syms f ! rel_symbol r) - (rel_location r + 4)
            + word_of_nat (le_val (take 4 (drop (unat (rel_location r)) (section_contents (secs f ! i))))))))
    \<and> position_ok (secs f' ! i)"
proof -
  define s where "s = secs f ! i"
  have pos: "position_ok s" using section_of [OF f i] by (simp add: s_def section_ok_def)
  obtain b where b: "sec_buffer s = Some b" using fits by (cases "sec_buffer s") (auto simp: section_contents_def s_def)
  have b': "\<not> section_bss s" "buffer_inv b" "location b = unat (sec_location s)" "bsize b \<le> unat (sec_size s)"
    "unat (sec_location s) \<le> unat (sec_size s)" "unat (sec_size s) < 2 ^ 31"
    using pos b by (simp_all add: position_ok_def)
  have c: "section_contents s = buffer_contents b" using b by (simp add: section_contents_def)
  define loc where "loc = unat (rel_location r)"
  have loc: "loc + 4 \<le> bsize b" using fits c by (simp add: loc_def s_def)
  then have small: "unat (rel_location r) < 2 ^ 31" "unat (rel_location r) + 4 \<le> 2 ^ 31" using b' by (simp_all add: loc_def)
  define v where "v = sym_offset (syms f ! rel_symbol r) - (rel_location r + 4)"
  define d where "d = take 4 (drop loc (buffer_contents b))"
  define w where "w = le_bytes 4 (unat (v + word_of_nat (le_val d) :: u32))"
  have disp: "reloc_disp f r (sym_offset (syms f ! rel_symbol r)) = Some v"
    using cpu by (simp add: reloc_disp_def OWLRelocTargetDisp_def Let_def v_def)
  let ?b = "OWLBufferSeek b (rel_location r)"
  have seek: "buffer_inv ?b" "buffer_contents ?b = buffer_contents b" "location ?b = loc"
    using owl.seek_law [OF b'(2)] owl.seek_pos [OF small(1)] by (simp_all add: loc_def)
  have read: "OWLBufferRead ?b (rel_location r) 4 = Some d"
    using owl.read_law [OF seek(1) _ small] loc seek(2) by (simp add: d_def loc_def)
  have len_w: "length w = 4" by (simp add: w_def)
  then have w: "w \<noteq> []" "length w = 4" by auto
  obtain b2 where b2: "OWLBufferWrite ?b w = Some b2" "buffer_inv b2"
    "buffer_contents b2 = overwrite (buffer_contents b) loc w"
    using owl.write_law [OF seek(1) w(1)] seek(2,3) by auto
  define s' where "s' = s\<lparr>sec_buffer := Some (OWLBufferSeek b2 (OWLBufferTell b)), num_relocs := num_relocs s - 1\<rparr>"
  have wr: "OWLBufferWrite ?b (le_bytes 4 (unat (add_in_mask 0xffffffff v (word_of_nat (le_val d))))) = Some b2"
    using b2(1) unfolding add_in_mask_full w_def .
  have msk: "OWLRelocBitMask (f_cpu f) (rel_type r) = Some 0xffffffff" using cpu by (simp add: OWLRelocBitMask_def)
  have sec: "rd (secs f) i = Some s" "rd (syms f) (rel_symbol r) = Some (syms f ! rel_symbol r)" using i sy by (simp_all add: s_def)
  have run: "do_reloc i r f = Some (set_sec i s' f)"
    unfolding do_reloc_def sec Let_def bind.simps option.case Option.bind.simps disp msk b read wr s'_def
    by (rule refl)
  have len: "bsize b2 = bsize b"
    using b2(3) w(2) loc by (metis length_buffer_contents length_overwrite max_absorb1)
  have "section_contents s' = overwrite (section_contents s) loc w"
    using owl.seek_law [OF b2(2)] b2(3) c by (simp add: section_contents_def s'_def)
  moreover have "position_ok s'"
    using b' b2(2) len by (auto simp: position_ok_def s'_def OWLBufferSeek_def OWLBufferTell_def section_bss_def)
  moreover have "secs (set_sec i s' f) ! i = s'" using i by (simp add: set_sec_def)
  ultimately show ?thesis
    using run by (auto simp: s_def [symmetric] s'_def loc_def w_def v_def d_def c)
qed

definition word_at :: "bytes \<Rightarrow> nat \<Rightarrow> u32" where
  "word_at c p = word_of_nat (le_val (take 4 (drop p c)))"

lemma word_at_overwrite: "word_at (overwrite c p (le_bytes 4 (unat (v :: u32)))) p = v"
proof -
  have "take 4 (drop p (overwrite c p (le_bytes 4 (unat v)))) = le_bytes 4 (unat v)"
    using overwrite_at [of "le_bytes 4 (unat v)" p c] by simp
  moreover have "unat v < 256 ^ 4" using unsigned_less [of v] by simp
  ultimately show ?thesis by (simp add: word_at_def le_val_le_bytes)
qed

lemma overwrite_frame:
  assumes "p + length d \<le> length c"
  shows "take p (overwrite c p d) = take p c" "drop (p + length d) (overwrite c p d) = drop (p + length d) c"
  using assms by (simp_all add: overwrite_def)

section \<open>An example file\<close>

lemma OWLSectionInit_ok:
  assumes "file_inv f"
  shows "\<exists>f'. OWLSectionInit name ty al f = Some (length (secs f), f') \<and> f_cpu f' = f_cpu f \<and> length (syms f') = Suc (length (syms f))
    \<and> length (secs f') = Suc (length (secs f)) \<and> sec_location (secs f' ! length (secs f)) = 0
    \<and> section_contents (secs f' ! length (secs f)) = [] \<and> (section_bss (secs f' ! length (secs f)) \<longleftrightarrow> ty AND OWL_SEC_ATTR_BSS \<noteq> 0)
    \<and> sec_size (secs f' ! length (secs f)) = 0"
  using buffer_init_inv
  by (auto simp: OWLSectionInit_def add_section_def add_section_symbol_def OWLSymbolInit_def OWLSymbolDefine_def
      set_sec_def set_sym_def meta_symbol_def linkage_global_def rd_def Let_def section_contents_def section_bss_def
      nth_append list_update_append)

lemma file_with_section:
  "\<exists>f. owl_built OWL_CPU_X64 OWL_FORMAT_ELF f \<and> f_cpu f = OWL_CPU_X64 \<and> length (secs f) = 1 \<and> length (syms f) = 2
    \<and> sec_location (secs f ! 0) = 0 \<and> section_contents (secs f ! 0) = [] \<and> \<not> section_bss (secs f ! 0) \<and> sec_size (secs f ! 0) = 0"
proof -
  obtain f0 where f0: "OWLFileInit OWL_CPU_X64 ''a.c'' OWL_FORMAT_ELF = Some f0" "file_inv f0" using OWLFileInit_inv by blast
  have n: "length (secs f0) = 0" "f_cpu f0 = OWL_CPU_X64" "length (syms f0) = 1"
    using f0(1) by (auto simp: OWLFileInit_def OWLFileSymbol_def OWLSymbolInit_def OWLSymbolDefine_def set_sym_def linkage_global_def Let_def)
  obtain f1 where f1: "OWLSectionInit ''.text'' 1 16 f0 = Some (length (secs f0), f1)" "f_cpu f1 = f_cpu f0"
    "length (syms f1) = Suc (length (syms f0))" "length (secs f1) = Suc (length (secs f0))"
    "sec_location (secs f1 ! length (secs f0)) = 0" "section_contents (secs f1 ! length (secs f0)) = []"
    "section_bss (secs f1 ! length (secs f0)) \<longleftrightarrow> (1 :: u32) AND OWL_SEC_ATTR_BSS \<noteq> 0" "sec_size (secs f1 ! length (secs f0)) = 0"
    using OWLSectionInit_ok [OF f0(2), of "''.text''" 1 16] by blast
  have "owl_built OWL_CPU_X64 OWL_FORMAT_ELF f1"
    by (rule built_step [OF built_init [OF f0(1)]]) (rule step_section [OF f1(1)])
  then show ?thesis using f1 n by (auto simp: OWL_SEC_ATTR_BSS_def)
qed

lemma file_with_code:
  "\<exists>f. owl_built OWL_CPU_X64 OWL_FORMAT_ELF f \<and> f_cpu f = OWL_CPU_X64 \<and> length (secs f) = 1 \<and> length (syms f) = 2
    \<and> section_contents (secs f ! 0) = [0xE8, 0, 0, 0, 0]"
proof -
  obtain f where f: "owl_built OWL_CPU_X64 OWL_FORMAT_ELF f" "f_cpu f = OWL_CPU_X64" "length (secs f) = 1" "length (syms f) = 2"
    "sec_location (secs f ! 0) = 0" "section_contents (secs f ! 0) = []" "\<not> section_bss (secs f ! 0)"
    using file_with_section by blast
  have i: "0 < length (secs f)" "unat (sec_location (secs f ! 0)) + length ([0xE8, 0, 0, 0, 0] :: bytes) < 2 ^ 31"
    using f(3,5) by simp_all
  obtain f' where f': "OWLEmitData 0 [0xE8, 0, 0, 0, 0] f = Some f'" "f' = set_sec 0 (secs f' ! 0) f"
    "section_contents (secs f' ! 0) = overwrite [] 0 [0xE8, 0, 0, 0, 0]"
    using OWLEmitData_ok [OF owl_built_inv [OF f(1)] i] f(5-7) by auto
  have "owl_built OWL_CPU_X64 OWL_FORMAT_ELF f'"
    by (rule built_step [OF f(1)]) (rule step_data [OF i f'(1)])
  moreover have "f_cpu f' = f_cpu f" "length (secs f') = length (secs f)" "length (syms f') = length (syms f)"
    by (subst f'(2), simp add: set_sec_def)+
  ultimately show ?thesis using f f'(3) by (auto simp: overwrite_def)
qed

text \<open>
  A section whose location is moved past its end and that is not written there has a size its buffer does
  not have: the header of the section in the object file says 100 bytes, and no byte is emitted.
\<close>

lemma size_beyond_buffer:
  "\<exists>f b. owl_built OWL_CPU_X64 OWL_FORMAT_ELF f \<and> sec_size (secs f ! 0) = 100 \<and> sec_buffer (secs f ! 0) = Some b
    \<and> OWLBufferEmit b = Some []"
proof -
  obtain f where f: "owl_built OWL_CPU_X64 OWL_FORMAT_ELF f" "length (secs f) = 1"
    "sec_location (secs f ! 0) = 0" "section_contents (secs f ! 0) = []" "\<not> section_bss (secs f ! 0)" "sec_size (secs f ! 0) = 0"
    using file_with_section by blast
  note inv = owl_built_inv [OF f(1)]
  have i: "0 < length (secs f)" "unat (100 :: u32) < 2 ^ 31" using f(2) by simp_all
  obtain f' where f': "OWLSetLocation 0 100 f = Some f'" "file_inv f'" "f' = set_sec 0 (secs f' ! 0) f"
    "unat (sec_size (secs f' ! 0)) = unat (100 :: u32)"
    "section_contents (secs f' ! 0) = []" "\<not> section_bss (secs f' ! 0)"
    using OWLSetLocation_ok [OF inv i] f(4-6) by auto
  have built: "owl_built OWL_CPU_X64 OWL_FORMAT_ELF f'" by (rule built_step [OF f(1)]) (rule step_location [OF i f'(1)])
  have "length (secs f') = 1" using f(2) by (subst f'(3)) (simp add: set_sec_def)
  then have "position_ok (secs f' ! 0)" using section_of [OF f'(2), of 0] by (simp add: section_ok_def)
  then obtain b where b: "sec_buffer (secs f' ! 0) = Some b" "buffer_inv b"
    using f'(6) by (auto simp: position_ok_def split: option.splits)
  then have c: "buffer_contents b = []" using f'(5) by (simp add: section_contents_def)
  then have "bsize b = 0" using length_buffer_contents [of b] by simp
  then have "\<not> buffer_full b" using b(2) by (simp add: buffer_full_def buffer_inv_def NUM_BINS_def)
  then have "OWLBufferEmit b = Some []" using OWLBufferEmit_ok [OF b(2)] c by simp
  moreover have "sec_size (secs f' ! 0) = 100" using f'(4) by (simp only: unsigned_word_eqI)
  ultimately show ?thesis using built b(1) by blast
qed

text \<open>A local symbol made weak is global from then on, and the symbol table still counts it as local.\<close>

definition static_then_weak :: "owl_file option" where
  "static_then_weak = do {
     f \<leftarrow> OWLFileInit OWL_CPU_X64 ''a.c'' OWL_FORMAT_ELF;
     (i, f) \<leftarrow> OWLSectionInit ''.bss'' OWL_SEC_ATTR_BSS 4 f;
     let (h, f) = OWLSymbolInit (Some ''x'') f;
     let (a, f) = OWLSymbolInit (Some ''y'') f;
     f \<leftarrow> OWLEmitLabel i h OWL_TYPE_OBJECT OWL_SYM_STATIC f;
     OWLWeakExt h a OWL_WKSYM_NORMAL f
   }"

lemma weak_local_breaks_count:
  "map_option num_local_symbols static_then_weak = Some 1" "map_option locals_count static_then_weak = Some 0"
  by (code_simp, code_simp)

section \<open>Properties\<close>





text \<open>
  C27.  A relative relocation that is resolved in place reaches its symbol: on x86-64 the new displacement,
  counted from the end of the field, is the offset of the symbol plus what the field held before.  Only the
  field changes, and the section is one relocation shorter.
\<close>
theorem resolved_reloc_reaches_symbol:
  assumes "owl_built cpu fmt f" and "i < length (secs f)" and "f_cpu f = OWL_CPU_X64" and "rel_symbol r < length (syms f)"
    and "unat (rel_location r) + 4 \<le> length (section_contents (secs f ! i))"
  shows "\<exists>s'. do_reloc i r f = Some (set_sec i s' f) \<and> num_relocs s' = num_relocs (secs f ! i) - 1
    \<and> word_at (section_contents s') (unat (rel_location r)) + (rel_location r + 4)
        = sym_offset (syms f ! rel_symbol r) + word_at (section_contents (secs f ! i)) (unat (rel_location r))
    \<and> take (unat (rel_location r)) (section_contents s') = take (unat (rel_location r)) (section_contents (secs f ! i))
    \<and> drop (unat (rel_location r) + 4) (section_contents s') = drop (unat (rel_location r) + 4) (section_contents (secs f ! i))"
proof -
  define c where "c = section_contents (secs f ! i)"
  define p where "p = unat (rel_location r)"
  define v where "v = sym_offset (syms f ! rel_symbol r) - (rel_location r + 4) + word_at c p"
  obtain f' where f': "do_reloc i r f = Some f'" "f' = set_sec i (secs f' ! i) f"
    "num_relocs (secs f' ! i) = num_relocs (secs f ! i) - 1"
    "section_contents (secs f' ! i) = overwrite c p (le_bytes 4 (unat v))"
    using do_reloc_x64 [OF owl_built_inv [OF assms(1)] assms(2-5)] unfolding word_at_def [symmetric] c_def p_def v_def by auto
  have "word_at (section_contents (secs f' ! i)) p + (rel_location r + 4) = sym_offset (syms f ! rel_symbol r) + word_at c p"
    unfolding f'(4) word_at_overwrite by (simp add: v_def)
  moreover have "take p (section_contents (secs f' ! i)) = take p c" "drop (p + 4) (section_contents (secs f' ! i)) = drop (p + 4) c"
    using overwrite_frame [of p "le_bytes 4 (unat v)" c] assms(5) f'(4) by (simp_all add: c_def p_def)
  ultimately show ?thesis using f'(1-3) unfolding c_def p_def by metis
qed

theorem resolved_reloc_reaches_symbol_witness:
  "\<exists>f s'. do_reloc 0 \<lparr>rel_symbol = 1, rel_type = OWL_RELOC_JUMP_REL, rel_location = 1\<rparr> f = Some (set_sec 0 s' f)
    \<and> word_at (section_contents s') 1 + 5 = sym_offset (syms f ! 1) + 0"
proof -
  obtain f where f: "owl_built OWL_CPU_X64 OWL_FORMAT_ELF f" "f_cpu f = OWL_CPU_X64" "length (secs f) = 1" "length (syms f) = 2"
    "section_contents (secs f ! 0) = [0xE8, 0, 0, 0, 0]"
    using file_with_code by blast
  have "word_at [0xE8, 0, 0, 0, 0] 1 = 0" by (simp add: word_at_def numeral_eq_Suc)
  then show ?thesis
    using resolved_reloc_reaches_symbol [OF f(1), of 0 "\<lparr>rel_symbol = 1, rel_type = OWL_RELOC_JUMP_REL, rel_location = 1\<rparr>"] f
    by auto
qed

end
