(* ===== verification/OwlString.thy ===== *)
theory OwlString
  imports OwPrelude
begin

text \<open>
  The string table of the object writer library (\<open>bld/owl/c/owstring.c\<close>, \<open>bld/owl/h/owstring.h\<close>): a
  patricia tree, in which every node holds one string and the pointers that lead upwards stand for the
  leaves.

  Nodes are positions in the list of all nodes made; the root, \<open>table->tree\<close>, is node 0.  The offsets,
  a field of the nodes in the source, are a map of their own.  A string is its bytes without the
  terminator; an argument comes with the bytes that follow its terminator in memory, as \<open>getBit\<close> may look
  at the first of them.  A read outside the memory given, and a pointer to no node, is \<open>None\<close>.  Lengths and
  bit numbers are natural numbers: tables stay below 2 to the 32 bytes and strings below 2 to the 29.
\<close>

section \<open>The table\<close>

record patricia =
  pat_left :: nat
  pat_right :: nat
  pat_bit :: nat
  pat_text :: bytes

record owl_string_table =
  tab_bytes :: nat
  pat_nodes :: "patricia list"
  pat_offset :: "nat \<rightharpoonup> nat"

definition newNode :: "owl_string_table \<Rightarrow> bytes \<Rightarrow> nat \<Rightarrow> nat \<times> owl_string_table" where
  "newNode table str b =
    (length (pat_nodes table),
     table\<lparr>tab_bytes := tab_bytes table + (length str + 1),
           pat_nodes := pat_nodes table @ [\<lparr>pat_left = 0, pat_right = 0, pat_bit = b, pat_text = str\<rparr>]\<rparr>)"

definition getBit :: "bytes \<Rightarrow> nat \<Rightarrow> nat \<Rightarrow> u8 option" where
  "getBit m len bit_pos =
    (let char_pos = bit_pos div 8; bit_off = bit_pos mod 8
     in if len < char_pos then Some 0
        else map_option (\<lambda>c. c AND drop_bit bit_off 0x80) (rd m char_pos))"

definition pat_child :: "bytes \<Rightarrow> nat \<Rightarrow> patricia \<Rightarrow> nat option" where
  "pat_child m len nd = map_option (\<lambda>b. if b \<noteq> 0 then pat_right nd else pat_left nd) (getBit m len (pat_bit nd))"

text \<open>The two descents of \<open>patInsert\<close>; the bits grow on the way down.\<close>

definition bit_bound :: "patricia list \<Rightarrow> nat" where
  "bit_bound ns = Max (insert 0 (pat_bit ` set ns))"

lemma bit_bound: "rd ns h = Some nd \<Longrightarrow> pat_bit nd \<le> bit_bound ns"
  by (auto simp: bit_bound_def byte_simps)

function pat_find :: "patricia list \<Rightarrow> bytes \<Rightarrow> nat \<Rightarrow> nat \<Rightarrow> nat \<Rightarrow> nat option" where
  "pat_find ns m len prev cur = do {
     p \<leftarrow> rd ns prev;
     c \<leftarrow> rd ns cur;
     if pat_bit p < pat_bit c
     then do { next_node \<leftarrow> pat_child m len c; pat_find ns m len cur next_node }
     else Some cur
   }"
  by pat_completeness auto
termination
  by (relation "measure (\<lambda>(ns, m, len, prev, cur). bit_bound ns - pat_bit (ns ! prev))")
    (auto simp: rd_Some_iff intro!: diff_less_mono2 less_le_trans [OF _ bit_bound])

function pat_place :: "patricia list \<Rightarrow> bytes \<Rightarrow> nat \<Rightarrow> nat \<Rightarrow> nat \<Rightarrow> nat \<Rightarrow> (nat \<times> nat) option" where
  "pat_place ns m len diff_bit prev other = do {
     p \<leftarrow> rd ns prev;
     c \<leftarrow> rd ns other;
     if pat_bit p < pat_bit c \<and> pat_bit c < diff_bit
     then do { next_node \<leftarrow> pat_child m len c; pat_place ns m len diff_bit other next_node }
     else Some (prev, other)
   }"
  by pat_completeness auto
termination
  by (relation "measure (\<lambda>(ns, m, len, d, prev, other). bit_bound ns - pat_bit (ns ! prev))")
    (auto simp: rd_Some_iff intro!: diff_less_mono2 less_le_trans [OF _ bit_bound])

function pat_diff :: "bytes \<Rightarrow> nat \<Rightarrow> bytes \<Rightarrow> nat \<Rightarrow> nat \<Rightarrow> nat \<Rightarrow> nat option" where
  "pat_diff m len cm curr_len last_bit d =
    (if d < last_bit then do {
       a \<leftarrow> getBit m len d;
       b \<leftarrow> getBit cm curr_len d;
       if a \<noteq> b then Some d else pat_diff m len cm curr_len last_bit (d + 1)
     } else Some d)"
  by pat_completeness auto
termination
  by (relation "measure (\<lambda>(m, len, cm, cl, last, d). last - d)") auto

declare pat_find.simps [simp del] pat_place.simps [simp del] pat_diff.simps [simp del]

definition patInsert :: "owl_string_table \<Rightarrow> bytes \<Rightarrow> bytes \<Rightarrow> (nat \<times> owl_string_table) option" where
  "patInsert table str after = do {
     let m = str @ 0 # after;
     let len = length str + 1;
     root \<leftarrow> rd (pat_nodes table) 0;
     cur \<leftarrow> pat_find (pat_nodes table) m len 0 (pat_left root);
     c \<leftarrow> rd (pat_nodes table) cur;
     if str = pat_text c then Some (cur, table)
     else do {
       let curr_len = length (pat_text c) + 1;
       let last_bit = min curr_len len * 8;
       diff_bit \<leftarrow> pat_diff m len (pat_text c @ [0]) curr_len last_bit 0;
       (prev, other) \<leftarrow> pat_place (pat_nodes table) m len diff_bit 0 (pat_left root);
       let (n, table) = newNode table str diff_bit;
       b \<leftarrow> getBit m len diff_bit;
       let nd = pat_nodes table ! n;
       let nd = (if b \<noteq> 0 then nd\<lparr>pat_left := other, pat_right := n\<rparr> else nd\<lparr>pat_right := other, pat_left := n\<rparr>);
       let table = table\<lparr>pat_nodes := (pat_nodes table)[n := nd]\<rparr>;
       p \<leftarrow> rd (pat_nodes table) prev;
       pb \<leftarrow> getBit m len (pat_bit p);
       let p = (if pb \<noteq> 0 then p\<lparr>pat_right := n\<rparr> else p\<lparr>pat_left := n\<rparr>);
       Some (n, table\<lparr>pat_nodes := (pat_nodes table)[prev := p]\<rparr>)
     }
   }"

text \<open>\<open>patEmit\<close>: the offsets given out and the bytes copied so far are its state.\<close>

function patEmit :: "patricia list \<Rightarrow> nat \<Rightarrow> (nat \<rightharpoonup> nat) \<times> bytes \<Rightarrow> ((nat \<rightharpoonup> nat) \<times> bytes) option" where
  "patEmit ns tree st = do {
     t \<leftarrow> rd ns tree;
     let st = (case st of (offs, buffer) \<Rightarrow> (offs(tree \<mapsto> length buffer), buffer @ pat_text t @ [0]));
     l \<leftarrow> rd ns (pat_left t);
     st \<leftarrow> (if pat_bit t < pat_bit l then patEmit ns (pat_left t) st else Some st);
     r \<leftarrow> rd ns (pat_right t);
     if pat_bit t < pat_bit r then patEmit ns (pat_right t) st else Some st
   }"
  by pat_completeness auto
termination
  by (relation "measure (\<lambda>(ns, tree, st). bit_bound ns - pat_bit (ns ! tree))")
    (auto simp: rd_Some_iff intro!: diff_less_mono2 less_le_trans [OF _ bit_bound])

declare patEmit.simps [simp del]

definition OWLStringInit :: owl_string_table where
  "OWLStringInit =
    (case newNode \<lparr>tab_bytes = 0, pat_nodes = [], pat_offset = Map.empty\<rparr> [] 0 of (n, table) \<Rightarrow>
       table\<lparr>pat_nodes := (pat_nodes table)[n := (pat_nodes table ! n)\<lparr>pat_left := n, pat_right := n\<rparr>]\<rparr>)"

definition OWLStringAdd :: "owl_string_table \<Rightarrow> bytes \<Rightarrow> bytes \<Rightarrow> (nat \<times> owl_string_table) option" where
  "OWLStringAdd table string after = patInsert table string after"

definition OWLStringText :: "owl_string_table \<Rightarrow> nat \<Rightarrow> bytes option" where
  "OWLStringText table h = map_option pat_text (rd (pat_nodes table) h)"

definition OWLStringOffset :: "owl_string_table \<Rightarrow> nat \<Rightarrow> nat option" where
  "OWLStringOffset table h = pat_offset table h"

definition OWLStringTableSize :: "owl_string_table \<Rightarrow> nat" where
  "OWLStringTableSize table = tab_bytes table"

text \<open>The caller's buffer has the size of the table; more is an overrun, and what is not copied stays undefined.\<close>

definition OWLStringEmit :: "owl_string_table \<Rightarrow> (owl_string_table \<times> bytes) option" where
  "OWLStringEmit table = do {
     (offs, buffer) \<leftarrow> patEmit (pat_nodes table) 0 (pat_offset table, []);
     Some (table\<lparr>pat_offset := offs\<rparr>, buffer)
   }"

section \<open>Bits of strings\<close>

definition str_bit :: "bytes \<Rightarrow> nat \<Rightarrow> bool" where
  "str_bit t i \<longleftrightarrow> i div 8 < length t \<and> bit (t ! (i div 8)) (7 - i mod 8)"

lemma bit_mask_at: "j < 8 \<Longrightarrow> (a :: u8) AND drop_bit j 0x80 = (if bit a (7 - j) then 2 ^ (7 - j) else 0)"
proof -
  assume j: "j < 8"
  then have "j \<in> {0, 1, 2, 3, 4, 5, 6, 7}" by auto
  then have "drop_bit j (0x80 :: u8) = 2 ^ (7 - j)" by auto
  moreover have "a AND 2 ^ n = (if bit a n then 2 ^ n else 0)" for n
    by (rule bit_word_eqI) (auto simp: bit_simps)
  ultimately show ?thesis by simp
qed

lemma top_bit: "j < 8 \<Longrightarrow> (a :: u8) AND drop_bit j 0x80 = 0 \<longleftrightarrow> \<not> bit a (7 - j)"
  by (simp add: bit_mask_at exp_eq_zero_iff) linarith

lemma getBit_own:
  assumes "i < 8 * (length t + 1)"
  shows "\<exists>b. getBit (t @ 0 # after) (length t + 1) i = Some b \<and> (b \<noteq> 0) = str_bit t i"
  using assms
  by (auto simp: getBit_def Let_def str_bit_def rd_def nth_append top_bit less_Suc_eq_le less_mult_imp_div_less)

lemma getBit_defined: "after \<noteq> [] \<Longrightarrow> \<exists>b. getBit (t @ 0 # after) (length t + 1) i = Some b"
  by (cases after) (auto simp: getBit_def Let_def rd_def)

definition agree :: "bytes \<Rightarrow> bytes \<Rightarrow> nat \<Rightarrow> bool" where
  "agree s t d \<longleftrightarrow> (\<forall>i < d. str_bit s i = str_bit t i)"

lemma agree_sym: "agree s t d = agree t s d"
  by (auto simp: agree_def)

lemma agree_refl [simp]: "agree s s d"
  by (simp add: agree_def)

lemma agree_trans: "agree s t d \<Longrightarrow> agree t u d \<Longrightarrow> agree s u d"
  by (simp add: agree_def)

lemma agree_le: "agree s t d \<Longrightarrow> c \<le> d \<Longrightarrow> agree s t c"
  by (simp add: agree_def)

lemma agree_Suc: "agree s t (Suc d) \<longleftrightarrow> agree s t d \<and> str_bit s d = str_bit t d"
  by (auto simp: agree_def less_Suc_eq)

definition c_string :: "bytes \<Rightarrow> bool" where
  "c_string t \<longleftrightarrow> 0 \<notin> set t"

text \<open>Strings that agree in the bits of one and of its terminator are equal.\<close>

definition char_at :: "bytes \<Rightarrow> nat \<Rightarrow> u8" where
  "char_at t k = (if k < length t then t ! k else 0)"

lemma str_bit_char: "j < 8 \<Longrightarrow> str_bit t (8 * k + j) = bit (char_at t k) (7 - j)"
  by (simp add: str_bit_def char_at_def)

lemma agree_char:
  assumes "agree s t d" and "8 * k + 8 \<le> d"
  shows "char_at s k = char_at t k"
proof (rule bit_word_eqI)
  fix n
  assume "n < LENGTH(8)"
  then have n: "n < 8" by simp
  have "str_bit s (8 * k + (7 - n)) = str_bit t (8 * k + (7 - n))" using assms n by (simp add: agree_def)
  then show "bit (char_at s k) n = bit (char_at t k) n" using n str_bit_char [of "7 - n"] by simp
qed

lemma agree_eq:
  assumes "c_string s" and "c_string t" and ag: "agree s t (8 * (length s + 1))"
  shows "s = t"
proof -
  have same: "char_at s k = char_at t k" if "k \<le> length s" for k using agree_char [OF ag, of k] that by simp
  have nz: "char_at x k \<noteq> 0" if "c_string x" "k < length x" for x k
    using that nth_mem [of k x] by (auto simp: char_at_def c_string_def simp del: nth_mem)
  have "\<not> length s < length t" using same [of "length s"] nz [of t "length s"] assms(2) by (auto simp: char_at_def)
  moreover have "\<not> length t < length s" using same [of "length t"] nz [of s "length t"] assms(1) by (auto simp: char_at_def)
  ultimately have len: "length s = length t" by simp
  show "s = t"
  proof (rule nth_equalityI)
    show "s ! k = t ! k" if "k < length s" for k using same [of k] that len by (simp add: char_at_def)
  qed (rule len)
qed

lemma pat_diff_first:
  assumes "n \<le> 8 * (length s + 1)" and "n \<le> 8 * (length t + 1)" and "d \<le> n" and "agree s t d"
  shows "\<exists>e. pat_diff (s @ 0 # after) (length s + 1) (t @ [0]) (length t + 1) n d = Some e \<and> agree s t e \<and> e \<le> n
    \<and> (e < n \<longrightarrow> str_bit s e \<noteq> str_bit t e)"
  using assms(3,4)
proof (induction "n - d" arbitrary: d)
  case 0
  then show ?case by (simp add: pat_diff.simps)
next
  case (Suc k)
  then have d: "d < n" by simp
  obtain a b where ab: "getBit (s @ 0 # after) (length s + 1) d = Some a" "(a \<noteq> 0) = str_bit s d"
      "getBit (t @ [0]) (length t + 1) d = Some b" "(b \<noteq> 0) = str_bit t d"
    using getBit_own [of d s after] getBit_own [of d t "[]"] d assms by auto
  have "x = 0 \<or> x = 2 ^ (7 - d mod 8)" if "getBit m l d = Some x" for m l x
    using that by (auto simp: getBit_def Let_def rd_def bit_mask_at split: if_splits)
  then have masks: "a \<noteq> b \<longleftrightarrow> str_bit s d \<noteq> str_bit t d" using ab by (metis (full_types))
  show ?case
  proof (cases "str_bit s d = str_bit t d")
    case True
    then have "agree s t (Suc d)" using Suc.prems by (simp add: agree_Suc)
    then show ?thesis
      using Suc.hyps(1) [of "Suc d"] Suc.hyps(2) d ab masks True by (simp add: pat_diff.simps [of _ _ _ _ n d])
  next
    case False
    then show ?thesis using d ab masks Suc.prems by (simp add: pat_diff.simps [of _ _ _ _ n d])
  qed
qed

section \<open>The tree the pointers stand for\<close>

text \<open>A pointer to a node whose bit is not above the bit of the parent is a leaf.\<close>

datatype ptree = PLeaf nat | PNode nat ptree ptree

fun rep :: "patricia list \<Rightarrow> nat \<Rightarrow> nat \<Rightarrow> ptree \<Rightarrow> bool" where
  "rep ns b h (PLeaf g) \<longleftrightarrow> h = g \<and> g < length ns \<and> pat_bit (ns ! g) \<le> b"
| "rep ns b h (PNode g l r) \<longleftrightarrow> h = g \<and> g < length ns \<and> b < pat_bit (ns ! g)
     \<and> rep ns (pat_bit (ns ! g)) (pat_left (ns ! g)) l \<and> rep ns (pat_bit (ns ! g)) (pat_right (ns ! g)) r"

fun p_leaves :: "ptree \<Rightarrow> nat list" where
  "p_leaves (PLeaf g) = [g]"
| "p_leaves (PNode g l r) = p_leaves l @ p_leaves r"

fun p_inner :: "ptree \<Rightarrow> nat list" where
  "p_inner (PLeaf g) = []"
| "p_inner (PNode g l r) = g # p_inner l @ p_inner r"

text \<open>Strings below a node agree in the bits before its own, which parts them.\<close>

fun keyed :: "patricia list \<Rightarrow> ptree \<Rightarrow> bool" where
  "keyed ns (PLeaf g) = True"
| "keyed ns (PNode g l r) \<longleftrightarrow> keyed ns l \<and> keyed ns r
     \<and> (\<forall>k \<in> set (p_leaves l). \<not> str_bit (pat_text (ns ! k)) (pat_bit (ns ! g)))
     \<and> (\<forall>k \<in> set (p_leaves r). str_bit (pat_text (ns ! k)) (pat_bit (ns ! g)))
     \<and> (\<forall>j \<in> set (p_leaves l @ p_leaves r). \<forall>k \<in> set (p_leaves l @ p_leaves r).
          agree (pat_text (ns ! j)) (pat_text (ns ! k)) (pat_bit (ns ! g)))"

fun p_goes :: "patricia list \<Rightarrow> (nat \<Rightarrow> bool) \<Rightarrow> ptree \<Rightarrow> nat" where
  "p_goes ns \<beta> (PLeaf g) = g"
| "p_goes ns \<beta> (PNode g l r) = p_goes ns \<beta> (if \<beta> (pat_bit (ns ! g)) then r else l)"

fun p_insert :: "patricia list \<Rightarrow> (nat \<Rightarrow> bool) \<Rightarrow> nat \<Rightarrow> nat \<Rightarrow> ptree \<Rightarrow> ptree" where
  "p_insert ns \<beta> n d (PNode g l r) =
    (if pat_bit (ns ! g) < d
     then (if \<beta> (pat_bit (ns ! g)) then PNode g l (p_insert ns \<beta> n d r) else PNode g (p_insert ns \<beta> n d l) r)
     else if \<beta> d then PNode n (PNode g l r) (PLeaf n) else PNode n (PLeaf n) (PNode g l r))"
| "p_insert ns \<beta> n d (PLeaf g) = (if \<beta> d then PNode n (PLeaf g) (PLeaf n) else PNode n (PLeaf n) (PLeaf g))"

lemma p_leaves_ne [simp]: "p_leaves t \<noteq> []"
  by (induction t) auto

lemma p_goes_leaf: "p_goes ns \<beta> t \<in> set (p_leaves t)"
  by (induction t) auto

lemma rep_bounds: "rep ns b h t \<Longrightarrow> h < length ns \<and> set (p_leaves t) \<subseteq> {..<length ns} \<and> set (p_inner t) \<subseteq> {..<length ns}"
  by (induction t arbitrary: b h) (simp, fastforce)

lemma rep_inner_bits: "rep ns b h t \<Longrightarrow> g \<in> set (p_inner t) \<Longrightarrow> b < pat_bit (ns ! g)"
  by (induction t arbitrary: b h) (auto, (meson order_less_trans)+)

lemma p_insert_sets:
  "set (p_leaves (p_insert ns \<beta> n d t)) = insert n (set (p_leaves t))"
  "set (p_inner (p_insert ns \<beta> n d t)) = insert n (set (p_inner t))"
  by (induction t) auto

lemma p_insert_distinct:
  "distinct (p_inner t) \<Longrightarrow> n \<notin> set (p_inner t) \<Longrightarrow> distinct (p_inner (p_insert ns \<beta> n d t))"
  by (induction t) (auto simp: p_insert_sets)

text \<open>A different heap that keeps what the tree is made of.\<close>

lemma rep_frame:
  assumes "rep ns b h t" and "\<And>x. x < length ns \<Longrightarrow> x < length ns' \<and> pat_bit (ns' ! x) = pat_bit (ns ! x)"
    and "\<And>x. x \<in> set (p_inner t) \<Longrightarrow> pat_left (ns' ! x) = pat_left (ns ! x) \<and> pat_right (ns' ! x) = pat_right (ns ! x)"
  shows "rep ns' b h t"
  using assms by (induction t arbitrary: b h) auto

section \<open>The descents\<close>

definition reads_bits :: "bytes \<Rightarrow> nat \<Rightarrow> (nat \<Rightarrow> bool) \<Rightarrow> bool" where
  "reads_bits m len \<beta> \<longleftrightarrow> (\<forall>i. \<exists>b. getBit m len i = Some b \<and> (b \<noteq> 0) = \<beta> i)"

lemma pat_child_reads:
  "reads_bits m len \<beta> \<Longrightarrow> pat_child m len nd = Some (if \<beta> (pat_bit nd) then pat_right nd else pat_left nd)"
  using spec [of "\<lambda>i. \<exists>b. getBit m len i = Some b \<and> (b \<noteq> 0) = \<beta> i" "pat_bit nd"]
  by (auto simp: reads_bits_def pat_child_def)

lemma pat_find_goes:
  assumes "reads_bits m len \<beta>" and "prev < length ns" and "rep ns (pat_bit (ns ! prev)) h t"
  shows "pat_find ns m len prev h = Some (p_goes ns \<beta> t)"
  using assms(2,3)
proof (induction t arbitrary: prev h)
  case (PLeaf g)
  then show ?case by (simp add: pat_find.simps [of ns m len prev g])
next
  case (PNode g l r)
  then show ?case using pat_child_reads [OF assms(1)] by (simp add: pat_find.simps [of ns m len prev g])
qed

text \<open>What \<open>patInsert\<close> does to the nodes, given where the place is.\<close>

definition hang :: "(nat \<Rightarrow> bool) \<Rightarrow> nat \<Rightarrow> nat \<Rightarrow> bytes \<Rightarrow> nat \<Rightarrow> nat \<Rightarrow> patricia list \<Rightarrow> patricia list" where
  "hang \<beta> n d str prev other ns =
    (let p = ns ! prev
     in (ns @ [\<lparr>pat_left = (if \<beta> d then other else n), pat_right = (if \<beta> d then n else other), pat_bit = d, pat_text = str\<rparr>])
          [prev := if \<beta> (pat_bit p) then p\<lparr>pat_right := n\<rparr> else p\<lparr>pat_left := n\<rparr>])"

lemma length_hang [simp]: "length (hang \<beta> n d str prev other ns) = Suc (length ns)"
  by (simp add: hang_def Let_def)

lemma hang_nth:
  assumes "prev < length ns" and "x < length ns"
  shows "hang \<beta> n d str prev other ns ! x =
    (if x = prev then (if \<beta> (pat_bit (ns ! x)) then (ns ! x)\<lparr>pat_right := n\<rparr> else (ns ! x)\<lparr>pat_left := n\<rparr>) else ns ! x)"
  using assms by (auto simp: hang_def Let_def nth_append nth_list_update)

lemma hang_new:
  "prev < length ns \<Longrightarrow> n = length ns \<Longrightarrow> hang \<beta> n d str prev other ns ! n =
    \<lparr>pat_left = (if \<beta> d then other else n), pat_right = (if \<beta> d then n else other), pat_bit = d, pat_text = str\<rparr>"
  by (auto simp: hang_def Let_def nth_append nth_list_update)

lemma hang_keeps:
  assumes "prev < length ns" and "x < length ns"
  shows "pat_bit (hang \<beta> n d str prev other ns ! x) = pat_bit (ns ! x)"
    and "pat_text (hang \<beta> n d str prev other ns ! x) = pat_text (ns ! x)"
  using assms by (simp_all add: hang_nth)

lemma rep_hang_frame:
  assumes "rep ns b h t" and "prev < length ns" and "prev \<notin> set (p_inner t)"
  shows "rep (hang \<beta> n d str prev other ns) b h t"
  by (rule rep_frame [OF assms(1)]) (use assms rep_bounds [OF assms(1)] in \<open>auto simp: hang_keeps hang_nth less_SucI\<close>)

fun place_clear :: "patricia list \<Rightarrow> (nat \<Rightarrow> bool) \<Rightarrow> nat \<Rightarrow> ptree \<Rightarrow> bool" where
  "place_clear ns \<beta> d (PLeaf g) = True"
| "place_clear ns \<beta> d (PNode g l r) =
    (if pat_bit (ns ! g) < d then place_clear ns \<beta> d (if \<beta> (pat_bit (ns ! g)) then r else l) else pat_bit (ns ! g) \<noteq> d)"

lemma rep_below:
  "rep ns b h t \<Longrightarrow> b < d \<Longrightarrow> (case t of PNode g l r \<Rightarrow> d < pat_bit (ns ! g) | PLeaf g \<Rightarrow> True) \<Longrightarrow> rep ns d h t"
  by (cases t) auto

lemma rep_hang_here:
  assumes t: "rep ns (pat_bit (ns ! prev)) h t" and prev: "prev < length ns" "pat_bit (ns ! prev) < d"
    and n: "n = length ns" and above: "case t of PNode g l r \<Rightarrow> d < pat_bit (ns ! g) | PLeaf g \<Rightarrow> True"
  shows "pat_place ns m len d prev h = Some (prev, h) \<and> rep (hang \<beta> n d str prev h ns) (pat_bit (ns ! prev)) n (p_insert ns \<beta> n d t)"
proof
  show "pat_place ns m len d prev h = Some (prev, h)"
    using t prev above by (cases t) (auto simp: pat_place.simps [of ns m len d prev])
  have out: "prev \<notin> set (p_inner t)" using rep_inner_bits [OF t] by blast
  have below: "rep (hang \<beta> n d str prev h ns) d h t"
    by (rule rep_hang_frame [OF rep_below [OF t prev(2) above] prev(1) out])
  have "p_insert ns \<beta> n d t = (if \<beta> d then PNode n t (PLeaf n) else PNode n (PLeaf n) t)"
    using above by (cases t) auto
  with below prev n show "rep (hang \<beta> n d str prev h ns) (pat_bit (ns ! prev)) n (p_insert ns \<beta> n d t)"
    by (simp add: hang_new)
qed

lemma rep_hang:
  assumes rb: "reads_bits m len \<beta>" and n: "n = length ns"
    and "rep ns (pat_bit (ns ! prev)) h t" and "prev < length ns" and "pat_bit (ns ! prev) < d"
    and "distinct (p_inner t)" and "place_clear ns \<beta> d t"
  shows "\<exists>prev' other. pat_place ns m len d prev h = Some (prev', other) \<and> prev' < length ns \<and> pat_bit (ns ! prev') < d
    \<and> (prev' = prev \<and> rep (hang \<beta> n d str prev' other ns) (pat_bit (ns ! prev)) n (p_insert ns \<beta> n d t)
       \<or> prev' \<in> set (p_inner t) \<and> rep (hang \<beta> n d str prev' other ns) (pat_bit (ns ! prev)) h (p_insert ns \<beta> n d t))"
  using assms(3-)
proof (induction t arbitrary: prev h)
  case (PLeaf g)
  then show ?case using rep_hang_here [of ns prev h "PLeaf g" d n m len \<beta> str] n by fastforce
next
  case (PNode g l r)
  show ?case
  proof (cases "pat_bit (ns ! g) < d")
    case False
    then show ?thesis using PNode.prems rep_hang_here [of ns prev h "PNode g l r" d n m len \<beta> str] n by fastforce
  next
    case True
    define dir where "dir = \<beta> (pat_bit (ns ! g))"
    define c sib where "c = (if dir then r else l)" and "sib = (if dir then l else r)"
    define hc hs where "hc = (if dir then pat_right (ns ! g) else pat_left (ns ! g))"
      and "hs = (if dir then pat_left (ns ! g) else pat_right (ns ! g))"
    have g: "h = g" "g < length ns" "pat_bit (ns ! prev) < pat_bit (ns ! g)"
      and reps: "rep ns (pat_bit (ns ! g)) hc c" "rep ns (pat_bit (ns ! g)) hs sib"
      using PNode.prems by (auto simp: c_def sib_def hc_def hs_def)
    have sets: "set (p_inner c) \<inter> set (p_inner sib) = {}" "g \<notin> set (p_inner c)" "g \<notin> set (p_inner sib)" "distinct (p_inner c)"
      and inn: "set (p_inner c) \<subseteq> set (p_inner (PNode g l r))"
      using PNode.prems(4) by (auto simp: c_def sib_def)
    have clear: "place_clear ns \<beta> d c" using PNode.prems(5) True by (simp add: c_def dir_def)
    have "\<exists>prev' other. pat_place ns m len d g hc = Some (prev', other) \<and> prev' < length ns \<and> pat_bit (ns ! prev') < d
      \<and> (prev' = g \<and> rep (hang \<beta> n d str prev' other ns) (pat_bit (ns ! g)) n (p_insert ns \<beta> n d c)
         \<or> prev' \<in> set (p_inner c) \<and> rep (hang \<beta> n d str prev' other ns) (pat_bit (ns ! g)) hc (p_insert ns \<beta> n d c))"
    proof (cases dir)
      case True
      then show ?thesis using PNode.IH(2) [of g hc] reps(1) g(2) \<open>pat_bit (ns ! g) < d\<close> sets(4) clear by (simp add: c_def)
    next
      case False
      then show ?thesis using PNode.IH(1) [of g hc] reps(1) g(2) \<open>pat_bit (ns ! g) < d\<close> sets(4) clear by (simp add: c_def)
    qed
    then obtain prev' other where p: "pat_place ns m len d g hc = Some (prev', other)" "prev' < length ns" "pat_bit (ns ! prev') < d"
      and cases: "prev' = g \<and> rep (hang \<beta> n d str prev' other ns) (pat_bit (ns ! g)) n (p_insert ns \<beta> n d c)
         \<or> prev' \<in> set (p_inner c) \<and> rep (hang \<beta> n d str prev' other ns) (pat_bit (ns ! g)) hc (p_insert ns \<beta> n d c)"
      by blast
    have place: "pat_place ns m len d prev h = Some (prev', other)"
      using g PNode.prems(2) True p(1) pat_child_reads [OF rb, of "ns ! g"]
      by (simp add: pat_place.simps [of ns m len d prev] hc_def dir_def)
    have sib: "rep (hang \<beta> n d str prev' other ns) (pat_bit (ns ! g)) hs sib"
      using rep_hang_frame [OF reps(2) p(2)] cases sets by blast
    have ins: "p_insert ns \<beta> n d (PNode g l r) = (if dir then PNode g l (p_insert ns \<beta> n d c) else PNode g (p_insert ns \<beta> n d c) r)"
      using True by (simp add: c_def dir_def)
    have "rep (hang \<beta> n d str prev' other ns) (pat_bit (ns ! prev)) h (p_insert ns \<beta> n d (PNode g l r))"
      using cases sib g p(2) sets(2) unfolding ins
      by (auto simp: hang_nth hang_keeps c_def sib_def hc_def hs_def dir_def less_SucI split: if_splits)
    moreover have "prev' \<in> set (p_inner (PNode g l r))" using cases inn by auto
    ultimately show ?thesis using place p(2,3) by blast
  qed
qed

section \<open>Finding and placing a string\<close>

lemma keyed_frame:
  assumes "keyed ns t" and "\<And>x. x \<in> set (p_leaves t) \<Longrightarrow> pat_text (ns' ! x) = pat_text (ns ! x)"
    and "\<And>x. x \<in> set (p_inner t) \<Longrightarrow> pat_bit (ns' ! x) = pat_bit (ns ! x)"
  shows "keyed ns' t"
  using assms by (induction t) auto

definition genuine :: "(nat \<Rightarrow> bool) \<Rightarrow> bytes \<Rightarrow> bool" where
  "genuine \<beta> str \<longleftrightarrow> (\<forall>i < 8 * (length str + 1). \<beta> i = str_bit str i)"

lemma genuineD: "genuine \<beta> str \<Longrightarrow> i < 8 * (length str + 1) \<Longrightarrow> \<beta> i = str_bit str i"
  by (simp add: genuine_def)

text \<open>A string that is there is found, whatever the bits after its end are.\<close>

lemma p_goes_stored:
  assumes "keyed ns t" and "k \<in> set (p_leaves t)" and "genuine \<beta> (pat_text (ns ! k))"
    and c: "\<And>x. x \<in> set (p_leaves t) \<Longrightarrow> c_string (pat_text (ns ! x))"
  shows "p_goes ns \<beta> t = k"
  using assms
proof (induction t)
  case (PNode g l r)
  define b where "b = pat_bit (ns ! g)"
  define dir where "dir \<longleftrightarrow> k \<notin> set (p_leaves l)"
  obtain j where j: "j \<in> set (p_leaves (if dir then l else r))" using p_goes_leaf by blast
  have kin: "k \<in> set (p_leaves (if dir then r else l))" using PNode.prems(2) by (auto simp: dir_def)
  have sides: "str_bit (pat_text (ns ! k)) b = dir" "str_bit (pat_text (ns ! j)) b = (\<not> dir)"
    and ag: "agree (pat_text (ns ! k)) (pat_text (ns ! j)) b"
    using PNode.prems(1) j kin by (auto simp: b_def split: if_splits)
  have "b < 8 * (length (pat_text (ns ! k)) + 1)"
  proof (rule ccontr)
    assume "\<not> b < 8 * (length (pat_text (ns ! k)) + 1)"
    then have "agree (pat_text (ns ! k)) (pat_text (ns ! j)) (8 * (length (pat_text (ns ! k)) + 1))"
      using agree_le [OF ag] by simp
    moreover have "c_string (pat_text (ns ! k))" "c_string (pat_text (ns ! j))"
      using PNode.prems(4) [of k] PNode.prems(4) [of j] j kin by (auto split: if_splits)
    ultimately show False using agree_eq sides by fastforce
  qed
  then have "\<beta> b = dir" using genuineD [OF PNode.prems(3)] sides by simp
  then show ?case
    using PNode.IH PNode.prems kin by (auto simp: b_def [symmetric] split: if_splits)
qed simp

lemma keyed_insert:
  assumes "keyed ns t" and "agree str (pat_text (ns ! p_goes ns \<beta> t)) d"
    and "str_bit str d \<noteq> str_bit (pat_text (ns ! p_goes ns \<beta> t)) d"
    and g: "genuine \<beta> str" and d: "d < 8 * (length str + 1)"
    and texts: "\<And>x. x \<in> set (p_leaves t) \<Longrightarrow> pat_text (ns' ! x) = pat_text (ns ! x)"
    and bits: "\<And>x. x \<in> set (p_inner t) \<Longrightarrow> pat_bit (ns' ! x) = pat_bit (ns ! x)"
    and new: "pat_text (ns' ! n) = str" "pat_bit (ns' ! n) = d"
  shows "place_clear ns \<beta> d t \<and> keyed ns' (p_insert ns \<beta> n d t)"
  using assms(1-3) texts bits
proof (induction t)
  case (PLeaf x)
  then show ?case using genuineD [OF g d] new by (auto simp: agree_sym)
next
  case (PNode x l r)
  define b where "b = pat_bit (ns ! x)"
  define dir where "dir = \<beta> b"
  define c where "c = (if dir then r else l)"
  define g0 where "g0 = p_goes ns \<beta> c"
  have goes: "p_goes ns \<beta> (PNode x l r) = g0" by (simp add: g0_def c_def dir_def b_def)
  have g0: "g0 \<in> set (p_leaves c)" by (simp add: g0_def p_goes_leaf)
  have side: "str_bit (pat_text (ns ! k)) b = dir" if "k \<in> set (p_leaves c)" for k
    using that PNode.prems(1) by (auto simp: c_def b_def split: if_splits)
  have all: "agree (pat_text (ns ! j)) (pat_text (ns ! k)) b"
    if "j \<in> set (p_leaves (PNode x l r))" "k \<in> set (p_leaves (PNode x l r))" for j k
    using that PNode.prems(1) by (simp add: b_def)
  have g0': "g0 \<in> set (p_leaves (PNode x l r))" using g0 by (auto simp: c_def split: if_splits)
  have bx: "pat_bit (ns' ! x) = b" using PNode.prems(5) [of x] by (simp add: b_def)
  have old: "pat_text (ns' ! k) = pat_text (ns ! k)" if "k \<in> set (p_leaves (PNode x l r))" for k
    using PNode.prems(4) that by blast
  have kl: "keyed ns' l" "keyed ns' r"
    using keyed_frame [of ns l ns'] keyed_frame [of ns r ns'] PNode.prems(1,4,5) by auto
  show ?case
  proof (cases "b < d")
    case True
    have IH: "place_clear ns \<beta> d c \<and> keyed ns' (p_insert ns \<beta> n d c)"
      using PNode.IH PNode.prems goes by (auto simp: c_def g0_def split: if_splits)
    have strb: "str_bit str b = dir" using genuineD [OF g, of b] True d by (simp add: dir_def)
    have agk: "agree str (pat_text (ns ! k)) b" if "k \<in> set (p_leaves (PNode x l r))" for k
      using agree_trans [OF agree_le [OF PNode.prems(2), of b] all [OF _ that]] True g0' goes by simp
    have "place_clear ns \<beta> d (PNode x l r)" using IH True by (simp add: c_def dir_def b_def)
    moreover have "keyed ns' (p_insert ns \<beta> n d (PNode x l r))"
      using IH True PNode.prems(1) kl strb agk old all bx new
      by (auto simp: c_def dir_def b_def [symmetric] p_insert_sets agree_sym split: if_splits)
    ultimately show ?thesis ..
  next
    case False
    have "b \<noteq> d"
      using side [OF g0] PNode.prems(3) goes genuineD [OF g d] by (auto simp: dir_def)
    then have db: "d < b" using False by simp
    have same: "str_bit (pat_text (ns ! k)) d = (\<not> str_bit str d)" "agree str (pat_text (ns ! k)) d"
      if "k \<in> set (p_leaves (PNode x l r))" for k
    proof -
      have "agree (pat_text (ns ! g0)) (pat_text (ns ! k)) (Suc d)" using agree_le [OF all [OF g0' that]] db by simp
      then show "str_bit (pat_text (ns ! k)) d = (\<not> str_bit str d)" "agree str (pat_text (ns ! k)) d"
        using PNode.prems(2,3) goes agree_trans by (auto simp: agree_Suc)
    qed
    have "keyed ns' (PNode x l r)" by (rule keyed_frame [OF PNode.prems(1,4,5)])
    moreover have "\<forall>j \<in> set (p_leaves (PNode x l r)). \<forall>k \<in> set (p_leaves (PNode x l r)). agree (pat_text (ns ! j)) (pat_text (ns ! k)) d"
      using all db agree_le [of _ _ b d] by (meson order_less_imp_le)
    ultimately have "keyed ns' (p_insert ns \<beta> n d (PNode x l r))"
      using False db same old new genuineD [OF g d] by (auto simp: b_def [symmetric] agree_sym)
    then show ?thesis using db by (simp add: b_def)
  qed
qed

section \<open>The invariant of a table\<close>

abbreviation texts :: "owl_string_table \<Rightarrow> bytes list" where
  "texts table \<equiv> map pat_text (pat_nodes table)"

definition nodes_ok :: "patricia list \<Rightarrow> ptree \<Rightarrow> bool" where
  "nodes_ok ns t \<longleftrightarrow> 0 < length ns \<and> pat_text (ns ! 0) = [] \<and> pat_bit (ns ! 0) = 0 \<and> pat_right (ns ! 0) = 0
     \<and> rep ns 0 (pat_left (ns ! 0)) t \<and> keyed ns t
     \<and> set (p_leaves t) = {..<length ns} \<and> distinct (p_inner t) \<and> set (p_inner t) = {1..<length ns}"

definition table_inv :: "owl_string_table \<Rightarrow> bool" where
  "table_inv table \<longleftrightarrow> (\<exists>t. nodes_ok (pat_nodes table) t) \<and> distinct (texts table)
     \<and> list_all c_string (texts table) \<and> tab_bytes table = sum_list (map (\<lambda>s. length s + 1) (texts table))"

text \<open>What a table of strings does, and the strings for which this one does it.\<close>

definition intern :: "bytes list \<Rightarrow> bytes \<Rightarrow> nat \<times> bytes list" where
  "intern xs s = (length (takeWhile (\<lambda>x. x \<noteq> s) xs), if s \<in> set xs then xs else xs @ [s])"

definition seven_bit_start :: "bytes \<Rightarrow> bool" where
  "seven_bit_start s \<longleftrightarrow> c_string s \<and> \<not> str_bit s 0"

lemma intern_at: "distinct xs \<Longrightarrow> k < length xs \<Longrightarrow> intern xs (xs ! k) = (k, xs)"
proof -
  assume "distinct xs" "k < length xs"
  then have "takeWhile (\<lambda>x. x \<noteq> xs ! k) xs = take k xs"
    by (intro takeWhile_eq_take_P_nth) (auto simp: nth_eq_iff_index_eq)
  then show ?thesis using \<open>k < length xs\<close> by (simp add: intern_def)
qed

lemma intern_new: "s \<notin> set xs \<Longrightarrow> intern xs s = (length xs, xs @ [s])"
proof -
  assume "s \<notin> set xs"
  then have "takeWhile (\<lambda>x. x \<noteq> s) xs = xs" by (simp only: takeWhile_eq_all_conv) blast
  then show ?thesis using \<open>s \<notin> set xs\<close> by (simp add: intern_def del: takeWhile_eq_all_conv)
qed

lemma reads_string:
  assumes "after \<noteq> []"
  obtains \<beta> where "reads_bits (s @ 0 # after) (length s + 1) \<beta>" and "genuine \<beta> s"
proof
  define \<beta> where "\<beta> i = (the (getBit (s @ 0 # after) (length s + 1) i) \<noteq> 0)" for i
  show "reads_bits (s @ 0 # after) (length s + 1) \<beta>"
    using getBit_defined [OF assms, of s] by (fastforce simp: reads_bits_def \<beta>_def)
  show "genuine \<beta> s" using getBit_own [of _ s after] by (fastforce simp: genuine_def \<beta>_def)
qed

lemma patInsert_found:
  assumes ok: "nodes_ok (pat_nodes table) t" and "list_all c_string (texts table)"
    and k: "k < length (pat_nodes table)" "pat_text (pat_nodes table ! k) = s" and "after \<noteq> []"
  shows "patInsert table s after = Some (k, table)"
proof -
  obtain \<beta> where \<beta>: "reads_bits (s @ 0 # after) (length s + 1) \<beta>" "genuine \<beta> s"
    using reads_string [OF \<open>after \<noteq> []\<close>] .
  have c: "c_string (pat_text (pat_nodes table ! x))" if "x \<in> set (p_leaves t)" for x
    using that assms(2) ok by (auto simp: nodes_ok_def list_all_iff)
  have "p_goes (pat_nodes table) \<beta> t = k"
    using p_goes_stored [of "pat_nodes table" t k \<beta>] ok k \<beta> c by (auto simp: nodes_ok_def)
  moreover have "pat_find (pat_nodes table) (s @ 0 # after) (length s + 1) 0 (pat_left (pat_nodes table ! 0))
      = Some (p_goes (pat_nodes table) \<beta> t)"
    using pat_find_goes [OF \<beta>(1), of 0] ok by (auto simp: nodes_ok_def)
  ultimately show ?thesis using ok k by (simp add: patInsert_def Let_def nodes_ok_def)
qed

text \<open>The string that ends the descent differs from a new one inside both.\<close>

lemma first_difference:
  assumes "c_string s" and "c_string u" and "s \<noteq> u"
  shows "\<exists>d. pat_diff (s @ 0 # after) (length s + 1) (u @ [0]) (length u + 1) (min (length u + 1) (length s + 1) * 8) 0 = Some d
    \<and> agree s u d \<and> str_bit s d \<noteq> str_bit u d \<and> d < 8 * (length s + 1)"
proof -
  define last_bit where "last_bit = min (length u + 1) (length s + 1) * 8"
  have bounds: "last_bit \<le> 8 * (length s + 1)" "last_bit \<le> 8 * (length u + 1)" by (simp_all add: last_bit_def)
  obtain d where d: "pat_diff (s @ 0 # after) (length s + 1) (u @ [0]) (length u + 1) last_bit 0 = Some d"
      "agree s u d" "d \<le> last_bit" "d < last_bit \<longrightarrow> str_bit s d \<noteq> str_bit u d"
    using pat_diff_first [of last_bit s u 0 after] bounds by (auto simp: agree_def [of s u 0])
  have "d \<noteq> last_bit"
  proof
    assume "d = last_bit"
    then have "agree s u (8 * (length s + 1)) \<or> agree u s (8 * (length u + 1))"
      using d(2) by (auto simp: last_bit_def min_def agree_sym mult.commute split: if_splits)
    then show False using agree_eq assms by blast
  qed
  then show ?thesis using d by (auto simp: last_bit_def)
qed

lemma patInsert_hang:
  assumes rb: "reads_bits (s @ 0 # after) (length s + 1) \<beta>" and ns: "ns = pat_nodes table" "n = length ns" "0 < length ns"
    and find: "pat_find ns (s @ 0 # after) (length s + 1) 0 (pat_left (ns ! 0)) = Some k"
    and k: "k < length ns" "s \<noteq> pat_text (ns ! k)"
    and d: "pat_diff (s @ 0 # after) (length s + 1) (pat_text (ns ! k) @ [0]) (length (pat_text (ns ! k)) + 1)
        (min (length (pat_text (ns ! k)) + 1) (length s + 1) * 8) 0 = Some d"
    and p: "pat_place ns (s @ 0 # after) (length s + 1) d 0 (pat_left (ns ! 0)) = Some (prev, other)" "prev < length ns"
  shows "patInsert table s after =
    Some (n, table\<lparr>tab_bytes := tab_bytes table + (length s + 1), pat_nodes := hang \<beta> n d s prev other ns\<rparr>)"
proof -
  have getb: "\<exists>b. getBit (s @ 0 # after) (length s + 1) i = Some b \<and> (b \<noteq> 0) = \<beta> i" for i
    using rb by (auto simp: reads_bits_def)
  obtain b where b: "getBit (s @ 0 # after) (length s + 1) d = Some b" "(b \<noteq> 0) = \<beta> d" using getb by meson
  obtain pb where pb: "getBit (s @ 0 # after) (length s + 1) (pat_bit (ns ! prev)) = Some pb" "(pb \<noteq> 0) = \<beta> (pat_bit (ns ! prev))"
    using getb by meson
  have at: "(pat_nodes table @ xs) ! prev = pat_nodes table ! prev" for xs using p(2) ns(1) by (simp add: nth_append)
  have f: "b = 0 \<longleftrightarrow> \<not> \<beta> d" "pb = 0 \<longleftrightarrow> \<not> \<beta> (pat_bit (ns ! prev))" using b pb by auto
  have f': "b \<noteq> 0 \<longleftrightarrow> \<beta> d" "pb \<noteq> 0 \<longleftrightarrow> \<beta> (pat_bit (ns ! prev))" using b pb by auto
  show ?thesis
    unfolding patInsert_def Let_def newNode_def hang_def ns(1) [symmetric] ns(2) [symmetric]
    using find k d p b(1) pb(1) ns by (simp add: f f' at)
qed

lemma first_bit_zero:
  assumes "nodes_ok ns t" and "k < length ns"
  shows "\<not> str_bit (pat_text (ns ! k)) 0"
proof -
  have root: "pat_text (ns ! 0) = []" "rep ns 0 (pat_left (ns ! 0)) t" "keyed ns t" "set (p_leaves t) = {..<length ns}" "0 < length ns"
    using assms(1) by (simp_all add: nodes_ok_def)
  have mem: "0 \<in> set (p_leaves t)" "k \<in> set (p_leaves t)" using root(4,5) assms(2) by auto
  show ?thesis
  proof (cases t)
    case (PLeaf g)
    then have "k = 0" using mem by simp
    then show ?thesis using root(1) by (simp add: str_bit_def)
  next
    case (PNode g l r)
    have kd: "keyed ns (PNode g l r)" and pos: "0 < pat_bit (ns ! g)" using root(2,3) PNode by simp_all
    have "0 \<in> set (p_leaves l @ p_leaves r)" "k \<in> set (p_leaves l @ p_leaves r)"
      using mem PNode by simp_all
    then have "agree (pat_text (ns ! 0)) (pat_text (ns ! k)) (pat_bit (ns ! g))" using kd unfolding keyed.simps by blast
    then show ?thesis using root(1) pos by (auto simp: agree_def str_bit_def)
  qed
qed

lemma patInsert_new:
  assumes ok: "nodes_ok (pat_nodes table) t" and cs: "list_all c_string (texts table)"
    and s: "seven_bit_start s" "s \<notin> set (texts table)" and after: "after \<noteq> []"
  shows "\<exists>table' t'. patInsert table s after = Some (length (pat_nodes table), table') \<and> nodes_ok (pat_nodes table') t'
    \<and> texts table' = texts table @ [s] \<and> tab_bytes table' = tab_bytes table + (length s + 1) \<and> pat_offset table' = pat_offset table"
proof -
  define ns n where "ns = pat_nodes table" and "n = length (pat_nodes table)"
  obtain \<beta> where \<beta>: "reads_bits (s @ 0 # after) (length s + 1) \<beta>" "genuine \<beta> s" using reads_string [OF after] .
  define k where "k = p_goes ns \<beta> t"
  have k: "k < length ns" using p_goes_leaf [of ns \<beta> t] ok by (simp add: k_def nodes_ok_def ns_def)
  have find: "pat_find ns (s @ 0 # after) (length s + 1) 0 (pat_left (ns ! 0)) = Some k"
    using pat_find_goes [OF \<beta>(1), of 0] ok by (auto simp: nodes_ok_def ns_def k_def)
  have ne: "s \<noteq> pat_text (ns ! k)" using s(2) k by (auto simp: ns_def)
  have cc: "c_string s" "c_string (pat_text (ns ! k))"
    using s(1) cs k by (auto simp: seven_bit_start_def list_all_iff ns_def)
  obtain d where d: "pat_diff (s @ 0 # after) (length s + 1) (pat_text (ns ! k) @ [0]) (length (pat_text (ns ! k)) + 1)
        (min (length (pat_text (ns ! k)) + 1) (length s + 1) * 8) 0 = Some d"
      "agree s (pat_text (ns ! k)) d" "str_bit s d \<noteq> str_bit (pat_text (ns ! k)) d" "d < 8 * (length s + 1)"
    using first_difference [OF cc ne] by blast
  have root: "0 < length ns" "pat_text (ns ! 0) = []" "pat_bit (ns ! 0) = 0" "pat_right (ns ! 0) = 0"
      "rep ns 0 (pat_left (ns ! 0)) t" "keyed ns t"
      "set (p_leaves t) = {..<length ns}" "distinct (p_inner t)" "set (p_inner t) = {1..<length ns}"
    using ok by (simp_all add: nodes_ok_def ns_def)
  have n: "n = length ns" by (simp add: n_def ns_def)
  have all0: "0 \<in> set (p_leaves t)" "\<beta> 0 = False"
    using root s(1) genuineD [OF \<beta>(2), of 0] by (auto simp: seven_bit_start_def)
  have first0: "\<not> str_bit (pat_text (ns ! k)) 0" using first_bit_zero [OF ok] k by (simp add: ns_def)
  then have d0: "0 < d" using d(3) s(1) by (cases d) (auto simp: seven_bit_start_def)
  have clear: "place_clear ns \<beta> d t"
    using keyed_insert [of ns t s \<beta> d "ns @ [\<lparr>pat_left = 0, pat_right = 0, pat_bit = d, pat_text = s\<rparr>]" n] d root \<beta>(2)
    by (auto simp: k_def nth_append n)
  obtain prev other where p: "pat_place ns (s @ 0 # after) (length s + 1) d 0 (pat_left (ns ! 0)) = Some (prev, other)"
      "prev < length ns" "pat_bit (ns ! prev) < d"
      "prev = 0 \<and> rep (hang \<beta> n d s prev other ns) 0 n (p_insert ns \<beta> n d t)
       \<or> prev \<in> set (p_inner t) \<and> rep (hang \<beta> n d s prev other ns) 0 (pat_left (ns ! 0)) (p_insert ns \<beta> n d t)"
    using rep_hang [OF \<beta>(1) n, of 0 "pat_left (ns ! 0)" t d s] root d0 clear by auto
  define ns' where "ns' = hang \<beta> n d s prev other ns"
  have run: "patInsert table s after = Some (n, table\<lparr>tab_bytes := tab_bytes table + (length s + 1), pat_nodes := ns'\<rparr>)"
    unfolding ns'_def by (rule patInsert_hang [OF \<beta>(1) ns_def n root(1) find k ne d(1) p(1,2)])
  have texts: "map pat_text ns' = map pat_text ns @ [s]"
    by (rule nth_equalityI) (auto simp: ns'_def hang_keeps [OF p(2)] hang_new [OF p(2) n] nth_append less_Suc_eq n [symmetric] root)
  have keyed': "keyed ns' (p_insert ns \<beta> n d t)"
    using keyed_insert [of ns t s \<beta> d ns' n] d root \<beta>(2) p(2) by (auto simp: k_def ns'_def hang_keeps hang_new n)
  have left: "rep ns' 0 (pat_left (ns' ! 0)) (p_insert ns \<beta> n d t)"
    using p(2,4) root all0 by (auto simp: ns'_def hang_nth)
  have root': "pat_text (ns' ! 0) = []" "pat_bit (ns' ! 0) = 0" "pat_right (ns' ! 0) = 0"
    using root p(2) all0 by (auto simp: ns'_def hang_nth)
  have "nodes_ok ns' (p_insert ns \<beta> n d t)"
    unfolding nodes_ok_def using left keyed' root root' n p_insert_distinct [of t n]
    by (auto simp: p_insert_sets ns'_def)
  then show ?thesis using run texts by (auto simp: n_def ns_def)
qed

lemma OWLStringAdd_intern:
  assumes inv: "table_inv table" and s: "seven_bit_start s" and after: "after \<noteq> []"
  shows "\<exists>h table'. OWLStringAdd table s after = Some (h, table') \<and> table_inv table'
    \<and> intern (texts table) s = (h, texts table') \<and> pat_offset table' = pat_offset table"
proof (cases "s \<in> set (texts table)")
  case True
  then obtain k where k: "k < length (pat_nodes table)" "pat_text (pat_nodes table ! k) = s"
    by (auto simp: in_set_conv_nth)
  have "patInsert table s after = Some (k, table)"
    using inv patInsert_found [OF _ _ k after] by (auto simp: table_inv_def)
  moreover have "intern (texts table) s = (k, texts table)"
    using intern_at [of "texts table" k] inv k by (simp add: table_inv_def)
  ultimately show ?thesis using inv by (simp add: OWLStringAdd_def)
next
  case False
  obtain t where t: "nodes_ok (pat_nodes table) t" using inv by (auto simp: table_inv_def)
  have "list_all c_string (texts table)" using inv by (simp add: table_inv_def)
  from patInsert_new [OF t this s False after] obtain table' t' where new: "patInsert table s after = Some (length (pat_nodes table), table')"
      "nodes_ok (pat_nodes table') t'" "texts table' = texts table @ [s]"
      "tab_bytes table' = tab_bytes table + (length s + 1)" "pat_offset table' = pat_offset table"
    by blast
  then have "table_inv table'"
    using inv s False by (auto simp: table_inv_def seven_bit_start_def)
  then show ?thesis using new intern_new [OF False] by (auto simp: OWLStringAdd_def)
qed

lemma OWLStringInit_inv: "table_inv OWLStringInit"
proof -
  have "nodes_ok (pat_nodes OWLStringInit) (PLeaf 0)"
    by (auto simp: nodes_ok_def OWLStringInit_def newNode_def)
  then show ?thesis by (auto simp: table_inv_def OWLStringInit_def newNode_def c_string_def)
qed

lemma intern_props:
  assumes "intern xs s = (h, xs')"
  shows "h < length xs' \<and> xs' ! h = s \<and> (\<exists>ys. xs' = xs @ ys)"
proof (cases "s \<in> set xs")
  case True
  then obtain k where "k < length xs" "xs ! k = s" by (auto simp: in_set_conv_nth)
  have "length (takeWhile (\<lambda>x. x \<noteq> s) xs) < length xs"
    using True by (induction xs) auto
  then show ?thesis using assms True nth_length_takeWhile [of "\<lambda>x. x \<noteq> s" xs] by (auto simp: intern_def)
qed (use assms in \<open>auto simp: intern_new\<close>)

section \<open>What a pool of strings promises\<close>

fun add_each :: "('s \<Rightarrow> 'm \<Rightarrow> ('h \<times> 's) option) \<Rightarrow> 's \<Rightarrow> 'm list \<Rightarrow> ('h list \<times> 's) option" where
  "add_each add s [] = Some ([], s)"
| "add_each add s (m # ms) = do { (h, s) \<leftarrow> add s m; (hs, s) \<leftarrow> add_each add s ms; Some (h # hs, s) }"

locale string_pool =
  fixes inv :: "'s \<Rightarrow> bool"
    and ok :: "'m \<Rightarrow> bool"
    and key :: "'m \<Rightarrow> 'k"
    and add :: "'s \<Rightarrow> 'm \<Rightarrow> ('h \<times> 's) option"
    and val :: "'s \<Rightarrow> 'h \<Rightarrow> 'k option"
  assumes add_law: "inv s \<Longrightarrow> ok m \<Longrightarrow> \<exists>h s'. add s m = Some (h, s') \<and> inv s' \<and> val s' h = Some (key m)
      \<and> (\<forall>g x. val s g = Some x \<longrightarrow> val s' g = Some x)"
    and inj_law: "inv s \<Longrightarrow> val s g = Some x \<Longrightarrow> val s h = Some x \<Longrightarrow> g = h"
begin

lemma add_each_vals:
  assumes "inv s" and "list_all ok ms"
  shows "\<exists>hs s'. add_each add s ms = Some (hs, s') \<and> inv s' \<and> map (val s') hs = map (\<lambda>m. Some (key m)) ms
    \<and> (\<forall>g x. val s g = Some x \<longrightarrow> val s' g = Some x)"
  using assms
proof (induction ms arbitrary: s)
  case (Cons m ms)
  then obtain h s1 where h: "add s m = Some (h, s1)" "inv s1" "val s1 h = Some (key m)"
      "\<forall>g x. val s g = Some x \<longrightarrow> val s1 g = Some x"
    using add_law [of s m] by auto
  then obtain hs s2 where "add_each add s1 ms = Some (hs, s2)" "inv s2" "map (val s2) hs = map (\<lambda>m. Some (key m)) ms"
      "\<forall>g x. val s1 g = Some x \<longrightarrow> val s2 g = Some x"
    using Cons.IH [of s1] Cons.prems by auto
  with h show ?case by auto
qed simp

lemma handles_equal_iff:
  assumes "inv s" and "map (val s) hs = map (\<lambda>m. Some (key m)) ms" and "i < length ms" and "j < length ms"
  shows "hs ! i = hs ! j \<longleftrightarrow> key (ms ! i) = key (ms ! j)"
proof -
  have len: "length hs = length ms" using assms(2) by (rule map_eq_imp_length_eq)
  have v: "val s (hs ! k) = Some (key (ms ! k))" if "k < length ms" for k
    using that len arg_cong [OF assms(2), of "\<lambda>xs. xs ! k"] by simp
  show ?thesis
  proof
    show "key (ms ! i) = key (ms ! j)" if "hs ! i = hs ! j" using that v assms(3,4) by (metis option.inject)
    show "hs ! i = hs ! j" if "key (ms ! i) = key (ms ! j)" using that v assms(1,3,4) inj_law by metis
  qed
qed

end

text \<open>The argument in memory: the string and what follows its terminator.\<close>

definition add_string :: "owl_string_table \<Rightarrow> bytes \<times> bytes \<Rightarrow> (nat \<times> owl_string_table) option" where
  "add_string table m = OWLStringAdd table (fst m) (snd m)"

definition good_name :: "bytes \<times> bytes \<Rightarrow> bool" where
  "good_name m \<longleftrightarrow> seven_bit_start (fst m) \<and> snd m \<noteq> []"

interpretation strings: string_pool table_inv good_name fst add_string OWLStringText
proof unfold_locales
  fix s and m :: "bytes \<times> bytes"
  assume "table_inv s" "good_name m"
  then obtain h s' where h: "OWLStringAdd s (fst m) (snd m) = Some (h, s')" "table_inv s'"
      "intern (texts s) (fst m) = (h, texts s')"
    using OWLStringAdd_intern [of s "fst m" "snd m"] by (auto simp: good_name_def)
  obtain ys where p: "h < length (pat_nodes s')" "pat_text (pat_nodes s' ! h) = fst m" "texts s' = texts s @ ys"
    using intern_props [OF h(3)] by (metis length_map nth_map)
  have "pat_text (pat_nodes s' ! g) = pat_text (pat_nodes s ! g) \<and> g < length (pat_nodes s')" if "g < length (pat_nodes s)" for g
    using that arg_cong [OF p(3), of "\<lambda>xs. xs ! g"] arg_cong [OF p(3), of length] by (simp add: nth_append)
  then show "\<exists>h s'. add_string s m = Some (h, s') \<and> table_inv s' \<and> OWLStringText s' h = Some (fst m)
      \<and> (\<forall>g x. OWLStringText s g = Some x \<longrightarrow> OWLStringText s' g = Some x)"
    using h p(1,2) by (auto simp: add_string_def OWLStringText_def byte_simps)
next
  fix s g x h
  assume "table_inv s" "OWLStringText s g = Some x" "OWLStringText s h = Some x"
  then show "g = h"
    by (auto simp: table_inv_def OWLStringText_def byte_simps distinct_conv_nth)
qed

section \<open>Emission\<close>

fun emit_nodes :: "patricia list \<Rightarrow> nat list \<Rightarrow> (nat \<rightharpoonup> nat) \<times> bytes \<Rightarrow> (nat \<rightharpoonup> nat) \<times> bytes" where
  "emit_nodes ns [] st = st"
| "emit_nodes ns (x # xs) (offs, buf) = emit_nodes ns xs (offs(x \<mapsto> length buf), buf @ pat_text (ns ! x) @ [0])"

lemma emit_nodes_append: "emit_nodes ns (xs @ ys) st = emit_nodes ns ys (emit_nodes ns xs st)"
  by (induction ns xs st rule: emit_nodes.induct) auto

lemma patEmit_nodes:
  assumes "rep ns b h t"
  shows "(if b < pat_bit (ns ! h) then patEmit ns h st else Some st) = Some (emit_nodes ns (p_inner t) st)"
  using assms
proof (induction t arbitrary: b h st)
  case (PNode g l r)
  have l: "pat_left (ns ! g) < length ns" and r: "pat_right (ns ! g) < length ns"
    using PNode.prems rep_bounds by auto
  show ?case
    using PNode.prems l r
      PNode.IH(1) [of "pat_bit (ns ! g)" "pat_left (ns ! g)"] PNode.IH(2) [of "pat_bit (ns ! g)" "pat_right (ns ! g)"]
    by (cases st) (simp add: patEmit.simps [of ns g] emit_nodes_append)
qed simp

lemma emit_nodes_prefix: "\<exists>ys. snd (emit_nodes ns xs st) = snd st @ ys"
  by (induction ns xs st rule: emit_nodes.induct) auto

lemma emit_nodes_other: "x \<notin> set xs \<Longrightarrow> fst (emit_nodes ns xs st) x = fst st x"
  by (induction ns xs st rule: emit_nodes.induct) auto

lemma emit_nodes_length:
  "length (snd (emit_nodes ns xs st)) = length (snd st) + sum_list (map (\<lambda>x. length (pat_text (ns ! x)) + 1) xs)"
  by (induction ns xs st rule: emit_nodes.induct) auto

lemma emit_nodes_at:
  assumes "distinct xs" and "x \<in> set xs"
  shows "\<exists>ofs. fst (emit_nodes ns xs st) x = Some ofs
    \<and> take (length (pat_text (ns ! x)) + 1) (drop ofs (snd (emit_nodes ns xs st))) = pat_text (ns ! x) @ [0]"
  using assms
proof (induction ns xs st rule: emit_nodes.induct)
  case (2 ns y ys offs buf)
  show ?case
  proof (cases "x = y")
    case True
    obtain zs where "snd (emit_nodes ns ys (offs(y \<mapsto> length buf), buf @ pat_text (ns ! y) @ [0])) = (buf @ pat_text (ns ! y) @ [0]) @ zs"
      using emit_nodes_prefix [of ns ys "(offs(y \<mapsto> length buf), buf @ pat_text (ns ! y) @ [0])"] by auto
    then show ?thesis using 2 True emit_nodes_other [of y ys ns] by simp
  qed (use 2 in auto)
qed simp

lemma OWLStringEmit_run:
  assumes "nodes_ok (pat_nodes table) t"
  shows "OWLStringEmit table =
    (case emit_nodes (pat_nodes table) (0 # p_inner t) (pat_offset table, []) of (offs, buf) \<Rightarrow> Some (table\<lparr>pat_offset := offs\<rparr>, buf))"
proof -
  have l: "pat_left (pat_nodes table ! 0) < length (pat_nodes table)"
    using assms rep_bounds by (auto simp: nodes_ok_def)
  have "patEmit (pat_nodes table) 0 st = Some (emit_nodes (pat_nodes table) (0 # p_inner t) st)" for st
    using patEmit_nodes [of "pat_nodes table" 0 "pat_left (pat_nodes table ! 0)" t] assms l
    by (cases st) (simp add: patEmit.simps [of _ 0] nodes_ok_def)
  then show ?thesis by (simp add: OWLStringEmit_def split: prod.split)
qed

lemma OWLStringEmit_ok:
  assumes "table_inv table"
  shows "\<exists>table' buf. OWLStringEmit table = Some (table', buf) \<and> length buf = OWLStringTableSize table
    \<and> pat_nodes table' = pat_nodes table
    \<and> (\<forall>h s. OWLStringText table h = Some s \<longrightarrow>
         (\<exists>ofs. OWLStringOffset table' h = Some ofs \<and> take (length s + 1) (drop ofs buf) = s @ [0]))"
proof -
  obtain t where t: "nodes_ok (pat_nodes table) t" using assms by (auto simp: table_inv_def)
  define ns where "ns = pat_nodes table"
  have inner: "distinct (0 # p_inner t)" "set (0 # p_inner t) = {..<length ns}"
    using t by (auto simp: nodes_ok_def ns_def)
  have "sum_list (map (\<lambda>x. length (pat_text (ns ! x)) + 1) (0 # p_inner t)) = (\<Sum>x \<in> {..<length ns}. length (pat_text (ns ! x)) + 1)"
    using sum_list_distinct_conv_sum_set [OF inner(1)] inner(2) by metis
  also have "\<dots> = sum_list (map (\<lambda>s. length s + 1) (texts table))"
    by (simp add: sum_list_sum_nth ns_def atLeast0LessThan)
  finally have size: "sum_list (map (\<lambda>x. length (pat_text (ns ! x)) + 1) (0 # p_inner t)) = tab_bytes table"
    using assms by (simp add: table_inv_def)
  obtain offs buf where e: "emit_nodes ns (0 # p_inner t) (pat_offset table, []) = (offs, buf)" by fastforce
  have run: "OWLStringEmit table = Some (table\<lparr>pat_offset := offs\<rparr>, buf)"
    using OWLStringEmit_run [OF t] e by (simp add: ns_def)
  have len: "length buf = OWLStringTableSize table"
    using emit_nodes_length [of ns "0 # p_inner t" "(pat_offset table, [])"] e size by (simp add: OWLStringTableSize_def)
  have "\<exists>ofs. offs h = Some ofs \<and> take (length s + 1) (drop ofs buf) = s @ [0]" if "OWLStringText table h = Some s" for h s
  proof -
    have "h < length ns" "s = pat_text (ns ! h)" using that by (auto simp: OWLStringText_def byte_simps ns_def)
    then show ?thesis using emit_nodes_at [OF inner(1), of h ns "(pat_offset table, [])"] e unfolding inner(2) by simp
  qed
  then show ?thesis using run len by (simp add: OWLStringOffset_def)
qed

section \<open>Strings that start with the high bit\<close>

lemma patInsert_high:
  assumes root: "0 < length (pat_nodes table)" "pat_bit (pat_nodes table ! 0) = 0"
      "rep (pat_nodes table) 0 (pat_left (pat_nodes table ! 0)) t"
    and leaves: "\<And>x. x \<in> set (p_leaves t) \<Longrightarrow> c_string (pat_text (pat_nodes table ! x)) \<and> \<not> str_bit (pat_text (pat_nodes table ! x)) 0"
    and s: "c_string s" "str_bit s 0" and rb: "reads_bits (s @ 0 # after) (length s + 1) \<beta>"
  shows "patInsert table s after =
    Some (length (pat_nodes table), table\<lparr>tab_bytes := tab_bytes table + (length s + 1),
      pat_nodes := hang \<beta> (length (pat_nodes table)) 0 s 0 (pat_left (pat_nodes table ! 0)) (pat_nodes table)\<rparr>)"
proof -
  define k where "k = p_goes (pat_nodes table) \<beta> t"
  have kin: "k \<in> set (p_leaves t)" by (simp add: k_def p_goes_leaf)
  then have k: "k < length (pat_nodes table)" using rep_bounds [OF root(3)] by auto
  have ne: "s \<noteq> pat_text (pat_nodes table ! k)" using leaves [OF kin] s by auto
  have find: "pat_find (pat_nodes table) (s @ 0 # after) (length s + 1) 0 (pat_left (pat_nodes table ! 0)) = Some k"
    using pat_find_goes [OF rb, of 0] root by (simp add: k_def)
  obtain d where d: "pat_diff (s @ 0 # after) (length s + 1) (pat_text (pat_nodes table ! k) @ [0]) (length (pat_text (pat_nodes table ! k)) + 1)
        (min (length (pat_text (pat_nodes table ! k)) + 1) (length s + 1) * 8) 0 = Some d"
      "agree s (pat_text (pat_nodes table ! k)) d"
    using first_difference [OF s(1) _ ne, of after] leaves [OF kin] by blast
  have "d = 0"
  proof (rule ccontr)
    assume "d \<noteq> 0"
    then have "str_bit s 0 = str_bit (pat_text (pat_nodes table ! k)) 0" using d(2) by (simp add: agree_def)
    then show False using s(2) leaves [OF kin] by simp
  qed
  moreover have "pat_left (pat_nodes table ! 0) < length (pat_nodes table)" using rep_bounds [OF root(3)] by simp
  then have "pat_place (pat_nodes table) (s @ 0 # after) (length s + 1) 0 0 (pat_left (pat_nodes table ! 0))
      = Some (0, pat_left (pat_nodes table ! 0))"
    using root(1) by (simp add: pat_place.simps [of _ _ _ 0])
  ultimately show ?thesis using patInsert_hang [OF rb refl refl root(1) find k ne _ _ root(1)] d(1) by simp
qed

text \<open>
  A string whose first byte has its high bit set is not kept: its node hangs where no descent and no
  emission passes.  Its bytes are counted in the size of the table and not written, no offset is
  given to it, and adding it again makes another node.
\<close>

theorem high_bit_string_is_lost:
  assumes inv: "table_inv table" and s: "c_string s" "str_bit s 0" and after: "after \<noteq> []"
    and fresh: "pat_offset table = Map.empty"
  shows "\<exists>h table1 table2 buf h' table3. OWLStringAdd table s after = Some (h, table1)
    \<and> OWLStringEmit table1 = Some (table2, buf) \<and> OWLStringOffset table2 h = None
    \<and> OWLStringTableSize table1 = length buf + (length s + 1)
    \<and> OWLStringAdd table1 s after = Some (h', table3) \<and> h' \<noteq> h"
proof -
  define ns n where "ns = pat_nodes table" and "n = length (pat_nodes table)"
  obtain t where t: "nodes_ok ns t" using inv by (auto simp: table_inv_def ns_def)
  have root: "0 < length ns" "pat_bit (ns ! 0) = 0" "rep ns 0 (pat_left (ns ! 0)) t" "set (p_leaves t) = {..<n}"
      "0 \<notin> set (p_inner t)" "pat_text (ns ! 0) = []" "set (p_inner t) = {1..<n}" "distinct (p_inner t)"
    using t by (auto simp: nodes_ok_def ns_def n_def)
  obtain \<beta> where \<beta>: "reads_bits (s @ 0 # after) (length s + 1) \<beta>" "genuine \<beta> s" using reads_string [OF after] .
  have leaves: "c_string (pat_text (ns ! x)) \<and> \<not> str_bit (pat_text (ns ! x)) 0" if "x < n" for x
    using that inv first_bit_zero [OF t] by (auto simp: table_inv_def list_all_iff ns_def n_def)
  define ns1 where "ns1 = hang \<beta> n 0 s 0 (pat_left (ns ! 0)) ns"
  define table1 where "table1 = table\<lparr>tab_bytes := tab_bytes table + (length s + 1), pat_nodes := ns1\<rparr>"
  have add: "OWLStringAdd table s after = Some (n, table1)"
    using patInsert_high [of table t s after \<beta>] root leaves s \<beta>(1)
    by (simp add: OWLStringAdd_def ns_def n_def table1_def ns1_def)
  have \<beta>0: "\<beta> 0" using genuineD [OF \<beta>(2), of 0] s by simp
  have rep1: "rep ns1 0 (pat_left (ns ! 0)) t" unfolding ns1_def by (rule rep_hang_frame [OF root(3,1,5)])
  have root1: "pat_left (ns1 ! 0) = pat_left (ns ! 0)" "pat_right (ns1 ! 0) = n" "pat_bit (ns1 ! 0) = 0" "pat_bit (ns1 ! n) = 0"
      "length ns1 = Suc n" "pat_text (ns1 ! 0) = []"
    using root \<beta>0 by (simp_all add: ns1_def hang_nth hang_new n_def ns_def)
  have texts1: "pat_text (ns1 ! x) = pat_text (ns ! x)" if "x < n" for x
    using that root(1) by (simp add: ns1_def hang_keeps n_def ns_def)
  have again: "OWLStringAdd table1 s after = Some (Suc n, table1\<lparr>tab_bytes := tab_bytes table1 + (length s + 1),
      pat_nodes := hang \<beta> (Suc n) 0 s 0 (pat_left (ns ! 0)) ns1\<rparr>)"
    using patInsert_high [of table1 t s after \<beta>] root1 rep1 leaves texts1 root(4) s \<beta>(1)
    by (simp add: OWLStringAdd_def table1_def)
  have "patEmit ns1 0 st = Some (emit_nodes ns1 (0 # p_inner t) st)" for st
  proof (cases st)
    case (Pair a b)
    then show ?thesis
      using patEmit_nodes [OF rep1, of "(a(0 \<mapsto> length b), b @ [0])"] root1 rep_bounds [OF rep1]
      by (auto simp: patEmit.simps [of ns1 0] Let_def split: if_splits)
  qed
  moreover obtain offs buf where e: "emit_nodes ns1 (0 # p_inner t) (Map.empty, []) = (offs, buf)" by fastforce
  ultimately have emit: "OWLStringEmit table1 = Some (table1\<lparr>pat_offset := offs\<rparr>, buf)"
    using fresh by (simp add: OWLStringEmit_def table1_def)
  have "offs n = None" using emit_nodes_other [of n "0 # p_inner t" ns1 "(Map.empty, [])"] e root(1,7) by (simp add: n_def ns_def)
  moreover have "length buf = tab_bytes table"
  proof -
    have "length buf = (\<Sum>x \<in> set (0 # p_inner t). length (pat_text (ns1 ! x)) + 1)"
      using emit_nodes_length [of ns1 "0 # p_inner t" "(Map.empty, [])"] e root(5,8)
        sum_list_distinct_conv_sum_set [of "0 # p_inner t" "\<lambda>x. length (pat_text (ns1 ! x)) + 1"] by simp
    also have "set (0 # p_inner t) = {..<n}" using root(1,7) by (auto simp: n_def ns_def)
    also have "(\<Sum>x \<in> {..<n}. length (pat_text (ns1 ! x)) + 1) = (\<Sum>x \<in> {..<n}. length (pat_text (ns ! x)) + 1)"
      using texts1 by simp
    also have "\<dots> = tab_bytes table"
      using inv by (simp add: table_inv_def sum_list_sum_nth atLeast0LessThan n_def ns_def)
    finally show ?thesis .
  qed
  ultimately show ?thesis
    using add emit again by (auto simp: OWLStringOffset_def OWLStringTableSize_def table1_def)
qed

theorem high_bit_string_is_lost_witness:
  "\<exists>h table1 table2 buf h' table3. OWLStringAdd OWLStringInit [0xC3, 0xA9] [0] = Some (h, table1)
    \<and> OWLStringEmit table1 = Some (table2, buf) \<and> OWLStringOffset table2 h = None
    \<and> OWLStringTableSize table1 = length buf + 3
    \<and> OWLStringAdd table1 [0xC3, 0xA9] [0] = Some (h', table3) \<and> h' \<noteq> h"
proof -
  have "c_string [0xC3, 0xA9]" "str_bit [0xC3, 0xA9] 0" "pat_offset OWLStringInit = Map.empty"
    by (simp_all add: c_string_def str_bit_def OWLStringInit_def newNode_def)
  from high_bit_string_is_lost [OF OWLStringInit_inv this(1,2) _ this(3), of "[0]"] show ?thesis
    by (simp add: numeral_3_eq_3)
qed

section \<open>Names in the table\<close>

text \<open>
  C28. Whatever names are added to a new table, in whatever order and however often, as long as the first byte of each is
  below 128 (any other string is lost, as shown above) and a byte can be read behind its terminator: each addition
  succeeds, two names get the same handle when they are equal and only then, the emission fills exactly
  the size announced, and at the offset of the handle of a name there are the name and its terminator.
\<close>

theorem string_table_holds_names:
  assumes ms: "list_all good_name ms"
  shows "\<exists>hs table table' buf. add_each add_string OWLStringInit ms = Some (hs, table)
    \<and> OWLStringEmit table = Some (table', buf) \<and> length buf = OWLStringTableSize table
    \<and> (\<forall>i < length ms. \<forall>j < length ms. hs ! i = hs ! j \<longleftrightarrow> fst (ms ! i) = fst (ms ! j))
    \<and> (\<forall>i < length ms. \<exists>ofs. OWLStringOffset table' (hs ! i) = Some ofs
         \<and> take (length (fst (ms ! i)) + 1) (drop ofs buf) = fst (ms ! i) @ [0])"
proof -
  obtain hs table where add: "add_each add_string OWLStringInit ms = Some (hs, table)" "table_inv table"
      "map (OWLStringText table) hs = map (\<lambda>m. Some (fst m)) ms"
    using strings.add_each_vals [OF OWLStringInit_inv ms] by blast
  obtain table' buf where emit: "OWLStringEmit table = Some (table', buf)" "length buf = OWLStringTableSize table"
      "\<And>h s. OWLStringText table h = Some s \<Longrightarrow>
         \<exists>ofs. OWLStringOffset table' h = Some ofs \<and> take (length s + 1) (drop ofs buf) = s @ [0]"
    using OWLStringEmit_ok [OF add(2)] by blast
  have "OWLStringText table (hs ! i) = Some (fst (ms ! i))" if "i < length ms" for i
    using that arg_cong [OF add(3), of "\<lambda>xs. xs ! i"] map_eq_imp_length_eq [OF add(3)] by simp
  then show ?thesis using add(1) emit strings.handles_equal_iff [OF add(2,3)] by blast
qed

theorem string_table_holds_names_witness:
  "\<exists>hs table table' buf ofs. add_each add_string OWLStringInit [([0x66, 0x6F], [0]), ([0x66], [7]), ([0x66, 0x6F], [9])] = Some (hs, table)
    \<and> OWLStringEmit table = Some (table', buf) \<and> length buf = OWLStringTableSize table
    \<and> hs ! 0 = hs ! 2 \<and> hs ! 0 \<noteq> hs ! 1 \<and> OWLStringOffset table' (hs ! 1) = Some ofs \<and> take 2 (drop ofs buf) = [0x66, 0]"
proof -
  let ?ms = "[([0x66, 0x6F], [0]), ([0x66], [7]), ([0x66, 0x6F], [9])] :: (bytes \<times> bytes) list"
  have "list_all good_name ?ms"
    by (simp add: good_name_def seven_bit_start_def c_string_def str_bit_def)
  from string_table_holds_names [OF this] obtain hs table table' buf where
    r: "add_each add_string OWLStringInit ?ms = Some (hs, table)" "OWLStringEmit table = Some (table', buf)"
      "length buf = OWLStringTableSize table"
      "\<forall>i < length ?ms. \<forall>j < length ?ms. hs ! i = hs ! j \<longleftrightarrow> fst (?ms ! i) = fst (?ms ! j)"
      "\<forall>i < length ?ms. \<exists>ofs. OWLStringOffset table' (hs ! i) = Some ofs
         \<and> take (length (fst (?ms ! i)) + 1) (drop ofs buf) = fst (?ms ! i) @ [0]" by blast
  have "hs ! 0 = hs ! 2" "hs ! 0 \<noteq> hs ! 1"
    using r(4) [rule_format, of 0 2] r(4) [rule_format, of 0 1] by simp_all
  moreover have "\<exists>ofs. OWLStringOffset table' (hs ! 1) = Some ofs \<and> take 2 (drop ofs buf) = [0x66, 0]"
    using r(5) [rule_format, of 1] by (simp add: numeral_2_eq_2)
  ultimately show ?thesis using r(1-3) by blast
qed

text \<open>The bit test may look at the byte after the terminator: with none there, the lookup of a short
  string fails.\<close>

lemma lookup_reads_past_end:
  "\<exists>hs table. add_each add_string OWLStringInit [([1, 1, 1], [0]), ([1, 1, 2], [0])] = Some (hs, table) \<and> OWLStringAdd table [3] [] = None"
  by (simp add: add_string_def OWLStringAdd_def patInsert_def OWLStringInit_def newNode_def pat_find.simps pat_place.simps pat_diff.simps
      pat_child_def getBit_def rd_def Let_def)

end
