(* ===== verification/OwlElf.thy ===== *)
theory OwlElf
  imports OwlObject OwlString ElfWrite
begin

unbundle bit_operations_syntax

text \<open>
  The ELF writer of the object writer library (\<open>bld/owl/c/owelf.c\<close>).  The source has it twice, for 32-bit
  and for 64-bit files; the two differ in the layout of the records, which is the argument \<open>elf_class\<close> here, and
  in an assertion.  The fields of \<open>x.elf\<close> and the indices of the symbols, which the writer fills in, are a state
  of their own beside the file and its string table.

  The name of a section or a symbol is a text in the file and a node in the string table; \<open>handle_of\<close> goes from
  one to the other.  Host and target are little-endian.  File offsets are natural numbers: a file stays
  below 2 to the 31 bytes.  \<open>None\<close> is a failing assertion, a read of something not set, or an
  access outside a buffer.
\<close>

section \<open>Records of the two formats\<close>

record elf_ehdr =
  e_machine :: nat
  e_shoff :: nat
  e_shnum :: nat

record elf_class =
  cls :: nat
  ehdr_size :: nat
  phdr_size :: nat
  shdr_size :: nat
  sym_size :: nat
  rel_size :: nat
  rela_size :: nat
  tab_align :: nat
  word_size :: nat
  put_sym :: "elf_sym \<Rightarrow> bytes"
  put_rel :: "elf_rela \<Rightarrow> bytes"

definition sym32_bytes :: "elf_sym \<Rightarrow> bytes" where
  "sym32_bytes s = le_bytes 4 (st_name s) @ le_bytes 4 (st_value s) @ le_bytes 4 (st_size s)
     @ le_bytes 1 (st_info s) @ le_bytes 1 0 @ le_bytes 2 (st_shndx s)"

definition rel32_bytes :: "elf_rela \<Rightarrow> bytes" where
  "rel32_bytes r = le_int 4 (r_offset r) @ le_bytes 4 (push_bit 8 (r_sym r) + r_type r mod 256)"

definition rel64_bytes :: "elf_rela \<Rightarrow> bytes" where
  "rel64_bytes r = le_int 8 (r_offset r) @ le_bytes 8 (push_bit 32 (r_sym r) + r_type r)"

definition ELFCLASS32 :: elf_class where
  "ELFCLASS32 = \<lparr>cls = 1, ehdr_size = 52, phdr_size = 32, shdr_size = 40, sym_size = 16, rel_size = 8, rela_size = 12,
     tab_align = 0, word_size = 4, put_sym = sym32_bytes, put_rel = rel32_bytes\<rparr>"

definition ELFCLASS64 :: elf_class where
  "ELFCLASS64 = \<lparr>cls = 2, ehdr_size = 64, phdr_size = 56, shdr_size = 64, sym_size = 24, rel_size = 16, rela_size = 24,
     tab_align = 8, word_size = 8, put_sym = sym_bytes, put_rel = rel64_bytes\<rparr>"

definition put_ehdr :: "elf_class \<Rightarrow> elf_ehdr \<Rightarrow> bytes" where
  "put_ehdr c h =
     [0x7F, 0x45, 0x4C, 0x46, word_of_nat (cls c), 1, 1] @ replicate 9 0
     @ le_bytes 2 1 @ le_bytes 2 (e_machine h) @ le_bytes 4 1 @ le_bytes (word_size c) 0 @ le_bytes (word_size c) 0
     @ le_bytes (word_size c) (e_shoff h) @ le_bytes 4 0 @ le_bytes 2 (ehdr_size c) @ le_bytes 2 (phdr_size c)
     @ le_bytes 2 0 @ le_bytes 2 (shdr_size c) @ le_bytes 2 (e_shnum h) @ le_bytes 2 1"

definition put_shdr :: "elf_class \<Rightarrow> elf_shdr \<Rightarrow> bytes" where
  "put_shdr c s = le_bytes 4 (sh_name s) @ le_bytes 4 (sh_type s) @ le_bytes (word_size c) (sh_flags s) @ le_bytes (word_size c) 0
     @ le_bytes (word_size c) (sh_offset s) @ le_int (word_size c) (sh_size s) @ le_bytes 4 (sh_link s) @ le_bytes 4 (sh_info s)
     @ le_bytes (word_size c) (sh_addralign s) @ le_bytes (word_size c) (sh_entsize s)"

definition put_rela :: "elf_class \<Rightarrow> elf_rela \<Rightarrow> bytes" where
  "put_rela c r = put_rel c r @ le_int (word_size c) (r_addend r)"

section \<open>State of the writer\<close>

record elf_state =
  ef :: owl_file
  strs :: owl_string_table
  relocs_index :: "nat \<rightharpoonup> nat"
  relocs_name :: "nat \<rightharpoonup> nat"
  pad_amount :: "nat \<rightharpoonup> nat"
  sym_index :: "nat \<Rightarrow> u32"
  strtab_name :: nat
  strtab_buf :: bytes
  symtab_name :: nat
  symtab_buf :: bytes
  next_sect :: nat
  out :: bytes

fun fold_opt :: "('a \<Rightarrow> 's \<Rightarrow> 's option) \<Rightarrow> 'a list \<Rightarrow> 's \<Rightarrow> 's option" where
  "fold_opt step [] s = Some s"
| "fold_opt step (x # xs) s = do { s \<leftarrow> step x s; fold_opt step xs s }"

definition ELF_UNDEF_INDEX :: nat where "ELF_UNDEF_INDEX = 0"
definition ELF_STRING_INDEX :: nat where "ELF_STRING_INDEX = 1"
definition ELF_SYMBOL_INDEX :: nat where "ELF_SYMBOL_INDEX = 2"
definition FIRST_USER_SECTION :: nat where "FIRST_USER_SECTION = 3"

definition OWLIndexToELFIndex :: "nat \<Rightarrow> nat" where
  "OWLIndexToELFIndex x = x + FIRST_USER_SECTION"

definition numSections :: "elf_state \<Rightarrow> nat" where
  "numSections st = OWLIndexToELFIndex (next_index (ef st))"

definition numSymbols :: "elf_state \<Rightarrow> nat" where
  "numSymbols st = unat (num_global_symbols (ef st) + num_local_symbols (ef st))"

fun machineTypes :: "owl_cpu \<Rightarrow> nat" where
  "machineTypes OWL_CPU_PPC = 20"
| "machineTypes OWL_CPU_ALPHA = 41"
| "machineTypes OWL_CPU_MIPS = 8"
| "machineTypes OWL_CPU_X86 = 3"
| "machineTypes OWL_CPU_X64 = 62"
| "machineTypes OWL_CPU_ARM = 40"
| "machineTypes OWL_CPU_A64 = 183"

definition str_bytes :: "string \<Rightarrow> bytes" where
  "str_bytes s = map of_char s"

definition handle_of :: "owl_string_table \<Rightarrow> string \<Rightarrow> nat option" where
  "handle_of tab s = find (\<lambda>h. OWLStringText tab h = Some (str_bytes s)) [0..<length (pat_nodes tab)]"

definition name_offset :: "elf_state \<Rightarrow> string \<Rightarrow> nat option" where
  "name_offset st s = do { h \<leftarrow> handle_of (strs st) s; OWLStringOffset (strs st) h }"

definition emit :: "bytes \<Rightarrow> elf_state \<Rightarrow> elf_state" where
  "emit d st = st\<lparr>out := out st @ d\<rparr>"

section \<open>Preparation\<close>

definition use_rela :: "elf_state \<Rightarrow> bool" where
  "use_rela st \<longleftrightarrow> f_cpu (ef st) \<noteq> OWL_CPU_X86 \<and> f_cpu (ef st) \<noteq> OWL_CPU_MIPS"

definition reloc_entry_size :: "elf_class \<Rightarrow> elf_state \<Rightarrow> nat" where
  "reloc_entry_size c st = (if use_rela st then rela_size c else rel_size c)"

definition MAX_SECTION_NAME :: nat where "MAX_SECTION_NAME = 128"

definition reloc_prefix :: "elf_state \<Rightarrow> string" where
  "reloc_prefix st = (if use_rela st then ''.rela'' else ''.rel'')"

definition prep_reloc_section :: "bytes \<Rightarrow> nat \<Rightarrow> elf_state \<Rightarrow> elf_state option" where
  "prep_reloc_section after i st = do {
     s \<leftarrow> rd (secs (ef st)) i;
     let st = st\<lparr>pad_amount := (pad_amount st)(i \<mapsto> 0)\<rparr>;
     if sec_relocs s = [] then Some st
     else if MAX_SECTION_NAME + 5 < length (reloc_prefix st @ sec_name s) + 1 then None
     else do {
       (h, tab) \<leftarrow> OWLStringAdd (strs st) (str_bytes (reloc_prefix st @ sec_name s)) after;
       Some (st\<lparr>strs := tab, relocs_name := (relocs_name st)(i \<mapsto> h),
                relocs_index := (relocs_index st)(i \<mapsto> next_index (ef st)),
                ef := (ef st)\<lparr>next_index := next_index (ef st) + 1\<rparr>\<rparr>)
     }
   }"

definition prepareRelocSections :: "bytes \<Rightarrow> elf_state \<Rightarrow> elf_state option" where
  "prepareRelocSections after st = fold_opt (prep_reloc_section after) (sec_list (ef st)) st"

definition writeFileHeader :: "elf_class \<Rightarrow> elf_state \<Rightarrow> elf_state" where
  "writeFileHeader c st =
     emit (put_ehdr c \<lparr>e_machine = machineTypes (f_cpu (ef st)), e_shoff = ehdr_size c, e_shnum = numSections st\<rparr>) st"

definition addSpecialStrings :: "bytes \<Rightarrow> elf_state \<Rightarrow> elf_state option" where
  "addSpecialStrings after st = do {
     (h, tab) \<leftarrow> OWLStringAdd (strs st) (str_bytes ''.strtab'') after;
     (k, tab) \<leftarrow> OWLStringAdd tab (str_bytes ''.symtab'') after;
     Some (st\<lparr>strs := tab, strtab_name := h, symtab_name := k\<rparr>)
   }"

definition prepareStringTable :: "elf_state \<Rightarrow> elf_state option" where
  "prepareStringTable st = do {
     (tab, buf) \<leftarrow> OWLStringEmit (strs st);
     if length buf = OWLStringTableSize (strs st) then Some (st\<lparr>strs := tab, strtab_buf := buf\<rparr>) else None
   }"

fun elfBinding :: "owl_sym_linkage \<Rightarrow> nat" where
  "elfBinding OWL_SYM_UNDEFINED = 1"
| "elfBinding OWL_SYM_FUNCTION = 0"
| "elfBinding OWL_SYM_STATIC = 0"
| "elfBinding OWL_SYM_GLOBAL = 1"
| "elfBinding OWL_SYM_WEAK = 2"

fun elfType :: "owl_sym_type \<Rightarrow> nat" where
  "elfType OWL_TYPE_FUNCTION = 2"
| "elfType OWL_TYPE_OBJECT = 1"
| "elfType OWL_TYPE_SECTION = 3"
| "elfType OWL_TYPE_FILE = 4"

definition emitElfSymbol :: "elf_state \<Rightarrow> owl_symbol_info \<Rightarrow> elf_sym option" where
  "emitElfSymbol st s = do {
     name \<leftarrow> sym_name s;
     ofs \<leftarrow> name_offset st name;
     shndx \<leftarrow> (case sym_section s of
         None \<Rightarrow> Some 0
       | Some i \<Rightarrow> map_option (\<lambda>sec. OWLIndexToELFIndex (sec_index sec)) (rd_section (ef st) i));
     Some \<lparr>st_name = ofs, st_info = st_info_of (elfBinding (sym_linkage s)) (elfType (sym_type s)), st_shndx = shndx,
           st_value = unat (scast (sym_offset s) :: u64), st_size = 0\<rparr>
   }"

definition bogus_sym :: elf_sym where
  "bogus_sym = \<lparr>st_name = 0, st_info = 0, st_shndx = 0, st_value = 0, st_size = 0\<rparr>"

text \<open>One round of the loop of \<open>prepareSymbolTable\<close>: the next local and global index, the table so far.\<close>

type_synonym sym_loop = "u32 \<times> u32 \<times> (nat \<Rightarrow> u32) \<times> elf_sym option list"

definition sym_dead :: "owl_symbol_info \<Rightarrow> bool" where
  "sym_dead s \<longleftrightarrow> sym_flags s AND OWL_SYM_DEAD \<noteq> 0"

definition sym_step :: "elf_state \<Rightarrow> nat \<Rightarrow> sym_loop \<Rightarrow> sym_loop option" where
  "sym_step st h x = (case x of (nl, ng, idx, tab) \<Rightarrow> do {
     s \<leftarrow> rd (syms (ef st)) h;
     if sym_dead s then Some x
     else do {
       let (k, nl, ng) = (if \<not> linkage_global (sym_linkage s) then (nl, nl + 1, ng) else (ng, nl, ng - 1));
       e \<leftarrow> emitElfSymbol st s;
       if unat k < length tab then Some (nl, ng, idx(h := k), tab[unat k := Some e]) else None
     }
   })"

definition prepareSymbolTable :: "elf_class \<Rightarrow> elf_state \<Rightarrow> elf_state option" where
  "prepareSymbolTable c st = do {
     let n = numSymbols st;
     (nl, ng, idx, tab) \<leftarrow> fold_opt (sym_step st) [0..<length (syms (ef st))]
       (1, num_global_symbols (ef st) + num_local_symbols (ef st), sym_index st, (replicate (n + 1) None)[0 := Some bogus_sym]);
     if ng + 1 \<noteq> nl \<or> cls c = 1 \<and> nl \<noteq> num_local_symbols (ef st) + 1 then None
     else do {
       es \<leftarrow> all_some tab;
       Some (st\<lparr>sym_index := idx, symtab_buf := concat (map (put_sym c) es)\<rparr>)
     }
   }"

section \<open>Section headers\<close>

definition sectionTypes :: "u32 \<Rightarrow> nat" where
  "sectionTypes t =
    (if t AND 0x0001 \<noteq> 0 then 1 else if t AND 0x0002 \<noteq> 0 then 1 else if t AND 0x0004 \<noteq> 0 then 8
     else if t AND 0x0008 \<noteq> 0 then 7 else 0)"

definition sectionFlags :: "u32 \<Rightarrow> nat" where
  "sectionFlags t =
    (let flags = 0;
         flags = (if t AND 0x0001 \<noteq> 0 then flags OR 2 else flags);
         flags = (if t AND 0x0002 \<noteq> 0 then flags OR 2 else flags);
         flags = (if t AND 0x0004 \<noteq> 0 then flags OR 2 else flags);
         flags = (if t AND 0x0200 \<noteq> 0 then flags OR 1 else flags)
     in if t AND 0x0400 \<noteq> 0 then flags OR 4 else flags)"

definition sectionAlignment :: "owl_section_info \<Rightarrow> nat option" where
  "sectionAlignment s = (if unat (sec_align s) \<in> set [1, 2, 4, 8, 16, 32, 64] then Some (unat (sec_align s)) else None)"

definition sectionPadding :: "owl_section_info \<Rightarrow> nat \<Rightarrow> nat" where
  "sectionPadding s ofs =
    (if sec_align s \<noteq> 0
     then let md = ofs mod unat (sec_align s) in if md \<noteq> 0 then unat (sec_align s) - md else 0
     else 0)"

type_synonym headers = "elf_shdr option list"

definition put_header :: "nat \<Rightarrow> elf_shdr \<Rightarrow> headers \<Rightarrow> headers option" where
  "put_header k h hs = (if k < length hs then Some (hs[k := Some h]) else None)"

definition doSectionHeader :: "nat \<Rightarrow> elf_state \<Rightarrow> (elf_shdr \<times> elf_state) option" where
  "doSectionHeader i st = do {
     s \<leftarrow> rd (secs (ef st)) i;
     name \<leftarrow> name_offset st (sec_name s);
     align \<leftarrow> sectionAlignment s;
     let pad = sectionPadding s (unat (sec_size s));
     let st = st\<lparr>pad_amount := (pad_amount st)(i \<mapsto> pad)\<rparr>;
     let h = shdr_zero\<lparr>sh_type := sectionTypes (sec_type s), sh_flags := sectionFlags (sec_type s), sh_name := name,
               sh_addralign := align, sh_size := int (unat (sec_size s) + pad)\<rparr>;
     Some (if section_bss s then (h, st)
           else (h\<lparr>sh_offset := next_sect st\<rparr>, st\<lparr>next_sect := next_sect st + (unat (sec_size s) + pad)\<rparr>))
   }"

definition doSectionRelocsHeader :: "elf_class \<Rightarrow> nat \<Rightarrow> elf_state \<Rightarrow> (elf_shdr \<times> elf_state) option" where
  "doSectionRelocsHeader c i st = do {
     s \<leftarrow> rd (secs (ef st)) i;
     h \<leftarrow> relocs_name st i;
     name \<leftarrow> OWLStringOffset (strs st) h;
     let len = reloc_entry_size c st * unat (num_relocs s);
     Some (shdr_zero\<lparr>sh_type := (if use_rela st then 4 else 9), sh_flags := sectionFlags (sec_type s) AND 2, sh_name := name,
             sh_link := ELF_SYMBOL_INDEX, sh_info := OWLIndexToELFIndex (sec_index s), sh_size := int len,
             sh_entsize := reloc_entry_size c st, sh_addralign := tab_align c, sh_offset := next_sect st\<rparr>,
           st\<lparr>next_sect := next_sect st + len\<rparr>)
   }"

definition user_header :: "elf_class \<Rightarrow> nat \<Rightarrow> headers \<times> elf_state \<Rightarrow> (headers \<times> elf_state) option" where
  "user_header c i x = (case x of (hs, st) \<Rightarrow> do {
     s \<leftarrow> rd (secs (ef st)) i;
     (h, st) \<leftarrow> doSectionHeader i st;
     hs \<leftarrow> put_header (OWLIndexToELFIndex (sec_index s)) h hs;
     if sec_relocs s = [] then Some (hs, st)
     else do {
       k \<leftarrow> relocs_index st i;
       (h, st) \<leftarrow> doSectionRelocsHeader c i st;
       hs \<leftarrow> put_header (OWLIndexToELFIndex k) h hs;
       Some (hs, st)
     }
   })"

definition formatUserSectionHeaders :: "elf_class \<Rightarrow> headers \<times> elf_state \<Rightarrow> (headers \<times> elf_state) option" where
  "formatUserSectionHeaders c x = fold_opt (user_header c) (sec_list (ef (snd x))) x"

definition formatStringTableHeader :: "elf_state \<Rightarrow> (elf_shdr \<times> elf_state) option" where
  "formatStringTableHeader st = do {
     name \<leftarrow> OWLStringOffset (strs st) (strtab_name st);
     Some (shdr_zero\<lparr>sh_type := 3, sh_name := name, sh_offset := next_sect st, sh_size := int (length (strtab_buf st))\<rparr>,
           st\<lparr>next_sect := next_sect st + length (strtab_buf st)\<rparr>)
   }"

definition formatSymbolTableHeader :: "elf_class \<Rightarrow> elf_state \<Rightarrow> (elf_shdr \<times> elf_state) option" where
  "formatSymbolTableHeader c st = do {
     name \<leftarrow> OWLStringOffset (strs st) (symtab_name st);
     Some (shdr_zero\<lparr>sh_type := 2, sh_name := name, sh_link := ELF_STRING_INDEX,
             sh_info := unat (num_local_symbols (ef st) + 1), sh_entsize := sym_size c, sh_offset := next_sect st,
             sh_size := int (length (symtab_buf st)), sh_addralign := tab_align c\<rparr>,
           st\<lparr>next_sect := next_sect st + length (symtab_buf st)\<rparr>)
   }"

definition emitSectionHeaders :: "elf_class \<Rightarrow> elf_state \<Rightarrow> elf_state option" where
  "emitSectionHeaders c st = do {
     let n = numSections st;
     let st = st\<lparr>next_sect := ehdr_size c + n * shdr_size c\<rparr>;
     hs \<leftarrow> put_header ELF_UNDEF_INDEX shdr_zero (replicate n None);
     (h, st) \<leftarrow> formatStringTableHeader st;
     hs \<leftarrow> put_header ELF_STRING_INDEX h hs;
     (h, st) \<leftarrow> formatSymbolTableHeader c st;
     hs \<leftarrow> put_header ELF_SYMBOL_INDEX h hs;
     (hs, st) \<leftarrow> formatUserSectionHeaders c (hs, st);
     hs \<leftarrow> all_some hs;
     Some (emit (concat (map (put_shdr c) hs)) st)
   }"

section \<open>Contents\<close>

text \<open>The size taken is that of the buffer less the location, a 32-bit difference made a \<open>size_t\<close>, and at most 4.\<close>

definition emitReloc :: "elf_class \<Rightarrow> nat \<Rightarrow> owl_reloc_info \<Rightarrow> elf_state \<Rightarrow> (bytes \<times> elf_state) option" where
  "emitReloc c i r st = do {
     s \<leftarrow> rd (secs (ef st)) i;
     y \<leftarrow> rd (syms (ef st)) (rel_symbol r);
     t \<leftarrow> ElfRelocType (rel_type r) (f_cpu (ef st));
     bit_mask \<leftarrow> OWLRelocBitMask (f_cpu (ef st)) (rel_type r);
     let e = \<lparr>r_offset = sint (rel_location r), r_sym = unat (sym_index st (rel_symbol r)), r_type = unat t, r_addend = 0\<rparr>;
     if \<not> use_rela st then Some (put_rel c e, st)
     else do {
       b \<leftarrow> sec_buffer s;
       let old_loc = OWLBufferTell b;
       let b = OWLBufferSeek b (rel_location r);
       let data_size = min 4 (to_size (OWLBufferSize (Some b) - rel_location r));
       d \<leftarrow> OWLBufferRead b (rel_location r) data_size;
       let data = (word_of_nat (le_val d) :: u32);
       b \<leftarrow> OWLBufferWrite b (le_bytes data_size (unat (data AND NOT bit_mask)));
       Some (put_rela c (e\<lparr>r_addend := sint (data AND bit_mask)\<rparr>),
             st\<lparr>ef := set_sec i (s\<lparr>sec_buffer := Some (OWLBufferSeek b old_loc)\<rparr>) (ef st)\<rparr>)
     }
   }"

fun emit_relocs :: "elf_class \<Rightarrow> nat \<Rightarrow> owl_reloc_info list \<Rightarrow> elf_state \<Rightarrow> (bytes \<times> elf_state) option" where
  "emit_relocs c i [] st = Some ([], st)"
| "emit_relocs c i (r # rs) st = do {
     (d, st) \<leftarrow> emitReloc c i r st;
     (ds, st) \<leftarrow> emit_relocs c i rs st;
     Some (d @ ds, st)
   }"

definition emitSectionPadding :: "nat \<Rightarrow> elf_state \<Rightarrow> elf_state option" where
  "emitSectionPadding i st = do { pad \<leftarrow> pad_amount st i; Some (emit (replicate pad 0) st) }"

text \<open>The relocations are counted twice: the buffer for them has room for \<open>num_relocs\<close>.\<close>

definition emit_section :: "elf_class \<Rightarrow> nat \<Rightarrow> elf_state \<Rightarrow> elf_state option" where
  "emit_section c i st = do {
     s \<leftarrow> rd (secs (ef st)) i;
     (rels, st) \<leftarrow> emit_relocs c i (sec_relocs s) st;
     if sec_relocs s \<noteq> [] \<and> length rels \<noteq> reloc_entry_size c st * unat (num_relocs s) then None
     else do {
       s \<leftarrow> rd (secs (ef st)) i;
       st \<leftarrow> (if section_bss s then Some st
             else do {
               b \<leftarrow> sec_buffer s;
               d \<leftarrow> OWLBufferEmit b;
               emitSectionPadding i (emit d st)
             });
       Some (emit rels st)
     }
   }"

definition emitSectionData :: "elf_class \<Rightarrow> elf_state \<Rightarrow> elf_state option" where
  "emitSectionData c st = fold_opt (emit_section c) (sec_list (ef st)) st"

section \<open>The whole file\<close>

definition elf_start :: "owl_file \<Rightarrow> owl_string_table \<Rightarrow> elf_state" where
  "elf_start f tab = \<lparr>ef = f, strs = tab, relocs_index = Map.empty, relocs_name = Map.empty, pad_amount = Map.empty,
     sym_index = (\<lambda>_. 0), strtab_name = 0, strtab_buf = [], symtab_name = 0, symtab_buf = [], next_sect = 0, out = []\<rparr>"

definition elf_emit :: "elf_class \<Rightarrow> bytes \<Rightarrow> elf_state \<Rightarrow> elf_state option" where
  "elf_emit c after st = do {
     st \<leftarrow> prepareRelocSections after st;
     let st = writeFileHeader c st;
     st \<leftarrow> addSpecialStrings after st;
     st \<leftarrow> prepareStringTable st;
     st \<leftarrow> prepareSymbolTable c st;
     st \<leftarrow> emitSectionHeaders c st;
     let st = emit (strtab_buf st) st;
     let st = emit (symtab_buf st) st;
     emitSectionData c st
   }"

definition ELFFileEmit :: "bytes \<Rightarrow> elf_state \<Rightarrow> elf_state option" where
  "ELFFileEmit after st = elf_emit ELFCLASS32 after st"

definition ELFFileEmit64 :: "bytes \<Rightarrow> elf_state \<Rightarrow> elf_state option" where
  "ELFFileEmit64 after st = elf_emit ELFCLASS64 after st"

text \<open>\<open>OWLFileFini\<close> for the ELF formats; the string table already has the names of the labels.\<close>

definition owl_finish :: "owl_file \<Rightarrow> owl_file option" where
  "owl_finish f = do {
     f \<leftarrow> resolveRelativeRelocs f;
     resolveComdefSymbols (resolveLabelNames f)
   }"

definition OWLFileFini :: "owl_string_table \<Rightarrow> bytes \<Rightarrow> owl_file \<Rightarrow> bytes option" where
  "OWLFileFini tab after f = do {
     f \<leftarrow> owl_finish f;
     if f_format f \<noteq> OWL_FORMAT_ELF then None
     else map_option out (if f_cpu f = OWL_CPU_X64 \<or> f_cpu f = OWL_CPU_A64
                          then ELFFileEmit64 after (elf_start f tab) else ELFFileEmit after (elf_start f tab))
   }"

section \<open>Files that are ready to be written\<close>

definition section_ready :: "owl_file \<Rightarrow> owl_section_info \<Rightarrow> bool" where
  "section_ready f s \<longleftrightarrow> unat (sec_align s) \<in> set [1, 2, 4, 8, 16, 32, 64]
     \<and> num_relocs s = word_of_nat (length (sec_relocs s)) \<and> length (sec_relocs s) < 2 ^ 32
     \<and> (case sec_buffer s of
          None \<Rightarrow> section_bss s \<and> sec_relocs s = []
        | Some b \<Rightarrow> \<not> section_bss s \<and> buffer_inv b \<and> \<not> buffer_full b \<and> bsize b = unat (sec_size s))
     \<and> (\<forall>r \<in> set (sec_relocs s). rel_symbol r < length (syms f)
          \<and> unat (rel_location r) < unat (sec_size s) \<and> unat (rel_location r) + 4 \<le> 2 ^ 31
          \<and> ElfRelocType (rel_type r) (f_cpu f) \<noteq> None \<and> OWLRelocBitMask (f_cpu f) (rel_type r) \<noteq> None)
     \<and> (sec_relocs s \<noteq> [] \<longrightarrow> length (sec_name s) \<le> 127)"

definition live_syms :: "owl_file \<Rightarrow> nat list" where
  "live_syms f = filter (\<lambda>h. \<not> sym_dead (syms f ! h)) [0..<length (syms f)]"

definition live_locals :: "owl_file \<Rightarrow> nat list" where
  "live_locals f = filter (\<lambda>h. is_local (syms f ! h)) (live_syms f)"

definition live_globals :: "owl_file \<Rightarrow> nat list" where
  "live_globals f = filter (\<lambda>h. \<not> is_local (syms f ! h)) (live_syms f)"

definition counts_live :: "owl_file \<Rightarrow> bool" where
  "counts_live f \<longleftrightarrow> num_local_symbols f = word_of_nat (length (live_locals f))
     \<and> num_local_symbols f + num_global_symbols f = word_of_nat (length (live_syms f))"

definition indices_ok :: "owl_file \<Rightarrow> bool" where
  "indices_ok f \<longleftrightarrow> distinct (sec_list f) \<and> next_index f = length (sec_list f)
     \<and> (\<forall>k < length (sec_list f). sec_list f ! k < length (secs f) \<and> sec_index (secs f ! (sec_list f ! k)) = k)"

definition names_in :: "owl_string_table \<Rightarrow> owl_file \<Rightarrow> bool" where
  "names_in tab f \<longleftrightarrow> table_inv tab
     \<and> (\<forall>i \<in> set (sec_list f). str_bytes (sec_name (secs f ! i)) \<in> set (texts tab))
     \<and> (\<forall>h \<in> set (live_syms f). \<exists>name. sym_name (syms f ! h) = Some name \<and> str_bytes name \<in> set (texts tab))"

definition elf_ready :: "owl_string_table \<Rightarrow> owl_file \<Rightarrow> bool" where
  "elf_ready tab f \<longleftrightarrow> indices_ok f \<and> counts_live f \<and> names_in tab f \<and> length (syms f) < 2 ^ 32 - 1
     \<and> (\<forall>i \<in> set (sec_list f). section_ready f (secs f ! i))
     \<and> (\<forall>h \<in> set (live_syms f). \<forall>i. sym_section (syms f ! h) = Some i \<longrightarrow> i \<in> set (sec_list f))"

section \<open>Folding with failure\<close>

lemma fold_opt_append: "fold_opt step (xs @ ys) s = Option.bind (fold_opt step xs s) (fold_opt step ys)"
  by (induction xs arbitrary: s) (auto split: Option.bind_splits)

section \<open>Names\<close>

lemma texts_extend:
  assumes "table_inv tab" and "OWLStringText tab h = Some x" and "texts tab' = texts tab @ ys"
  shows "OWLStringText tab' h = Some x"
proof -
  have h: "h < length (pat_nodes tab)" "pat_text (pat_nodes tab ! h) = x" using assms(2) by (auto simp: OWLStringText_def byte_simps)
  have "h < length (pat_nodes tab')" using h(1) arg_cong [OF assms(3), of length] by simp
  moreover have "pat_text (pat_nodes tab' ! h) = x"
    using h calculation arg_cong [OF assms(3), of "\<lambda>xs. xs ! h"] by (simp add: nth_append)
  ultimately show ?thesis by (simp add: OWLStringText_def)
qed

lemma OWLStringAdd_grows:
  assumes "table_inv tab" and "seven_bit_start s" and "after \<noteq> []"
  obtains h tab' ys where "OWLStringAdd tab s after = Some (h, tab')" and "table_inv tab'" and "OWLStringText tab' h = Some s"
    and "texts tab' = texts tab @ ys"
proof -
  obtain h tab' where a: "OWLStringAdd tab s after = Some (h, tab')" "table_inv tab'" "intern (texts tab) s = (h, texts tab')"
    using OWLStringAdd_intern [OF assms] by blast
  then obtain ys where p: "h < length (texts tab')" "texts tab' ! h = s" "texts tab' = texts tab @ ys" using intern_props by blast
  from p(1,2) have "OWLStringText tab' h = Some s" by (simp add: OWLStringText_def)
  then show thesis using a p(3) that by blast
qed

text \<open>After the emission every text of the table has its place in the bytes written.\<close>

definition text_at :: "bytes \<Rightarrow> nat \<Rightarrow> bytes \<Rightarrow> bool" where
  "text_at buf ofs s \<longleftrightarrow> take (length s + 1) (drop ofs buf) = s @ [0]"

definition emitted :: "elf_state \<Rightarrow> bool" where
  "emitted st \<longleftrightarrow> (\<forall>h s. OWLStringText (strs st) h = Some s \<longrightarrow>
     (\<exists>ofs. OWLStringOffset (strs st) h = Some ofs \<and> text_at (strtab_buf st) ofs s))"

lemma name_offset_found:
  assumes "emitted st" and "str_bytes name \<in> set (texts (strs st))"
  shows "\<exists>ofs. name_offset st name = Some ofs \<and> text_at (strtab_buf st) ofs (str_bytes name)"
proof -
  obtain k where k: "k < length (pat_nodes (strs st))" "OWLStringText (strs st) k = Some (str_bytes name)"
    using assms(2) by (auto simp: in_set_conv_nth OWLStringText_def)
  then obtain h where "handle_of (strs st) name = Some h"
    by (cases "handle_of (strs st) name") (auto simp: handle_of_def find_None_iff)
  moreover from this have "OWLStringText (strs st) h = Some (str_bytes name)"
    by (auto simp: handle_of_def find_Some_iff)
  ultimately show ?thesis using assms(1) by (auto simp: emitted_def name_offset_def)
qed

lemma c_string_append: "c_string (a @ b) \<longleftrightarrow> c_string a \<and> c_string b"
  by (auto simp: c_string_def)

lemma str_bytes_append: "str_bytes (a @ b) = str_bytes a @ str_bytes b"
  by (simp add: str_bytes_def)

lemma reloc_name_ok:
  assumes "c_string (str_bytes name)"
  shows "seven_bit_start (str_bytes (reloc_prefix st @ name))"
  using assms
  by (simp add: seven_bit_start_def c_string_append str_bytes_append reloc_prefix_def)
    (simp add: str_bytes_def c_string_def str_bit_def)

lemma names_c_string: "table_inv tab \<Longrightarrow> s \<in> set (texts tab) \<Longrightarrow> c_string s"
  by (auto simp: table_inv_def list_all_iff)

section \<open>Preparation\<close>

definition has_relocs :: "owl_file \<Rightarrow> nat \<Rightarrow> bool" where
  "has_relocs f i \<longleftrightarrow> sec_relocs (secs f ! i) \<noteq> []"

text \<open>What stays of a state while the sections are prepared.\<close>

definition prep_frame :: "elf_state \<Rightarrow> elf_state \<Rightarrow> bool" where
  "prep_frame st st' \<longleftrightarrow> ef st' = (ef st)\<lparr>next_index := next_index (ef st')\<rparr> \<and> out st' = out st \<and> sym_index st' = sym_index st"

lemma prepare_relocs:
  assumes "table_inv (strs st)" and "after \<noteq> []" and "distinct xs"
    and "\<forall>i \<in> set xs. i < length (secs (ef st)) \<and> c_string (str_bytes (sec_name (secs (ef st) ! i)))
           \<and> (has_relocs (ef st) i \<longrightarrow> length (sec_name (secs (ef st) ! i)) \<le> 127)"
  shows "\<exists>st' ys. fold_opt (prep_reloc_section after) xs st = Some st' \<and> prep_frame st st'
    \<and> next_index (ef st') = next_index (ef st) + length (filter (has_relocs (ef st)) xs)
    \<and> table_inv (strs st') \<and> texts (strs st') = texts (strs st) @ ys
    \<and> (\<forall>i. i \<notin> set xs \<longrightarrow> relocs_index st' i = relocs_index st i \<and> relocs_name st' i = relocs_name st i)
    \<and> (\<forall>j < length (filter (has_relocs (ef st)) xs). let i = filter (has_relocs (ef st)) xs ! j in
         relocs_index st' i = Some (next_index (ef st) + j)
         \<and> (\<exists>h. relocs_name st' i = Some h \<and> OWLStringText (strs st') h = Some (str_bytes (reloc_prefix st @ sec_name (secs (ef st) ! i)))))"
  using assms
proof (induction xs arbitrary: st)
  case Nil
  then show ?case by (simp add: prep_frame_def)
next
  case (Cons i xs)
  define st0 where "st0 = st\<lparr>pad_amount := (pad_amount st)(i \<mapsto> 0)\<rparr>"
  have st0: "ef st0 = ef st" "strs st0 = strs st" "relocs_index st0 = relocs_index st" "relocs_name st0 = relocs_name st"
      "out st0 = out st" "sym_index st0 = sym_index st" "reloc_prefix st0 = reloc_prefix st"
    by (simp_all add: st0_def reloc_prefix_def use_rela_def)
  show ?case
  proof (cases "has_relocs (ef st) i")
    case False
    then have step: "prep_reloc_section after i st = Some st0"
      using Cons.prems(4) by (simp add: prep_reloc_section_def st0_def has_relocs_def Let_def)
    obtain st' ys where "fold_opt (prep_reloc_section after) xs st0 = Some st'" "prep_frame st0 st'"
      "next_index (ef st') = next_index (ef st) + length (filter (has_relocs (ef st)) xs)"
      "table_inv (strs st')" "texts (strs st') = texts (strs st) @ ys"
      "\<forall>k. k \<notin> set xs \<longrightarrow> relocs_index st' k = relocs_index st k \<and> relocs_name st' k = relocs_name st k"
      "\<forall>j < length (filter (has_relocs (ef st)) xs). let i = filter (has_relocs (ef st)) xs ! j in
         relocs_index st' i = Some (next_index (ef st) + j)
         \<and> (\<exists>h. relocs_name st' i = Some h \<and> OWLStringText (strs st') h = Some (str_bytes (reloc_prefix st @ sec_name (secs (ef st) ! i))))"
      using Cons.IH [of st0] Cons.prems st0 by auto
    then show ?thesis using step False st0 by (auto simp: prep_frame_def)
  next
    case True
    have i: "i < length (secs (ef st))" "c_string (str_bytes (sec_name (secs (ef st) ! i)))" "length (sec_name (secs (ef st) ! i)) \<le> 127"
      using Cons.prems(4) True by auto
    obtain h tab ys0 where a: "OWLStringAdd (strs st) (str_bytes (reloc_prefix st @ sec_name (secs (ef st) ! i))) after = Some (h, tab)"
        "table_inv tab" "OWLStringText tab h = Some (str_bytes (reloc_prefix st @ sec_name (secs (ef st) ! i)))" "texts tab = texts (strs st) @ ys0"
      using OWLStringAdd_grows [OF Cons.prems(1) reloc_name_ok [OF i(2)] Cons.prems(2)] by blast
    define st1 where "st1 = st0\<lparr>strs := tab, relocs_name := (relocs_name st)(i \<mapsto> h),
      relocs_index := (relocs_index st)(i \<mapsto> next_index (ef st)), ef := (ef st)\<lparr>next_index := next_index (ef st) + 1\<rparr>\<rparr>"
    have len: "length (reloc_prefix st) \<le> 5" by (simp add: reloc_prefix_def)
    have step: "prep_reloc_section after i st = Some st1"
      using True i a(1) len by (simp add: prep_reloc_section_def st0_def [symmetric] st0 has_relocs_def Let_def MAX_SECTION_NAME_def st1_def)
    have same: "has_relocs (ef st1) = has_relocs (ef st)" "reloc_prefix st1 = reloc_prefix st" "secs (ef st1) = secs (ef st)"
        "next_index (ef st1) = next_index (ef st) + 1" "strs st1 = tab"
      by (simp_all add: st1_def has_relocs_def fun_eq_iff reloc_prefix_def use_rela_def)
    obtain st' ys where r: "fold_opt (prep_reloc_section after) xs st1 = Some st'" "prep_frame st1 st'"
      "next_index (ef st') = next_index (ef st) + 1 + length (filter (has_relocs (ef st)) xs)"
      "table_inv (strs st')" "texts (strs st') = texts tab @ ys"
      "\<forall>k. k \<notin> set xs \<longrightarrow> relocs_index st' k = relocs_index st1 k \<and> relocs_name st' k = relocs_name st1 k"
      "\<forall>j < length (filter (has_relocs (ef st)) xs). let i = filter (has_relocs (ef st)) xs ! j in
         relocs_index st' i = Some (next_index (ef st) + 1 + j)
         \<and> (\<exists>h. relocs_name st' i = Some h \<and> OWLStringText (strs st') h = Some (str_bytes (reloc_prefix st @ sec_name (secs (ef st) ! i))))"
      using Cons.IH [of st1] Cons.prems same a(2) by auto
    have "i \<notin> set xs" using Cons.prems(3) by simp
    then have here: "relocs_index st' i = Some (next_index (ef st))" "relocs_name st' i = Some h"
      using r(6) by (simp_all add: st1_def)
    have "OWLStringText (strs st') h = Some (str_bytes (reloc_prefix st @ sec_name (secs (ef st) ! i)))"
      using texts_extend [OF a(2,3) r(5)] .
    moreover have "prep_frame st st'" using r(2) by (simp add: prep_frame_def st1_def st0_def)
    moreover have "\<forall>k. k \<notin> set (i # xs) \<longrightarrow> relocs_index st' k = relocs_index st k \<and> relocs_name st' k = relocs_name st k"
      using r(6) by (simp add: st1_def)
    moreover have "\<exists>zs. texts (strs st') = texts (strs st) @ zs" using r(5) a(4) by simp
    ultimately show ?thesis using step r(1,3,4,7) here True
      by (auto simp: nth_Cons Let_def split: nat.split)
  qed
qed

lemma add_special:
  assumes "table_inv (strs st)" and "after \<noteq> []"
  shows "\<exists>tab h k ys. addSpecialStrings after st = Some (st\<lparr>strs := tab, strtab_name := h, symtab_name := k\<rparr>)
    \<and> table_inv tab \<and> texts tab = texts (strs st) @ ys
    \<and> OWLStringText tab h = Some (str_bytes ''.strtab'') \<and> OWLStringText tab k = Some (str_bytes ''.symtab'')"
proof -
  have "seven_bit_start (str_bytes ''.strtab'')" "seven_bit_start (str_bytes ''.symtab'')"
    by (simp_all add: seven_bit_start_def str_bytes_def c_string_def str_bit_def)
  note ok = this
  obtain h tab ys where a: "OWLStringAdd (strs st) (str_bytes ''.strtab'') after = Some (h, tab)" "table_inv tab"
      "OWLStringText tab h = Some (str_bytes ''.strtab'')" "texts tab = texts (strs st) @ ys"
    using OWLStringAdd_grows [OF assms(1) ok(1) assms(2)] by blast
  obtain k tab' zs where b: "OWLStringAdd tab (str_bytes ''.symtab'') after = Some (k, tab')" "table_inv tab'"
      "OWLStringText tab' k = Some (str_bytes ''.symtab'')" "texts tab' = texts tab @ zs"
    using OWLStringAdd_grows [OF a(2) ok(2) assms(2)] by blast
  have "OWLStringText tab' h = Some (str_bytes ''.strtab'')" using texts_extend [OF a(2,3) b(4)] .
  then show ?thesis using a(1,4) b by (auto simp: addSpecialStrings_def)
qed

lemma prepare_strings:
  assumes "table_inv (strs st)"
  shows "\<exists>tab buf. prepareStringTable st = Some (st\<lparr>strs := tab, strtab_buf := buf\<rparr>)
    \<and> pat_nodes tab = pat_nodes (strs st) \<and> emitted (st\<lparr>strs := tab, strtab_buf := buf\<rparr>)"
proof -
  obtain tab buf where e: "OWLStringEmit (strs st) = Some (tab, buf)" "length buf = OWLStringTableSize (strs st)"
      "pat_nodes tab = pat_nodes (strs st)"
      "\<forall>h s. OWLStringText (strs st) h = Some s \<longrightarrow>
         (\<exists>ofs. OWLStringOffset tab h = Some ofs \<and> take (length s + 1) (drop ofs buf) = s @ [0])"
    using OWLStringEmit_ok [OF assms] by blast
  moreover have same: "OWLStringText tab h = OWLStringText (strs st) h" for h using e(3) by (simp add: OWLStringText_def)
  have "emitted (st\<lparr>strs := tab, strtab_buf := buf\<rparr>)" using e(4) by (simp add: emitted_def text_at_def same)
  moreover have "prepareStringTable st = Some (st\<lparr>strs := tab, strtab_buf := buf\<rparr>)" using e(1,2) by (simp add: prepareStringTable_def)
  ultimately show ?thesis using e(3) by blast
qed

section \<open>The symbol table\<close>

definition live_local :: "owl_file \<Rightarrow> nat \<Rightarrow> bool" where
  "live_local f h \<longleftrightarrow> \<not> sym_dead (syms f ! h) \<and> is_local (syms f ! h)"

definition live_global :: "owl_file \<Rightarrow> nat \<Rightarrow> bool" where
  "live_global f h \<longleftrightarrow> \<not> sym_dead (syms f ! h) \<and> \<not> is_local (syms f ! h)"

definition before :: "(nat \<Rightarrow> bool) \<Rightarrow> nat \<Rightarrow> nat" where
  "before P h = length (filter P [0..<h])"

text \<open>The number of a symbol: locals upwards from 1, globals downwards from the last.\<close>

definition sym_no :: "owl_file \<Rightarrow> nat \<Rightarrow> nat" where
  "sym_no f h = (if is_local (syms f ! h) then 1 + before (live_local f) h else length (live_syms f) - before (live_global f) h)"

lemma before_Suc: "before P (Suc h) = before P h + (if P h then 1 else 0)"
  by (simp add: before_def)

lemma before_0 [simp]: "before P 0 = 0"
  by (simp add: before_def)

lemma before_mono: "h \<le> k \<Longrightarrow> before P h \<le> before P k"
  by (induction k) (auto simp: before_Suc le_Suc_eq)

lemma before_less: "h < k \<Longrightarrow> P h \<Longrightarrow> before P h < before P k"
  using before_mono [of "Suc h" k P] by (simp add: before_Suc)

lemma live_lengths:
  "length (live_locals f) = before (live_local f) (length (syms f))"
  "length (live_globals f) = before (live_global f) (length (syms f))"
  "length (live_syms f) = before (live_local f) (length (syms f)) + before (live_global f) (length (syms f))"
proof -
  have eqs: "live_local f = (\<lambda>h. \<not> sym_dead (syms f ! h) \<and> is_local (syms f ! h))"
    "live_global f = (\<lambda>h. \<not> sym_dead (syms f ! h) \<and> \<not> is_local (syms f ! h))"
    by (simp_all add: fun_eq_iff live_local_def live_global_def)
  have "length (filter P (filter Q xs)) + length (filter (\<lambda>h. \<not> P h) (filter Q xs)) = length (filter Q xs)" for P Q and xs :: "nat list"
    by (induction xs) auto
  from this [of "\<lambda>h. is_local (syms f ! h)" "\<lambda>h. \<not> sym_dead (syms f ! h)" "[0..<length (syms f)]"]
  show "length (live_locals f) = before (live_local f) (length (syms f))"
    "length (live_globals f) = before (live_global f) (length (syms f))"
    "length (live_syms f) = before (live_local f) (length (syms f)) + before (live_global f) (length (syms f))"
    unfolding live_locals_def live_globals_def live_syms_def before_def eqs by (simp_all add: conj_commute)
qed

lemma sym_no_range:
  assumes "h \<in> set (live_syms f)"
  shows "1 \<le> sym_no f h \<and> sym_no f h \<le> length (live_syms f)
    \<and> (is_local (syms f ! h) \<longleftrightarrow> sym_no f h \<le> length (live_locals f))"
proof -
  have h: "h < length (syms f)" "\<not> sym_dead (syms f ! h)" using assms by (auto simp: live_syms_def)
  show ?thesis
  proof (cases "is_local (syms f ! h)")
    case True
    then show ?thesis using h before_less [OF h(1), of "live_local f"] by (simp add: sym_no_def live_lengths live_local_def)
  next
    case False
    then have "before (live_global f) h < before (live_global f) (length (syms f))"
      using h by (intro before_less) (simp_all add: live_global_def)
    then show ?thesis using False unfolding sym_no_def live_lengths by simp linarith
  qed
qed

lemma sym_no_inj:
  assumes "h \<in> set (live_syms f)" and "k \<in> set (live_syms f)" and "sym_no f h = sym_no f k"
  shows "h = k"
proof -
  have l: "is_local (syms f ! h) = is_local (syms f ! k)" using sym_no_range assms by metis
  have hk: "h < length (syms f)" "\<not> sym_dead (syms f ! h)" "k < length (syms f)" "\<not> sym_dead (syms f ! k)"
    using assms by (auto simp: live_syms_def)
  have gh: "before (live_global f) x \<le> length (live_syms f)" if "x < length (syms f)" for x
    using before_mono [of x "length (syms f)" "live_global f"] that by (simp add: live_lengths)
  show ?thesis
  proof (rule ccontr)
    assume "h \<noteq> k"
    then consider "h < k" | "k < h" by linarith
    then show False
      using assms(3) hk l before_less [of h k "live_local f"] before_less [of h k "live_global f"]
        before_less [of k h "live_local f"] before_less [of k h "live_global f"] gh [of h] gh [of k]
      by cases (auto simp: sym_no_def live_local_def live_global_def split: if_splits)
  qed
qed

lemma sym_no_onto:
  assumes "1 \<le> p" and "p \<le> length (live_syms f)"
  shows "\<exists>h \<in> set (live_syms f). sym_no f h = p"
proof -
  have inj: "inj_on (sym_no f) (set (live_syms f))" by (rule inj_onI) (rule sym_no_inj)
  have dist: "distinct (live_syms f)" by (simp add: live_syms_def)
  have "sym_no f ` set (live_syms f) \<subseteq> {1..length (live_syms f)}" using sym_no_range by auto
  moreover have "card (sym_no f ` set (live_syms f)) = card {1..length (live_syms f)}"
    using card_image [OF inj] distinct_card [OF dist] by simp
  ultimately have "sym_no f ` set (live_syms f) = {1..length (live_syms f)}" by (intro card_subset_eq) auto
  then have "p \<in> sym_no f ` set (live_syms f)" using assms by simp
  then show ?thesis by blast
qed

definition sym_entry :: "elf_state \<Rightarrow> nat \<Rightarrow> elf_sym" where
  "sym_entry st h = the (emitElfSymbol st (syms (ef st) ! h))"

text \<open>The loop has numbered the symbols below \<open>k\<close>.\<close>

definition sym_progress :: "elf_state \<Rightarrow> nat \<Rightarrow> sym_loop \<Rightarrow> bool" where
  "sym_progress st k x \<longleftrightarrow> (case x of (nl, ng, idx, tab) \<Rightarrow>
     nl = word_of_nat (1 + before (live_local (ef st)) k)
     \<and> ng = word_of_nat (length (live_syms (ef st)) - before (live_global (ef st)) k)
     \<and> length tab = length (live_syms (ef st)) + 1 \<and> tab ! 0 = Some bogus_sym
     \<and> (\<forall>h < k. \<not> sym_dead (syms (ef st) ! h) \<longrightarrow>
          idx h = word_of_nat (sym_no (ef st) h) \<and> tab ! sym_no (ef st) h = Some (sym_entry st h)))"

lemma unat_small32: "n < 2 ^ 32 \<Longrightarrow> unat (word_of_nat n :: u32) = n"
  by (simp add: unat_of_nat)

lemma sym_step_progress:
  assumes p: "sym_progress st k x" and k: "k < length (syms (ef st))" and small: "length (syms (ef st)) < 2 ^ 32 - 1"
    and e: "\<not> sym_dead (syms (ef st) ! k) \<Longrightarrow> emitElfSymbol st (syms (ef st) ! k) = Some (sym_entry st k)"
  shows "\<exists>x'. sym_step st k x = Some x' \<and> sym_progress st (Suc k) x'"
proof -
  obtain nl ng idx tab where x: "x = (nl, ng, idx, tab)" by (cases x)
  define f where "f = ef st"
  show ?thesis
  proof (cases "sym_dead (syms f ! k)")
    case True
    then have "sym_step st k x = Some x" "\<not> live_local f k" "\<not> live_global f k"
      using k by (simp_all add: sym_step_def x f_def live_local_def live_global_def)
    then show ?thesis using p True
      by (auto simp: sym_progress_def x before_Suc f_def [symmetric] less_Suc_eq)
  next
    case False
    define n where "n = sym_no f k"
    have live: "k \<in> set (live_syms f)" using k False by (simp add: live_syms_def f_def)
    have r: "1 \<le> n" "n \<le> length (live_syms f)" using sym_no_range [OF live] by (simp_all add: n_def)
    have le: "length (live_syms f) \<le> length (syms f)"
      using length_filter_le [of "\<lambda>h. \<not> sym_dead (syms f ! h)" "[0..<length (syms f)]"] by (simp add: live_syms_def)
    have small': "length (syms f) < 2 ^ 32 - 1" using small by (simp add: f_def)
    have num: "word_of_nat n = (if is_local (syms f ! k) then nl else ng)"
      using p False by (simp add: sym_progress_def x n_def sym_no_def f_def)
    have un: "unat (word_of_nat n :: u32) = n" using r(2) le small' by (intro unat_small32) linarith
    have len: "length tab = length (live_syms f) + 1" using p by (simp add: sym_progress_def x f_def)
    define x' where "x' = (if is_local (syms f ! k) then nl + 1 else nl, if is_local (syms f ! k) then ng else ng - 1,
      idx(k := word_of_nat n), tab[n := Some (sym_entry st k)])"
    have loc: "linkage_global (sym_linkage (syms f ! k)) \<longleftrightarrow> \<not> is_local (syms f ! k)" by (simp add: is_local_def)
    have step: "sym_step st k x = Some x'"
    proof (cases "is_local (syms f ! k)")
      case True
      then have "nl = word_of_nat n" "unat nl = n" using num un by simp_all
      then show ?thesis using True False e k len r(2) by (simp add: sym_step_def x f_def [symmetric] x'_def loc)
    next
      case l: False
      then have "ng = word_of_nat n" "unat ng = n" using num un by simp_all
      then show ?thesis using l False e k len r(2) by (simp add: sym_step_def x f_def [symmetric] x'_def loc)
    qed
    have other: "sym_no f h \<noteq> n" if "h < k" "\<not> sym_dead (syms f ! h)" for h
      using sym_no_inj [of h f k] live that k by (auto simp: n_def live_syms_def f_def)
    have ngl: "before (live_global f) k < length (live_syms f)" if "live_global f k"
      using that r by (auto simp: n_def sym_no_def live_global_def)
    have ng': "(word_of_nat (length (live_syms f) - before (live_global f) k) :: u32) - 1
        = word_of_nat (length (live_syms f) - Suc (before (live_global f) k))" if "live_global f k"
    proof -
      have "length (live_syms f) - before (live_global f) k = Suc (length (live_syms f) - Suc (before (live_global f) k))"
        using ngl [OF that] by simp
      then show ?thesis by simp
    qed
    have kinds: "live_local f k = is_local (syms f ! k)" "live_global f k = (\<not> is_local (syms f ! k))"
      using False by (simp_all add: live_local_def live_global_def)
    have upd: "tab[n := Some (sym_entry st k)] ! sym_no f h = tab ! sym_no f h" if "h < k" "\<not> sym_dead (syms f ! h)" for h
      using other [OF that] by simp
    have new: "tab[n := Some (sym_entry st k)] ! n = Some (sym_entry st k)" using r len by simp
    have "sym_progress st (Suc k) x'"
      using p ng' kinds r len
      by (auto simp: sym_progress_def x x'_def before_Suc f_def [symmetric] less_Suc_eq n_def [symmetric] upd new)
    then show ?thesis using step by blast
  qed
qed

lemma sym_loop_all:
  assumes start: "sym_progress st 0 x" and small: "length (syms (ef st)) < 2 ^ 32 - 1" and "k \<le> length (syms (ef st))"
    and e: "\<And>h. h \<in> set (live_syms (ef st)) \<Longrightarrow> emitElfSymbol st (syms (ef st) ! h) = Some (sym_entry st h)"
  shows "\<exists>x'. fold_opt (sym_step st) [0..<k] x = Some x' \<and> sym_progress st k x'"
  using assms(3)
proof (induction k)
  case (Suc k)
  then obtain x1 where "fold_opt (sym_step st) [0..<k] x = Some x1" "sym_progress st k x1" by auto
  moreover obtain x2 where "sym_step st k x1 = Some x2" "sym_progress st (Suc k) x2"
    using sym_step_progress [OF calculation(2) _ small] e [of k] Suc.prems by (auto simp: live_syms_def)
  ultimately show ?case by (simp add: fold_opt_append)
qed (use start in simp)

lemma concat_chunk:
  assumes "\<forall>x \<in> set xs. length x = n" and "k < length xs"
  shows "take n (drop (n * k) (concat xs)) = xs ! k"
  using assms
proof (induction xs arbitrary: k)
  case (Cons x xs)
  then show ?case by (cases k) simp_all
qed simp

lemma length_concat_chunks: "\<forall>x \<in> set xs. length x = n \<Longrightarrow> length (concat xs) = n * length xs"
  by (induction xs) auto

locale elf_layout =
  fixes c :: elf_class
  assumes sym_law: "length (put_sym c s) = sym_size c"
    and rel_law: "length (put_rel c r) = rel_size c"
    and rela_law: "rela_size c = rel_size c + word_size c"
    and shdr_law: "shdr_size c = 16 + 6 * word_size c"
    and ehdr_law: "ehdr_size c = 40 + 3 * word_size c"
begin

lemma length_put_shdr: "length (put_shdr c h) = shdr_size c"
  by (simp add: put_shdr_def shdr_law le_int_def)

lemma length_put_ehdr: "length (put_ehdr c h) = ehdr_size c"
  by (simp add: put_ehdr_def ehdr_law)

lemma length_put_rela: "length (put_rela c r) = rela_size c"
  by (simp add: put_rela_def rel_law rela_law le_int_def)

lemma prepare_symbols:
  assumes counts: "counts_live (ef st)" and small: "length (syms (ef st)) < 2 ^ 32 - 1"
    and e: "\<And>h. h \<in> set (live_syms (ef st)) \<Longrightarrow> emitElfSymbol st (syms (ef st) ! h) = Some (sym_entry st h)"
  shows "\<exists>idx es. prepareSymbolTable c st = Some (st\<lparr>sym_index := idx, symtab_buf := concat (map (put_sym c) es)\<rparr>)
    \<and> length es = length (live_syms (ef st)) + 1
    \<and> (\<forall>h \<in> set (live_syms (ef st)). unat (idx h) = sym_no (ef st) h \<and> es ! sym_no (ef st) h = sym_entry st h)"
proof -
  define f N where "f = ef st" and "N = length (live_syms f)"
  have le: "N \<le> length (syms f)"
    using length_filter_le [of "\<lambda>h. \<not> sym_dead (syms f ! h)" "[0..<length (syms f)]"] by (simp add: live_syms_def N_def)
  have N: "N < 2 ^ 32 - 1" using le small by (simp add: f_def)
  have gl: "num_global_symbols f + num_local_symbols f = word_of_nat N"
  proof -
    have "num_local_symbols f + num_global_symbols f = word_of_nat N" using counts unfolding counts_live_def f_def N_def by (rule conjunct2)
    then show ?thesis by (simp only: add.commute)
  qed
  have num: "numSymbols st = N" using gl N by (simp add: numSymbols_def f_def unat_small32)
  define x where "x = (1 :: u32, word_of_nat N :: u32, sym_index st, (replicate (N + 1) None)[0 := Some bogus_sym])"
  have start: "sym_progress st 0 x" by (simp add: sym_progress_def x_def f_def [symmetric] N_def)
  obtain nl ng idx tab where run: "fold_opt (sym_step st) [0..<length (syms f)] x = Some (nl, ng, idx, tab)"
      and p: "sym_progress st (length (syms f)) (nl, ng, idx, tab)"
    using sym_loop_all [OF start small le_refl e] by (auto simp: f_def)
  have L: "before (live_local f) (length (syms f)) + before (live_global f) (length (syms f)) = N"
    using live_lengths(3) [of f] by (simp add: N_def)
  have "nl = word_of_nat (1 + before (live_local f) (length (syms f)))"
      "ng = word_of_nat (N - before (live_global f) (length (syms f)))"
    using p by (simp_all add: sym_progress_def f_def N_def)
  moreover have "N - before (live_global f) (length (syms f)) = before (live_local f) (length (syms f))" using L by simp
  moreover have "num_local_symbols f = word_of_nat (before (live_local f) (length (syms f)))"
    using counts live_lengths(1) [of f] by (simp add: counts_live_def f_def)
  ultimately have nl: "nl = num_local_symbols f + 1" "ng + 1 = nl" by simp_all
  have at: "idx h = word_of_nat (sym_no f h) \<and> tab ! sym_no f h = Some (sym_entry st h)" if "h \<in> set (live_syms f)" for h
    using that p by (auto simp: sym_progress_def f_def live_syms_def)
  define es where "es = map (\<lambda>p. the (tab ! p)) [0..<length tab]"
  have "tab ! q = Some (the (tab ! q))" if "q < length tab" for q
  proof (cases "q = 0")
    case True
    then show ?thesis using p by (simp add: sym_progress_def)
  next
    case False
    have "q \<le> length (live_syms f)" using that p by (simp add: sym_progress_def f_def)
    then obtain h where "h \<in> set (live_syms f)" "sym_no f h = q"
      using False sym_no_onto [of q f] by auto
    then show ?thesis using at by auto
  qed
  then have all: "all_some tab = Some es" unfolding es_def by (intro all_some_nth) blast
  have "prepareSymbolTable c st = Some (st\<lparr>sym_index := idx, symtab_buf := concat (map (put_sym c) es)\<rparr>)"
    using run nl all by (simp add: prepareSymbolTable_def num f_def [symmetric] gl x_def)
  moreover have "length es = N + 1" using p by (simp add: es_def sym_progress_def f_def N_def)
  moreover have "unat (idx h) = sym_no f h \<and> es ! sym_no f h = sym_entry st h" if "h \<in> set (live_syms f)" for h
  proof -
    have r: "sym_no f h \<le> N" using sym_no_range [OF that] by (simp add: N_def)
    then have "unat (word_of_nat (sym_no f h) :: u32) = sym_no f h" using N by (intro unat_small32) linarith
    moreover have "es ! sym_no f h = the (tab ! sym_no f h)"
      using r \<open>length es = N + 1\<close> by (simp add: es_def del: upt_Suc)
    ultimately show ?thesis using at [OF that] by simp
  qed
  ultimately show ?thesis by (auto simp: f_def N_def)
qed

end

section \<open>The layout of the sections\<close>

definition sec_pad :: "owl_file \<Rightarrow> nat \<Rightarrow> nat" where
  "sec_pad f i = sectionPadding (secs f ! i) (unat (sec_size (secs f ! i)))"

definition data_len :: "owl_file \<Rightarrow> nat \<Rightarrow> nat" where
  "data_len f i = (if section_bss (secs f ! i) then 0 else unat (sec_size (secs f ! i)) + sec_pad f i)"

definition rels_len :: "nat \<Rightarrow> owl_file \<Rightarrow> nat \<Rightarrow> nat" where
  "rels_len entry f i = entry * length (sec_relocs (secs f ! i))"

definition total_len :: "nat \<Rightarrow> owl_file \<Rightarrow> nat list \<Rightarrow> nat" where
  "total_len entry f xs = sum_list (map (\<lambda>i. data_len f i + rels_len entry f i) xs)"

text \<open>The headers of a section placed at \<open>ofs\<close>.\<close>

definition sec_header :: "elf_state \<Rightarrow> nat \<Rightarrow> nat \<Rightarrow> elf_shdr" where
  "sec_header st i ofs =
    (let s = secs (ef st) ! i
     in shdr_zero\<lparr>sh_type := sectionTypes (sec_type s), sh_flags := sectionFlags (sec_type s), sh_name := the (name_offset st (sec_name s)),
          sh_addralign := unat (sec_align s), sh_size := int (unat (sec_size s) + sec_pad (ef st) i),
          sh_offset := if section_bss s then 0 else ofs\<rparr>)"

definition rel_header :: "elf_class \<Rightarrow> elf_state \<Rightarrow> nat \<Rightarrow> nat \<Rightarrow> elf_shdr" where
  "rel_header c st i ofs =
    (let s = secs (ef st) ! i
     in shdr_zero\<lparr>sh_type := (if use_rela st then 4 else 9), sh_flags := sectionFlags (sec_type s) AND 2,
          sh_name := the (OWLStringOffset (strs st) (the (relocs_name st i))),
          sh_link := ELF_SYMBOL_INDEX, sh_info := OWLIndexToELFIndex (sec_index s), sh_size := int (rels_len (reloc_entry_size c st) (ef st) i),
          sh_entsize := reloc_entry_size c st, sh_addralign := tab_align c, sh_offset := ofs\<rparr>)"

definition header_slots :: "elf_state \<Rightarrow> nat \<Rightarrow> nat list" where
  "header_slots st i = OWLIndexToELFIndex (sec_index (secs (ef st) ! i))
     # (if has_relocs (ef st) i then [OWLIndexToELFIndex (the (relocs_index st i))] else [])"

text \<open>A state differs from another in what the headers write: where the next section is and the padding.\<close>

definition header_frame :: "elf_state \<Rightarrow> elf_state \<Rightarrow> bool" where
  "header_frame st st' \<longleftrightarrow> (\<exists>n p. st' = st\<lparr>next_sect := n, pad_amount := p\<rparr>)"

lemma header_frame_upd: "header_frame st (st\<lparr>pad_amount := p, next_sect := n\<rparr>)"
  unfolding header_frame_def by (intro exI [of _ n] exI [of _ p]) (cases st, simp)

lemma header_frame_next: "header_frame st st' \<Longrightarrow> header_frame st (st'\<lparr>next_sect := n\<rparr>)"
proof -
  assume "header_frame st st'"
  then obtain m p where "st' = st\<lparr>next_sect := m, pad_amount := p\<rparr>" unfolding header_frame_def by blast
  then have "st'\<lparr>next_sect := n\<rparr> = st\<lparr>next_sect := n, pad_amount := p\<rparr>" by (cases st) simp
  then show ?thesis unfolding header_frame_def by blast
qed

lemma header_frame_refl: "header_frame st st"
  unfolding header_frame_def by (intro exI [of _ "next_sect st"] exI [of _ "pad_amount st"]) (cases st, simp)

lemma header_frame_trans: "header_frame s1 s2 \<Longrightarrow> header_frame s2 s3 \<Longrightarrow> header_frame s1 s3"
proof -
  assume "header_frame s1 s2" "header_frame s2 s3"
  then obtain m p n q where "s2 = s1\<lparr>next_sect := m, pad_amount := p\<rparr>" "s3 = s2\<lparr>next_sect := n, pad_amount := q\<rparr>"
    unfolding header_frame_def by blast
  then have "s3 = s1\<lparr>next_sect := n, pad_amount := q\<rparr>" by (cases s1) simp
  then show ?thesis unfolding header_frame_def by blast
qed

lemma header_frame_same:
  assumes "header_frame st st'"
  shows "ef st' = ef st" "strs st' = strs st" "relocs_index st' = relocs_index st" "relocs_name st' = relocs_name st"
    "sym_index st' = sym_index st" "strtab_buf st' = strtab_buf st" "symtab_buf st' = symtab_buf st" "out st' = out st"
    "use_rela st' = use_rela st" "reloc_entry_size c st' = reloc_entry_size c st" "header_slots st' = header_slots st"
    "sec_header st' = sec_header st" "rel_header c st' = rel_header c st" "name_offset st' = name_offset st"
proof -
  obtain n p where st': "st' = st\<lparr>next_sect := n, pad_amount := p\<rparr>" using assms by (auto simp: header_frame_def)
  show names: "name_offset st' = name_offset st" by (simp add: st' name_offset_def fun_eq_iff)
  show "ef st' = ef st" "strs st' = strs st" "relocs_index st' = relocs_index st" "relocs_name st' = relocs_name st"
    "sym_index st' = sym_index st" "strtab_buf st' = strtab_buf st" "symtab_buf st' = symtab_buf st" "out st' = out st"
    "use_rela st' = use_rela st" "reloc_entry_size c st' = reloc_entry_size c st" "header_slots st' = header_slots st"
    by (simp_all add: st' use_rela_def reloc_entry_size_def header_slots_def fun_eq_iff)
  show "sec_header st' = sec_header st" "rel_header c st' = rel_header c st"
    by (simp_all add: fun_eq_iff sec_header_def rel_header_def names Let_def)
      (simp_all add: st' use_rela_def reloc_entry_size_def)
qed

definition header_ok :: "nat \<Rightarrow> elf_state \<Rightarrow> nat \<Rightarrow> bool" where
  "header_ok n st i \<longleftrightarrow> i < length (secs (ef st)) \<and> name_offset st (sec_name (secs (ef st) ! i)) \<noteq> None
     \<and> section_ready (ef st) (secs (ef st) ! i) \<and> (\<forall>q \<in> set (header_slots st i). q < n)
     \<and> (has_relocs (ef st) i \<longrightarrow> relocs_index st i \<noteq> None
          \<and> (\<exists>h. relocs_name st i = Some h \<and> OWLStringOffset (strs st) h \<noteq> None))"

lemma header_ok_frame: "header_frame st st' \<Longrightarrow> header_ok n st' i = header_ok n st i"
  by (simp add: header_ok_def header_frame_same)

lemma rels_count: "section_ready f s \<Longrightarrow> unat (num_relocs s) = length (sec_relocs s)"
  by (simp add: section_ready_def unat_small32)

lemma user_header_run:
  assumes ok: "header_ok (length hs) st i"
  shows "\<exists>hs' st'. user_header c i (hs, st) = Some (hs', st') \<and> header_frame st st' \<and> length hs' = length hs
    \<and> next_sect st' = next_sect st + (data_len (ef st) i + rels_len (reloc_entry_size c st) (ef st) i)
    \<and> pad_amount st' = (pad_amount st)(i \<mapsto> sec_pad (ef st) i)
    \<and> (\<forall>q. q \<notin> set (header_slots st i) \<longrightarrow> hs' ! q = hs ! q)
    \<and> (distinct (header_slots st i) \<longrightarrow>
         hs' ! OWLIndexToELFIndex (sec_index (secs (ef st) ! i)) = Some (sec_header st i (next_sect st))
         \<and> (has_relocs (ef st) i \<longrightarrow> hs' ! OWLIndexToELFIndex (the (relocs_index st i))
              = Some (rel_header c st i (next_sect st + data_len (ef st) i))))"
proof -
  define f s where "f = ef st" and "s = secs f ! i"
  have i: "i < length (secs f)" and rdy: "section_ready f s" and slots: "\<forall>q \<in> set (header_slots st i). q < length hs"
    using ok by (simp_all add: header_ok_def f_def s_def)
  obtain ofs where name: "name_offset st (sec_name s) = Some ofs" using ok by (auto simp: header_ok_def f_def s_def)
  have align: "sectionAlignment s = Some (unat (sec_align s))" using rdy by (simp add: section_ready_def sectionAlignment_def)
  define st1 where "st1 = st\<lparr>pad_amount := (pad_amount st)(i \<mapsto> sec_pad f i), next_sect := next_sect st + data_len f i\<rparr>"
  have fr: "header_frame st st1" unfolding st1_def by (rule header_frame_upd)
  have h1: "doSectionHeader i st = Some (sec_header st i (next_sect st), st1)"
    using i name align
    by (simp add: doSectionHeader_def f_def [symmetric] s_def [symmetric] sec_header_def st1_def data_len_def sec_pad_def Let_def shdr_zero_def)
  define k0 where "k0 = OWLIndexToELFIndex (sec_index s)"
  have k0: "k0 < length hs" using slots by (simp add: header_slots_def k0_def s_def f_def)
  show ?thesis
  proof (cases "has_relocs f i")
    case False
    then have "user_header c i (hs, st) = Some (hs[k0 := Some (sec_header st i (next_sect st))], st1)"
      using i h1 k0 by (simp add: user_header_def f_def [symmetric] s_def [symmetric] put_header_def k0_def [symmetric] has_relocs_def)
    then show ?thesis using fr False k0
      by (auto simp: header_slots_def f_def [symmetric] s_def [symmetric] k0_def [symmetric] st1_def rels_len_def has_relocs_def)
  next
    case True
    obtain h k o2 where rn: "relocs_name st i = Some h" "relocs_index st i = Some k" "OWLStringOffset (strs st) h = Some o2"
      using ok True by (auto simp: header_ok_def f_def)
    define k1 where "k1 = OWLIndexToELFIndex k"
    have k1: "k1 < length hs" using slots True rn by (simp add: header_slots_def k1_def f_def)
    define st2 where "st2 = st1\<lparr>next_sect := next_sect st1 + rels_len (reloc_entry_size c st) f i\<rparr>"
    have st1: "ef st1 = f" "strs st1 = strs st" "relocs_name st1 = relocs_name st" "use_rela st1 = use_rela st"
        "relocs_index st1 = relocs_index st" "next_sect st1 = next_sect st + data_len f i"
      by (simp_all add: st1_def f_def use_rela_def)
    have count: "uint (num_relocs s) = int (length (sec_relocs s))" by (simp flip: rels_count [OF rdy])
    have h2: "doSectionRelocsHeader c i st1 = Some (rel_header c st i (next_sect st + data_len f i), st2)"
      using i rn rels_count [OF rdy] count by (simp add: doSectionRelocsHeader_def st1 s_def [symmetric] rel_header_def f_def [symmetric] Let_def rels_len_def
          reloc_entry_size_def st2_def)
    have "user_header c i (hs, st) = Some ((hs[k0 := Some (sec_header st i (next_sect st))])
        [k1 := Some (rel_header c st i (next_sect st + data_len f i))], st2)"
      using i h1 h2 k0 k1 True rn
      by (simp add: user_header_def f_def [symmetric] s_def [symmetric] put_header_def k0_def [symmetric] k1_def [symmetric] has_relocs_def st1)
    moreover have "header_frame st st2" unfolding st2_def by (rule header_frame_next [OF fr])
    moreover have "header_slots st i = [k0, k1]" using True rn by (simp add: header_slots_def k0_def k1_def f_def s_def)
    ultimately show ?thesis using k0 k1 rn True
      by (auto simp: f_def [symmetric] s_def [symmetric] k0_def [symmetric] k1_def [symmetric] st2_def st1_def)
  qed
qed

lemma user_headers_run:
  assumes "\<forall>i \<in> set xs. header_ok (length hs) st i" and "distinct (concat (map (header_slots st) xs))" and "distinct xs"
  shows "\<exists>hs' st'. fold_opt (user_header c) xs (hs, st) = Some (hs', st') \<and> header_frame st st' \<and> length hs' = length hs
    \<and> next_sect st' = next_sect st + total_len (reloc_entry_size c st) (ef st) xs
    \<and> (\<forall>i \<in> set xs. pad_amount st' i = Some (sec_pad (ef st) i))
    \<and> (\<forall>i. i \<notin> set xs \<longrightarrow> pad_amount st' i = pad_amount st i)
    \<and> (\<forall>q. q \<notin> set (concat (map (header_slots st) xs)) \<longrightarrow> hs' ! q = hs ! q)
    \<and> (\<forall>j < length xs. let i = xs ! j; ofs = next_sect st + total_len (reloc_entry_size c st) (ef st) (take j xs) in
         hs' ! OWLIndexToELFIndex (sec_index (secs (ef st) ! i)) = Some (sec_header st i ofs)
         \<and> (has_relocs (ef st) i \<longrightarrow> hs' ! OWLIndexToELFIndex (the (relocs_index st i)) = Some (rel_header c st i (ofs + data_len (ef st) i))))"
  using assms
proof (induction xs arbitrary: hs st)
  case Nil
  then show ?case by (simp add: header_frame_refl total_len_def)
next
  case (Cons i xs)
  obtain hs1 st1 where a: "user_header c i (hs, st) = Some (hs1, st1)" "header_frame st st1" "length hs1 = length hs"
      "next_sect st1 = next_sect st + (data_len (ef st) i + rels_len (reloc_entry_size c st) (ef st) i)"
      "pad_amount st1 = (pad_amount st)(i \<mapsto> sec_pad (ef st) i)"
      "\<forall>q. q \<notin> set (header_slots st i) \<longrightarrow> hs1 ! q = hs ! q"
      "hs1 ! OWLIndexToELFIndex (sec_index (secs (ef st) ! i)) = Some (sec_header st i (next_sect st))"
      "has_relocs (ef st) i \<longrightarrow> hs1 ! OWLIndexToELFIndex (the (relocs_index st i)) = Some (rel_header c st i (next_sect st + data_len (ef st) i))"
    using user_header_run [of hs st i c] Cons.prems(1,2) by auto
  note same = header_frame_same [OF a(2)]
  obtain hs2 st2 where b: "fold_opt (user_header c) xs (hs1, st1) = Some (hs2, st2)" "header_frame st1 st2" "length hs2 = length hs1"
      "next_sect st2 = next_sect st1 + total_len (reloc_entry_size c st) (ef st) xs"
      "\<forall>i \<in> set xs. pad_amount st2 i = Some (sec_pad (ef st) i)"
      "\<forall>i. i \<notin> set xs \<longrightarrow> pad_amount st2 i = pad_amount st1 i"
      "\<forall>q. q \<notin> set (concat (map (header_slots st) xs)) \<longrightarrow> hs2 ! q = hs1 ! q"
      "\<forall>j < length xs. let i = xs ! j; ofs = next_sect st1 + total_len (reloc_entry_size c st) (ef st) (take j xs) in
         hs2 ! OWLIndexToELFIndex (sec_index (secs (ef st) ! i)) = Some (sec_header st i ofs)
         \<and> (has_relocs (ef st) i \<longrightarrow> hs2 ! OWLIndexToELFIndex (the (relocs_index st i)) = Some (rel_header c st i (ofs + data_len (ef st) i)))"
    using Cons.IH [of hs1 st1] Cons.prems a(3) header_ok_frame [OF a(2)] same by auto
  have run: "fold_opt (user_header c) (i # xs) (hs, st) = Some (hs2, st2)" using a(1) b(1) by simp
  have frame: "header_frame st st2" by (rule header_frame_trans [OF a(2) b(2)])
  have out: "q \<notin> set (concat (map (header_slots st) xs))" if "q \<in> set (header_slots st i)" for q
    using that Cons.prems(2) by auto
  have mem: "OWLIndexToELFIndex (sec_index (secs (ef st) ! i)) \<in> set (header_slots st i)"
    "has_relocs (ef st) i \<Longrightarrow> OWLIndexToELFIndex (the (relocs_index st i)) \<in> set (header_slots st i)"
    by (simp_all add: header_slots_def)
  have first: "hs2 ! OWLIndexToELFIndex (sec_index (secs (ef st) ! i)) = Some (sec_header st i (next_sect st))"
    "has_relocs (ef st) i \<longrightarrow> hs2 ! OWLIndexToELFIndex (the (relocs_index st i)) = Some (rel_header c st i (next_sect st + data_len (ef st) i))"
    using b(7) a(7,8) out mem by auto
  have pads: "\<forall>k \<in> set (i # xs). pad_amount st2 k = Some (sec_pad (ef st) k)" "\<forall>k. k \<notin> set (i # xs) \<longrightarrow> pad_amount st2 k = pad_amount st k"
    using b(5,6) a(5) Cons.prems(3) by auto
  have total: "total_len e f (i # ys) = data_len f i + rels_len e f i + total_len e f ys" for e f ys by (simp add: total_len_def)
  have each: "\<forall>j < length (i # xs). let k = (i # xs) ! j; ofs = next_sect st + total_len (reloc_entry_size c st) (ef st) (take j (i # xs)) in
         hs2 ! OWLIndexToELFIndex (sec_index (secs (ef st) ! k)) = Some (sec_header st k ofs)
         \<and> (has_relocs (ef st) k \<longrightarrow> hs2 ! OWLIndexToELFIndex (the (relocs_index st k)) = Some (rel_header c st k (ofs + data_len (ef st) k)))"
  proof (intro allI impI)
    fix j
    assume "j < length (i # xs)"
    then show "let k = (i # xs) ! j; ofs = next_sect st + total_len (reloc_entry_size c st) (ef st) (take j (i # xs)) in
         hs2 ! OWLIndexToELFIndex (sec_index (secs (ef st) ! k)) = Some (sec_header st k ofs)
         \<and> (has_relocs (ef st) k \<longrightarrow> hs2 ! OWLIndexToELFIndex (the (relocs_index st k)) = Some (rel_header c st k (ofs + data_len (ef st) k)))"
      using first b(8) a(4) total by (cases j) (simp_all add: Let_def total_len_def add.assoc)
  qed
  have "next_sect st2 = next_sect st + total_len (reloc_entry_size c st) (ef st) (i # xs)" using b(4) a(4) total by simp
  moreover have "\<forall>q. q \<notin> set (concat (map (header_slots st) (i # xs))) \<longrightarrow> hs2 ! q = hs ! q" using b(7) a(6) by simp
  ultimately show ?case using run frame pads each a(3) b(3) by auto
qed

section \<open>The contents of a section\<close>

lemma set_sec_same: "secs f ! i = s \<Longrightarrow> set_sec i s f = f"
  by (cases f) (auto simp: set_sec_def)

lemma set_sec_buffer_same: "secs (ef st) ! i = s \<Longrightarrow> sec_buffer s = Some b \<Longrightarrow> st\<lparr>ef := set_sec i (s\<lparr>sec_buffer := Some b\<rparr>) (ef st)\<rparr> = st"
proof -
  assume a: "secs (ef st) ! i = s" "sec_buffer s = Some b"
  then have "s\<lparr>sec_buffer := Some b\<rparr> = s" by (cases s) simp
  then show ?thesis using set_sec_same [OF a(1)] by simp
qed

lemma write_chunks_bin_size: "write_chunks b d n = Some b' \<Longrightarrow> bin_size b \<le> bin_size b'"
proof (induction b d n rule: write_chunks.induct)
  case (1 b d n)
  show ?case
  proof (cases "n = 0")
    case True
    then show ?thesis using "1.prems" by (simp add: write_chunks.simps)
  next
    case False
    then obtain full b1 b2 where r: "bufferFull b = Some full" "(if full then buffer_collapse b else Some b) = Some b1"
        "min n (bin_bytes_left b1) \<noteq> 0" "buffer_fill b1 d (min n (bin_bytes_left b1)) = Some b2"
        "write_chunks (b2\<lparr>location := location b2 + min n (bin_bytes_left b1)\<rparr>) (map_option (drop (min n (bin_bytes_left b1))) d)
           (n - min n (bin_bytes_left b1)) = Some b'"
      using "1.prems" by (subst (asm) write_chunks.simps) (auto simp: Let_def split: option.splits if_splits)
    have "bin_size b \<le> bin_size b1"
      using r(2) by (auto simp: buffer_collapse_def NUM_BINS_def split: if_splits Option.bind_splits)
    moreover have "bin_size b2 = bin_size b1"
      using r(4) by (auto simp: buffer_fill_def Let_def split: if_splits Option.bind_splits option.splits)
    moreover have "bin_size (b2\<lparr>location := location b2 + min n (bin_bytes_left b1)\<rparr>) \<le> bin_size b'"
      by (rule "1.IH" [OF False r(1,2) refl r(3,4,5)])
    ultimately show ?thesis by simp
  qed
qed

lemma buffer_write_bin_size: "buffer_write b d n = Some b' \<Longrightarrow> bin_size b \<le> bin_size b'"
  using write_chunks_bin_size by (auto simp: buffer_write_def split: if_splits)

text \<open>What is left of a buffer behind a location inside it, counted as the writer counts it.\<close>

lemma left_size:
  assumes "unat w < n" and "n < 2 ^ 32"
  shows "min 4 (to_size (to_offset n - w)) = min 4 (n - unat w)"
proof -
  have "unat (to_offset n) = n" using assms(2) by simp
  then have d: "unat (to_offset n - w) = n - unat w" using assms(1) by (subst unat_sub) (simp_all add: word_le_nat_alt)
  show ?thesis
  proof (cases "n - unat w < 2 ^ 31")
    case True
    then show ?thesis by (simp add: d)
  next
    case False
    then show ?thesis using to_size_ge [of "to_offset n - w"] d by simp
  qed
qed

lemma write_inside:
  assumes "buffer_inv b" and "\<not> buffer_full b" and "unat p + length d \<le> bsize b" and "d \<noteq> []" and "unat p < 2 ^ 31"
  shows "\<exists>b'. OWLBufferWrite (OWLBufferSeek b p) d = Some b' \<and> buffer_inv b' \<and> \<not> buffer_full b' \<and> bsize b' = bsize b
    \<and> buffer_contents b' = overwrite (buffer_contents b) (unat p) d"
proof -
  have seek: "buffer_inv (OWLBufferSeek b p)" "buffer_contents (OWLBufferSeek b p) = buffer_contents b" "location (OWLBufferSeek b p) = unat p"
      "bsize (OWLBufferSeek b p) = bsize b" "bin_size (OWLBufferSeek b p) = bin_size b"
    using owl.seek_law [OF assms(1), of p] owl.seek_pos [OF assms(5), of b] by (simp_all add: OWLBufferSeek_def)
  obtain b' where b': "OWLBufferWrite (OWLBufferSeek b p) d = Some b'" "buffer_inv b'"
      "buffer_contents b' = overwrite (buffer_contents b) (unat p) d"
    using OWLBufferWrite_ok [OF seek(1), of d] seek assms(4) by auto
  have size: "bsize b' = bsize b"
    using arg_cong [OF b'(3), of length] assms(3) by (simp add: length_overwrite)
  have "bin_size b \<le> bin_size b'"
    using buffer_write_bin_size b'(1) seek assms(3) by (fastforce simp: OWLBufferWrite_def)
  then have "\<not> buffer_full b'" using assms(1,2) size by (auto simp: buffer_full_def buffer_inv_def NUM_BINS_def)
  then show ?thesis using b' size by blast
qed

text \<open>A relocation entry, its addend, and what stays in its field.\<close>

definition rela_cpu :: "owl_cpu \<Rightarrow> bool" where
  "rela_cpu cpu \<longleftrightarrow> cpu \<noteq> OWL_CPU_X86 \<and> cpu \<noteq> OWL_CPU_MIPS"

lemma use_rela_cpu: "use_rela st = rela_cpu (f_cpu (ef st))"
  by (simp add: use_rela_def rela_cpu_def)

definition field_len :: "owl_reloc_info \<Rightarrow> bytes \<Rightarrow> nat" where
  "field_len r cont = min 4 (length cont - unat (rel_location r))"

definition field_data :: "owl_reloc_info \<Rightarrow> bytes \<Rightarrow> u32" where
  "field_data r cont = word_of_nat (le_val (take (field_len r cont) (drop (unat (rel_location r)) cont)))"

definition clear_field :: "owl_cpu \<Rightarrow> owl_reloc_info \<Rightarrow> bytes \<Rightarrow> bytes" where
  "clear_field cpu r cont =
    (if rela_cpu cpu
     then overwrite cont (unat (rel_location r))
       (le_bytes (field_len r cont) (unat (field_data r cont AND NOT (the (OWLRelocBitMask cpu (rel_type r))))))
     else cont)"

definition reloc_entry :: "owl_cpu \<Rightarrow> (nat \<Rightarrow> u32) \<Rightarrow> owl_reloc_info \<Rightarrow> bytes \<Rightarrow> elf_rela" where
  "reloc_entry cpu idx r cont =
    \<lparr>r_offset = sint (rel_location r), r_sym = unat (idx (rel_symbol r)), r_type = unat (the (ElfRelocType (rel_type r) cpu)),
     r_addend = if rela_cpu cpu then sint (field_data r cont AND the (OWLRelocBitMask cpu (rel_type r))) else 0\<rparr>"

definition put_entry :: "elf_class \<Rightarrow> owl_cpu \<Rightarrow> elf_rela \<Rightarrow> bytes" where
  "put_entry c cpu e = (if rela_cpu cpu then put_rela c e else put_rel c e)"

text \<open>The entries of a section in order, each made of the contents the ones before have left.\<close>

fun reloc_entries :: "owl_cpu \<Rightarrow> (nat \<Rightarrow> u32) \<Rightarrow> owl_reloc_info list \<Rightarrow> bytes \<Rightarrow> elf_rela list" where
  "reloc_entries cpu idx [] cont = []"
| "reloc_entries cpu idx (r # rs) cont = reloc_entry cpu idx r cont # reloc_entries cpu idx rs (clear_field cpu r cont)"

lemma length_reloc_entries [simp]: "length (reloc_entries cpu idx rs cont) = length rs"
  by (induction rs arbitrary: cont) auto

definition rels_ok :: "owl_file \<Rightarrow> nat \<Rightarrow> owl_reloc_info list \<Rightarrow> bool" where
  "rels_ok f n rs \<longleftrightarrow> (\<forall>r \<in> set rs. rel_symbol r < length (syms f) \<and> unat (rel_location r) < n \<and> n < 2 ^ 32 \<and> unat (rel_location r) + 4 \<le> 2 ^ 31
     \<and> ElfRelocType (rel_type r) (f_cpu f) \<noteq> None \<and> OWLRelocBitMask (f_cpu f) (rel_type r) \<noteq> None)"

lemma put_rel_ignores: "put_rel ELFCLASS32 (e\<lparr>r_addend := a\<rparr>) = put_rel ELFCLASS32 e" "put_rel ELFCLASS64 (e\<lparr>r_addend := a\<rparr>) = put_rel ELFCLASS64 e"
  by (simp_all add: ELFCLASS32_def ELFCLASS64_def rel32_bytes_def rel64_bytes_def)

context elf_layout
begin

lemma emitReloc_run:
  assumes i: "i < length (secs (ef st))" "secs (ef st) ! i = s" and b: "sec_buffer s = Some b" "buffer_inv b" "\<not> buffer_full b"
    and r: "rels_ok (ef st) (bsize b) [r]"
  shows "\<exists>b'. emitReloc c i r st = Some (put_entry c (f_cpu (ef st)) (reloc_entry (f_cpu (ef st)) (sym_index st) r (buffer_contents b)),
      st\<lparr>ef := set_sec i (s\<lparr>sec_buffer := Some b'\<rparr>) (ef st)\<rparr>)
    \<and> buffer_inv b' \<and> \<not> buffer_full b' \<and> bsize b' = bsize b
    \<and> buffer_contents b' = clear_field (f_cpu (ef st)) r (buffer_contents b)"
proof -
  define cpu where "cpu = f_cpu (ef st)"
  obtain t msk where t: "ElfRelocType (rel_type r) cpu = Some t" "OWLRelocBitMask cpu (rel_type r) = Some msk"
    using r by (auto simp: rels_ok_def cpu_def)
  have sym: "rel_symbol r < length (syms (ef st))" and loc: "unat (rel_location r) < bsize b" "unat (rel_location r) < 2 ^ 31"
      "unat (rel_location r) + 4 \<le> 2 ^ 31" "bsize b < 2 ^ 32"
    using r by (auto simp: rels_ok_def)
  show ?thesis
  proof (cases "rela_cpu cpu")
    case False
    note id = set_sec_buffer_same [OF i(2) b(1)]
    have "emitReloc c i r st = Some (put_entry c cpu (reloc_entry cpu (sym_index st) r (buffer_contents b)), st)"
      using i(1) sym t False by (simp add: emitReloc_def use_rela_cpu cpu_def [symmetric] put_entry_def reloc_entry_def Let_def)
    moreover have "clear_field cpu r (buffer_contents b) = buffer_contents b" using False by (simp add: clear_field_def)
    ultimately show ?thesis by (intro exI [of _ b]) (use b(2,3) id in \<open>simp add: cpu_def\<close>)
  next
    case True
    define n where "n = field_len r (buffer_contents b)"
    have n: "n = min 4 (bsize b - unat (rel_location r))" "0 < n" "unat (rel_location r) + n \<le> bsize b"
      using loc by (auto simp: n_def field_len_def min_def)
    define d where "d = le_bytes n (unat (field_data r (buffer_contents b) AND NOT msk))"
    have dn: "length d = n" "d \<noteq> []" using n(2) by (auto simp: d_def simp flip: length_greater_0_conv)
    obtain b' where b': "OWLBufferWrite (OWLBufferSeek b (rel_location r)) d = Some b'" "buffer_inv b'" "\<not> buffer_full b'"
        "bsize b' = bsize b" "buffer_contents b' = overwrite (buffer_contents b) (unat (rel_location r)) d"
      using write_inside [OF b(2,3), of "rel_location r" d] n(3) dn loc(2) by auto
    have seek: "buffer_inv (OWLBufferSeek b (rel_location r))" "buffer_contents (OWLBufferSeek b (rel_location r)) = buffer_contents b"
      using owl.seek_law [OF b(2)] by auto
    have read: "OWLBufferRead (OWLBufferSeek b (rel_location r)) (rel_location r) n
        = Some (take n (drop (unat (rel_location r)) (buffer_contents b)))"
      using owl.read_law [OF seek(1), of "rel_location r" n] n loc seek(2) by (simp add: OWLBufferSeek_def)
    have taken: "min 4 (to_size (OWLBufferSize (Some (OWLBufferSeek b (rel_location r))) - rel_location r)) = n"
      using left_size [OF loc(1,4)] by (simp add: OWLBufferSize_def OWLBufferSeek_def n(1))
    have size: "bsize (OWLBufferSeek b p) = bsize b" for p by (simp add: OWLBufferSeek_def)
    have seekb: "buffer_inv (OWLBufferSeek b' p) \<and> \<not> buffer_full (OWLBufferSeek b' p) \<and> buffer_contents (OWLBufferSeek b' p) = buffer_contents b'
        \<and> bsize (OWLBufferSeek b' p) = bsize b'" for p
      using owl.seek_law [OF b'(2), of p] b'(3) by (simp add: OWLBufferSeek_def buffer_full_def)
    have fd: "word_of_nat (le_val (take n (drop (unat (rel_location r)) (buffer_contents b)))) = field_data r (buffer_contents b)"
      by (simp add: field_data_def n_def)
    have "emitReloc c i r st = Some (put_entry c cpu (reloc_entry cpu (sym_index st) r (buffer_contents b)),
        st\<lparr>ef := set_sec i (s\<lparr>sec_buffer := Some (OWLBufferSeek b' (OWLBufferTell b))\<rparr>) (ef st)\<rparr>)"
      using i sym t True b(1) loc read b'(1) fd
      by (simp add: emitReloc_def use_rela_cpu cpu_def [symmetric] put_entry_def reloc_entry_def taken d_def [symmetric] Let_def)
    moreover have "buffer_contents b' = clear_field cpu r (buffer_contents b)"
      using b'(5) True t by (simp add: clear_field_def d_def n_def)
    ultimately show ?thesis using seekb b'(4) by (auto simp: cpu_def)
  qed
qed

lemma emit_relocs_run:
  assumes "i < length (secs (ef st))" and "secs (ef st) ! i = s" and "sec_buffer s = Some b" and "buffer_inv b" and "\<not> buffer_full b"
    and "rels_ok (ef st) (bsize b) rs"
  shows "\<exists>b'. emit_relocs c i rs st
      = Some (concat (map (put_entry c (f_cpu (ef st))) (reloc_entries (f_cpu (ef st)) (sym_index st) rs (buffer_contents b))),
              st\<lparr>ef := set_sec i (s\<lparr>sec_buffer := Some b'\<rparr>) (ef st)\<rparr>)
    \<and> buffer_inv b' \<and> \<not> buffer_full b' \<and> bsize b' = bsize b
    \<and> buffer_contents b' = fold (clear_field (f_cpu (ef st))) rs (buffer_contents b)"
  using assms
proof (induction rs arbitrary: st s b)
  case Nil
  note same = set_sec_buffer_same [OF Nil.prems(2,3)]
  show ?case by (rule exI [of _ b]) (use same Nil.prems(4,5) in simp)
next
  case (Cons r rs)
  have ok: "rels_ok (ef st) (bsize b) [r]" "rels_ok (ef st) (bsize b) rs" using Cons.prems(6) by (auto simp: rels_ok_def)
  define cpu where "cpu = f_cpu (ef st)"
  obtain b1 where b1: "emitReloc c i r st = Some (put_entry c cpu (reloc_entry cpu (sym_index st) r (buffer_contents b)),
      st\<lparr>ef := set_sec i (s\<lparr>sec_buffer := Some b1\<rparr>) (ef st)\<rparr>)"
      "buffer_inv b1" "\<not> buffer_full b1" "bsize b1 = bsize b" "buffer_contents b1 = clear_field cpu r (buffer_contents b)"
    using emitReloc_run [OF Cons.prems(1-5) ok(1)] unfolding cpu_def by blast
  define st1 where "st1 = st\<lparr>ef := set_sec i (s\<lparr>sec_buffer := Some b1\<rparr>) (ef st)\<rparr>"
  have st1: "i < length (secs (ef st1))" "secs (ef st1) ! i = s\<lparr>sec_buffer := Some b1\<rparr>" "f_cpu (ef st1) = cpu" "sym_index st1 = sym_index st"
      "rels_ok (ef st1) (bsize b1) rs"
    using Cons.prems(1,2) ok(2) b1(4) by (simp_all add: st1_def set_sec_def rels_ok_def cpu_def)
  obtain b2 where b2: "emit_relocs c i rs st1
      = Some (concat (map (put_entry c cpu) (reloc_entries cpu (sym_index st) rs (buffer_contents b1))),
              st1\<lparr>ef := set_sec i (s\<lparr>sec_buffer := Some b1, sec_buffer := Some b2\<rparr>) (ef st1)\<rparr>)"
      "buffer_inv b2" "\<not> buffer_full b2" "bsize b2 = bsize b1" "buffer_contents b2 = fold (clear_field cpu) rs (buffer_contents b1)"
    using Cons.IH [OF st1(1,2) _ b1(2,3) st1(5)] unfolding st1(3,4) by auto
  have "st1\<lparr>ef := set_sec i (s\<lparr>sec_buffer := Some b1, sec_buffer := Some b2\<rparr>) (ef st1)\<rparr>
      = st\<lparr>ef := set_sec i (s\<lparr>sec_buffer := Some b2\<rparr>) (ef st)\<rparr>"
    by (simp add: st1_def set_sec_def)
  then show ?case using b1 b2 by (auto simp: st1_def [symmetric] cpu_def [symmetric])
qed

lemma length_put_entry: "length (put_entry c (f_cpu (ef st)) e) = reloc_entry_size c st"
  by (simp add: put_entry_def reloc_entry_size_def use_rela_cpu length_put_rela rel_law)

end

text \<open>What a section is in the file: its contents with the fields of relocations cleared.\<close>

definition section_image :: "owl_file \<Rightarrow> nat \<Rightarrow> bytes" where
  "section_image f i =
    (case sec_buffer (secs f ! i) of
       None \<Rightarrow> []
     | Some b \<Rightarrow> fold (clear_field (f_cpu f)) (sec_relocs (secs f ! i)) (buffer_contents b))"

definition section_entries :: "owl_file \<Rightarrow> (nat \<Rightarrow> u32) \<Rightarrow> nat \<Rightarrow> elf_rela list" where
  "section_entries f idx i =
    (case sec_buffer (secs f ! i) of
       None \<Rightarrow> []
     | Some b \<Rightarrow> reloc_entries (f_cpu f) idx (sec_relocs (secs f ! i)) (buffer_contents b))"

definition data_chunk :: "owl_file \<Rightarrow> nat \<Rightarrow> bytes" where
  "data_chunk f i = (if section_bss (secs f ! i) then [] else section_image f i @ replicate (sec_pad f i) 0)"

definition rels_chunk :: "elf_class \<Rightarrow> owl_file \<Rightarrow> (nat \<Rightarrow> u32) \<Rightarrow> nat \<Rightarrow> bytes" where
  "rels_chunk c f idx i = concat (map (put_entry c (f_cpu f)) (section_entries f idx i))"

context elf_layout
begin

lemma emit_section_run:
  assumes i: "i < length (secs (ef st))" and rdy: "section_ready (ef st) (secs (ef st) ! i)"
    and pad: "pad_amount st i = Some (sec_pad (ef st) i)"
  shows "\<exists>st' s'. emit_section c i st = Some st' \<and> ef st' = set_sec i s' (ef st)
    \<and> out st' = out st @ data_chunk (ef st) i @ rels_chunk c (ef st) (sym_index st) i
    \<and> sym_index st' = sym_index st \<and> pad_amount st' = pad_amount st"
proof (cases "sec_buffer (secs (ef st) ! i)")
  case None
  then have bss: "section_bss (secs (ef st) ! i)" "sec_relocs (secs (ef st) ! i) = []"
    using rdy by (simp_all add: section_ready_def)
  have "ef st = set_sec i (secs (ef st) ! i) (ef st)" by (simp add: set_sec_same)
  moreover have "emit_section c i st = Some (emit [] st)" using i bss by (simp add: emit_section_def)
  ultimately show ?thesis using bss None
    by (auto simp: emit_def data_chunk_def rels_chunk_def section_entries_def)
next
  case (Some b)
  define s where "s = secs (ef st) ! i"
  have b: "\<not> section_bss s" "buffer_inv b" "\<not> buffer_full b" "bsize b = unat (sec_size s)"
    using rdy Some by (simp_all add: section_ready_def s_def)
  have size32: "unat (sec_size s) < 2 ^ 32" using unsigned_less [of "sec_size s"] by simp
  have ok: "rels_ok (ef st) (bsize b) (sec_relocs s)"
    using rdy b(4) size32 by (simp add: section_ready_def rels_ok_def s_def)
  obtain b' where b': "emit_relocs c i (sec_relocs s) st
      = Some (rels_chunk c (ef st) (sym_index st) i, st\<lparr>ef := set_sec i (s\<lparr>sec_buffer := Some b'\<rparr>) (ef st)\<rparr>)"
      "buffer_inv b'" "\<not> buffer_full b'" "buffer_contents b' = section_image (ef st) i"
    using emit_relocs_run [OF i refl Some b(2,3), folded s_def, OF ok] Some
    by (auto simp: rels_chunk_def section_entries_def section_image_def s_def)
  define st1 where "st1 = st\<lparr>ef := set_sec i (s\<lparr>sec_buffer := Some b'\<rparr>) (ef st)\<rparr>"
  have "length (rels_chunk c (ef st) (sym_index st) i) = reloc_entry_size c st * length (sec_relocs s)"
    using Some length_concat_chunks [of "map (put_entry c (f_cpu (ef st))) (section_entries (ef st) (sym_index st) i)" "reloc_entry_size c st"]
      length_put_entry [of st] by (auto simp: rels_chunk_def section_entries_def s_def)
  then have len: "length (rels_chunk c (ef st) (sym_index st) i) = reloc_entry_size c st1 * unat (num_relocs s)"
    using rels_count [OF rdy] by (simp add: s_def st1_def reloc_entry_size_def use_rela_def set_sec_def)
  have emitb: "OWLBufferEmit b' = Some (section_image (ef st) i)"
    using OWLBufferEmit_ok [OF b'(2)] b'(3,4) by simp
  have "emit_section c i st = Some (emit (rels_chunk c (ef st) (sym_index st) i) (emit (replicate (sec_pad (ef st) i) 0)
      (emit (section_image (ef st) i) st1)))"
    using i b(1) b'(1) len emitb pad
    by (simp add: emit_section_def s_def [symmetric] st1_def [symmetric] emitSectionPadding_def)
      (simp add: st1_def set_sec_def emit_def emitSectionPadding_def)
  then show ?thesis using b(1) by (auto simp: emit_def st1_def data_chunk_def s_def)
qed

lemma emit_data_run:
  assumes "distinct xs" and "\<forall>i \<in> set xs. i < length (secs (ef st)) \<and> section_ready (ef st) (secs (ef st) ! i)
      \<and> pad_amount st i = Some (sec_pad (ef st) i)"
  shows "\<exists>st'. fold_opt (emit_section c) xs st = Some st'
    \<and> out st' = out st @ concat (map (\<lambda>i. data_chunk (ef st) i @ rels_chunk c (ef st) (sym_index st) i) xs)"
  using assms
proof (induction xs arbitrary: st)
  case (Cons i xs)
  obtain st1 s' where st1: "emit_section c i st = Some st1" "ef st1 = set_sec i s' (ef st)"
      "out st1 = out st @ data_chunk (ef st) i @ rels_chunk c (ef st) (sym_index st) i"
      "sym_index st1 = sym_index st" "pad_amount st1 = pad_amount st"
    using emit_section_run [of i st] Cons.prems(2) by auto
  have same: "secs (ef st1) ! k = secs (ef st) ! k" "f_cpu (ef st1) = f_cpu (ef st)" "syms (ef st1) = syms (ef st)"
      "length (secs (ef st1)) = length (secs (ef st))" if "k \<in> set xs" for k
  proof -
    have "i \<noteq> k" using that Cons.prems(1) by auto
    then show "secs (ef st1) ! k = secs (ef st) ! k" "f_cpu (ef st1) = f_cpu (ef st)" "syms (ef st1) = syms (ef st)"
      "length (secs (ef st1)) = length (secs (ef st))" by (simp_all add: st1(2) set_sec_def)
  qed
  have keep: "data_chunk (ef st1) k = data_chunk (ef st) k" "rels_chunk c (ef st1) (sym_index st1) k = rels_chunk c (ef st) (sym_index st) k"
      "sec_pad (ef st1) k = sec_pad (ef st) k" "section_ready (ef st1) (secs (ef st1) ! k) = section_ready (ef st) (secs (ef st) ! k)"
    if "k \<in> set xs" for k
    using same [OF that] by (simp_all add: data_chunk_def rels_chunk_def section_image_def section_entries_def sec_pad_def st1(4) section_ready_def
        split: option.split)
  have "\<forall>k \<in> set xs. k < length (secs (ef st1)) \<and> section_ready (ef st1) (secs (ef st1) ! k) \<and> pad_amount st1 k = Some (sec_pad (ef st1) k)"
    using Cons.prems(2) keep same st1(5) by simp
  then obtain st' where st': "fold_opt (emit_section c) xs st1 = Some st'"
      "out st' = out st1 @ concat (map (\<lambda>i. data_chunk (ef st1) i @ rels_chunk c (ef st1) (sym_index st1) i) xs)"
    using Cons.IH [of st1] Cons.prems(1) by auto
  have keeps: "map (\<lambda>i. data_chunk (ef st1) i @ rels_chunk c (ef st1) (sym_index st1) i) xs
      = map (\<lambda>i. data_chunk (ef st) i @ rels_chunk c (ef st) (sym_index st) i) xs"
    using keep by simp
  have "out st' = out st @ concat (map (\<lambda>i. data_chunk (ef st) i @ rels_chunk c (ef st) (sym_index st) i) (i # xs))"
    by (simp only: st'(2) st1(3) keeps list.map concat.simps append_assoc)
  then show ?case using st'(1) st1(1) by auto
qed simp

end

section \<open>The whole file\<close>

lemma next_index_same:
  "live_syms (f\<lparr>next_index := m\<rparr>) = live_syms f" "live_locals (f\<lparr>next_index := m\<rparr>) = live_locals f"
  "counts_live (f\<lparr>next_index := m\<rparr>) = counts_live f" "has_relocs (f\<lparr>next_index := m\<rparr>) = has_relocs f"
  "section_ready (f\<lparr>next_index := m\<rparr>) s = section_ready f s" "sym_no (f\<lparr>next_index := m\<rparr>) h = sym_no f h"
  "sec_pad (f\<lparr>next_index := m\<rparr>) i = sec_pad f i" "data_len (f\<lparr>next_index := m\<rparr>) i = data_len f i"
  "total_len e (f\<lparr>next_index := m\<rparr>) xs = total_len e f xs" "data_chunk (f\<lparr>next_index := m\<rparr>) i = data_chunk f i"
  "rels_chunk c (f\<lparr>next_index := m\<rparr>) idx i = rels_chunk c f idx i"
proof -
  have l: "live_local (f\<lparr>next_index := m\<rparr>) = live_local f" "live_global (f\<lparr>next_index := m\<rparr>) = live_global f"
    by (simp_all add: fun_eq_iff live_local_def live_global_def)
  show s: "live_syms (f\<lparr>next_index := m\<rparr>) = live_syms f" "live_locals (f\<lparr>next_index := m\<rparr>) = live_locals f"
    by (simp_all add: live_syms_def live_locals_def)
  show p: "sec_pad (f\<lparr>next_index := m\<rparr>) i = sec_pad f i" "data_len (f\<lparr>next_index := m\<rparr>) i = data_len f i" for i
    by (simp_all add: sec_pad_def data_len_def)
  show "counts_live (f\<lparr>next_index := m\<rparr>) = counts_live f" "has_relocs (f\<lparr>next_index := m\<rparr>) = has_relocs f"
    "section_ready (f\<lparr>next_index := m\<rparr>) s = section_ready f s" "sym_no (f\<lparr>next_index := m\<rparr>) h = sym_no f h"
    "total_len e (f\<lparr>next_index := m\<rparr>) xs = total_len e f xs" "data_chunk (f\<lparr>next_index := m\<rparr>) i = data_chunk f i"
    "rels_chunk c (f\<lparr>next_index := m\<rparr>) idx i = rels_chunk c f idx i"
    by (simp_all add: s l p counts_live_def has_relocs_def section_ready_def sym_no_def total_len_def rels_len_def data_chunk_def
        section_image_def rels_chunk_def section_entries_def fun_eq_iff split: option.split)
qed

lemma distinct_slots:
  assumes "distinct xs" and "inj_on A (set xs)" and "inj_on B (set (filter P xs))" and "\<And>i j. i \<in> set xs \<Longrightarrow> j \<in> set xs \<Longrightarrow> P j \<Longrightarrow> A i \<noteq> B j"
  shows "distinct (concat (map (\<lambda>i. A i # (if P i then [B i] else [])) xs))"
  using assms
proof (induction xs)
  case (Cons x xs)
  have "A x \<notin> set (concat (map (\<lambda>i. A i # (if P i then [B i] else [])) xs))"
    using Cons.prems(1,2,4) by (auto dest: inj_onD split: if_splits)
  moreover have "B x \<notin> set (concat (map (\<lambda>i. A i # (if P i then [B i] else [])) xs))" if "P x"
    using that Cons.prems(1,3) Cons.prems(4) [of _ x] by (auto simp: inj_on_def split: if_splits) (metis Cons.prems(4) list.set_intros)
  moreover have "distinct (concat (map (\<lambda>i. A i # (if P i then [B i] else [])) xs))"
    by (rule Cons.IH) (use Cons.prems in \<open>auto simp: inj_on_def split: if_splits\<close>)
  ultimately show ?case using Cons.prems(4) [of x x] by auto
qed simp

text \<open>The state when the headers are written: everything is named and numbered.\<close>

definition sections_named :: "owl_file \<Rightarrow> elf_state \<Rightarrow> bool" where
  "sections_named f st \<longleftrightarrow> (\<forall>i \<in> set (sec_list f). \<exists>ofs. name_offset st (sec_name (secs f ! i)) = Some ofs
     \<and> text_at (strtab_buf st) ofs (str_bytes (sec_name (secs f ! i))))"

definition reloc_name :: "owl_file \<Rightarrow> nat \<Rightarrow> string" where
  "reloc_name f i = (if rela_cpu (f_cpu f) then ''.rela'' else ''.rel'') @ sec_name (secs f ! i)"

definition relocs_named :: "owl_file \<Rightarrow> elf_state \<Rightarrow> bool" where
  "relocs_named f st \<longleftrightarrow> (\<forall>j < length (filter (has_relocs f) (sec_list f)).
     relocs_index st (filter (has_relocs f) (sec_list f) ! j) = Some (length (sec_list f) + j)
     \<and> (\<exists>h ofs. relocs_name st (filter (has_relocs f) (sec_list f) ! j) = Some h \<and> OWLStringOffset (strs st) h = Some ofs
          \<and> text_at (strtab_buf st) ofs (str_bytes (reloc_name f (filter (has_relocs f) (sec_list f) ! j)))))"

text \<open>The entry a symbol should have, its name being at \<open>ofs\<close>.\<close>

definition sym_record :: "owl_file \<Rightarrow> nat \<Rightarrow> nat \<Rightarrow> elf_sym" where
  "sym_record f h ofs =
    (let s = syms f ! h
     in \<lparr>st_name = ofs, st_info = st_info_of (elfBinding (sym_linkage s)) (elfType (sym_type s)),
         st_shndx = (case sym_section s of None \<Rightarrow> 0 | Some i \<Rightarrow> OWLIndexToELFIndex (sec_index (secs f ! i))),
         st_value = unat (scast (sym_offset s) :: u64), st_size = 0\<rparr>)"

definition symbols_named :: "owl_file \<Rightarrow> bytes \<Rightarrow> elf_sym list \<Rightarrow> bool" where
  "symbols_named f str es \<longleftrightarrow> length es = length (live_syms f) + 1
     \<and> (\<forall>h \<in> set (live_syms f). \<exists>name ofs. sym_name (syms f ! h) = Some name \<and> text_at str ofs (str_bytes name)
          \<and> es ! sym_no f h = sym_record f h ofs)"

definition symbols_numbered :: "owl_file \<Rightarrow> (nat \<Rightarrow> u32) \<Rightarrow> bool" where
  "symbols_numbered f idx \<longleftrightarrow> (\<forall>h \<in> set (live_syms f). unat (idx h) = sym_no f h)"

definition file_index :: "owl_file \<Rightarrow> nat" where
  "file_index f = length (sec_list f) + length (filter (has_relocs f) (sec_list f))"

definition headers_ready :: "elf_class \<Rightarrow> owl_file \<Rightarrow> elf_state \<Rightarrow> bool" where
  "headers_ready c f st \<longleftrightarrow> ef st = f\<lparr>next_index := file_index f\<rparr> \<and> sections_named f st \<and> relocs_named f st
     \<and> OWLStringOffset (strs st) (strtab_name st) \<noteq> None \<and> OWLStringOffset (strs st) (symtab_name st) \<noteq> None
     \<and> out st = put_ehdr c \<lparr>e_machine = machineTypes (f_cpu f), e_shoff = ehdr_size c, e_shnum = OWLIndexToELFIndex (file_index f)\<rparr>
     \<and> symbols_numbered f (sym_index st)
     \<and> (\<exists>es. symtab_buf st = concat (map (put_sym c) es) \<and> symbols_named f (strtab_buf st) es)"

text \<open>The entry the writer makes is that.\<close>

lemma symbol_entry:
  assumes e: "emitted st" and ef: "ef st = f\<lparr>next_index := m\<rparr>" and names: "set (texts tab) \<subseteq> set (texts (strs st))"
    and ready: "elf_ready tab f" and h: "h \<in> set (live_syms f)"
  shows "\<exists>name ofs. sym_name (syms f ! h) = Some name \<and> text_at (strtab_buf st) ofs (str_bytes name)
    \<and> emitElfSymbol st (syms f ! h) = Some (sym_record f h ofs)"
proof -
  have "names_in tab f" using ready by (simp add: elf_ready_def)
  then obtain name where n: "sym_name (syms f ! h) = Some name" "str_bytes name \<in> set (texts (strs st))"
    using h names unfolding names_in_def by blast
  obtain ofs where o: "name_offset st name = Some ofs" "text_at (strtab_buf st) ofs (str_bytes name)"
    using name_offset_found [OF e n(2)] by blast
  have "i < length (secs f)" if "i \<in> set (sec_list f)" for i
    using that ready by (auto simp: elf_ready_def indices_ok_def in_set_conv_nth)
  moreover have "\<forall>i. sym_section (syms f ! h) = Some i \<longrightarrow> i \<in> set (sec_list f)" using h ready by (simp add: elf_ready_def)
  ultimately have "\<forall>i. sym_section (syms f ! h) = Some i \<longrightarrow> i \<in> set (sec_list f) \<and> i < length (secs f)" by blast
  then have "emitElfSymbol st (syms f ! h) = Some (sym_record f h ofs)"
    using n(1) o(1) by (cases "sym_section (syms f ! h)") (simp_all add: emitElfSymbol_def rd_section_def ef sym_record_def Let_def)
  then show ?thesis using n(1) o(2) by blast
qed

lemma reloc_names_kept:
  assumes inv: "table_inv t1" and grow: "texts (strs st) = texts t1 @ zs" and e: "emitted st"
    and same: "relocs_index st = relocs_index st1" "relocs_name st = relocs_name st1"
    and named: "\<forall>j < length rs. let i = rs ! j in relocs_index st1 i = Some (n + j)
         \<and> (\<exists>h. relocs_name st1 i = Some h \<and> OWLStringText t1 h = Some (str_bytes (nm i)))"
  shows "\<forall>j < length rs. relocs_index st (rs ! j) = Some (n + j)
     \<and> (\<exists>h ofs. relocs_name st (rs ! j) = Some h \<and> OWLStringOffset (strs st) h = Some ofs \<and> text_at (strtab_buf st) ofs (str_bytes (nm (rs ! j))))"
proof (intro allI impI)
  fix j
  assume "j < length rs"
  then obtain h where h: "relocs_index st1 (rs ! j) = Some (n + j)" "relocs_name st1 (rs ! j) = Some h"
      "OWLStringText t1 h = Some (str_bytes (nm (rs ! j)))"
    using named by (auto simp: Let_def)
  have "OWLStringText (strs st) h = Some (str_bytes (nm (rs ! j)))" using texts_extend [OF inv h(3) grow] .
  then show "relocs_index st (rs ! j) = Some (n + j)
     \<and> (\<exists>h ofs. relocs_name st (rs ! j) = Some h \<and> OWLStringOffset (strs st) h = Some ofs \<and> text_at (strtab_buf st) ofs (str_bytes (nm (rs ! j))))"
    using h e same by (auto simp: emitted_def)
qed

context elf_layout
begin

lemma symbols_run:
  assumes e: "emitted st" and ef: "ef st = f\<lparr>next_index := m\<rparr>" and names: "set (texts tab) \<subseteq> set (texts (strs st))"
    and ready: "elf_ready tab f"
  shows "\<exists>idx es. prepareSymbolTable c st = Some (st\<lparr>sym_index := idx, symtab_buf := concat (map (put_sym c) es)\<rparr>)
    \<and> symbols_numbered f idx \<and> symbols_named f (strtab_buf st) es"
proof -
  have r: "counts_live f" "length (syms f) < 2 ^ 32 - 1" using ready by (simp_all add: elf_ready_def)
  have "emitElfSymbol st (syms (ef st) ! h) = Some (sym_entry st h)" if "h \<in> set (live_syms (ef st))" for h
    using symbol_entry [OF e ef names ready, of h] that by (auto simp: sym_entry_def ef next_index_same)
  then obtain idx es where p: "prepareSymbolTable c st = Some (st\<lparr>sym_index := idx, symtab_buf := concat (map (put_sym c) es)\<rparr>)"
      "length es = length (live_syms f) + 1" "\<forall>h \<in> set (live_syms f). unat (idx h) = sym_no f h \<and> es ! sym_no f h = sym_entry st h"
    using prepare_symbols [of st] r by (auto simp: ef next_index_same)
  have "\<exists>name ofs. sym_name (syms f ! h) = Some name \<and> text_at (strtab_buf st) ofs (str_bytes name) \<and> es ! sym_no f h = sym_record f h ofs"
    if h: "h \<in> set (live_syms f)" for h
  proof -
    have "sym_entry st h = the (emitElfSymbol st (syms f ! h))" by (simp add: sym_entry_def ef)
    then show ?thesis using symbol_entry [OF e ef names ready h] p(3) h by auto
  qed
  then have "symbols_named f (strtab_buf st) es" using p(2) by (simp add: symbols_named_def)
  moreover have "symbols_numbered f idx" using p(3) by (simp add: symbols_numbered_def)
  ultimately show ?thesis using p(1) by blast
qed

lemma prepare_run:
  assumes ready: "elf_ready tab f" and after: "after \<noteq> []"
  shows "\<exists>st1 st3 st4 st. prepareRelocSections after (elf_start f tab) = Some st1 \<and> addSpecialStrings after (writeFileHeader c st1) = Some st3
    \<and> prepareStringTable st3 = Some st4 \<and> prepareSymbolTable c st4 = Some st \<and> headers_ready c f st"
proof -
  define xs rs where "xs = sec_list f" and "rs = filter (has_relocs f) (sec_list f)"
  have inv: "table_inv tab" using ready by (simp add: elf_ready_def names_in_def)
  have idx: "distinct xs" "next_index f = length xs" "\<forall>i \<in> set xs. i < length (secs f)"
    using ready by (auto simp: elf_ready_def indices_ok_def xs_def in_set_conv_nth)
  have secname: "str_bytes (sec_name (secs f ! i)) \<in> set (texts tab)" if "i \<in> set xs" for i
    using that ready by (simp add: elf_ready_def names_in_def xs_def)
  have start: "ef (elf_start f tab) = f" "strs (elf_start f tab) = tab" "out (elf_start f tab) = []"
      "\<And>i. reloc_prefix (elf_start f tab) @ sec_name (secs f ! i) = reloc_name f i"
    by (simp_all add: elf_start_def reloc_prefix_def use_rela_cpu reloc_name_def)
  have "\<forall>i \<in> set xs. i < length (secs f) \<and> c_string (str_bytes (sec_name (secs f ! i))) \<and> (has_relocs f i \<longrightarrow> length (sec_name (secs f ! i)) \<le> 127)"
    using idx(3) secname names_c_string [OF inv] ready by (simp add: elf_ready_def has_relocs_def section_ready_def xs_def)
  then obtain st1 ys where st1: "fold_opt (prep_reloc_section after) xs (elf_start f tab) = Some st1" "prep_frame (elf_start f tab) st1"
      "next_index (ef st1) = file_index f" "table_inv (strs st1)" "texts (strs st1) = texts tab @ ys"
      "\<forall>j < length rs. let i = rs ! j in relocs_index st1 i = Some (length xs + j)
         \<and> (\<exists>h. relocs_name st1 i = Some h \<and> OWLStringText (strs st1) h = Some (str_bytes (reloc_name f i)))"
    using prepare_relocs [of "elf_start f tab" after xs] inv after idx(1,2) by (auto simp: rs_def xs_def start file_index_def)
  have ef1: "ef st1 = f\<lparr>next_index := file_index f\<rparr>" "out st1 = []" using st1(2,3) by (simp_all add: prep_frame_def start)
  define st2 where "st2 = writeFileHeader c st1"
  have st2: "ef st2 = ef st1" "strs st2 = strs st1" "relocs_index st2 = relocs_index st1" "relocs_name st2 = relocs_name st1"
      "out st2 = put_ehdr c \<lparr>e_machine = machineTypes (f_cpu f), e_shoff = ehdr_size c, e_shnum = OWLIndexToELFIndex (file_index f)\<rparr>"
    by (simp_all add: st2_def writeFileHeader_def emit_def ef1 numSections_def)
  obtain tab3 h3 k3 zs where st3: "addSpecialStrings after st2 = Some (st2\<lparr>strs := tab3, strtab_name := h3, symtab_name := k3\<rparr>)"
      "table_inv tab3" "texts tab3 = texts (strs st1) @ zs"
      "OWLStringText tab3 h3 = Some (str_bytes ''.strtab'')" "OWLStringText tab3 k3 = Some (str_bytes ''.symtab'')"
    using add_special [of st2 after] st1(4) after st2(2) by auto
  define st3' where "st3' = st2\<lparr>strs := tab3, strtab_name := h3, symtab_name := k3\<rparr>"
  have "table_inv (strs st3')" using st3(2) by (simp add: st3'_def)
  then obtain tab4 buf where p4: "prepareStringTable st3' = Some (st3'\<lparr>strs := tab4, strtab_buf := buf\<rparr>)" "pat_nodes tab4 = pat_nodes tab3"
      "emitted (st3'\<lparr>strs := tab4, strtab_buf := buf\<rparr>)"
    using prepare_strings [of st3'] by (auto simp: st3'_def)
  define st4 where "st4 = st3'\<lparr>strs := tab4, strtab_buf := buf\<rparr>"
  have st4: "ef st4 = f\<lparr>next_index := file_index f\<rparr>" "relocs_index st4 = relocs_index st1" "relocs_name st4 = relocs_name st1"
      "strtab_name st4 = h3" "symtab_name st4 = k3" "emitted st4" "out st4 = out st2" "texts (strs st4) = texts (strs st1) @ zs"
    using p4(2,3) st3(3) by (simp_all add: st4_def st3'_def st2 ef1)
  have text4: "OWLStringText (strs st4) h = OWLStringText tab3 h" for h using p4(2) by (simp add: st4_def OWLStringText_def)
  have sub: "set (texts tab) \<subseteq> set (texts (strs st4))" using st4(8) st1(5) by simp
  obtain idx es where p5: "prepareSymbolTable c st4 = Some (st4\<lparr>sym_index := idx, symtab_buf := concat (map (put_sym c) es)\<rparr>)"
      "symbols_numbered f idx" "symbols_named f (strtab_buf st4) es"
    using symbols_run [OF st4(6,1) sub ready] by blast
  define st5 where "st5 = st4\<lparr>sym_index := idx, symtab_buf := concat (map (put_sym c) es)\<rparr>"
  have "sections_named f st4"
    using name_offset_found [OF st4(6)] secname sub unfolding sections_named_def xs_def by blast
  moreover have "relocs_named f st4"
    using reloc_names_kept [OF st1(4) st4(8,6,2,3) st1(6)] by (simp add: relocs_named_def xs_def rs_def)
  moreover have "OWLStringOffset (strs st4) h3 \<noteq> None" "OWLStringOffset (strs st4) k3 \<noteq> None"
    using st4(6) st3(4,5) text4 unfolding emitted_def by (metis option.distinct(1))+
  ultimately have "headers_ready c f st5"
    using st4 st2(5) p5(2,3)
    by (auto simp: headers_ready_def st5_def sections_named_def relocs_named_def name_offset_def)
  then show ?thesis using st1(1) st3(1) p4(1) p5(1)
    by (auto simp: prepareRelocSections_def start xs_def st2_def [symmetric] st3'_def [symmetric] st4_def [symmetric] st5_def [symmetric])
qed

end

text \<open>Where the parts are: after the headers the names, the symbols, and section by section the contents and relocations.\<close>

definition names_at :: "elf_class \<Rightarrow> owl_file \<Rightarrow> nat" where
  "names_at c f = ehdr_size c + OWLIndexToELFIndex (file_index f) * shdr_size c"

definition entry_size :: "elf_class \<Rightarrow> owl_file \<Rightarrow> nat" where
  "entry_size c f = (if rela_cpu (f_cpu f) then rela_size c else rel_size c)"

definition section_at :: "elf_class \<Rightarrow> owl_file \<Rightarrow> nat \<Rightarrow> nat \<Rightarrow> nat" where
  "section_at c f str_len j = names_at c f + str_len + sym_size c * (length (live_syms f) + 1)
     + total_len (entry_size c f) f (take j (sec_list f))"

definition special_headers :: "elf_class \<Rightarrow> owl_file \<Rightarrow> nat \<Rightarrow> elf_shdr list \<Rightarrow> bool" where
  "special_headers c f str_len hs \<longleftrightarrow> length hs = OWLIndexToELFIndex (file_index f) \<and> hs ! 0 = shdr_zero
     \<and> sh_type (hs ! 1) = 3 \<and> sh_offset (hs ! 1) = names_at c f \<and> sh_size (hs ! 1) = int str_len
     \<and> sh_type (hs ! 2) = 2 \<and> sh_offset (hs ! 2) = names_at c f + str_len \<and> sh_size (hs ! 2) = int (sym_size c * (length (live_syms f) + 1))
     \<and> sh_link (hs ! 2) = 1 \<and> sh_info (hs ! 2) = length (live_locals f) + 1 \<and> sh_entsize (hs ! 2) = sym_size c"

lemma slots_of_position:
  assumes ready: "indices_ok f" and st: "headers_ready c f st" and j: "j < length (sec_list f)"
  shows "OWLIndexToELFIndex (sec_index (secs (ef st) ! (sec_list f ! j))) = 3 + j"
  using assms by (simp add: indices_ok_def headers_ready_def OWLIndexToELFIndex_def FIRST_USER_SECTION_def)

lemma relocs_index_of:
  assumes "headers_ready c f st" and "i \<in> set (sec_list f)" and "has_relocs f i"
  shows "\<exists>j < length (filter (has_relocs f) (sec_list f)). i = filter (has_relocs f) (sec_list f) ! j
    \<and> relocs_index st i = Some (length (sec_list f) + j)"
proof -
  have "i \<in> set (filter (has_relocs f) (sec_list f))" using assms(2,3) by simp
  then obtain j where "j < length (filter (has_relocs f) (sec_list f))" "filter (has_relocs f) (sec_list f) ! j = i"
    by (auto simp only: in_set_conv_nth)
  then show ?thesis using assms(1) by (auto simp: headers_ready_def relocs_named_def)
qed

lemma slots_distinct:
  assumes ready: "indices_ok f" and st: "headers_ready c f st"
  shows "distinct (concat (map (header_slots st) (sec_list f)))"
    and "\<And>q. q \<in> set (concat (map (header_slots st) (sec_list f))) \<Longrightarrow> 3 \<le> q \<and> q < OWLIndexToELFIndex (file_index f)"
proof -
  define A B where "A i = OWLIndexToELFIndex (sec_index (secs (ef st) ! i))" and "B i = OWLIndexToELFIndex (the (relocs_index st i))" for i
  have d: "distinct (sec_list f)" using ready by (simp add: indices_ok_def)
  have hr: "has_relocs (ef st) = has_relocs f" using st by (simp add: headers_ready_def next_index_same)
  have slots: "header_slots st = (\<lambda>i. A i # (if has_relocs f i then [B i] else []))"
    by (simp add: fun_eq_iff header_slots_def A_def B_def hr)
  have Apos: "\<exists>j < length (sec_list f). i = sec_list f ! j \<and> A i = 3 + j" if i: "i \<in> set (sec_list f)" for i
  proof -
    obtain j where "j < length (sec_list f)" "sec_list f ! j = i" using i by (auto simp: in_set_conv_nth)
    then show ?thesis using slots_of_position [OF ready st, of j] by (auto simp: A_def)
  qed
  have Bpos: "\<exists>j < length (filter (has_relocs f) (sec_list f)). i = filter (has_relocs f) (sec_list f) ! j \<and> B i = 3 + length (sec_list f) + j"
    if "i \<in> set (sec_list f)" "has_relocs f i" for i
    using relocs_index_of [OF st that] by (auto simp: B_def OWLIndexToELFIndex_def FIRST_USER_SECTION_def)
  show "distinct (concat (map (header_slots st) (sec_list f)))"
    unfolding slots
  proof (rule distinct_slots [OF d])
    show "inj_on A (set (sec_list f))" using Apos by (intro inj_onI) (metis add_left_cancel)
    show "inj_on B (set (filter (has_relocs f) (sec_list f)))"
      using Bpos by (intro inj_onI) (metis add_left_cancel filter_is_subset mem_Collect_eq set_filter)
    show "A i \<noteq> B k" if "i \<in> set (sec_list f)" "k \<in> set (sec_list f)" "has_relocs f k" for i k
      using Apos [OF that(1)] Bpos [OF that(2,3)] by auto
  qed
  show "3 \<le> q \<and> q < OWLIndexToELFIndex (file_index f)" if "q \<in> set (concat (map (header_slots st) (sec_list f)))" for q
  proof -
    obtain i where i: "i \<in> set (sec_list f)" "q \<in> set (header_slots st i)" using \<open>q \<in> _\<close> by auto
    then consider "q = A i" | "has_relocs f i" "q = B i" by (auto simp: slots split: if_splits)
    then show ?thesis
      using Apos [OF i(1)] Bpos [OF i(1)] by cases (auto simp: OWLIndexToELFIndex_def FIRST_USER_SECTION_def file_index_def)
  qed
qed

lemma slots_cover:
  assumes ready: "indices_ok f" and st: "headers_ready c f st" and "3 \<le> q" and "q < OWLIndexToELFIndex (file_index f)"
  shows "\<exists>j < length (sec_list f). q = 3 + j \<or> has_relocs f (sec_list f ! j) \<and> q = OWLIndexToELFIndex (the (relocs_index st (sec_list f ! j)))"
proof (cases "q < 3 + length (sec_list f)")
  case True
  then show ?thesis using assms(3) by (intro exI [of _ "q - 3"]) auto
next
  case False
  define rs where "rs = filter (has_relocs f) (sec_list f)"
  define j where "j = q - 3 - length (sec_list f)"
  have j: "j < length rs" using False assms(4) by (simp add: j_def rs_def OWLIndexToELFIndex_def FIRST_USER_SECTION_def file_index_def)
  then have "rs ! j \<in> set rs" by simp
  then have "rs ! j \<in> set (sec_list f)" "has_relocs f (rs ! j)" by (simp_all add: rs_def)
  then obtain k where k: "k < length (sec_list f)" "sec_list f ! k = rs ! j" by (auto simp: in_set_conv_nth)
  have "relocs_index st (rs ! j) = Some (length (sec_list f) + j)"
    using st j by (auto simp: headers_ready_def relocs_named_def rs_def)
  then have "q = OWLIndexToELFIndex (the (relocs_index st (sec_list f ! k)))"
    using k(2) False by (simp add: j_def OWLIndexToELFIndex_def FIRST_USER_SECTION_def)
  then show ?thesis using k \<open>has_relocs f (rs ! j)\<close> by auto
qed

lemma header_ok_all:
  assumes ready: "elf_ready tab f" and st: "headers_ready c f st" and i: "i \<in> set (sec_list f)"
  shows "header_ok (OWLIndexToELFIndex (file_index f)) st i"
proof -
  have ef: "ef st = f\<lparr>next_index := file_index f\<rparr>" using st by (simp add: headers_ready_def)
  have idx: "indices_ok f" using ready by (simp add: elf_ready_def)
  have rdy: "section_ready f (secs f ! i)" "i < length (secs f)"
    using ready i by (auto simp: elf_ready_def indices_ok_def in_set_conv_nth)
  obtain ofs where name: "name_offset st (sec_name (secs f ! i)) = Some ofs" using st i by (auto simp: headers_ready_def sections_named_def)
  have slots: "\<forall>q \<in> set (header_slots st i). q < OWLIndexToELFIndex (file_index f)"
    using slots_distinct(2) [OF idx st] i by auto
  have "relocs_index st i \<noteq> None \<and> (\<exists>h. relocs_name st i = Some h \<and> OWLStringOffset (strs st) h \<noteq> None)" if "has_relocs f i"
    using relocs_index_of [OF st i that] st by (auto simp: headers_ready_def relocs_named_def)
  then show ?thesis using rdy name slots by (simp add: header_ok_def ef next_index_same)
qed

context elf_layout
begin

lemma headers_run:
  assumes ready: "elf_ready tab f" and st: "headers_ready c f st"
  shows "\<exists>st' hs. emitSectionHeaders c st = Some st' \<and> out st' = out st @ concat (map (put_shdr c) hs)
    \<and> ef st' = ef st \<and> strtab_buf st' = strtab_buf st \<and> symtab_buf st' = symtab_buf st \<and> sym_index st' = sym_index st
    \<and> (\<forall>i \<in> set (sec_list f). pad_amount st' i = Some (sec_pad f i))
    \<and> special_headers c f (length (strtab_buf st)) hs
    \<and> (\<forall>j < length (sec_list f). hs ! (3 + j) = sec_header st (sec_list f ! j) (section_at c f (length (strtab_buf st)) j)
         \<and> (has_relocs f (sec_list f ! j) \<longrightarrow> hs ! OWLIndexToELFIndex (the (relocs_index st (sec_list f ! j)))
              = rel_header c st (sec_list f ! j) (section_at c f (length (strtab_buf st)) j + data_len f (sec_list f ! j))))"
proof -
  define n where "n = OWLIndexToELFIndex (file_index f)"
  have n3: "3 \<le> n" by (simp add: n_def OWLIndexToELFIndex_def FIRST_USER_SECTION_def)
  have ef: "ef st = f\<lparr>next_index := file_index f\<rparr>" using st by (simp add: headers_ready_def)
  have ready': "indices_ok f" "counts_live f" "length (syms f) < 2 ^ 32 - 1" using ready by (simp_all add: elf_ready_def)
  obtain es where es: "symtab_buf st = concat (map (put_sym c) es)" "length es = length (live_syms f) + 1"
    using st by (auto simp: headers_ready_def symbols_named_def)
  have lsym: "length (symtab_buf st) = sym_size c * (length (live_syms f) + 1)"
    using length_concat_chunks [of "map (put_sym c) es" "sym_size c"] sym_law es by simp
  have entry: "reloc_entry_size c st = entry_size c f" by (simp add: reloc_entry_size_def entry_size_def use_rela_cpu ef)
  obtain o1 o2 where o: "OWLStringOffset (strs st) (strtab_name st) = Some o1" "OWLStringOffset (strs st) (symtab_name st) = Some o2"
    using st by (auto simp: headers_ready_def)
  define base where "base = names_at c f"
  define st0 where "st0 = st\<lparr>next_sect := base\<rparr>"
  define h1 where "h1 = shdr_zero\<lparr>sh_type := 3, sh_name := o1, sh_offset := base, sh_size := int (length (strtab_buf st))\<rparr>"
  define h2 where "h2 = shdr_zero\<lparr>sh_type := 2, sh_name := o2, sh_link := ELF_STRING_INDEX, sh_info := unat (num_local_symbols f + 1),
      sh_entsize := sym_size c, sh_offset := base + length (strtab_buf st), sh_size := int (length (symtab_buf st)), sh_addralign := tab_align c\<rparr>"
  define st2 where "st2 = st\<lparr>next_sect := base + length (strtab_buf st) + length (symtab_buf st)\<rparr>"
  define hs0 where "hs0 = (replicate n None)[0 := Some shdr_zero, 1 := Some h1, 2 := Some h2]"
  have len0: "length hs0 = n" by (simp add: hs0_def)
  have fr: "header_frame st st2" unfolding st2_def by (rule header_frame_next [OF header_frame_refl])
  note same = header_frame_same [OF fr]
  have "\<forall>i \<in> set (sec_list f). header_ok (length hs0) st2 i"
    using header_ok_all [OF ready st] by (simp add: header_ok_frame [OF fr] len0 n_def)
  moreover have "distinct (concat (map (header_slots st2) (sec_list f)))" using slots_distinct(1) [OF ready'(1) st] by (simp add: same)
  moreover have "distinct (sec_list f)" using ready'(1) by (simp add: indices_ok_def)
  ultimately obtain hs' st' where u: "fold_opt (user_header c) (sec_list f) (hs0, st2) = Some (hs', st')" "header_frame st2 st'"
      "length hs' = n" "\<forall>i \<in> set (sec_list f). pad_amount st' i = Some (sec_pad (ef st2) i)"
      "\<forall>q. q \<notin> set (concat (map (header_slots st2) (sec_list f))) \<longrightarrow> hs' ! q = hs0 ! q"
      "\<forall>j < length (sec_list f). let i = sec_list f ! j; ofs = next_sect st2 + total_len (reloc_entry_size c st2) (ef st2) (take j (sec_list f)) in
         hs' ! OWLIndexToELFIndex (sec_index (secs (ef st2) ! i)) = Some (sec_header st2 i ofs)
         \<and> (has_relocs (ef st2) i \<longrightarrow> hs' ! OWLIndexToELFIndex (the (relocs_index st2 i)) = Some (rel_header c st2 i (ofs + data_len (ef st2) i)))"
    using user_headers_run [of "sec_list f" hs0 st2 c] len0 by auto
  have at: "section_at c f (length (strtab_buf st)) j = next_sect st2 + total_len (reloc_entry_size c st2) (ef st2) (take j (sec_list f))" for j
    by (simp add: section_at_def st2_def base_def entry lsym) (simp add: ef next_index_same entry reloc_entry_size_def use_rela_def entry_size_def rela_cpu_def)
  have secs: "hs' ! (3 + j) = Some (sec_header st (sec_list f ! j) (section_at c f (length (strtab_buf st)) j))
      \<and> (has_relocs f (sec_list f ! j) \<longrightarrow> hs' ! OWLIndexToELFIndex (the (relocs_index st (sec_list f ! j)))
           = Some (rel_header c st (sec_list f ! j) (section_at c f (length (strtab_buf st)) j + data_len f (sec_list f ! j))))"
    if "j < length (sec_list f)" for j
    using u(6) [rule_format, OF that] slots_of_position [OF ready'(1) st that] unfolding at same by (simp add: Let_def ef next_index_same)
  have low: "hs' ! q = hs0 ! q" if "q < 3" for q
    using u(5) slots_distinct(2) [OF ready'(1) st, of q] that by (auto simp: same)
  have all: "hs' ! q = Some (the (hs' ! q))" if "q < n" for q
  proof (cases "q < 3")
    case True
    then have "q \<in> {0, 1, 2}" by auto
    then show ?thesis using low [OF True] n3 by (auto simp: hs0_def)
  next
    case False
    have "q < OWLIndexToELFIndex (file_index f)" using that by (simp add: n_def)
    then obtain j where "j < length (sec_list f)" "q = 3 + j \<or> has_relocs f (sec_list f ! j) \<and> q = OWLIndexToELFIndex (the (relocs_index st (sec_list f ! j)))"
      using slots_cover [OF ready'(1) st, of q] False by auto
    then show ?thesis using secs by auto
  qed
  define hs where "hs = map (\<lambda>q. the (hs' ! q)) [0..<n]"
  have some: "all_some hs' = Some hs" using all_some_nth [of hs' "\<lambda>q. the (hs' ! q)"] all u(3) by (simp add: hs_def)
  have nth: "hs ! q = the (hs' ! q)" if "q < n" for q using that by (simp add: hs_def)
  note same' = header_frame_same [OF u(2)]
  have base: "base = ehdr_size c + n * shdr_size c" by (simp add: base_def names_at_def n_def)
  have hs0': "hs0 = (replicate n None)[0 := Some shdr_zero, Suc 0 := Some h1, 2 := Some h2]" by (simp add: hs0_def)
  have run: "emitSectionHeaders c st = Some (emit (concat (map (put_shdr c) hs)) st')"
    using n3 o u(1) some
    by (simp add: emitSectionHeaders_def numSections_def ef n_def [symmetric] put_header_def formatStringTableHeader_def
        formatSymbolTableHeader_def ELF_UNDEF_INDEX_def ELF_STRING_INDEX_def ELF_SYMBOL_INDEX_def formatUserSectionHeaders_def
        h1_def h2_def hs0' st2_def base)
  have local_count: "unat (num_local_symbols f + 1) = length (live_locals f) + 1"
  proof -
    have "length (live_locals f) \<le> length (syms f)"
      using length_filter_le [of "\<lambda>h. \<not> sym_dead (syms f ! h)" "[0..<length (syms f)]"] length_filter_le [of "\<lambda>h. is_local (syms f ! h)" "live_syms f"]
      by (simp add: live_locals_def live_syms_def)
    moreover have "num_local_symbols f + 1 = word_of_nat (length (live_locals f) + 1)" using ready'(2) by (simp add: counts_live_def)
    ultimately show ?thesis using ready'(3) unat_small32 [of "length (live_locals f) + 1"] by (simp add: add.commute)
  qed
  have "special_headers c f (length (strtab_buf st)) hs"
    using nth low n3 local_count
    by (simp add: special_headers_def hs_def [symmetric] n_def [symmetric] hs0_def h1_def h2_def base_def lsym ELF_STRING_INDEX_def)
      (simp add: hs_def)
  moreover have "\<forall>j < length (sec_list f). hs ! (3 + j) = sec_header st (sec_list f ! j) (section_at c f (length (strtab_buf st)) j)
         \<and> (has_relocs f (sec_list f ! j) \<longrightarrow> hs ! OWLIndexToELFIndex (the (relocs_index st (sec_list f ! j)))
              = rel_header c st (sec_list f ! j) (section_at c f (length (strtab_buf st)) j + data_len f (sec_list f ! j)))"
  proof (intro allI impI)
    fix j
    assume j: "j < length (sec_list f)"
    then have "3 + j < n" by (simp add: n_def OWLIndexToELFIndex_def FIRST_USER_SECTION_def file_index_def)
    moreover have "OWLIndexToELFIndex (the (relocs_index st (sec_list f ! j))) < n" if "has_relocs f (sec_list f ! j)"
      using relocs_index_of [OF st _ that] j by (auto simp: n_def OWLIndexToELFIndex_def file_index_def)
    ultimately show "hs ! (3 + j) = sec_header st (sec_list f ! j) (section_at c f (length (strtab_buf st)) j)
         \<and> (has_relocs f (sec_list f ! j) \<longrightarrow> hs ! OWLIndexToELFIndex (the (relocs_index st (sec_list f ! j)))
              = rel_header c st (sec_list f ! j) (section_at c f (length (strtab_buf st)) j + data_len f (sec_list f ! j)))"
      using secs [OF j] nth by simp
  qed
  moreover have "\<forall>i \<in> set (sec_list f). pad_amount st' i = Some (sec_pad f i)" using u(4) by (simp add: same ef next_index_same)
  ultimately show ?thesis using run by (auto simp: emit_def same same')
qed

lemma elf_emit_run:
  assumes ready: "elf_ready tab f" and after: "after \<noteq> []"
  shows "\<exists>st sth hs. elf_emit c after (elf_start f tab) = Some st \<and> headers_ready c f sth
    \<and> special_headers c f (length (strtab_buf sth)) hs
    \<and> (\<forall>j < length (sec_list f). hs ! (3 + j) = sec_header sth (sec_list f ! j) (section_at c f (length (strtab_buf sth)) j)
         \<and> (has_relocs f (sec_list f ! j) \<longrightarrow> hs ! OWLIndexToELFIndex (the (relocs_index sth (sec_list f ! j)))
              = rel_header c sth (sec_list f ! j) (section_at c f (length (strtab_buf sth)) j + data_len f (sec_list f ! j))))
    \<and> out st = out sth @ concat (map (put_shdr c) hs) @ strtab_buf sth @ symtab_buf sth
         @ concat (map (\<lambda>i. data_chunk f i @ rels_chunk c f (sym_index sth) i) (sec_list f))"
proof -
  obtain st1 st3 st4 sth where p: "prepareRelocSections after (elf_start f tab) = Some st1"
      "addSpecialStrings after (writeFileHeader c st1) = Some st3" "prepareStringTable st3 = Some st4" "prepareSymbolTable c st4 = Some sth"
      and hr: "headers_ready c f sth"
    using prepare_run [OF ready after] by blast
  obtain st5 hs where h: "emitSectionHeaders c sth = Some st5" "out st5 = out sth @ concat (map (put_shdr c) hs)"
      "ef st5 = ef sth" "strtab_buf st5 = strtab_buf sth" "symtab_buf st5 = symtab_buf sth" "sym_index st5 = sym_index sth"
      "\<forall>i \<in> set (sec_list f). pad_amount st5 i = Some (sec_pad f i)" "special_headers c f (length (strtab_buf sth)) hs"
      "\<forall>j < length (sec_list f). hs ! (3 + j) = sec_header sth (sec_list f ! j) (section_at c f (length (strtab_buf sth)) j)
         \<and> (has_relocs f (sec_list f ! j) \<longrightarrow> hs ! OWLIndexToELFIndex (the (relocs_index sth (sec_list f ! j)))
              = rel_header c sth (sec_list f ! j) (section_at c f (length (strtab_buf sth)) j + data_len f (sec_list f ! j)))"
    using headers_run [OF ready hr] by blast
  define st6 where "st6 = emit (symtab_buf sth) (emit (strtab_buf sth) st5)"
  have ef: "ef sth = f\<lparr>next_index := file_index f\<rparr>" using hr by (simp add: headers_ready_def)
  have bufs: "symtab_buf (emit (strtab_buf sth) st5) = symtab_buf sth" using h(5) by (simp add: emit_def)
  have st6: "ef st6 = f\<lparr>next_index := file_index f\<rparr>" "pad_amount st6 = pad_amount st5" "sym_index st6 = sym_index sth"
      "out st6 = out sth @ concat (map (put_shdr c) hs) @ strtab_buf sth @ symtab_buf sth"
    using h(2,3,6) ef by (simp_all add: st6_def emit_def)
  have "\<forall>i \<in> set (sec_list f). i < length (secs (ef st6)) \<and> section_ready (ef st6) (secs (ef st6) ! i) \<and> pad_amount st6 i = Some (sec_pad (ef st6) i)"
    using ready h(7) by (auto simp: st6(1,2) next_index_same elf_ready_def indices_ok_def in_set_conv_nth)
  moreover have "distinct (sec_list f)" using ready by (simp add: elf_ready_def indices_ok_def)
  ultimately obtain st where "fold_opt (emit_section c) (sec_list f) st6 = Some st"
      "out st = out st6 @ concat (map (\<lambda>i. data_chunk (ef st6) i @ rels_chunk c (ef st6) (sym_index st6) i) (sec_list f))"
    using emit_data_run [of "sec_list f" st6] by blast
  then have "elf_emit c after (elf_start f tab) = Some st"
      "out st = out sth @ concat (map (put_shdr c) hs) @ strtab_buf sth @ symtab_buf sth
         @ concat (map (\<lambda>i. data_chunk f i @ rels_chunk c f (sym_index sth) i) (sec_list f))"
    using p h(1,4) st6 bufs by (simp_all add: elf_emit_def emitSectionData_def Let_def st6_def [symmetric] next_index_same)
  then show ?thesis using hr h(8,9) by blast
qed

end

section \<open>Finding the parts\<close>

definition at_offset :: "bytes \<Rightarrow> nat \<Rightarrow> bytes \<Rightarrow> bool" where
  "at_offset d ofs part \<longleftrightarrow> ofs + length part \<le> length d \<and> take (length part) (drop ofs d) = part"

lemma at_offset_middle: "at_offset (a @ x @ b) (length a) x"
  by (simp add: at_offset_def)

lemma at_offset_in:
  assumes "at_offset d ofs part" and "at_offset part p x"
  shows "at_offset d (ofs + p) x"
proof -
  have part: "part = take (length part) (drop ofs d)" and x: "p + length x \<le> length part" "take (length x) (drop p part) = x"
    using assms by (simp_all add: at_offset_def)
  have "drop p part = take (length part - p) (drop (ofs + p) d)" by (subst part) (simp add: drop_take add.commute)
  then have "take (length x) (drop (ofs + p) d) = x" using x by (metis add_le_imp_le_diff add.commute min_absorb1 take_take)
  then show ?thesis using assms by (simp add: at_offset_def)
qed

lemma at_offset_chunk:
  assumes "\<forall>x \<in> set xs. length x = n" and "k < length xs"
  shows "at_offset (concat xs) (n * k) (xs ! k)"
proof -
  have "length (xs ! k) = n" using assms by simp
  moreover have "n * k + n \<le> n * length xs" using assms(2) by (metis Suc_leI mult_Suc_right mult_le_mono2 add.commute)
  ultimately show ?thesis using concat_chunk [OF assms] length_concat_chunks [OF assms(1)] by (simp add: at_offset_def)
qed

lemma at_offset_concat:
  assumes "j < length xs"
  shows "at_offset (concat (map g xs)) (sum_list (map (\<lambda>x. length (g x)) (take j xs))) (g (xs ! j))"
proof -
  have "concat (map g xs) = concat (map g (take j xs)) @ g (xs ! j) @ concat (map g (drop (Suc j) xs))"
    using id_take_nth_drop [OF assms] by (metis concat.simps(2) concat_append list.simps(9) map_append)
  then show ?thesis using at_offset_middle [of "concat (map g (take j xs))"] by (simp add: length_concat comp_def)
qed

lemma text_at_offset: "text_at buf ofs s \<Longrightarrow> at_offset buf ofs (s @ [0])"
proof -
  assume a: "text_at buf ofs s"
  then have "length (take (length s + 1) (drop ofs buf)) = length s + 1" by (simp add: text_at_def)
  then have "ofs + (length s + 1) \<le> length buf" by simp
  then show ?thesis using a by (simp add: at_offset_def text_at_def)
qed


lemma at_offset_first: "at_offset (a @ b) 0 a" and at_offset_second: "at_offset (a @ b) (length a) b"
  by (simp_all add: at_offset_def)

text \<open>Fields that are four apart do not disturb one another.\<close>

definition apart :: "owl_reloc_info \<Rightarrow> owl_reloc_info \<Rightarrow> bool" where
  "apart r q \<longleftrightarrow> unat (rel_location r) + 4 \<le> unat (rel_location q) \<or> unat (rel_location q) + 4 \<le> unat (rel_location r)"

lemma length_clear_field: "unat (rel_location r) \<le> length cont \<Longrightarrow> length (clear_field cpu r cont) = length cont"
  by (simp add: clear_field_def length_overwrite field_len_def)

lemma length_clear_fields:
  "\<forall>r \<in> set rs. unat (rel_location r) \<le> length cont \<Longrightarrow> length (fold (clear_field cpu) rs cont) = length cont"
  by (induction rs arbitrary: cont) (auto simp: length_clear_field)

lemma take_overwrite_outside:
  assumes "i + length d \<le> length cont" and "p + n \<le> i \<or> i + length d \<le> p"
  shows "take n (drop p (overwrite cont i d)) = take n (drop p cont)"
proof (rule nth_equalityI)
  have len: "length (overwrite cont i d) = length cont" using assms(1) by (simp add: length_overwrite)
  then show "length (take n (drop p (overwrite cont i d))) = length (take n (drop p cont))" by simp
  fix k
  assume "k < length (take n (drop p (overwrite cont i d)))"
  then have "k < n" "p + k < length cont" using len by auto
  then show "take n (drop p (overwrite cont i d)) ! k = take n (drop p cont) ! k"
    using assms by (auto simp: nth_overwrite len)
qed

lemma field_kept:
  assumes "apart r q" and "unat (rel_location r) \<le> length cont"
  shows "field_data q (clear_field cpu r cont) = field_data q cont"
proof -
  have "take (field_len q cont) (drop (unat (rel_location q)) (clear_field cpu r cont)) = take (field_len q cont) (drop (unat (rel_location q)) cont)"
    unfolding clear_field_def if_distrib [of "\<lambda>x. take _ (drop _ x)"]
    by (cases "rela_cpu cpu"; simp; rule take_overwrite_outside) (use assms in \<open>auto simp: apart_def field_len_def\<close>)
  then show ?thesis using assms(2) by (simp add: field_data_def field_len_def length_clear_field)
qed

lemma fields_kept:
  assumes "\<forall>r \<in> set rs. apart r q" and "\<forall>r \<in> set rs. unat (rel_location r) \<le> length cont"
  shows "field_data q (fold (clear_field cpu) rs cont) = field_data q cont"
  using assms by (induction rs arbitrary: cont) (simp_all add: length_clear_field field_kept)

lemma reloc_entries_nth:
  "m < length rs \<Longrightarrow> reloc_entries cpu idx rs cont ! m = reloc_entry cpu idx (rs ! m) (fold (clear_field cpu) (take m rs) cont)"
proof (induction rs arbitrary: m cont)
  case (Cons r rs)
  then show ?case by (cases m) simp_all
qed simp

definition fields_apart :: "owl_reloc_info list \<Rightarrow> bool" where
  "fields_apart rs \<longleftrightarrow> (\<forall>j < length rs. \<forall>k < j. apart (rs ! k) (rs ! j))"

lemma fields_apartD: "fields_apart rs \<Longrightarrow> j < length rs \<Longrightarrow> k < length rs \<Longrightarrow> j \<noteq> k \<Longrightarrow> apart (rs ! j) (rs ! k)"
  by (cases j k rule: linorder_cases) (auto simp: fields_apart_def apart_def)

text \<open>The entry a relocation should have: its symbol by number, its addend what the field held.\<close>

definition reloc_record :: "owl_file \<Rightarrow> nat \<Rightarrow> owl_reloc_info \<Rightarrow> elf_rela" where
  "reloc_record f i r =
    \<lparr>r_offset = sint (rel_location r), r_sym = sym_no f (rel_symbol r), r_type = unat (the (ElfRelocType (rel_type r) (f_cpu f))),
     r_addend = if rela_cpu (f_cpu f)
       then sint (field_data r (section_contents (secs f ! i)) AND the (OWLRelocBitMask (f_cpu f) (rel_type r))) else 0\<rparr>"

lemma entry_is_record:
  assumes "section_ready f (secs f ! i)" and "m < length (sec_relocs (secs f ! i))" and "fields_apart (sec_relocs (secs f ! i))"
    and "rel_symbol (sec_relocs (secs f ! i) ! m) \<in> set (live_syms f)" and "symbols_numbered f idx"
  shows "section_entries f idx i ! m = reloc_record f i (sec_relocs (secs f ! i) ! m)"
proof -
  define rs where "rs = sec_relocs (secs f ! i)"
  have m: "m < length rs" using assms(2) by (simp add: rs_def)
  obtain b where b: "sec_buffer (secs f ! i) = Some b" "bsize b = unat (sec_size (secs f ! i))"
    using assms(1,2) by (auto simp: section_ready_def split: option.splits)
  have inside: "\<forall>r \<in> set rs. unat (rel_location r) \<le> length (buffer_contents b)"
    using assms(1) b by (auto simp: section_ready_def rs_def intro: less_imp_le)
  have "\<forall>r \<in> set (take m rs). apart r (rs ! m)"
    using assms(3) m by (auto simp: fields_apart_def rs_def [symmetric] in_set_conv_nth)
  moreover have "\<forall>r \<in> set (take m rs). unat (rel_location r) \<le> length (buffer_contents b)"
    using inside by (auto dest: in_set_takeD)
  ultimately have "field_data (rs ! m) (fold (clear_field (f_cpu f)) (take m rs) (buffer_contents b)) = field_data (rs ! m) (buffer_contents b)"
    by (rule fields_kept)
  then show ?thesis
    using assms(4,5) m b(1)
    by (simp add: section_entries_def rs_def [symmetric] reloc_entries_nth reloc_entry_def reloc_record_def symbols_numbered_def section_contents_def)
qed


section \<open>What a reader of the file finds\<close>

lemma length_data_chunk:
  assumes "section_ready f (secs f ! i)"
  shows "length (data_chunk f i) = data_len f i"
proof (cases "sec_buffer (secs f ! i)")
  case None
  then show ?thesis using assms by (simp add: section_ready_def data_chunk_def data_len_def)
next
  case (Some b)
  then have "\<forall>r \<in> set (sec_relocs (secs f ! i)). unat (rel_location r) \<le> length (buffer_contents b)" "bsize b = unat (sec_size (secs f ! i))"
    using assms by (auto simp: section_ready_def intro: less_imp_le)
  then show ?thesis using Some length_clear_fields [of "sec_relocs (secs f ! i)" "buffer_contents b"]
    by (simp add: data_chunk_def data_len_def section_image_def)
qed

lemma section_entries_count:
  assumes "section_ready f (secs f ! i)"
  shows "length (section_entries f idx i) = length (sec_relocs (secs f ! i))"
  using assms by (auto simp: section_entries_def section_ready_def split: option.splits)

lemma padded_size: "sec_align s \<noteq> 0 \<Longrightarrow> (n + sectionPadding s n) mod unat (sec_align s) = 0"
proof -
  define a where "a = unat (sec_align s)"
  assume nz: "sec_align s \<noteq> 0"
  then have "0 < a" by (simp add: a_def unat_gt_0)
  then have "n mod a < a" by simp
  then have "(n + (a - n mod a)) mod a = 0" by (metis add_diff_inverse_nat add_diff_cancel_left' less_imp_le_nat linorder_not_less mod_add_left_eq mod_self)
  then show ?thesis using nz by (simp add: sectionPadding_def a_def [symmetric] Let_def)
qed

lemma le_val_bytes_small:
  fixes w :: u32
  assumes "length d \<le> 4"
  shows "(word_of_nat (le_val (le_bytes (length d) (unat (word_of_nat (le_val d) AND w)))) :: u32) = word_of_nat (le_val d) AND w"
proof -
  have lt: "le_val d < 256 ^ length d" by (rule le_val_bound)
  have "(256::nat) ^ length d \<le> 256 ^ 4" using assms by (intro power_increasing) simp_all
  then have v: "unat (word_of_nat (le_val d) :: u32) = le_val d" using lt by (intro unat_small32) simp
  have "(word_of_nat (le_val d) :: u32) AND w \<le> word_of_nat (le_val d)" by (rule word_and_le2)
  then have "unat ((word_of_nat (le_val d) :: u32) AND w) < 256 ^ length d" using lt v by (simp add: word_le_nat_alt)
  then show ?thesis by (simp add: le_val_le_bytes)
qed

lemma field_cleared:
  assumes "rela_cpu cpu" and "unat (rel_location r) \<le> length cont"
  shows "field_data r (clear_field cpu r cont) = field_data r cont AND NOT (the (OWLRelocBitMask cpu (rel_type r)))"
proof -
  define d where "d = take (field_len r cont) (drop (unat (rel_location r)) cont)"
  have d: "length d = field_len r cont" by (simp add: d_def field_len_def)
  have fd: "field_data r cont = word_of_nat (le_val d)" by (simp add: field_data_def d_def)
  have l: "field_len r (clear_field cpu r cont) = field_len r cont" using assms(2) by (simp add: field_len_def length_clear_field)
  have "take (field_len r cont) (drop (unat (rel_location r)) (clear_field cpu r cont))
      = le_bytes (length d) (unat (field_data r cont AND NOT (the (OWLRelocBitMask cpu (rel_type r)))))"
    using overwrite_at [of "le_bytes (length d) (unat (field_data r cont AND NOT (the (OWLRelocBitMask cpu (rel_type r)))))" "unat (rel_location r)" cont]
    by (simp add: clear_field_def assms(1) d)
  then have "field_data r (clear_field cpu r cont)
      = word_of_nat (le_val (le_bytes (length d) (unat (field_data r cont AND NOT (the (OWLRelocBitMask cpu (rel_type r)))))))"
    by (simp only: field_data_def l)
  also have "\<dots> = field_data r cont AND NOT (the (OWLRelocBitMask cpu (rel_type r)))"
    unfolding fd by (rule le_val_bytes_small) (simp add: d field_len_def)
  finally show ?thesis .
qed

lemma image_field:
  assumes "section_ready f (secs f ! i)" and "m < length (sec_relocs (secs f ! i))" and "fields_apart (sec_relocs (secs f ! i))"
    and "rela_cpu (f_cpu f)"
  shows "field_data (sec_relocs (secs f ! i) ! m) (section_image f i)
    = field_data (sec_relocs (secs f ! i) ! m) (section_contents (secs f ! i))
        AND NOT (the (OWLRelocBitMask (f_cpu f) (rel_type (sec_relocs (secs f ! i) ! m))))"
proof -
  define rs where "rs = sec_relocs (secs f ! i)"
  have m: "m < length rs" using assms(2) by (simp add: rs_def)
  obtain b where b: "sec_buffer (secs f ! i) = Some b" "bsize b = unat (sec_size (secs f ! i))"
    using assms(1,2) by (auto simp: section_ready_def split: option.splits)
  define cont where "cont = buffer_contents b"
  have inside: "\<forall>r \<in> set rs. unat (rel_location r) \<le> length cont"
    using assms(1) b by (auto simp: section_ready_def rs_def cont_def intro: less_imp_le)
  have apart: "\<forall>r \<in> set (take m rs). apart r (rs ! m)" "\<forall>r \<in> set (drop (Suc m) rs). apart r (rs ! m)"
    using fields_apartD [OF assms(3)] m by (auto simp: rs_def [symmetric] in_set_conv_nth)
  define c1 where "c1 = fold (clear_field (f_cpu f)) (take m rs) cont"
  have len1: "length c1 = length cont" unfolding c1_def using inside by (intro length_clear_fields) (auto dest: in_set_takeD)
  have in_m: "unat (rel_location (rs ! m)) \<le> length cont" using inside m by simp
  have img: "section_image f i = fold (clear_field (f_cpu f)) (drop (Suc m) rs) (clear_field (f_cpu f) (rs ! m) c1)"
    using b(1) id_take_nth_drop [OF m]
    by (simp add: section_image_def rs_def [symmetric] cont_def [symmetric] c1_def) (metis fold_append fold_simps(2) comp_apply)
  have before: "field_data (rs ! m) c1 = field_data (rs ! m) cont"
    unfolding c1_def using apart(1) inside by (intro fields_kept) (auto dest: in_set_takeD)
  have "field_data (rs ! m) (section_image f i) = field_data (rs ! m) (clear_field (f_cpu f) (rs ! m) c1)"
    unfolding img using apart(2) inside in_m len1 by (intro fields_kept) (auto simp: length_clear_field dest: in_set_dropD)
  then show ?thesis using field_cleared [OF assms(4), of "rs ! m" c1] in_m len1 before b(1)
    by (simp add: rs_def section_contents_def cont_def)
qed

text \<open>What the headers say of a section, a symbol and the relocations of a section, and what is where they say.\<close>

definition headers_at :: "elf_class \<Rightarrow> owl_file \<Rightarrow> elf_shdr list \<Rightarrow> bytes \<Rightarrow> bool" where
  "headers_at c f hs d \<longleftrightarrow>
     at_offset d 0 (put_ehdr c \<lparr>e_machine = machineTypes (f_cpu f), e_shoff = ehdr_size c, e_shnum = length hs\<rparr>)
     \<and> at_offset d (ehdr_size c) (concat (map (put_shdr c) hs)) \<and> sh_type (hs ! 1) = 3 \<and> sh_type (hs ! 2) = 2"

definition section_written :: "owl_file \<Rightarrow> elf_shdr list \<Rightarrow> bytes \<Rightarrow> nat \<Rightarrow> bool" where
  "section_written f hs d j \<longleftrightarrow>
    (let i = sec_list f ! j; s = secs f ! i; h = hs ! (3 + j) in
       sh_type h = sectionTypes (sec_type s) \<and> sh_flags h = sectionFlags (sec_type s) \<and> sh_addralign h = unat (sec_align s)
       \<and> sh_size h = int (unat (sec_size s) + sec_pad f i) \<and> (unat (sec_size s) + sec_pad f i) mod unat (sec_align s) = 0
       \<and> at_offset d (sh_offset (hs ! 1) + sh_name h) (str_bytes (sec_name s) @ [0])
       \<and> (section_bss s \<or> at_offset d (sh_offset h) (section_image f i @ replicate (sec_pad f i) 0)))"

definition symbol_written :: "elf_class \<Rightarrow> owl_file \<Rightarrow> elf_shdr list \<Rightarrow> bytes \<Rightarrow> nat \<Rightarrow> bool" where
  "symbol_written c f hs d h \<longleftrightarrow>
    (\<exists>name ofs. sym_name (syms f ! h) = Some name
       \<and> at_offset d (sh_offset (hs ! 2) + sym_size c * sym_no f h) (put_sym c (sym_record f h ofs))
       \<and> at_offset d (sh_offset (hs ! 1) + ofs) (str_bytes name @ [0])
       \<and> 0 < sym_no f h \<and> int (sym_size c * (sym_no f h + 1)) \<le> sh_size (hs ! 2)
       \<and> (is_local (syms f ! h) \<longleftrightarrow> sym_no f h < sh_info (hs ! 2)))"

definition relocs_written :: "elf_class \<Rightarrow> owl_file \<Rightarrow> elf_shdr list \<Rightarrow> bytes \<Rightarrow> nat \<Rightarrow> bool" where
  "relocs_written c f hs d j \<longleftrightarrow>
    (let i = sec_list f ! j; rs = sec_relocs (secs f ! i) in
     \<exists>k < length hs. let h = hs ! k in
       sh_type h = (if rela_cpu (f_cpu f) then 4 else 9) \<and> sh_link h = 2 \<and> sh_info h = 3 + j
       \<and> sh_entsize h = entry_size c f \<and> sh_size h = int (entry_size c f * length rs)
       \<and> at_offset d (sh_offset (hs ! 1) + sh_name h) (str_bytes (reloc_name f i) @ [0])
       \<and> at_offset d (sh_offset (hs ! (3 + j))) (section_image f i)
       \<and> (\<forall>m < length rs. rel_symbol (rs ! m) \<in> set (live_syms f) \<longrightarrow>
            at_offset d (sh_offset h + entry_size c f * m) (put_entry c (f_cpu f) (reloc_record f i (rs ! m)))))"

definition parts_at :: "elf_class \<Rightarrow> owl_file \<Rightarrow> elf_state \<Rightarrow> elf_shdr list \<Rightarrow> elf_sym list \<Rightarrow> bytes \<Rightarrow> bool" where
  "parts_at c f st hs es d \<longleftrightarrow> headers_ready c f st \<and> symbols_named f (strtab_buf st) es \<and> special_headers c f (length (strtab_buf st)) hs
     \<and> headers_at c f hs d \<and> at_offset d (sh_offset (hs ! 1)) (strtab_buf st) \<and> at_offset d (sh_offset (hs ! 2)) (concat (map (put_sym c) es))
     \<and> (\<forall>j < length (sec_list f). let i = sec_list f ! j; ofs = section_at c f (length (strtab_buf st)) j in
          hs ! (3 + j) = sec_header st i ofs \<and> at_offset d ofs (data_chunk f i)
          \<and> (has_relocs f i \<longrightarrow> hs ! OWLIndexToELFIndex (the (relocs_index st i)) = rel_header c st i (ofs + data_len f i))
          \<and> at_offset d (ofs + data_len f i) (rels_chunk c f (sym_index st) i))"

context elf_layout
begin

lemma length_rels_chunk:
  assumes "section_ready f (secs f ! i)"
  shows "length (rels_chunk c f idx i) = rels_len (entry_size c f) f i"
  using length_concat_chunks [of "map (put_entry c (f_cpu f)) (section_entries f idx i)" "entry_size c f"] section_entries_count [OF assms]
  by (auto simp: rels_chunk_def rels_len_def put_entry_def entry_size_def length_put_rela rel_law)

text \<open>All parts at their offsets: file header, headers, names, symbols, and of each section data and relocations.\<close>

lemma file_parts:
  assumes ready: "elf_ready tab f" and after: "after \<noteq> []"
  shows "\<exists>st sth hs es. elf_emit c after (elf_start f tab) = Some st \<and> parts_at c f sth hs es (out st)"
proof -
  obtain st sth hs where r: "elf_emit c after (elf_start f tab) = Some st" "headers_ready c f sth"
      "special_headers c f (length (strtab_buf sth)) hs"
      "\<forall>j < length (sec_list f). hs ! (3 + j) = sec_header sth (sec_list f ! j) (section_at c f (length (strtab_buf sth)) j)
         \<and> (has_relocs f (sec_list f ! j) \<longrightarrow> hs ! OWLIndexToELFIndex (the (relocs_index sth (sec_list f ! j)))
              = rel_header c sth (sec_list f ! j) (section_at c f (length (strtab_buf sth)) j + data_len f (sec_list f ! j)))"
      "out st = out sth @ concat (map (put_shdr c) hs) @ strtab_buf sth @ symtab_buf sth
         @ concat (map (\<lambda>i. data_chunk f i @ rels_chunk c f (sym_index sth) i) (sec_list f))"
    using elf_emit_run [OF ready after] by blast
  define n where "n = length (strtab_buf sth)"
  define body where "body i = data_chunk f i @ rels_chunk c f (sym_index sth) i" for i
  obtain es where es: "symtab_buf sth = concat (map (put_sym c) es)" "symbols_named f (strtab_buf sth) es"
    using r(2) by (auto simp: headers_ready_def)
  have hdr: "out sth = put_ehdr c \<lparr>e_machine = machineTypes (f_cpu f), e_shoff = ehdr_size c, e_shnum = length hs\<rparr>"
    using r(2,3) by (simp add: headers_ready_def special_headers_def)
  have lens: "length (out sth) = ehdr_size c" "length (concat (map (put_shdr c) hs)) = length hs * shdr_size c"
      "length (symtab_buf sth) = sym_size c * (length (live_syms f) + 1)"
    using length_concat_chunks [of "map (put_shdr c) hs" "shdr_size c"] length_concat_chunks [of "map (put_sym c) es" "sym_size c"]
      es by (simp_all add: hdr length_put_ehdr length_put_shdr sym_law symbols_named_def)
  have names: "names_at c f = ehdr_size c + length hs * shdr_size c" using r(3) by (simp add: names_at_def special_headers_def)
  have offs: "sh_offset (hs ! Suc 0) = names_at c f" "sh_offset (hs ! 2) = names_at c f + n" using r(3) by (simp_all add: special_headers_def n_def)
  have e: "at_offset (out st) 0 (out sth)" unfolding r(5) by (rule at_offset_first)
  have h: "at_offset (out st) (ehdr_size c) (concat (map (put_shdr c) hs))"
    using at_offset_middle [of "out sth" "concat (map (put_shdr c) hs)"] by (simp add: r(5) lens)
  have s: "at_offset (out st) (sh_offset (hs ! 1)) (strtab_buf sth)"
    using at_offset_middle [of "out sth @ concat (map (put_shdr c) hs)" "strtab_buf sth"] by (simp add: r(5) lens offs names)
  have y: "at_offset (out st) (sh_offset (hs ! 2)) (concat (map (put_sym c) es))"
    using at_offset_middle [of "out sth @ concat (map (put_shdr c) hs) @ strtab_buf sth" "symtab_buf sth"]
    by (simp add: r(5) lens offs names es(1) n_def add.assoc)
  have d: "at_offset (out st) (names_at c f + n + sym_size c * (length (live_syms f) + 1)) (concat (map body (sec_list f)))"
    using at_offset_second [of "out sth @ concat (map (put_shdr c) hs) @ strtab_buf sth @ symtab_buf sth" "concat (map body (sec_list f))"]
    by (simp add: r(5) lens names n_def add.assoc body_def [abs_def])
  have rdy: "section_ready f (secs f ! i)" if "i \<in> set (sec_list f)" for i using ready that by (simp add: elf_ready_def)
  have at: "at_offset (out st) (section_at c f n j) (body (sec_list f ! j))" if "j < length (sec_list f)" for j
  proof -
    have "length (body i) = data_len f i + rels_len (entry_size c f) f i" if "i \<in> set (take j (sec_list f))" for i
      using length_data_chunk length_rels_chunk rdy in_set_takeD [OF that] by (simp add: body_def)
    then have "map (\<lambda>x. length (body x)) (take j (sec_list f)) = map (\<lambda>i. data_len f i + rels_len (entry_size c f) f i) (take j (sec_list f))"
      by simp
    then show ?thesis using at_offset_in [OF d at_offset_concat [OF that, of body]] by (simp only: section_at_def total_len_def n_def)
  qed
  have data: "at_offset (out st) (section_at c f n j) (data_chunk f (sec_list f ! j))" if "j < length (sec_list f)" for j
    using at_offset_in [OF at [OF that, unfolded body_def] at_offset_first] by simp
  have rels: "at_offset (out st) (section_at c f n j + data_len f (sec_list f ! j)) (rels_chunk c f (sym_index sth) (sec_list f ! j))"
    if "j < length (sec_list f)" for j
    using at_offset_in [OF at [OF that, unfolded body_def] at_offset_second]
      length_data_chunk [OF rdy] that by simp
  have "headers_at c f hs (out st)" using e [unfolded hdr] h r(3) by (simp add: headers_at_def special_headers_def)
  then have "parts_at c f sth hs es (out st)"
    using r(2,3,4) es(2) s y data rels by (simp add: parts_at_def n_def Let_def)
  then show ?thesis using r(1) by blast
qed

lemma sections_of_parts:
  assumes ready: "elf_ready tab f" and parts: "parts_at c f sth hs es d"
  shows "list_all (section_written f hs d) [0..<length (sec_list f)]"
proof -
  note q = parts [unfolded parts_at_def]
  have ef: "ef sth = f\<lparr>next_index := file_index f\<rparr>" using q by (simp add: headers_ready_def)
  have "section_written f hs d j" if j: "j < length (sec_list f)" for j
  proof -
    define i where "i = sec_list f ! j"
    have i: "i \<in> set (sec_list f)" using j by (simp add: i_def)
    then have rdy: "section_ready f (secs f ! i)" using ready by (simp add: elf_ready_def)
    then have "sec_align (secs f ! i) \<noteq> 0" by (auto simp: section_ready_def)
    note pad = padded_size [OF this, of "unat (sec_size (secs f ! i))", folded sec_pad_def]
    obtain ofs where name: "name_offset sth (sec_name (secs f ! i)) = Some ofs" "text_at (strtab_buf sth) ofs (str_bytes (sec_name (secs f ! i)))"
      using q i by (auto simp: headers_ready_def sections_named_def)
    have str: "at_offset d (sh_offset (hs ! 1)) (strtab_buf sth)" using q by blast
    have h: "hs ! (3 + j) = sec_header sth i (section_at c f (length (strtab_buf sth)) j)"
        "at_offset d (section_at c f (length (strtab_buf sth)) j) (data_chunk f i)"
      using q j by (simp_all add: Let_def i_def)
    show ?thesis
      using h pad at_offset_in [OF str text_at_offset [OF name(2)]] name(1)
      by (simp add: section_written_def i_def [symmetric] sec_header_def ef next_index_same data_chunk_def Let_def) (simp split: if_splits)
  qed
  then show ?thesis by (simp add: list_all_iff)
qed

lemma symbols_of_parts:
  assumes parts: "parts_at c f sth hs es d"
  shows "list_all (symbol_written c f hs d) (live_syms f)"
proof -
  note q = parts [unfolded parts_at_def]
  have "symbol_written c f hs d h" if h: "h \<in> set (live_syms f)" for h
  proof -
    obtain name ofs where n: "sym_name (syms f ! h) = Some name" "text_at (strtab_buf sth) ofs (str_bytes name)" "es ! sym_no f h = sym_record f h ofs"
      using q h by (auto simp: symbols_named_def)
    note range = sym_no_range [OF h]
    have str: "at_offset d (sh_offset (hs ! 1)) (strtab_buf sth)"
      and tab: "at_offset d (sh_offset (hs ! 2)) (concat (map (put_sym c) es))"
      and sp: "special_headers c f (length (strtab_buf sth)) hs"
      using q by blast+
    have k: "sym_no f h < length (map (put_sym c) es)" using q range by (simp add: symbols_named_def)
    have "at_offset d (sh_offset (hs ! 2) + sym_size c * sym_no f h) (put_sym c (sym_record f h ofs))"
      using at_offset_in [OF tab at_offset_chunk [OF _ k, of "sym_size c"]] k n(3) by (simp add: sym_law)
    moreover have "int (sym_size c * (sym_no f h + 1)) \<le> sh_size (hs ! 2)"
      using range sp unfolding special_headers_def by (metis add_le_mono1 mult_le_mono2 zle_int)
    moreover have "is_local (syms f ! h) \<longleftrightarrow> sym_no f h < sh_info (hs ! 2)" "0 < sym_no f h"
      using range sp by (auto simp: special_headers_def)
    moreover note n(1) at_offset_in [OF str text_at_offset [OF n(2)]]
    ultimately show ?thesis unfolding symbol_written_def by blast
  qed
  then show ?thesis by (simp add: list_all_iff)
qed

lemma relocs_of_parts:
  assumes ready: "elf_ready tab f" and parts: "parts_at c f sth hs es d"
    and apart: "\<forall>i \<in> set (sec_list f). fields_apart (sec_relocs (secs f ! i))"
  shows "\<forall>j < length (sec_list f). has_relocs f (sec_list f ! j) \<longrightarrow> relocs_written c f hs d j"
proof -
  note q = parts [unfolded parts_at_def]
  have ef: "ef sth = f\<lparr>next_index := file_index f\<rparr>" and hr: "headers_ready c f sth" using q by (simp_all add: headers_ready_def)
  have "relocs_written c f hs d j" if j: "j < length (sec_list f)" and has: "has_relocs f (sec_list f ! j)" for j
  proof -
    define i where "i = sec_list f ! j"
    have i: "i \<in> set (sec_list f)" "has_relocs f i" using j has by (simp_all add: i_def)
    have rdy: "section_ready f (secs f ! i)" and idx: "indices_ok f" using ready i(1) by (simp_all add: elf_ready_def)
    obtain k where k: "k < length (filter (has_relocs f) (sec_list f))" "i = filter (has_relocs f) (sec_list f) ! k"
        "relocs_index sth i = Some (length (sec_list f) + k)"
      using relocs_index_of [OF hr i] by blast
    obtain g ofs where name: "relocs_name sth i = Some g" "OWLStringOffset (strs sth) g = Some ofs"
        "text_at (strtab_buf sth) ofs (str_bytes (reloc_name f i))"
      using hr k(1,2) by (auto simp: headers_ready_def relocs_named_def)
    define rh base where "rh = hs ! (length (sec_list f) + k + 3)" and "base = section_at c f (length (strtab_buf sth)) j + data_len f i"
    have str: "at_offset d (sh_offset (hs ! 1)) (strtab_buf sth)" and sp: "special_headers c f (length (strtab_buf sth)) hs"
      using q by blast+
    have "hs ! OWLIndexToELFIndex (the (relocs_index sth i)) = rel_header c sth i base" "at_offset d base (rels_chunk c f (sym_index sth) i)"
      using q j i(2) by (simp_all add: Let_def i_def base_def)
    then have rh: "rh = rel_header c sth i base" and at: "at_offset d base (rels_chunk c f (sym_index sth) i)"
      by (simp_all add: rh_def k(3) OWLIndexToELFIndex_def FIRST_USER_SECTION_def)
    have "hs ! (3 + j) = sec_header sth i (section_at c f (length (strtab_buf sth)) j)"
        "at_offset d (section_at c f (length (strtab_buf sth)) j) (data_chunk f i)"
      using q j by (simp_all add: Let_def i_def)
    moreover have "\<not> section_bss (secs f ! i)" using rdy i(2) by (auto simp: section_ready_def has_relocs_def split: option.splits)
    moreover from this have "at_offset (data_chunk f i) 0 (section_image f i)" by (simp add: data_chunk_def at_offset_first)
    ultimately have image: "at_offset d (sh_offset (hs ! (3 + j))) (section_image f i)"
      using at_offset_in [of d "section_at c f (length (strtab_buf sth)) j" "data_chunk f i" 0 "section_image f i"]
      by (simp add: sec_header_def ef next_index_same Let_def)
    have here: "length (sec_list f) + k + 3 < length hs"
      using sp k(1) by (simp add: special_headers_def OWLIndexToELFIndex_def FIRST_USER_SECTION_def file_index_def)
    have count: "length (section_entries f (sym_index sth) i) = length (sec_relocs (secs f ! i))" by (rule section_entries_count [OF rdy])
    have entry: "reloc_entry_size c sth = entry_size c f" by (simp add: reloc_entry_size_def entry_size_def use_rela_cpu ef)
    have each: "at_offset d (sh_offset rh + entry_size c f * m) (put_entry c (f_cpu f) (reloc_record f i (sec_relocs (secs f ! i) ! m)))"
      if m: "m < length (sec_relocs (secs f ! i))" and live: "rel_symbol (sec_relocs (secs f ! i) ! m) \<in> set (live_syms f)" for m
    proof -
      have "section_entries f (sym_index sth) i ! m = reloc_record f i (sec_relocs (secs f ! i) ! m)"
        by (rule entry_is_record [OF rdy m _ live]) (use apart i(1) hr in \<open>simp_all add: headers_ready_def\<close>)
      moreover have "\<forall>x \<in> set (map (put_entry c (f_cpu f)) (section_entries f (sym_index sth) i)). length x = entry_size c f"
        using length_put_entry [of sth] by (auto simp: ef entry)
      ultimately show ?thesis
        using at_offset_in [OF at [unfolded rels_chunk_def] at_offset_chunk [of _ "entry_size c f" m]] m count
        by (simp add: rh rel_header_def Let_def)
    qed
    have "sec_index (secs f ! i) = j" using idx j by (simp add: indices_ok_def i_def)
    then have "sh_type rh = (if rela_cpu (f_cpu f) then 4 else 9) \<and> sh_link rh = 2 \<and> sh_info rh = 3 + j
       \<and> sh_entsize rh = entry_size c f \<and> sh_size rh = int (entry_size c f * length (sec_relocs (secs f ! i)))
       \<and> at_offset d (sh_offset (hs ! 1) + sh_name rh) (str_bytes (reloc_name f i) @ [0])"
      using at_offset_in [OF str text_at_offset [OF name(3)]] name(1,2)
      by (simp add: rh rel_header_def Let_def use_rela_cpu ef next_index_same rels_len_def OWLIndexToELFIndex_def FIRST_USER_SECTION_def
          ELF_SYMBOL_INDEX_def)
        (simp add: reloc_entry_size_def entry_size_def use_rela_cpu ef)
    then show ?thesis unfolding relocs_written_def Let_def i_def [symmetric]
      using here each image by (intro exI [of _ "length (sec_list f) + k + 3"]) (simp add: rh_def [symmetric])
  qed
  then show ?thesis by simp
qed

text \<open>One header table serves all three.\<close>

lemma file_written:
  assumes ready: "elf_ready tab f" and after: "after \<noteq> []"
  shows "\<exists>st hs. elf_emit c after (elf_start f tab) = Some st \<and> headers_at c f hs (out st)
    \<and> list_all (section_written f hs (out st)) [0..<length (sec_list f)] \<and> list_all (symbol_written c f hs (out st)) (live_syms f)
    \<and> ((\<forall>i \<in> set (sec_list f). fields_apart (sec_relocs (secs f ! i))) \<longrightarrow>
         (\<forall>j < length (sec_list f). has_relocs f (sec_list f ! j) \<longrightarrow> relocs_written c f hs (out st) j))"
proof -
  obtain st sth hs es where p: "elf_emit c after (elf_start f tab) = Some st" "parts_at c f sth hs es (out st)"
    using file_parts [OF ready after] by blast
  then have "headers_at c f hs (out st)" by (simp add: parts_at_def)
  then show ?thesis
    using p(1) sections_of_parts [OF ready p(2)] symbols_of_parts [OF p(2)] relocs_of_parts [OF ready p(2)] by blast
qed

end

interpretation elf32: elf_layout ELFCLASS32
  by unfold_locales (simp_all add: ELFCLASS32_def sym32_bytes_def rel32_bytes_def le_int_def)

interpretation elf64: elf_layout ELFCLASS64
  by unfold_locales (simp_all add: ELFCLASS64_def sym_bytes_def rel64_bytes_def le_int_def)


section \<open>An example\<close>

definition call_file :: "owl_buffer \<Rightarrow> owl_file" where
  "call_file b =
    \<lparr>f_format = OWL_FORMAT_ELF, f_cpu = OWL_CPU_X64, next_index = 1,
     secs = [\<lparr>sec_name = ''.text'', sec_type = 0x0401, sec_align = 16, sec_index = 0, sec_buffer = Some b, sec_size = 5,
       sec_location = 5, sec_relocs = [\<lparr>rel_symbol = 1, rel_type = OWL_RELOC_JUMP_REL, rel_location = 1\<rparr>], num_relocs = 1,
       sec_sym = 0, comdat_sym = None, comdat_dep = None\<rparr>],
     sec_list = [0],
     syms = [\<lparr>sym_section = Some 0, sym_name = Some ''.text'', sym_type = OWL_TYPE_SECTION, sym_linkage = OWL_SYM_STATIC,
         sym_offset = 0, sym_num_relocs = 0, sym_flags = 0, x_func = None, x_alt_sym = None, x_section = Some 0, x_file = False\<rparr>,
       \<lparr>sym_section = None, sym_name = Some ''f'', sym_type = OWL_TYPE_FUNCTION, sym_linkage = OWL_SYM_UNDEFINED,
         sym_offset = 0, sym_num_relocs = 1, sym_flags = 0, x_func = None, x_alt_sym = None, x_section = None, x_file = False\<rparr>],
     num_global_symbols = 1, num_local_symbols = 1\<rparr>"

lemma string_table_with:
  "list_all seven_bit_start xs \<Longrightarrow> \<exists>tab. table_inv tab \<and> set xs \<subseteq> set (texts tab)"
proof (induction xs)
  case Nil
  then show ?case using OWLStringInit_inv by auto
next
  case (Cons x xs)
  then obtain tab where tab: "table_inv tab" "set xs \<subseteq> set (texts tab)" "seven_bit_start x" by auto
  then obtain h tab' ys where "table_inv tab'" "OWLStringText tab' h = Some x" "texts tab' = texts tab @ ys"
    using OWLStringAdd_grows [of tab x "[0]"] by blast
  moreover from this(2) have "x \<in> set (texts tab')" by (auto simp: OWLStringText_def byte_simps)
  ultimately show ?case using tab(2) by (intro exI [of _ tab']) auto
qed

lemma call_file_ready:
  obtains tab b where "elf_ready tab (call_file b)" and "buffer_contents b = [0xE8, 3, 0, 0, 0]"
proof -
  have "list_all seven_bit_start [str_bytes ''.text'', str_bytes ''f'']"
    by (simp add: seven_bit_start_def c_string_def str_bytes_def str_bit_def)
  from string_table_with [OF this]
  obtain tab where "table_inv tab" and names: "set [str_bytes ''.text'', str_bytes ''f''] \<subseteq> set (texts tab)" by blast
  then have tab: "table_inv tab" "str_bytes ''.text'' \<in> set (texts tab)" "str_bytes ''f'' \<in> set (texts tab)" by simp_all
  obtain b where b: "buffer_inv b" "buffer_contents b = [0xE8, 3, 0, 0, 0]"
    using OWLBufferWrite_nonempty [of OWLBufferInit "[0xE8, 3, 0, 0, 0]"] buffer_init_inv by (auto simp: overwrite_def OWLBufferInit_def)
  have size: "bsize b = 5" using arg_cong [OF b(2), of length] by simp
  then have full: "\<not> buffer_full b" by (simp add: buffer_full_def NUM_BINS_def) presburger
  have live: "live_syms (call_file b) = [0, 1]" "live_locals (call_file b) = [0]"
    by (simp_all add: live_syms_def live_locals_def call_file_def sym_dead_def is_local_def linkage_global_def upt_conv_Cons)
  have "ElfRelocType OWL_RELOC_JUMP_REL OWL_CPU_X64 \<noteq> None" "OWLRelocBitMask OWL_CPU_X64 OWL_RELOC_JUMP_REL \<noteq> None" by code_simp+
  then have "section_ready (call_file b) (secs (call_file b) ! 0)"
    using b(1) size full by (simp add: section_ready_def call_file_def section_bss_def OWL_SEC_ATTR_BSS_def)
  then have "elf_ready tab (call_file b)"
    using tab live
    by (simp add: elf_ready_def indices_ok_def counts_live_def names_in_def) (simp add: call_file_def)
  then show thesis using b(2) that by blast
qed


lemma elf_file_written:
  assumes "c = ELFCLASS32 \<or> c = ELFCLASS64" and "elf_ready tab f" and "after \<noteq> []"
  obtains st hs where "elf_emit c after (elf_start f tab) = Some st" and "headers_at c f hs (out st)"
    and "list_all (section_written f hs (out st)) [0..<length (sec_list f)]" and "list_all (symbol_written c f hs (out st)) (live_syms f)"
    and "(\<forall>i \<in> set (sec_list f). fields_apart (sec_relocs (secs f ! i))) \<longrightarrow>
         (\<forall>j < length (sec_list f). has_relocs f (sec_list f ! j) \<longrightarrow> relocs_written c f hs (out st) j)"
  using assms(1)
proof
  assume c: "c = ELFCLASS32"
  show thesis using that elf32.file_written [OF assms(2,3)] unfolding c by blast
next
  assume c: "c = ELFCLASS64"
  show thesis using that elf64.file_written [OF assms(2,3)] unfolding c by blast
qed

section \<open>The properties of the file\<close>

text \<open>
  C23. The ELF file of the object writer library has the sections of the file it was given, on all processors and in both
  classes.  When the file is ready to be written the writer succeeds; the header table is where the ELF
  header says; the header of the section at position j is entry 3 + j, it has the type, flags and alignment of the section
  and its size padded to the alignment, and names, through the string table of header 1, the section's name;
  and where it says so are the contents of the section, the fields of relocations cleared, and the padding.
\<close>
theorem elf_file_has_sections:
  assumes "c = ELFCLASS32 \<or> c = ELFCLASS64" and "elf_ready tab f" and "after \<noteq> []"
  shows "\<exists>st hs. elf_emit c after (elf_start f tab) = Some st \<and> headers_at c f hs (out st)
    \<and> list_all (section_written f hs (out st)) [0..<length (sec_list f)]"
proof -
  obtain st hs where "elf_emit c after (elf_start f tab) = Some st" "headers_at c f hs (out st)"
      "list_all (section_written f hs (out st)) [0..<length (sec_list f)]" "list_all (symbol_written c f hs (out st)) (live_syms f)"
    using elf_file_written [OF assms] by metis
  then show ?thesis by blast
qed

theorem elf_file_has_sections_witness:
  "\<exists>tab b st (hs :: elf_shdr list). buffer_contents b = [0xE8, 3, 0, 0, 0] \<and> elf_emit ELFCLASS64 [0] (elf_start (call_file b) tab) = Some st
    \<and> sh_flags (hs ! 3) = 6 \<and> sh_size (hs ! 3) = 16 \<and> at_offset (out st) (sh_offset (hs ! 1) + sh_name (hs ! 3)) (str_bytes ''.text'' @ [0])"
proof -
  obtain tab b where e: "elf_ready tab (call_file b)" "buffer_contents b = [0xE8, 3, 0, 0, 0]" by (rule call_file_ready)
  obtain st hs where r: "elf_emit ELFCLASS64 [0] (elf_start (call_file b) tab) = Some st"
      "list_all (section_written (call_file b) hs (out st)) [0..<length (sec_list (call_file b))]"
    using elf_file_has_sections [OF _ e(1), of ELFCLASS64 "[0]"] by blast
  then have "section_written (call_file b) hs (out st) 0" by (simp add: call_file_def)
  then have "sh_flags (hs ! 3) = 6 \<and> sh_size (hs ! 3) = 16 \<and> at_offset (out st) (sh_offset (hs ! 1) + sh_name (hs ! 3)) (str_bytes ''.text'' @ [0])"
    by (simp add: section_written_def call_file_def sectionFlags_def sec_pad_def sectionPadding_def Let_def)
  then show ?thesis using e(2) r(1) by blast
qed

text \<open>
  C22. The ELF file has the symbols of the file it was given, apart from the dead ones.  The entry of a
  symbol is at its number in the table of header 2, its name at its offset in the string table; entry 0 is left for the undefined symbol, and
  the local symbols are those before the index that the header gives, as the format wants it.
\<close>
theorem elf_file_has_symbols:
  assumes "c = ELFCLASS32 \<or> c = ELFCLASS64" and "elf_ready tab f" and "after \<noteq> []"
  shows "\<exists>st hs. elf_emit c after (elf_start f tab) = Some st \<and> headers_at c f hs (out st)
    \<and> list_all (symbol_written c f hs (out st)) (live_syms f)"
proof -
  obtain st hs where "elf_emit c after (elf_start f tab) = Some st" "headers_at c f hs (out st)"
      "list_all (section_written f hs (out st)) [0..<length (sec_list f)]" "list_all (symbol_written c f hs (out st)) (live_syms f)"
    using elf_file_written [OF assms] by metis
  then show ?thesis by blast
qed

theorem elf_file_has_symbols_witness:
  "\<exists>tab b st (hs :: elf_shdr list) ofs. buffer_contents b = [0xE8, 3, 0, 0, 0] \<and> elf_emit ELFCLASS64 [0] (elf_start (call_file b) tab) = Some st
    \<and> at_offset (out st) (sh_offset (hs ! 2) + 48) (sym_bytes \<lparr>st_name = ofs, st_info = 0x12, st_shndx = 0, st_value = 0, st_size = 0\<rparr>)
    \<and> at_offset (out st) (sh_offset (hs ! 1) + ofs) (str_bytes ''f'' @ [0])"
proof -
  obtain tab b where e: "elf_ready tab (call_file b)" "buffer_contents b = [0xE8, 3, 0, 0, 0]" by (rule call_file_ready)
  obtain st hs where r: "elf_emit ELFCLASS64 [0] (elf_start (call_file b) tab) = Some st"
      "list_all (symbol_written ELFCLASS64 (call_file b) hs (out st)) (live_syms (call_file b))"
    using elf_file_has_symbols [OF _ e(1), of ELFCLASS64 "[0]"] by blast
  have "1 \<in> set (live_syms (call_file b))" by (simp add: live_syms_def call_file_def sym_dead_def upt_conv_Cons)
  then have "symbol_written ELFCLASS64 (call_file b) hs (out st) 1" using r(2) by (simp add: list_all_iff)
  moreover have "sym_no (call_file b) 1 = 2"
    by (simp add: sym_no_def call_file_def is_local_def linkage_global_def live_syms_def sym_dead_def before_def live_global_def upt_conv_Cons)
  moreover have "sym_record (call_file b) 1 ofs = \<lparr>st_name = ofs, st_info = 0x12, st_shndx = 0, st_value = 0, st_size = 0\<rparr>" for ofs
    by (simp add: sym_record_def call_file_def st_info_of_def)
  moreover have "sym_name (syms (call_file b) ! 1) = Some ''f''" by (simp add: call_file_def)
  moreover have "put_sym ELFCLASS64 = sym_bytes" "sym_size ELFCLASS64 = 24" by (simp_all add: ELFCLASS64_def)
  ultimately have "\<exists>ofs. at_offset (out st) (sh_offset (hs ! 2) + 48) (sym_bytes \<lparr>st_name = ofs, st_info = 0x12, st_shndx = 0, st_value = 0, st_size = 0\<rparr>)
    \<and> at_offset (out st) (sh_offset (hs ! 1) + ofs) (str_bytes ''f'' @ [0])"
    unfolding symbol_written_def by simp blast
  then show ?thesis using e(2) r(1) by blast
qed

text \<open>
  C21. The relocations of a section whose fields do not overlap come in a section of their own that points to the
  symbol table and to the section; entry m of it has the location and the ELF type of relocation m, the number
  of its symbol, and, on processors whose entries have addends, the field the contents held, which is cleared
  in the contents that are written.
\<close>
theorem elf_file_has_relocs:
  assumes "c = ELFCLASS32 \<or> c = ELFCLASS64" and "elf_ready tab f" and "after \<noteq> []"
    and "\<forall>i \<in> set (sec_list f). fields_apart (sec_relocs (secs f ! i))"
  shows "\<exists>st hs. elf_emit c after (elf_start f tab) = Some st \<and> headers_at c f hs (out st)
    \<and> (\<forall>j < length (sec_list f). has_relocs f (sec_list f ! j) \<longrightarrow> relocs_written c f hs (out st) j)
    \<and> (\<forall>i \<in> set (sec_list f). \<forall>m < length (sec_relocs (secs f ! i)). rela_cpu (f_cpu f) \<longrightarrow>
         field_data (sec_relocs (secs f ! i) ! m) (section_image f i)
           = field_data (sec_relocs (secs f ! i) ! m) (section_contents (secs f ! i))
               AND NOT (the (OWLRelocBitMask (f_cpu f) (rel_type (sec_relocs (secs f ! i) ! m)))))"
proof -
  have "\<forall>i \<in> set (sec_list f). \<forall>m < length (sec_relocs (secs f ! i)). rela_cpu (f_cpu f) \<longrightarrow>
         field_data (sec_relocs (secs f ! i) ! m) (section_image f i)
           = field_data (sec_relocs (secs f ! i) ! m) (section_contents (secs f ! i))
               AND NOT (the (OWLRelocBitMask (f_cpu f) (rel_type (sec_relocs (secs f ! i) ! m))))"
    using image_field [of f] assms(2,4) by (simp add: elf_ready_def)
  moreover have "\<exists>st hs. elf_emit c after (elf_start f tab) = Some st \<and> headers_at c f hs (out st)
    \<and> (\<forall>j < length (sec_list f). has_relocs f (sec_list f ! j) \<longrightarrow> relocs_written c f hs (out st) j)"
    using elf_file_written [OF assms(1-3)] assms(4) by metis
  ultimately show ?thesis by simp
qed

theorem elf_file_has_relocs_witness:
  "\<exists>tab b st (hs :: elf_shdr list) k. buffer_contents b = [0xE8, 3, 0, 0, 0] \<and> elf_emit ELFCLASS64 [0] (elf_start (call_file b) tab) = Some st
    \<and> sh_info (hs ! k) = 3 \<and> sh_type (hs ! k) = 4
    \<and> at_offset (out st) (sh_offset (hs ! k)) (put_rela ELFCLASS64 \<lparr>r_offset = 1, r_sym = 2, r_type = 4, r_addend = 3\<rparr>)"
proof -
  obtain tab b where e: "elf_ready tab (call_file b)" "buffer_contents b = [0xE8, 3, 0, 0, 0]" by (rule call_file_ready)
  have "\<forall>i \<in> set (sec_list (call_file b)). fields_apart (sec_relocs (secs (call_file b) ! i))"
    by (simp add: call_file_def fields_apart_def)
  from elf_file_has_relocs [OF _ e(1) _ this, of ELFCLASS64 "[0]"]
  obtain st hs where r: "elf_emit ELFCLASS64 [0] (elf_start (call_file b) tab) = Some st"
      "\<forall>j < length (sec_list (call_file b)). has_relocs (call_file b) (sec_list (call_file b) ! j) \<longrightarrow> relocs_written ELFCLASS64 (call_file b) hs (out st) j"
    by blast
  then have w: "relocs_written ELFCLASS64 (call_file b) hs (out st) 0" by (simp add: call_file_def has_relocs_def)
  define r :: owl_reloc_info where "r = \<lparr>rel_symbol = 1, rel_type = OWL_RELOC_JUMP_REL, rel_location = 1\<rparr>"
  have parts: "sec_list (call_file b) ! 0 = 0" "sec_relocs (secs (call_file b) ! 0) = [r]" "f_cpu (call_file b) = OWL_CPU_X64"
      "sec_buffer (secs (call_file b) ! 0) = Some b" by (simp_all add: call_file_def r_def)
  have live: "1 \<in> set (live_syms (call_file b))" by (simp add: live_syms_def call_file_def sym_dead_def upt_conv_Cons)
  have "sym_no (call_file b) 1 = 2"
    by (simp add: sym_no_def call_file_def is_local_def linkage_global_def live_syms_def sym_dead_def before_def live_global_def upt_conv_Cons)
  moreover have "ElfRelocType OWL_RELOC_JUMP_REL OWL_CPU_X64 = Some 4" by code_simp
  moreover have "le_val [3, 0, 0, 0] = 3" by code_simp
  ultimately have "reloc_record (call_file b) 0 r = \<lparr>r_offset = 1, r_sym = 2, r_type = 4, r_addend = 3\<rparr>"
    using e(2) by (simp add: reloc_record_def r_def parts rela_cpu_def field_data_def field_len_def section_contents_def OWLRelocBitMask_def)
  then have "\<exists>k. sh_info (hs ! k) = 3 \<and> sh_type (hs ! k) = 4
      \<and> at_offset (out st) (sh_offset (hs ! k)) (put_rela ELFCLASS64 \<lparr>r_offset = 1, r_sym = 2, r_type = 4, r_addend = 3\<rparr>)"
    using w live by (auto simp: relocs_written_def parts Let_def rela_cpu_def put_entry_def r_def)
  then show ?thesis using e(2) r(1) by blast
qed

end
