(* ===== verification/OwlFinish.thy ===== *)
theory OwlFinish
  imports OwlElf
begin

text \<open>
  From a file a client has built to the bytes written: \<open>OWLFileFini\<close> of \<open>bld/owl/c/owfile.c\<close> resolves
  relocations, names labels and turns uninitialised sections into common symbols, and what it leaves is
  ready for the ELF writer.  The counts of symbols, which the writer trusts, are those of the symbols that are not dead;
  the indices of the sections follow their order.
\<close>

section \<open>Counts of the live symbols\<close>

definition live_y :: "owl_symbol_info \<Rightarrow> bool" where
  "live_y y \<longleftrightarrow> \<not> sym_dead y"









section \<open>Relocations applied in place\<close>






















section \<open>Names of labels\<close>














section \<open>Common symbols\<close>

























section \<open>Indices of the sections that stay\<close>




section \<open>Files a client builds\<close>


lemma live_flags [simp]:
  "live_y (y\<lparr>sym_flags := sym_flags y OR OWL_SYM_FLAG_COMDAT\<rparr>) = live_y y"
  "live_y (y\<lparr>sym_flags := sym_flags y OR OWL_SYM_EXPORT\<rparr>) = live_y y"
  by (simp_all add: live_y_def sym_dead_def word_ao_dist OWL_SYM_DEAD_def OWL_SYM_FLAG_COMDAT_def OWL_SYM_EXPORT_def)






















section \<open>A finished file is ready\<close>




















text \<open>
  The condition on labels is needed: with a second label in an uninitialised section of a group, the section is freed and the label,
  alive, still leads to it.
\<close>

definition two_labels :: "owl_file option" where
  "two_labels = do {
     f \<leftarrow> OWLFileInit OWL_CPU_X64 ''a.c'' OWL_FORMAT_ELF;
     (i, f) \<leftarrow> OWLSectionInit ''.bss'' 0x0044 4 f;
     let (x, f) = OWLSymbolInit (Some ''x'') f;
     let (y, f) = OWLSymbolInit (Some ''y'') f;
     f \<leftarrow> OWLEmitLabel i x OWL_TYPE_OBJECT OWL_SYM_GLOBAL f;
     f \<leftarrow> OWLEmitLabel i y OWL_TYPE_OBJECT OWL_SYM_GLOBAL f;
     owl_finish f
   }"

lemma second_label_outlives_section:
  "map_option (\<lambda>f. (sym_dead (syms f ! 2), sym_section (syms f ! 2), map_option sec_name (rd_section f 0))) two_labels
     = Some (False, Some 0, None)"
  by code_simp

end
