(* ===== verification/CgEscape.thy ===== *)
theory CgEscape
  imports OwPrelude
begin

text \<open>
  The escape encoding of the code generator: \<open>bld/cg/intel/c/x86esc.c\<close> with the codes of
  \<open>bld/cg/h/escape.h\<close>.

  An instruction waits in the optimiser queue as a string of bytes.  What is not yet known when it
  is encoded, the address of a label, a relocation, a stack size, stands in that string as an
  escape sequence: the byte \<open>ESC\<close>, a code with attribute bits, and the operands copied as they lie
  in memory (pointers of 8 bytes, offsets of 4, segment ids of 2).  An \<open>ESC\<close> that is a byte of the
  instruction is doubled.  \<open>ExpandObj\<close> reads the string back when the entry leaves the queue.

  The first part has the functions that write sequences, as the bytes each appends to \<open>Inst\<close>; the
  second \<open>ExpandObj\<close>, as the list of the calls it makes to the object writer \<open>x86obj.c\<close>.  The last
  part shows that the one reads what the other writes: a string is a list of items, \<open>ExpandObj\<close>
  makes the calls of the items in their order, and the number of code bytes they produce does not
  depend on what is known about the labels.

  Labels and front-end symbols are pointers (\<open>u64\<close>).  The label records they lead to, and the
  answers of the front end, are in the record \<open>cg_tables\<close>.
\<close>

section \<open>Codes\<close>

abbreviation ESC :: u8 where "ESC \<equiv> 0x6b"

abbreviation ESC_SYM :: u8 where "ESC_SYM \<equiv> 0"
abbreviation ESC_IMP :: u8 where "ESC_IMP \<equiv> 1"
abbreviation ESC_REL :: u8 where "ESC_REL \<equiv> 2"
abbreviation ESC_LBL :: u8 where "ESC_LBL \<equiv> 3"
abbreviation ESC_ABS :: u8 where "ESC_ABS \<equiv> 4"
abbreviation ESC_FUN :: u8 where "ESC_FUN \<equiv> 5"

abbreviation ESCA_OFST :: u8 where "ESCA_OFST \<equiv> 0x10"
abbreviation ESCA_BASE :: u8 where "ESCA_BASE \<equiv> 0x20"
abbreviation ESCA_LDOF :: u8 where "ESCA_LDOF \<equiv> 0x40"
abbreviation ESCA_SELF :: u8 where "ESCA_SELF \<equiv> 0x80"
abbreviation ESCA_MASK :: u8 where "ESCA_MASK \<equiv> ESCA_OFST OR ESCA_BASE OR ESCA_LDOF OR ESCA_SELF"

abbreviation BYTE_PATCH :: u8 where "BYTE_PATCH \<equiv> 0"
abbreviation ADD_PATCH :: u8 where "ADD_PATCH \<equiv> 1"
abbreviation WORD_PATCH :: u8 where "WORD_PATCH \<equiv> 2"
abbreviation LONG_PATCH :: u8 where "LONG_PATCH \<equiv> 4"

datatype fix_class = F_OFFSET | F_BIG_OFFSET | F_LDR_OFFSET | F_BASE | F_PTR

datatype cg_class = CG_FE | CG_LBL | CG_BACK | CG_TBL | CG_VTB | CG_CLB

datatype fe_fixup_types = FE_FIX_BASE | FE_FIX_OFF | FE_FIX_SELF

section \<open>Labels and the front end\<close>

abbreviation ADDR_UNKNOWN :: u32 where "ADDR_UNKNOWN \<equiv> - 1"

record code_lbl =
  lbl_address :: u32
  lbl_status :: u32
  lbl_sym :: u64

text \<open>
  \<open>labels\<close> is the memory of the label records; \<open>fe_lbl\<close> the label in the back-end record of a
  symbol (\<open>FEBack(sym)->lbl\<close>); \<open>bck_lbl\<close>, \<open>bck_segid\<close>, \<open>tbl_lbl\<close> and \<open>tbl_value_lbl\<close> the fields of back
  handles and select tables; the others are answers of the front end and of the target switches.
\<close>

record cg_tables =
  labels :: "u64 \<Rightarrow> code_lbl"
  fe_lbl :: "u64 \<Rightarrow> u64"
  bck_lbl :: "u64 \<Rightarrow> u64"
  bck_segid :: "u64 \<Rightarrow> u16"
  tbl_lbl :: "u64 \<Rightarrow> u64"
  tbl_value_lbl :: "u64 \<Rightarrow> u64"
  FEAttr :: "u64 \<Rightarrow> u32"
  FESegID :: "u64 \<Rightarrow> u16"
  InlineFunction :: "u64 \<Rightarrow> bool"
  calls_far :: "u64 \<Rightarrow> bool"
  codeSegId :: u16
  dataSegId :: u16
  altCodeSegId :: u16
  target_windows :: bool

abbreviation FE_PROC :: u32 where "FE_PROC \<equiv> 1"
abbreviation FE_GLOBAL :: u32 where "FE_GLOBAL \<equiv> 4"
abbreviation FE_IMPORT :: u32 where "FE_IMPORT \<equiv> 8"
abbreviation FE_INTERNAL :: u32 where "FE_INTERNAL \<equiv> 0x1000"

abbreviation RUNTIME :: u32 where "RUNTIME \<equiv> 0x40"
abbreviation UNIQUE :: u32 where "UNIQUE \<equiv> 0x100"
abbreviation COMMON_LBL :: u32 where "COMMON_LBL \<equiv> 0x200"

definition AskForSymLabel :: "cg_tables \<Rightarrow> u64 \<Rightarrow> cg_class \<Rightarrow> u64" where
  "AskForSymLabel E hdl cls =
    (case cls of
       CG_FE \<Rightarrow> fe_lbl E hdl
     | CG_LBL \<Rightarrow> hdl
     | CG_CLB \<Rightarrow> hdl
     | CG_BACK \<Rightarrow> bck_lbl E hdl
     | CG_TBL \<Rightarrow> tbl_lbl E hdl
     | CG_VTB \<Rightarrow> tbl_value_lbl E hdl)"

definition AskIfRTLabel :: "cg_tables \<Rightarrow> u64 \<Rightarrow> bool" where
  "AskIfRTLabel E lbl \<longleftrightarrow> lbl_status (labels E lbl) AND RUNTIME \<noteq> 0"

definition AskIfUniqueLabel :: "cg_tables \<Rightarrow> u64 \<Rightarrow> bool" where
  "AskIfUniqueLabel E lbl \<longleftrightarrow> lbl_status (labels E lbl) AND UNIQUE \<noteq> 0"

definition AskIfCommonLabel :: "cg_tables \<Rightarrow> u64 \<Rightarrow> bool" where
  "AskIfCommonLabel E lbl \<longleftrightarrow> lbl_status (labels E lbl) AND COMMON_LBL \<noteq> 0"

definition AskAddress :: "cg_tables \<Rightarrow> u64 \<Rightarrow> u32" where
  "AskAddress E lbl = lbl_address (labels E lbl)"

definition AskForLblSym :: "cg_tables \<Rightarrow> u64 \<Rightarrow> u64" where
  "AskForLblSym E lbl = lbl_sym (labels E lbl)"

definition SYM2RTIDX :: "u64 \<Rightarrow> u64" where
  "SYM2RTIDX s = s - 1"

definition UseImportForm :: "u32 \<Rightarrow> bool" where
  "UseImportForm attr =
    (if attr AND (FE_GLOBAL OR FE_IMPORT) \<noteq> 0 then True
     else if attr AND FE_INTERNAL \<noteq> 0 then False
     else True)"

definition AskSegID :: "cg_tables \<Rightarrow> u64 \<Rightarrow> cg_class \<Rightarrow> u16" where
  "AskSegID E hdl cls =
    (case cls of
       CG_FE \<Rightarrow> if InlineFunction E hdl then codeSegId E else FESegID E hdl
     | CG_BACK \<Rightarrow> bck_segid E hdl
     | CG_TBL \<Rightarrow> codeSegId E
     | CG_VTB \<Rightarrow> codeSegId E
     | CG_CLB \<Rightarrow> altCodeSegId E
     | CG_LBL \<Rightarrow> dataSegId E)"

section \<open>Writing escape sequences\<close>

text \<open>
  Each function below gives the bytes that the C function of that name appends to \<open>Inst\<close>.
\<close>

definition EmitPtr :: "u64 \<Rightarrow> bytes" where
  "EmitPtr p = le_bytes 8 (unat p)"

definition EmitSegId :: "u16 \<Rightarrow> bytes" where
  "EmitSegId segid = le_bytes 2 (unat segid)"

definition EmitOffset :: "u32 \<Rightarrow> bytes" where
  "EmitOffset i = le_bytes 4 (unat i)"

definition DoAbsPatch :: "u64 \<Rightarrow> nat \<Rightarrow> bytes" where
  "DoAbsPatch apatch len =
     [ESC, ESC_ABS] @
     (if len = 1 then [BYTE_PATCH] else if len = 2 then [WORD_PATCH] else [LONG_PATCH]) @
     EmitPtr apatch"

definition DoSegRef :: "u16 \<Rightarrow> bytes" where
  "DoSegRef segid =
     [ESC, ESC_REL OR ESCA_BASE OR ESCA_OFST] @ EmitSegId segid @ EmitOffset 0"

definition DoLblRef :: "u64 \<Rightarrow> u16 \<Rightarrow> u32 \<Rightarrow> u8 \<Rightarrow> bytes" where
  "DoLblRef lbl segid val esc_attr =
     [ESC, ESC_LBL OR esc_attr] @ EmitSegId segid @ EmitPtr lbl @
     (if esc_attr AND ESCA_OFST \<noteq> 0 then EmitOffset val else [])"

definition DoRelocRef :: "cg_tables \<Rightarrow> u64 \<Rightarrow> cg_class \<Rightarrow> u16 \<Rightarrow> u32 \<Rightarrow> u8 \<Rightarrow> bytes" where
  "DoRelocRef E s cls segid val esc_attr =
    (if esc_attr AND ESCA_BASE \<noteq> 0
     then [ESC, ESC_REL OR esc_attr OR ESCA_OFST] @ EmitSegId segid @ EmitOffset 0
     else
       let lbl = AskForSymLabel E s cls;
           addr = AskAddress E lbl
       in if addr \<noteq> ADDR_UNKNOWN \<and> \<not> AskIfCommonLabel E lbl
          then [ESC, ESC_REL OR esc_attr OR ESCA_OFST] @ EmitSegId segid @ EmitOffset (val + addr)
          else if cls = CG_FE
          then [ESC, ESC_SYM OR esc_attr] @ EmitPtr s @
               (if esc_attr AND ESCA_OFST \<noteq> 0 then EmitOffset val else [])
          else DoLblRef lbl segid val esc_attr)"

definition fe_attr_bits :: "u32 \<Rightarrow> fe_fixup_types \<Rightarrow> u32 \<times> u8" where
  "fe_attr_bits val fixup_type =
    (let val = (if fixup_type = FE_FIX_BASE then 0 else val);
         esc_attr = (case fixup_type of
                       FE_FIX_BASE \<Rightarrow> ESCA_BASE | FE_FIX_SELF \<Rightarrow> ESCA_SELF | FE_FIX_OFF \<Rightarrow> 0)
     in (val, if val \<noteq> 0 then esc_attr OR ESCA_OFST else esc_attr))"

definition DoFESymRef :: "cg_tables \<Rightarrow> u64 \<Rightarrow> cg_class \<Rightarrow> u32 \<Rightarrow> fe_fixup_types \<Rightarrow> bytes" where
  "DoFESymRef E s cls val0 fixup_type =
    (let (val, esc_attr) = fe_attr_bits val0 fixup_type
     in if cls = CG_FE then
          let attr = FEAttr E s;
              esc_attr = (if esc_attr AND ESCA_BASE = 0 \<and> target_windows E \<and> attr AND FE_PROC \<noteq> 0
                             \<and> calls_far E s
                          then esc_attr OR ESCA_LDOF else esc_attr)
          in if UseImportForm attr then
               [ESC, ESC_IMP OR esc_attr] @ EmitPtr s @
               (if esc_attr AND ESCA_OFST \<noteq> 0 then EmitOffset val else [])
             else if attr AND FE_GLOBAL \<noteq> 0 then
               DoRelocRef E s CG_FE (AskSegID E s CG_FE) val esc_attr
             else
               DoRelocRef E (AskForSymLabel E s CG_FE) CG_LBL (AskSegID E s CG_FE) val esc_attr
        else DoRelocRef E s cls (AskSegID E s cls) val esc_attr)"

definition DoSymRef :: "cg_tables \<Rightarrow> u64 \<Rightarrow> cg_class \<Rightarrow> u32 \<Rightarrow> bool \<Rightarrow> bytes" where
  "DoSymRef E s memory_type val base =
     DoFESymRef E s memory_type val (if base then FE_FIX_BASE else FE_FIX_OFF)"

text \<open>
  \<open>CodeHasAbsPatch\<close> scans the string for an \<open>ESC\<close> that is followed by \<open>ESC_ABS\<close>.  The second read
  may be of the byte after the string.
\<close>

fun CodeHasAbsPatch :: "bytes \<Rightarrow> bool option" where
  "CodeHasAbsPatch [] = Some False"
| "CodeHasAbsPatch (b # bs) =
    (if b = ESC
     then (case bs of
             [] \<Rightarrow> None
           | c # rest \<Rightarrow> if c = ESC_ABS then Some True else CodeHasAbsPatch rest)
     else CodeHasAbsPatch bs)"

section \<open>Reading them back: \<open>ExpandObj\<close>\<close>

text \<open>
  The calls to the object writer, in the order they are made.
\<close>

datatype obj_call =
    OutDBytes bytes
  | OutDataByte u8
  | OutDataShort u16
  | OutDataLong u32
  | OutReloc u16 fix_class bool
  | OutPatch u64 u8
  | OutImport u64 fix_class bool
  | OutRTImport u64 fix_class
  | OutRTImportRel u64 fix_class bool
  | OutSpecialCommon u64 fix_class bool
  | OutAbsPatch u64 u8
  | OutFPPatch u8
  | OutLabel u64
  | OutLineNum u32 bool
  | OutSelect bool
  | DbgSetBase
  | DbgRtnBeg u64 u32
  | DbgBlkBeg u64 u32
  | DbgEpiBeg u64 u32
  | DbgBlkEnd u64 u32
  | DbgProEnd u64 u32
  | DbgRtnEnd u64 u32
  | TellScrapLabel u64
  | TellKeepLabel u64
  | GenKillLabel u64
  | SetUpObj bool
  | SavePendingLine
  | RestorePendingLine
  | Zoiks nat

definition rd_field :: "nat \<Rightarrow> bytes \<Rightarrow> (nat \<times> bytes) option" where
  "rd_field n cur = (if n \<le> length cur then Some (le_val (take n cur), drop n cur) else None)"

definition esc_fix_class :: "u8 \<Rightarrow> fix_class" where
  "esc_fix_class e =
    (if e AND ESCA_BASE \<noteq> 0 then F_BASE
     else if e AND ESCA_LDOF \<noteq> 0 then F_LDR_OFFSET
     else F_OFFSET)"

text \<open>
  \<open>lbl_value\<close> is the value of a label, 0 with a patch to come when its address is not known.
\<close>

definition lbl_value :: "cg_tables \<Rightarrow> u64 \<Rightarrow> fix_class \<Rightarrow> u32 \<times> obj_call list" where
  "lbl_value E lbl cls =
    (let val = AskAddress E lbl
     in if val = ADDR_UNKNOWN
        then (0, [OutPatch lbl (if cls = F_OFFSET \<or> cls = F_LDR_OFFSET
                                then ADD_PATCH OR LONG_PATCH else ADD_PATCH OR WORD_PATCH)])
        else (val, []))"

text \<open>
  The \<open>switch\<close> on the code: \<open>Inl\<close> for the two cases that end in \<open>continue\<close>, \<open>Inr\<close> for those that go on
  to the offset.  The state is the rest of the string, \<open>val\<close> and \<open>lbl\<close>.
\<close>

type_synonym expand_state = "bytes \<times> u32 \<times> u64 \<times> obj_call list"

definition expand_switch ::
    "cg_tables \<Rightarrow> u8 \<Rightarrow> bytes \<Rightarrow> u32 \<Rightarrow> u64 \<Rightarrow> (expand_state + expand_state) option" where
  "expand_switch E e cur val lbl =
    (let cls = esc_fix_class e;
         rel = (e AND ESCA_SELF \<noteq> 0);
         code = e AND NOT ESCA_MASK
     in if code = ESC_REL then do {
          (segid, cur) \<leftarrow> rd_field 2 cur;
          Some (Inr (cur, 0, lbl, [OutReloc (word_of_nat segid) cls rel]))
        }
        else if code = ESC_SYM then do {
          (s, cur) \<leftarrow> rd_field 8 cur;
          let s = word_of_nat s;
          let lbl = AskForSymLabel E s CG_FE;
          let v = lbl_value E lbl cls;
          Some (Inr (cur, fst v, lbl, snd v @ [OutReloc (AskSegID E s CG_FE) cls rel]))
        }
        else if code = ESC_LBL then do {
          (segid, cur) \<leftarrow> rd_field 2 cur;
          (p, cur) \<leftarrow> rd_field 8 cur;
          let lbl = word_of_nat p;
          if AskIfRTLabel E lbl
          then Some (Inr (cur, 0, lbl,
                 [OutRTImportRel (SYM2RTIDX (AskForLblSym E lbl)) F_OFFSET False]))
          else do {
            let first = (if AskIfCommonLabel E lbl
                         then OutSpecialCommon (AskForLblSym E lbl) cls rel
                         else OutReloc (word_of_nat segid) cls rel);
            let v = lbl_value E lbl cls;
            Some (Inr (cur, fst v, lbl, first # snd v))
          }
        }
        else if code = ESC_IMP then do {
          (s, cur) \<leftarrow> rd_field 8 cur;
          Some (Inr (cur, 0, lbl, [OutImport (word_of_nat s) cls rel]))
        }
        else if code = ESC_ABS then do {
          (attr, cur) \<leftarrow> rd_field 1 cur;
          (apatch, cur) \<leftarrow> rd_field 8 cur;
          Some (Inl (cur, word_of_nat attr, lbl,
                     [OutAbsPatch (word_of_nat apatch) (word_of_nat attr)]))
        }
        else if code = ESC_FUN then do {
          (i, cur) \<leftarrow> rd_field 1 cur;
          Some (Inl (cur, val, lbl, [OutFPPatch (word_of_nat i)]))
        }
        else Some (Inr (cur, val, lbl, [Zoiks 38])))"

definition expand_escape :: "cg_tables \<Rightarrow> u8 \<Rightarrow> bytes \<Rightarrow> u32 \<Rightarrow> u64 \<Rightarrow> expand_state option" where
  "expand_escape E e cur val lbl =
    (case expand_switch E e cur val lbl of
       None \<Rightarrow> None
     | Some (Inl st) \<Rightarrow> Some st
     | Some (Inr (cur, val, lbl, calls)) \<Rightarrow> do {
         (val, cur) \<leftarrow> (if e AND ESCA_OFST \<noteq> 0
                        then do { (tmp, cur) \<leftarrow> rd_field 4 cur; Some (val + word_of_nat tmp, cur) }
                        else Some (val, cur));
         let data = (if esc_fix_class e = F_BASE then OutDataShort (ucast val) else OutDataLong val);
         Some (cur, val, lbl, calls @ [data])
       })"

lemma rd_field_shrinks: "rd_field n cur = Some (v, cur') \<Longrightarrow> length cur' \<le> length cur"
  by (auto simp: rd_field_def split: if_splits)

lemma expand_switch_shrinks:
  assumes "expand_switch E e cur val lbl = Some r"
  shows "length (fst (case r of Inl st \<Rightarrow> st | Inr st \<Rightarrow> st)) \<le> length cur"
  using assms
  by (auto simp: expand_switch_def Let_def bind_eq_Some_conv split: if_splits
           dest!: rd_field_shrinks)

lemma expand_escape_shrinks:
  assumes "expand_escape E e cur val lbl = Some (cur', r)"
  shows "length cur' \<le> length cur"
proof (cases "expand_switch E e cur val lbl")
  case None
  with assms show ?thesis by (simp add: expand_escape_def)
next
  case (Some s)
  have "length (fst (case s of Inl st \<Rightarrow> st | Inr st \<Rightarrow> st)) \<le> length cur"
    using Some by (rule expand_switch_shrinks)
  with assms Some show ?thesis
    by (auto simp: expand_escape_def Let_def bind_eq_Some_conv split: sum.splits if_splits
             dest!: rd_field_shrinks)
qed

text \<open>
  The loop.  The inner \<open>while\<close> finds the run of bytes before the next \<open>ESC\<close> or the end.
\<close>

function expand_loop :: "cg_tables \<Rightarrow> bytes \<Rightarrow> u32 \<Rightarrow> u64 \<Rightarrow> (u64 \<times> obj_call list) option" where
  "expand_loop E cur val lbl =
    (if cur = [] then Some (lbl, [])
     else
       let run = takeWhile (\<lambda>b. b \<noteq> ESC) cur;
           pre = (if run \<noteq> [] then [OutDBytes run] else []);
           cur' = drop (length run) cur
       in if cur' = [] then Some (lbl, pre)
          else if length cur' = 1 then None
          else if cur' ! 1 = ESC
          then map_option (\<lambda>(l, cs). (l, pre @ OutDataByte ESC # cs))
                 (expand_loop E (drop 2 cur') val lbl)
          else (case expand_escape E (cur' ! 1) (drop 2 cur') val lbl of
                  None \<Rightarrow> None
                | Some (cur'', val'', lbl'', calls) \<Rightarrow>
                    map_option (\<lambda>(l, cs). (l, pre @ calls @ cs)) (expand_loop E cur'' val'' lbl'')))"
  by pat_completeness auto

termination
proof (relation "measure (\<lambda>(E, cur, val, lbl). length cur)", goal_cases)
  case 1
  show ?case by simp
next
  case (2 E cur val lbl run pre cur')
  then show ?case by auto
next
  case (3 E cur val lbl run pre cur' st cur'' st2 val'' st3 lbl'' calls)
  have "expand_escape E (cur' ! 1) (drop 2 cur') val lbl = Some (cur'', val'', lbl'', calls)"
    using 3 by simp
  then have "length cur'' \<le> length (drop 2 cur')"
    by (rule expand_escape_shrinks)
  moreover have "length (drop 2 cur') < length cur"
    using 3 by auto
  ultimately show ?case by simp
qed

definition ExpandObj :: "cg_tables \<Rightarrow> bytes \<Rightarrow> (u64 \<times> obj_call list) option" where
  "ExpandObj E cur = expand_loop E cur 0 0"


declare expand_loop.simps [simp del]

section \<open>Scanning byte by byte\<close>

text \<open>
  What \<open>ExpandObj\<close> sends in runs is the same data as single bytes.  \<open>flat\<close> forgets the runs; with it,
  the loop is the plain scanner \<open>esc_scan\<close>, which looks at one byte at a time.
\<close>

fun flat_call :: "obj_call \<Rightarrow> obj_call list" where
  "flat_call (OutDBytes bs) = map OutDataByte bs"
| "flat_call c = [c]"

definition flat :: "obj_call list \<Rightarrow> obj_call list" where
  "flat cs = concat (map flat_call cs)"

lemma flat_simps [simp]:
  "flat [] = []" "flat (c # cs) = flat_call c @ flat cs" "flat (cs @ cs') = flat cs @ flat cs'"
  by (simp_all add: flat_def)

function esc_scan :: "cg_tables \<Rightarrow> bytes \<Rightarrow> u32 \<Rightarrow> u64 \<Rightarrow> (u64 \<times> obj_call list) option" where
  "esc_scan E [] val lbl = Some (lbl, [])"
| "esc_scan E (b # cur) val lbl =
    (if b \<noteq> ESC then map_option (\<lambda>(l, cs). (l, OutDataByte b # cs)) (esc_scan E cur val lbl)
     else if cur = [] then None
     else if hd cur = ESC
     then map_option (\<lambda>(l, cs). (l, OutDataByte ESC # cs)) (esc_scan E (tl cur) val lbl)
     else (case expand_escape E (hd cur) (tl cur) val lbl of
             None \<Rightarrow> None
           | Some (cur', val', lbl', calls) \<Rightarrow>
               map_option (\<lambda>(l, cs). (l, calls @ cs)) (esc_scan E cur' val' lbl')))"
  by pat_completeness auto

termination
proof (relation "measure (\<lambda>(E, cur, val, lbl). length cur)", goal_cases)
  case (4 E b cur val lbl st cur' st2 val' st3 lbl' calls)
  then have "expand_escape E (hd cur) (tl cur) val lbl = Some (cur', val', lbl', calls)"
    by simp
  then have "length cur' \<le> length (tl cur)"
    by (rule expand_escape_shrinks)
  then show ?case by simp
qed auto

lemma flat_no_runs: "(\<And>bs. OutDBytes bs \<notin> set cs) \<Longrightarrow> flat cs = cs"
proof (induction cs)
  case (Cons c cs)
  then have "flat_call c = [c]" by (cases c) auto
  with Cons show ?case by simp
qed simp

lemma lbl_value_no_runs: "OutDBytes bs \<notin> set (snd (lbl_value E lbl cls))"
  by (simp add: lbl_value_def Let_def)

lemma expand_switch_no_runs:
  assumes "expand_switch E e cur val lbl = Some r"
  shows "OutDBytes bs \<notin> set (snd (snd (snd (case r of Inl st \<Rightarrow> st | Inr st \<Rightarrow> st))))"
  using assms lbl_value_no_runs
  by (auto simp: expand_switch_def Let_def bind_eq_Some_conv split: if_splits)

lemma flat_expand_escape:
  assumes "expand_escape E e cur val lbl = Some (cur', val', lbl', calls)"
  shows "flat calls = calls"
proof (rule flat_no_runs)
  fix bs
  from assms obtain r where r: "expand_switch E e cur val lbl = Some r"
    by (cases "expand_switch E e cur val lbl") (auto simp: expand_escape_def)
  from expand_switch_no_runs [OF r, of bs] assms r
  show "OutDBytes bs \<notin> set calls"
    by (auto simp: expand_escape_def Let_def bind_eq_Some_conv split: sum.splits if_splits)
qed

lemma scan_skips_run:
  assumes "\<And>b. b \<in> set run \<Longrightarrow> b \<noteq> ESC"
  shows "esc_scan E (run @ cur) val lbl =
           map_option (\<lambda>(l, cs). (l, map OutDataByte run @ cs)) (esc_scan E cur val lbl)"
  using assms
proof (induction run)
  case Nil
  then show ?case by (simp add: option.map_ident)
next
  case (Cons b run)
  then show ?case
    by (simp add: option.map_comp comp_def case_prod_unfold)
qed

lemma expand_loop_is_scan:
  "map_option (apsnd flat) (expand_loop E cur val lbl) = esc_scan E cur val lbl"
proof (induction E cur val lbl rule: expand_loop.induct)
  case (1 E cur val lbl)
  define run where "run = takeWhile (\<lambda>b. b \<noteq> ESC) cur"
  define cur' where "cur' = drop (length run) cur"
  define pre where "pre = (if run \<noteq> [] then [OutDBytes run] else [])"
  have cur: "cur = run @ cur'"
    unfolding run_def cur'_def by (metis append_take_drop_id takeWhile_eq_take)
  have runs: "b \<in> set run \<Longrightarrow> b \<noteq> ESC" for b
    unfolding run_def using set_takeWhileD by fastforce
  have hd: "hd cur' = ESC" if "cur' \<noteq> []"
  proof -
    have "cur' = dropWhile (\<lambda>b. b \<noteq> ESC) cur"
      unfolding cur'_def run_def by (rule dropWhile_eq_drop [symmetric])
    with that hd_dropWhile [of "\<lambda>b. b \<noteq> ESC" cur] show ?thesis by simp
  qed
  have pre: "flat pre = map OutDataByte run"
    by (simp add: pre_def)
  have step: "expand_loop E cur val lbl =
      (if cur' = [] then Some (lbl, pre)
       else if length cur' = 1 then None
       else if cur' ! 1 = ESC
       then map_option (\<lambda>(l, cs). (l, pre @ OutDataByte ESC # cs)) (expand_loop E (drop 2 cur') val lbl)
       else (case expand_escape E (cur' ! 1) (drop 2 cur') val lbl of
               None \<Rightarrow> None
             | Some (cur'', val'', lbl'', calls) \<Rightarrow>
                 map_option (\<lambda>(l, cs). (l, pre @ calls @ cs)) (expand_loop E cur'' val'' lbl'')))"
    if "cur \<noteq> []"
    unfolding run_def cur'_def pre_def
    by (subst expand_loop.simps) (use that in \<open>simp only: Let_def if_False\<close>)
  have scan: "esc_scan E cur val lbl =
                map_option (\<lambda>(l, cs). (l, flat pre @ cs)) (esc_scan E cur' val lbl)"
    unfolding pre by (subst cur, rule scan_skips_run) (rule runs)
  consider "cur = []" | "cur \<noteq> []" "cur' = []" | "cur' = [ESC]"
    | rest where "cur' = ESC # ESC # rest"
    | c rest where "cur' = ESC # c # rest" "c \<noteq> ESC"
  proof (cases cur')
    case Nil
    then show ?thesis using that(1,2) by blast
  next
    case (Cons a rest)
    with hd have a: "a = ESC" by simp
    show ?thesis
    proof (cases rest)
      case Nil
      with Cons a that(3) show ?thesis by simp
    next
      case (Cons c rest')
      with \<open>cur' = a # rest\<close> a that(4) [of rest'] that(5) [of c rest'] show ?thesis by blast
    qed
  qed
  then show ?case
  proof cases
    case 1
    then show ?thesis by (simp add: expand_loop.simps)
  next
    case 2
    then show ?thesis unfolding scan step [OF 2(1)] by (simp add: pre)
  next
    case 3
    then have ne: "cur \<noteq> []" using cur by auto
    from 3 show ?thesis unfolding scan step [OF ne] by simp
  next
    case (4 rest)
    have ne: "cur \<noteq> []" using cur 4 by auto
    have IH: "map_option (apsnd flat) (expand_loop E rest val lbl) = esc_scan E rest val lbl"
      using 1 [OF ne run_def pre_def cur'_def] 4 by simp
    from 4 show ?thesis
      unfolding scan step [OF ne]
      by (simp add: IH [symmetric] option.map_comp comp_def case_prod_unfold apsnd_def map_prod_def)
  next
    case (5 c rest)
    have ne: "cur \<noteq> []" using cur 5 by auto
    show ?thesis
    proof (cases "expand_escape E c rest val lbl")
      case None
      with 5 show ?thesis unfolding scan step [OF ne] by simp
    next
      case (Some st)
      obtain cur2 val2 lbl2 calls where st: "st = (cur2, val2, lbl2, calls)" by (cases st)
      have calls: "flat calls = calls"
        using Some flat_expand_escape unfolding st by blast
      have IH: "map_option (apsnd flat) (expand_loop E cur2 val2 lbl2) = esc_scan E cur2 val2 lbl2"
        using 1 [OF ne run_def pre_def cur'_def] 5 Some st by simp
      from 5 Some st show ?thesis
        unfolding scan step [OF ne]
        by (simp add: IH [symmetric] calls option.map_comp comp_def case_prod_unfold
              apsnd_def map_prod_def)
    qed
  qed
qed


section \<open>Items\<close>

text \<open>
  The grammar in the head of \<open>escape.h\<close>: a string is a list of items, each a byte of the
  instruction, a reference, an absolute patch or a floating-point patch.  A reference has a target,
  the flags \<open>BASE\<close>, \<open>LDOF\<close>, \<open>SELF\<close> and perhaps an offset.
\<close>

datatype esc_ref = RSym u64 | RImp u64 | RRel u16 | RLbl u16 u64

datatype esc_item =
    EByte u8
  | ERef esc_ref bool bool bool "u32 option"
  | EAbs u8 u64
  | EFun u8

fun ref_code :: "esc_ref \<Rightarrow> u8" where
  "ref_code (RSym s) = ESC_SYM"
| "ref_code (RImp s) = ESC_IMP"
| "ref_code (RRel g) = ESC_REL"
| "ref_code (RLbl g l) = ESC_LBL"

fun ref_operand :: "esc_ref \<Rightarrow> bytes" where
  "ref_operand (RSym s) = EmitPtr s"
| "ref_operand (RImp s) = EmitPtr s"
| "ref_operand (RRel g) = EmitSegId g"
| "ref_operand (RLbl g l) = EmitSegId g @ EmitPtr l"

definition attr_bits :: "bool \<Rightarrow> bool \<Rightarrow> bool \<Rightarrow> bool \<Rightarrow> u8" where
  "attr_bits base ldof self ofst =
     (if base then ESCA_BASE else 0) OR (if ldof then ESCA_LDOF else 0) OR
     (if self then ESCA_SELF else 0) OR (if ofst then ESCA_OFST else 0)"

fun item_bytes :: "esc_item \<Rightarrow> bytes" where
  "item_bytes (EByte b) = (if b = ESC then [ESC, ESC] else [b])"
| "item_bytes (ERef r base ldof self off) =
     [ESC, ref_code r OR attr_bits base ldof self (off \<noteq> None)] @ ref_operand r @
     (case off of None \<Rightarrow> [] | Some v \<Rightarrow> EmitOffset v)"
| "item_bytes (EAbs attr apatch) = [ESC, ESC_ABS, attr] @ EmitPtr apatch"
| "item_bytes (EFun i) = [ESC, ESC_FUN, i]"

definition items_bytes :: "esc_item list \<Rightarrow> bytes" where
  "items_bytes is = concat (map item_bytes is)"

lemma items_bytes_simps [simp]:
  "items_bytes [] = []"
  "items_bytes (i # is) = item_bytes i @ items_bytes is"
  "items_bytes (is @ js) = items_bytes is @ items_bytes js"
  by (simp_all add: items_bytes_def)

text \<open>
  What an item means: the calls it stands for, the label it leaves in \<open>lbl\<close>, and the number of
  bytes of code.
\<close>

definition ref_class :: "bool \<Rightarrow> bool \<Rightarrow> fix_class" where
  "ref_class base ldof = (if base then F_BASE else if ldof then F_LDR_OFFSET else F_OFFSET)"

fun ref_value :: "cg_tables \<Rightarrow> esc_ref \<Rightarrow> fix_class \<Rightarrow> bool \<Rightarrow> u32 \<times> obj_call list" where
  "ref_value E (RRel g) cls rel = (0, [OutReloc g cls rel])"
| "ref_value E (RImp s) cls rel = (0, [OutImport s cls rel])"
| "ref_value E (RSym s) cls rel =
     (let v = lbl_value E (fe_lbl E s) cls
      in (fst v, snd v @ [OutReloc (AskSegID E s CG_FE) cls rel]))"
| "ref_value E (RLbl g l) cls rel =
     (if AskIfRTLabel E l then (0, [OutRTImportRel (SYM2RTIDX (AskForLblSym E l)) F_OFFSET False])
      else let v = lbl_value E l cls
           in (fst v, (if AskIfCommonLabel E l then OutSpecialCommon (AskForLblSym E l) cls rel
                       else OutReloc g cls rel) # snd v))"

fun item_calls :: "cg_tables \<Rightarrow> esc_item \<Rightarrow> obj_call list" where
  "item_calls E (EByte b) = [OutDataByte b]"
| "item_calls E (ERef r base ldof self off) =
     (let v = ref_value E r (ref_class base ldof) self;
          w = (case off of None \<Rightarrow> fst v | Some d \<Rightarrow> fst v + d)
      in snd v @ [if base then OutDataShort (ucast w) else OutDataLong w])"
| "item_calls E (EAbs attr apatch) = [OutAbsPatch apatch attr]"
| "item_calls E (EFun i) = [OutFPPatch i]"

fun item_label :: "cg_tables \<Rightarrow> esc_item \<Rightarrow> u64 \<Rightarrow> u64" where
  "item_label E (ERef (RSym s) base ldof self off) lbl = fe_lbl E s"
| "item_label E (ERef (RLbl g l) base ldof self off) lbl = l"
| "item_label E i lbl = lbl"

definition patch_size :: "u8 \<Rightarrow> nat" where
  "patch_size attr = (if attr AND LONG_PATCH \<noteq> 0 then 4 else if attr AND WORD_PATCH \<noteq> 0 then 2 else 1)"

fun item_size :: "esc_item \<Rightarrow> nat" where
  "item_size (EByte b) = 1"
| "item_size (ERef r base ldof self off) = (if base then 2 else 4)"
| "item_size (EAbs attr apatch) = patch_size attr"
| "item_size (EFun i) = 0"

fun call_size :: "obj_call \<Rightarrow> nat" where
  "call_size (OutDBytes bs) = length bs"
| "call_size (OutDataByte b) = 1"
| "call_size (OutDataShort w) = 2"
| "call_size (OutDataLong w) = 4"
| "call_size (OutAbsPatch p attr) = patch_size attr"
| "call_size c = 0"

definition calls_size :: "obj_call list \<Rightarrow> nat" where
  "calls_size cs = sum_list (map call_size cs)"

lemma calls_size_simps [simp]:
  "calls_size [] = 0"
  "calls_size (c # cs) = call_size c + calls_size cs"
  "calls_size (cs @ cs') = calls_size cs + calls_size cs'"
  by (simp_all add: calls_size_def)

lemma calls_size_flat [simp]: "calls_size (flat cs) = calls_size cs"
proof (induction cs)
  case (Cons c cs)
  have "calls_size (map OutDataByte bs) = length bs" for bs
    by (induction bs) auto
  with Cons show ?case by (cases c) auto
qed simp

lemma lbl_value_size [simp]: "calls_size (snd (lbl_value E l cls)) = 0"
  by (simp add: lbl_value_def Let_def)

lemma item_calls_size: "calls_size (item_calls E i) = item_size i"
proof (cases i)
  case (ERef r base ldof self off)
  have "calls_size (snd (ref_value E r cls rel)) = 0" for cls rel
    by (cases r) (auto simp: Let_def)
  with ERef show ?thesis by (simp add: Let_def)
qed auto

section \<open>The scanner reads the items\<close>

lemma rd_field_le_bytes:
  "rd_field n (le_bytes n v @ rest) = Some (v mod 256 ^ n, rest)"
  by (simp add: rd_field_def le_val_le_bytes)

lemma rd_ptr [simp]: "rd_field 8 (EmitPtr p @ rest) = Some (unat p, rest)"
proof -
  have "unat p < 2 ^ LENGTH(64)" by (rule unsigned_less)
  then show ?thesis unfolding EmitPtr_def rd_field_le_bytes by simp
qed

lemma rd_segid [simp]: "rd_field 2 (EmitSegId g @ rest) = Some (unat g, rest)"
proof -
  have "unat g < 2 ^ LENGTH(16)" by (rule unsigned_less)
  then show ?thesis unfolding EmitSegId_def rd_field_le_bytes by simp
qed

lemma rd_offset [simp]: "rd_field 4 (EmitOffset v @ rest) = Some (unat v, rest)"
proof -
  have "unat v < 2 ^ LENGTH(32)" by (rule unsigned_less)
  then show ?thesis unfolding EmitOffset_def rd_field_le_bytes by simp
qed

lemma rd_byte: "rd_field 1 (b # rest) = Some (unat b, rest)" "rd_field (Suc 0) (b # rest) = Some (unat b, rest)"
  by (simp_all add: rd_field_def)

lemma esc_byte_fields:
  fixes base ldof self ofst :: bool and r :: esc_ref
  defines "e \<equiv> ref_code r OR attr_bits base ldof self ofst"
  shows "e \<noteq> ESC" "e AND NOT ESCA_MASK = ref_code r" "esc_fix_class e = ref_class base ldof"
    "(e AND ESCA_SELF \<noteq> 0) = self" "(e AND ESCA_OFST \<noteq> 0) = ofst"
  unfolding e_def attr_bits_def esc_fix_class_def ref_class_def
  by (cases r; cases base; cases ldof; cases self; cases ofst; simp)+

lemma expand_switch_ref:
  "expand_switch E (ref_code r OR attr_bits base ldof self ofst) (ref_operand r @ rest) val lbl =
     Some (Inr (let v = ref_value E r (ref_class base ldof) self
                in (rest, fst v, item_label E (ERef r base ldof self off) lbl, snd v)))"
  unfolding expand_switch_def esc_byte_fields
  by (cases r) (simp_all add: Let_def AskForSymLabel_def)

lemma expand_escape_ref:
  "expand_escape E (ref_code r OR attr_bits base ldof self (off \<noteq> None))
     (ref_operand r @ (case off of None \<Rightarrow> [] | Some v \<Rightarrow> EmitOffset v) @ rest) val lbl =
   Some (rest, (let v = fst (ref_value E r (ref_class base ldof) self)
                in case off of None \<Rightarrow> v | Some d \<Rightarrow> v + d),
         item_label E (ERef r base ldof self off) lbl, item_calls E (ERef r base ldof self off))"
  unfolding expand_escape_def expand_switch_ref [where off = off] esc_byte_fields
  by (cases off) (auto simp: Let_def esc_byte_fields ref_class_def)

lemma scan_item:
  "\<exists>val'. esc_scan E (item_bytes i @ rest) val lbl =
     map_option (\<lambda>(l, cs). (l, item_calls E i @ cs)) (esc_scan E rest val' (item_label E i lbl))"
proof (cases i)
  case (EByte b)
  then show ?thesis by auto
next
  case (ERef r base ldof self off)
  let ?e = "ref_code r OR attr_bits base ldof self (off \<noteq> None)"
  have "?e \<noteq> ESC" by (rule esc_byte_fields)
  then show ?thesis
    unfolding ERef item_bytes.simps append_Cons append_Nil esc_scan.simps append_assoc list.sel
      expand_escape_ref
    by auto
next
  case (EAbs attr apatch)
  then show ?thesis
    by (auto simp: expand_escape_def expand_switch_def rd_byte Let_def)
next
  case (EFun n)
  then show ?thesis
    by (auto simp: expand_escape_def expand_switch_def rd_byte Let_def)
qed

lemma scan_items:
  "esc_scan E (items_bytes is) val lbl =
     Some (fold (item_label E) is lbl, concat (map (item_calls E) is))"
proof (induction "is" arbitrary: val lbl)
  case Nil
  then show ?case by simp
next
  case (Cons i "is")
  obtain val' where "esc_scan E (item_bytes i @ items_bytes is) val lbl =
     map_option (\<lambda>(l, cs). (l, item_calls E i @ cs))
       (esc_scan E (items_bytes is) val' (item_label E i lbl))"
    using scan_item by blast
  with Cons show ?case by simp
qed

lemma expand_items_size:
  assumes "ExpandObj E (items_bytes is) = Some (l, cs)"
  shows "calls_size cs = sum_list (map item_size is)"
proof -
  have "flat cs = concat (map (item_calls E) is)"
    using expand_loop_is_scan [of E "items_bytes is" 0 0] assms
    by (simp add: ExpandObj_def scan_items)
  then have "calls_size cs = calls_size (concat (map (item_calls E) is))"
    by (metis calls_size_flat)
  also have "\<dots> = sum_list (map item_size is)"
    by (induction "is") (simp_all add: item_calls_size)
  finally show ?thesis .
qed

lemma expand_items_total: "\<exists>l cs. ExpandObj E (items_bytes is) = Some (l, cs)"
  using expand_loop_is_scan [of E "items_bytes is" 0 0]
  by (auto simp: ExpandObj_def scan_items)

section \<open>The writers write items\<close>

text \<open>
  Every function that writes an escape sequence writes the bytes of one item.  \<open>reloc_item\<close> and
  \<open>fe_item\<close> say which.
\<close>

definition bits_off :: "u32 \<Rightarrow> u32 option" where
  "bits_off val = (if val = 0 then None else Some val)"

definition reloc_item ::
    "cg_tables \<Rightarrow> u64 \<Rightarrow> cg_class \<Rightarrow> u16 \<Rightarrow> u32 \<Rightarrow> bool \<Rightarrow> bool \<Rightarrow> bool \<Rightarrow> esc_item" where
  "reloc_item E s cls segid val base ldof self =
    (if base then ERef (RRel segid) True ldof self (Some 0)
     else
       let lbl = AskForSymLabel E s cls
       in if AskAddress E lbl \<noteq> ADDR_UNKNOWN \<and> \<not> AskIfCommonLabel E lbl
          then ERef (RRel segid) False ldof self (Some (val + AskAddress E lbl))
          else if cls = CG_FE then ERef (RSym s) False ldof self (bits_off val)
          else ERef (RLbl segid lbl) False ldof self (bits_off val))"

lemma attr_bits_or:
  "c OR attr_bits base ldof self ofst OR ESCA_OFST = c OR attr_bits base ldof self True"
  "attr_bits base ldof self ofst AND ESCA_BASE = (if base then ESCA_BASE else 0)"
  "attr_bits base ldof self ofst AND ESCA_OFST = (if ofst then ESCA_OFST else 0)"
  "attr_bits base ldof self ofst OR ESCA_LDOF = attr_bits base True self ofst"
  "attr_bits base ldof self ofst OR ESCA_OFST = attr_bits base ldof self True"
  unfolding attr_bits_def
  by (cases base; cases ldof; cases self; cases ofst; simp)+

lemma DoRelocRef_writes_item:
  assumes "ofst = (val \<noteq> 0)"
  shows "DoRelocRef E s cls segid val (attr_bits base ldof self ofst) =
           item_bytes (reloc_item E s cls segid val base ldof self)"
  using assms
  unfolding DoRelocRef_def reloc_item_def DoLblRef_def attr_bits_or
  by (auto simp: Let_def bits_off_def)

lemma DoSegRef_writes_item: "DoSegRef segid = item_bytes (ERef (RRel segid) True False False (Some 0))"
  by (simp add: DoSegRef_def attr_bits_def)

lemma DoAbsPatch_writes_item:
  "DoAbsPatch apatch len =
     item_bytes (EAbs (if len = 1 then BYTE_PATCH else if len = 2 then WORD_PATCH else LONG_PATCH) apatch)"
  by (simp add: DoAbsPatch_def)

definition fe_item :: "cg_tables \<Rightarrow> u64 \<Rightarrow> cg_class \<Rightarrow> u32 \<Rightarrow> fe_fixup_types \<Rightarrow> esc_item" where
  "fe_item E s cls val0 fixup_type =
    (let val = (if fixup_type = FE_FIX_BASE then 0 else val0);
         base = (fixup_type = FE_FIX_BASE);
         self = (fixup_type = FE_FIX_SELF);
         attr = FEAttr E s;
         ldof = (cls = CG_FE \<and> \<not> base \<and> target_windows E \<and> attr AND FE_PROC \<noteq> 0 \<and> calls_far E s)
     in if cls \<noteq> CG_FE then reloc_item E s cls (AskSegID E s cls) val base False self
        else if UseImportForm attr then ERef (RImp s) base ldof self (bits_off val)
        else reloc_item E (AskForSymLabel E s CG_FE) CG_LBL (AskSegID E s CG_FE) val base ldof self)"

lemma fe_attr_bits_item:
  "fe_attr_bits val0 fixup_type =
     (let val = (if fixup_type = FE_FIX_BASE then 0 else val0)
      in (val, attr_bits (fixup_type = FE_FIX_BASE) False (fixup_type = FE_FIX_SELF) (val \<noteq> 0)))"
  by (cases fixup_type) (auto simp: fe_attr_bits_def attr_bits_def Let_def)

lemma global_uses_import_form: "\<not> UseImportForm attr \<Longrightarrow> attr AND FE_GLOBAL = 0"
proof (rule ccontr)
  assume u: "\<not> UseImportForm attr" and g: "attr AND FE_GLOBAL \<noteq> 0"
  have "(attr AND (FE_GLOBAL OR FE_IMPORT)) AND FE_GLOBAL = attr AND FE_GLOBAL"
    by (simp add: and.assoc)
  with g have "attr AND (FE_GLOBAL OR FE_IMPORT) \<noteq> 0" by auto
  with u show False by (simp add: UseImportForm_def)
qed

text \<open>
  The branch of \<open>DoFESymRef\<close> for global symbols is never taken: a global symbol is referred to in
  import form.
\<close>

lemma DoFESymRef_writes_item:
  "DoFESymRef E s cls val fixup_type = item_bytes (fe_item E s cls val fixup_type)"
proof (cases "cls = CG_FE")
  case True
  let ?base = "fixup_type = FE_FIX_BASE" and ?val = "if fixup_type = FE_FIX_BASE then 0 else val"
  let ?l = "\<not> ?base \<and> target_windows E \<and> FEAttr E s AND FE_PROC \<noteq> 0 \<and> calls_far E s"
  have at: "(if attr_bits ?base False self ofst AND ESCA_BASE = 0 \<and> target_windows E
               \<and> FEAttr E s AND FE_PROC \<noteq> 0 \<and> calls_far E s
             then attr_bits ?base False self ofst OR ESCA_LDOF else attr_bits ?base False self ofst)
            = attr_bits ?base ?l self ofst" for self ofst
    unfolding attr_bits_or by auto
  show ?thesis
  proof (cases "UseImportForm (FEAttr E s)")
    case imp: True
    show ?thesis
      unfolding DoFESymRef_def fe_item_def Let_def fe_attr_bits_item case_prod_conv at
      using True imp by (auto simp: attr_bits_or bits_off_def)
  next
    case False
    have g: "FEAttr E s AND FE_GLOBAL = 0" by (rule global_uses_import_form [OF False])
    show ?thesis
      unfolding DoFESymRef_def fe_item_def Let_def fe_attr_bits_item case_prod_conv at
      using True False g DoRelocRef_writes_item by simp
  qed
next
  case False
  then show ?thesis
    unfolding DoFESymRef_def fe_item_def Let_def fe_attr_bits_item case_prod_conv
    using DoRelocRef_writes_item by simp
qed

section \<open>References do not depend on when they are written\<close>

text \<open>
  Between the encoding of an instruction and its expansion labels get their addresses.  A reference
  to a label that is already placed is written as a segment and an offset, one to a label that is not
  as a pointer to the label, which is asked again when the entry comes out.  \<open>tables_extend E E'\<close>: in
  \<open>E'\<close> some more labels have addresses, nothing else has changed.
\<close>

definition tables_extend :: "cg_tables \<Rightarrow> cg_tables \<Rightarrow> bool" where
  "tables_extend E E' \<longleftrightarrow>
     E' = E\<lparr>labels := labels E'\<rparr> \<and>
     (\<forall>p. lbl_status (labels E' p) = lbl_status (labels E p) \<and>
          lbl_sym (labels E' p) = lbl_sym (labels E p) \<and>
          (AskAddress E p \<noteq> ADDR_UNKNOWN \<longrightarrow> AskAddress E' p = AskAddress E p))"

lemma tables_extend_same:
  assumes "tables_extend E E'"
  shows "AskForSymLabel E' s cls = AskForSymLabel E s cls" "AskSegID E' s cls = AskSegID E s cls"
    "AskIfCommonLabel E' p = AskIfCommonLabel E p" "AskIfRTLabel E' p = AskIfRTLabel E p"
    "FEAttr E' s = FEAttr E s" "target_windows E' = target_windows E" "calls_far E' s = calls_far E s"
proof -
  obtain ls where E': "E' = E\<lparr>labels := ls\<rparr>"
    using assms by (auto simp: tables_extend_def)
  show "AskForSymLabel E' s cls = AskForSymLabel E s cls" "AskSegID E' s cls = AskSegID E s cls"
    "FEAttr E' s = FEAttr E s" "target_windows E' = target_windows E" "calls_far E' s = calls_far E s"
    by (simp_all add: E' AskForSymLabel_def AskSegID_def split: cg_class.splits)
  show "AskIfCommonLabel E' p = AskIfCommonLabel E p" "AskIfRTLabel E' p = AskIfRTLabel E p"
    using assms by (simp_all add: tables_extend_def AskIfCommonLabel_def AskIfRTLabel_def)
qed

lemma tables_extend_address:
  assumes "tables_extend E E'" "AskAddress E p \<noteq> ADDR_UNKNOWN"
  shows "AskAddress E' p = AskAddress E p"
  using assms by (simp add: tables_extend_def)

lemma lbl_ref_known:
  assumes "AskAddress E' l \<noteq> ADDR_UNKNOWN" "\<not> AskIfCommonLabel E' l" "\<not> AskIfRTLabel E' l"
  shows "item_calls E' (ERef (RLbl g l) False ldof self (bits_off val)) =
         item_calls E' (ERef (RRel g) False ldof self (Some (val + AskAddress E' l)))"
  using assms by (simp add: lbl_value_def bits_off_def Let_def add.commute)

lemma reloc_item_late:
  assumes ext: "tables_extend E E'" and "cls \<noteq> CG_FE"
    and rt: "\<not> AskIfRTLabel E (AskForSymLabel E s cls)"
  shows "item_calls E' (reloc_item E s cls g val base ldof self) =
         item_calls E' (reloc_item E' s cls g val base ldof self)"
proof -
  let ?l = "AskForSymLabel E s cls"
  note same = tables_extend_same [OF ext]
  consider "base" | "AskAddress E ?l \<noteq> ADDR_UNKNOWN"
    | "\<not> base" "AskAddress E ?l = ADDR_UNKNOWN" "AskAddress E' ?l = ADDR_UNKNOWN \<or> AskIfCommonLabel E ?l"
    | "\<not> base" "AskAddress E ?l = ADDR_UNKNOWN" "AskAddress E' ?l \<noteq> ADDR_UNKNOWN" "\<not> AskIfCommonLabel E ?l"
    by blast
  then show ?thesis
  proof cases
    case 1
    then show ?thesis by (simp add: reloc_item_def)
  next
    case 2
    then show ?thesis
      using tables_extend_address [OF ext] by (simp add: reloc_item_def same Let_def)
  next
    case 3
    then show ?thesis by (auto simp: reloc_item_def same Let_def)
  next
    case 4
    have "item_calls E' (ERef (RLbl g ?l) False ldof self (bits_off val)) =
          item_calls E' (ERef (RRel g) False ldof self (Some (val + AskAddress E' ?l)))"
      by (rule lbl_ref_known) (use 4 rt in \<open>simp_all add: same\<close>)
    with 4 assms(2) show ?thesis by (simp add: reloc_item_def same Let_def)
  qed
qed

definition expand_data :: "cg_tables \<Rightarrow> bytes \<Rightarrow> obj_call list option" where
  "expand_data E bs = map_option (flat \<circ> snd) (ExpandObj E bs)"

lemma expand_data_items: "expand_data E (items_bytes is) = Some (concat (map (item_calls E) is))"
proof -
  have snd_flat: "map_option (flat \<circ> snd) x = map_option snd (map_option (apsnd flat) x)"
    for x :: "(u64 \<times> obj_call list) option"
    by (cases x) (auto simp: apsnd_def)
  show ?thesis
    unfolding expand_data_def ExpandObj_def snd_flat expand_loop_is_scan scan_items by simp
qed

lemma expand_data_item: "expand_data E (item_bytes i) = Some (item_calls E i)"
  using expand_data_items [of E "[i]"] by simp

text \<open>
  C13. \<open>ExpandObj\<close> inverts the encoding: on the bytes of any list of items it does not read past the
  end, makes exactly the calls of the items in their order (the runs of instruction bytes taken
  together), and returns the label of the last label or symbol reference.
\<close>

theorem expand_reads_items:
  "map_option (apsnd flat) (ExpandObj E (items_bytes is)) =
     Some (fold (item_label E) is 0, concat (map (item_calls E) is))"
  unfolding ExpandObj_def expand_loop_is_scan scan_items ..


text \<open>
  C12. A reference means the same whether it is written before or after its label gets an address:
  expanded with the tables of the end, the sequence that \<open>DoFESymRef\<close> writes early and the one it
  would write late make the same calls with the same values.  Run-time labels are excepted; they
  never have an address.
\<close>

theorem reference_is_time_independent:
  assumes "tables_extend E E'"
    and "\<not> AskIfRTLabel E (AskForSymLabel E s cls)"
  shows "expand_data E' (DoFESymRef E s cls val fixup_type) =
         expand_data E' (DoFESymRef E' s cls val fixup_type)"
proof -
  note same = tables_extend_same [OF assms(1)]
  have "\<not> AskIfRTLabel E (AskForSymLabel E (AskForSymLabel E s cls) CG_LBL)"
    using assms(2) by (simp add: AskForSymLabel_def)
  note late = reloc_item_late [OF assms(1) _ this] reloc_item_late [OF assms(1) _ assms(2)]
  have "item_calls E' (fe_item E s cls val fixup_type) =
        item_calls E' (fe_item E' s cls val fixup_type)"
    using late by (auto simp: fe_item_def same Let_def)
  then show ?thesis
    unfolding DoFESymRef_writes_item expand_data_item by simp
qed

definition sample_tables :: cg_tables where
  "sample_tables =
     \<lparr>labels = (\<lambda>p. \<lparr>lbl_address = ADDR_UNKNOWN, lbl_status = 0, lbl_sym = 0\<rparr>),
      fe_lbl = id, bck_lbl = id, bck_segid = (\<lambda>p. 0), tbl_lbl = id, tbl_value_lbl = id,
      FEAttr = (\<lambda>p. 0), FESegID = (\<lambda>p. 0), InlineFunction = (\<lambda>p. False), calls_far = (\<lambda>p. False),
      codeSegId = 1, dataSegId = 2, altCodeSegId = 3, target_windows = False\<rparr>"

definition sample_later :: cg_tables where
  "sample_later =
     sample_tables\<lparr>labels := (\<lambda>p. \<lparr>lbl_address = 0x100, lbl_status = 0, lbl_sym = 0\<rparr>)\<rparr>"

theorem reference_is_time_independent_witness:
  "expand_data sample_later (DoFESymRef sample_tables 7 CG_LBL 4 FE_FIX_OFF) =
     expand_data sample_later (DoFESymRef sample_later 7 CG_LBL 4 FE_FIX_OFF) \<and>
   DoFESymRef sample_tables 7 CG_LBL 4 FE_FIX_OFF \<noteq> DoFESymRef sample_later 7 CG_LBL 4 FE_FIX_OFF"
proof
  have "tables_extend sample_tables sample_later"
    by (simp add: tables_extend_def sample_tables_def sample_later_def AskAddress_def)
  moreover have "\<not> AskIfRTLabel sample_tables (AskForSymLabel sample_tables 7 CG_LBL)"
    by (simp add: AskIfRTLabel_def sample_tables_def)
  ultimately show "expand_data sample_later (DoFESymRef sample_tables 7 CG_LBL 4 FE_FIX_OFF) =
     expand_data sample_later (DoFESymRef sample_later 7 CG_LBL 4 FE_FIX_OFF)"
    by (rule reference_is_time_independent)
  show "DoFESymRef sample_tables 7 CG_LBL 4 FE_FIX_OFF \<noteq> DoFESymRef sample_later 7 CG_LBL 4 FE_FIX_OFF"
    by (simp add: DoFESymRef_def DoRelocRef_def DoLblRef_def fe_attr_bits_def AskForSymLabel_def
        AskAddress_def AskIfCommonLabel_def sample_tables_def sample_later_def)
qed

section \<open>Looking for absolute patches\<close>

text \<open>
  \<open>CodeHasAbsPatch\<close> does not know how long the operands are.  As long as no operand holds the byte
  \<open>ESC\<close> it finds exactly the absolute patches; when one does, it can take the next sequence for a
  continuation of that byte and miss it.
\<close>

fun is_abs_item :: "esc_item \<Rightarrow> bool" where
  "is_abs_item (EAbs attr apatch) = True"
| "is_abs_item i = False"

definition item_operand :: "esc_item \<Rightarrow> bytes" where
  "item_operand i = (case i of EByte b \<Rightarrow> [] | _ \<Rightarrow> drop 2 (item_bytes i))"

lemma abs_patch_skips:
  "ESC \<notin> set bs \<Longrightarrow> CodeHasAbsPatch (bs @ rest) = CodeHasAbsPatch rest"
  by (induction bs) auto

lemma abs_patch_found_iff:
  assumes "ESC \<notin> set (concat (map item_operand is))"
  shows "CodeHasAbsPatch (items_bytes is) = Some (\<exists>i \<in> set is. is_abs_item i)"
  using assms
proof (induction "is")
  case Nil
  then show ?case by simp
next
  case (Cons i "is")
  then have IH: "CodeHasAbsPatch (items_bytes is) = Some (\<exists>i \<in> set is. is_abs_item i)" by simp
  show ?case
  proof (cases i)
    case (EByte b)
    with IH show ?thesis by simp
  next
    case (ERef r base ldof self off)
    let ?rest = "ref_operand r @ (case off of None \<Rightarrow> [] | Some v \<Rightarrow> EmitOffset v)"
    have "ESC \<notin> set ?rest"
      using Cons.prems ERef by (simp add: item_operand_def)
    then have "CodeHasAbsPatch (?rest @ items_bytes is) = CodeHasAbsPatch (items_bytes is)"
      by (rule abs_patch_skips)
    moreover have "ref_code r OR attr_bits base ldof self (off \<noteq> None) \<noteq> ESC_ABS"
      using esc_byte_fields(2) [of r base ldof self "off \<noteq> None"] by (cases r) auto
    ultimately show ?thesis using IH ERef by simp
  next
    case (EAbs attr apatch)
    then show ?thesis by simp
  next
    case (EFun n)
    then have "ESC \<noteq> n" using Cons.prems by (simp add: item_operand_def)
    with EFun IH show ?thesis by simp
  qed
qed

lemma le_bytes_numeral:
  "le_bytes (numeral k) v = word_of_nat v # le_bytes (pred_numeral k) (v div 256)"
  by (simp only: numeral_eq_Suc [of k] le_bytes.simps)

lemma abs_patch_missed:
  "CodeHasAbsPatch (items_bytes [ERef (RRel 1) False False False (Some 0x6b000000), EAbs LONG_PATCH 8])
     = Some False"
  by (simp add: EmitPtr_def EmitSegId_def EmitOffset_def attr_bits_def le_bytes_numeral)

end
