(* ===== verification/CgOutput.thy ===== *)
theory CgOutput
  imports CgEscape X86Decode
begin

text \<open>
  The end of the optimiser queue: \<open>OutputOC\<close> of \<open>bld/cg/intel/c/x86esc.c\<close> turns one queue entry into
  calls of the object writer.  With it \<open>ExpandCJ\<close> for calls and branches, \<open>DoAlignment\<close> for the
  padding before labels, the macros of \<open>jumps.h\<close>, and the table of branch sizes \<open>OptInsSize\<close> of
  \<open>386ilen.c\<close>.  The build modelled is the one for 386 and x64 (the \<open>#else\<close> branches of \<open>_TARG_8086\<close>).

  \<open>AskLocation()\<close> is the location of the current segment; each call moves it by the number of
  bytes of data it writes (\<open>call_size\<close>).  The optimiser decides which branches are short from the
  field \<open>objlen\<close> of the entries, so the first thing to show is that \<open>OutputOC\<close> writes \<open>objlen\<close> bytes.
\<close>

section \<open>Queue entries\<close>

datatype oc_base =
    OC_DEAD | OC_INFO | OC_CODE | OC_DATA | OC_RCODE | OC_BDATA | OC_LABEL | OC_LREF | OC_CALL
  | OC_CALLI | OC_JCOND | OC_JCONDI | OC_JMP | OC_JMPI | OC_RET | OC_NORET | OC_IDATA

datatype oc_info =
    OC_INFO_LINE | OC_INFO_LDONE | OC_INFO_DEAD_JMP | OC_INFO_DBG_RTN_BEG | OC_INFO_DBG_BLK_BEG
  | OC_INFO_DBG_PRO_END | OC_INFO_DBG_EPI_BEG | OC_INFO_DBG_BLK_END | OC_INFO_DBG_RTN_END
  | OC_INFO_SELECT | OC_INFO_FUNC_START | OC_INFO_FUNC_END

datatype oc_dest_attr = OC_DEST_SHORT | OC_DEST_NEAR | OC_DEST_CHEAP | OC_DEST_FAR

text \<open>
  The union \<open>any_oc\<close> as one record.  The class word is taken apart into the base, the kind of an
  \<open>OC_INFO\<close> and the attribute bits; \<open>attr_short\<close> is also \<open>OC_ATTR_IRET\<close>.  \<open>oc_data\<close> are the bytes after
  the header, so its length is \<open>reclen\<close> less the offset of \<open>data\<close>.
\<close>

record any_oc =
  oc_base :: oc_base
  oc_info :: oc_info
  attr_far :: bool
  attr_short :: bool
  attr_pop :: bool
  objlen :: u8
  oc_data :: bytes
  oc_handle :: u64
  oc_cond :: u8
  oc_pops :: u32
  oc_line :: u32
  oc_label_line :: bool
  oc_ptr :: u64
  oc_starts :: bool

record cg_target =
  use32 :: bool
  cpu386 :: bool

definition InsSize :: "nat list list" where
  "InsSize =
     [[0, 6, 7, 8],
      [0, 5, 6, 7],
      [2, 6, 0, 8],
      [2, 5, 0, 7],
      [2, 7, 0, 0],
      [2, 6, 0, 0]]"

fun dest_index :: "oc_dest_attr \<Rightarrow> nat" where
  "dest_index OC_DEST_SHORT = 0"
| "dest_index OC_DEST_NEAR = 1"
| "dest_index OC_DEST_CHEAP = 2"
| "dest_index OC_DEST_FAR = 3"

definition OptInsSize :: "cg_target \<Rightarrow> oc_base \<Rightarrow> oc_dest_attr \<Rightarrow> u8" where
  "OptInsSize T cls attr =
     (let i = (if cls = OC_JMP then 2 else if cls = OC_JCOND then 4 else 0);
          i = (if use32 T then i + 1 else i)
      in word_of_nat (InsSize ! i ! dest_index attr))"

section \<open>Alignment\<close>

definition NopLists :: "bytes list" where
  "NopLists =
     [[6,
       0x8d, 0x80, 0x00, 0x00, 0x00, 0x00,
       0x8d, 0x40, 0x00,
       0x8b, 0xc9,
       0x8d, 0x44, 0x20, 0x00,
       0x8d, 0x40, 0x00,
       0x8b, 0xc0,
       0x90],
      [6,
       0x8d, 0x92, 0x00, 0x00, 0x00, 0x00,
       0x8d, 0x52, 0x00,
       0x8b, 0xdb,
       0x8d, 0x54, 0x22, 0x00,
       0x8d, 0x52, 0x00,
       0x8b, 0xd2,
       0x90]]"

definition SendBytes :: "bytes \<Rightarrow> obj_call list" where
  "SendBytes bs = (if length bs \<noteq> 0 then [OutDBytes bs] else [])"

text \<open>
  The second loop of \<open>DoAlignment\<close>: the pattern of \<open>len\<close> bytes lies after those of \<open>nop\<close>, \<open>nop - 1\<close>,
  \<open>\<dots>\<close>, \<open>len + 1\<close> bytes.
\<close>

fun nop_skip :: "nat \<Rightarrow> nat \<Rightarrow> nat \<Rightarrow> nat" where
  "nop_skip 0 len p = p"
| "nop_skip (Suc n) len p = (if Suc n = len then p else nop_skip n len (p + Suc n))"

function align_loop :: "nat \<Rightarrow> nat \<Rightarrow> nat \<Rightarrow> obj_call list option" where
  "align_loop i nop len =
    (if nop = 0 then None
     else if nop < len then do {
       bs \<leftarrow> rd_slice (NopLists ! i) 1 nop;
       cs \<leftarrow> align_loop (1 - i) nop (len - nop);
       Some (SendBytes bs @ cs)
     }
     else do {
       bs \<leftarrow> rd_slice (NopLists ! i) (nop_skip nop len 1) len;
       Some (SendBytes bs)
     })"
  by pat_completeness auto

termination
  by (relation "measure (\<lambda>(i, nop, len). len)") auto

declare align_loop.simps [simp del]

definition DoAlignment :: "nat \<Rightarrow> obj_call list option" where
  "DoAlignment len =
    (let nop = unat (NopLists ! 0 ! 0)
     in map_option (\<lambda>cs. [SavePendingLine] @ cs @ [RestorePendingLine]) (align_loop 0 nop len))"

text \<open>
  The parameter is signed in C, and a negative one would run past the table; the callers pass
  \<open>-lc & objlen\<close> or \<open>objlen + 1\<close>.
\<close>

definition is_insn :: "bytes \<Rightarrow> bool" where
  "is_insn b \<longleftrightarrow> x86_insn_len b (length b) 0 = Some (length b)"

fun calls_bytes :: "obj_call list \<Rightarrow> bytes" where
  "calls_bytes [] = []"
| "calls_bytes (OutDBytes bs # cs) = bs @ calls_bytes cs"
| "calls_bytes (OutDataByte b # cs) = b # calls_bytes cs"
| "calls_bytes (OutDataShort w # cs) = le_bytes 2 (unat w) @ calls_bytes cs"
| "calls_bytes (OutDataLong w # cs) = le_bytes 4 (unat w) @ calls_bytes cs"
| "calls_bytes (OutAbsPatch p a # cs) = replicate (patch_size a) 0 @ calls_bytes cs"
| "calls_bytes (c # cs) = calls_bytes cs"

lemma calls_bytes_append [simp]: "calls_bytes (cs @ cs') = calls_bytes cs @ calls_bytes cs'"
  by (induction cs rule: calls_bytes.induct) auto

lemma length_calls_bytes [simp]: "length (calls_bytes cs) = calls_size cs"
  by (induction cs rule: calls_bytes.induct) auto

lemma SendBytes_bytes [simp]: "calls_bytes (SendBytes bs) = bs"
  by (simp add: SendBytes_def)

text \<open>
  The pattern of five bytes is two instructions, the others are one.
\<close>

definition nop_insns :: "bytes \<Rightarrow> bytes list" where
  "nop_insns bs = (if bs = [] then [] else if length bs = 5 then [take 3 bs, drop 3 bs] else [bs])"

lemma nop_insns_concat: "concat (nop_insns bs) = bs"
  by (simp add: nop_insns_def)

lemma nop_patterns:
  "list_all (\<lambda>i. list_all (\<lambda>len.
     case rd_slice (NopLists ! i) (nop_skip 6 len 1) len of
       None \<Rightarrow> False
     | Some bs \<Rightarrow> length bs = len \<and> list_all is_insn (nop_insns bs)) [0,1,2,3,4,5,6]) [0,1]"
  by code_simp

lemma nop_pattern:
  assumes "i < 2" "len \<le> 6"
  shows "\<exists>bs. rd_slice (NopLists ! i) (nop_skip 6 len 1) len = Some bs \<and> length bs = len \<and>
           (\<forall>b \<in> set (nop_insns bs). is_insn b)"
proof -
  have "i \<in> set [0, 1]" using assms(1) by auto
  moreover have "len \<in> set [0,1,2,3,4,5,6]" using assms(2) by auto
  ultimately have "case rd_slice (NopLists ! i) (nop_skip 6 len 1) len of
      None \<Rightarrow> False | Some bs \<Rightarrow> length bs = len \<and> list_all is_insn (nop_insns bs)"
    using nop_patterns unfolding list_all_iff by blast
  then show ?thesis by (auto split: option.splits simp: list_all_iff)
qed

lemma nop_skip_whole: "nop_skip 6 6 1 = 1"
  by (simp add: numeral_eq_Suc)

lemma nop_first: "unat (NopLists ! 0 ! 0) = 6"
  by (simp add: NopLists_def)

lemma align_loop_pads:
  assumes "i < 2"
  shows "\<exists>cs bl. align_loop i 6 len = Some cs \<and> calls_bytes cs = concat bl \<and>
           calls_size cs = len \<and> (\<forall>b \<in> set bl. is_insn b)"
  using assms
proof (induction len arbitrary: i rule: less_induct)
  case (less len)
  show ?case
  proof (cases "6 < len")
    case True
    obtain bs where bs: "rd_slice (NopLists ! i) 1 6 = Some bs" "length bs = 6"
        "\<forall>b \<in> set (nop_insns bs). is_insn b"
      using nop_pattern [OF less.prems, of 6] unfolding nop_skip_whole by auto
    have "\<exists>cs bl. align_loop (1 - i) 6 (len - 6) = Some cs \<and> calls_bytes cs = concat bl \<and>
            calls_size cs = len - 6 \<and> (\<forall>b \<in> set bl. is_insn b)"
      by (rule less.IH) (use True in auto)
    then obtain cs bl where IH: "align_loop (1 - i) 6 (len - 6) = Some cs"
        "calls_bytes cs = concat bl" "calls_size cs = len - 6" "\<forall>b \<in> set bl. is_insn b"
      by blast
    have "align_loop i 6 len = Some (SendBytes bs @ cs)"
      using True bs IH by (subst align_loop.simps) simp
    moreover have "calls_bytes (SendBytes bs @ cs) = concat (nop_insns bs @ bl)"
      using IH by (simp add: nop_insns_concat)
    moreover have "calls_size (SendBytes bs @ cs) = len" using bs IH True by (simp add: SendBytes_def)
    moreover have "\<forall>b \<in> set (nop_insns bs @ bl). is_insn b" using bs IH by auto
    ultimately show ?thesis by blast
  next
    case False
    obtain bs where bs: "rd_slice (NopLists ! i) (nop_skip 6 len 1) len = Some bs" "length bs = len"
        "\<forall>b \<in> set (nop_insns bs). is_insn b"
      using nop_pattern [OF less.prems, of len] False by auto
    have "align_loop i 6 len = Some (SendBytes bs)"
      using False bs by (subst align_loop.simps) simp
    moreover have "calls_bytes (SendBytes bs) = concat (nop_insns bs)"
      by (simp add: nop_insns_concat)
    moreover have "calls_size (SendBytes bs) = len" using bs by (simp add: SendBytes_def)
    ultimately show ?thesis using bs by blast
  qed
qed

lemma DoAlignment_size: "\<exists>cs. DoAlignment len = Some cs \<and> calls_size cs = len"
  using align_loop_pads [of 0 len] by (auto simp: DoAlignment_def nop_first)

text \<open>
  The padding before a label: for every length \<open>DoAlignment\<close> stays inside the tables of patterns,
  writes exactly that many bytes, and what it writes is a sequence of whole instructions, as
  the length decoder of the object converter reads them.
\<close>

theorem alignment_is_instructions:
  "\<exists>cs bl. DoAlignment len = Some cs \<and> calls_size cs = len \<and> calls_bytes cs = concat bl \<and>
     list_all (\<lambda>b. x86_insn_len b (length b) 0 = Some (length b)) bl"
  using align_loop_pads [of 0 len]
  by (fastforce simp: DoAlignment_def nop_first is_insn_def list_all_iff)


section \<open>Calls and branches\<close>

definition rev_condition :: "u8 list" where
  "rev_condition = [1, 0, 3, 2, 5, 4, 7, 6, 9, 8, 11, 10, 13, 12, 15, 14]"

definition ReverseCondition :: "u8 \<Rightarrow> u8 option" where
  "ReverseCondition cond = rd rev_condition (unat cond)"

text \<open>
  The macros of \<open>jumps.h\<close>.  Those that subtract the location take it as \<open>loc\<close>.
\<close>

definition OutOpndSize :: "cg_target \<Rightarrow> obj_call list" where
  "OutOpndSize T = (if \<not> use32 T then [OutDataByte 0x66] else [])"

definition OutShortD :: "u32 \<Rightarrow> u32 \<Rightarrow> obj_call list" where
  "OutShortD loc addr = [OutDataByte (ucast (addr - loc - 1))]"

definition OutNearD :: "u32 \<Rightarrow> u32 \<Rightarrow> obj_call list" where
  "OutNearD loc addr = [OutDataLong (addr - loc - 4)]"

definition OutFarOff :: "u32 \<Rightarrow> obj_call list" where
  "OutFarOff off = [OutDataLong off]"

definition OutFarD :: "u16 \<Rightarrow> u32 \<Rightarrow> obj_call list" where
  "OutFarD seg off = [OutDataShort seg, OutDataLong off]"

definition OutFarSeg :: "u16 \<Rightarrow> obj_call list" where
  "OutFarSeg seg = [OutDataShort seg]"

definition OutShortDisp :: "cg_tables \<Rightarrow> u32 \<Rightarrow> u64 \<Rightarrow> obj_call list" where
  "OutShortDisp E loc lbl =
    (let addr = AskAddress E lbl
     in if addr = ADDR_UNKNOWN
        then [OutPatch lbl (ADD_PATCH OR BYTE_PATCH)] @ OutShortD loc 0
        else OutShortD loc addr)"

definition OutCodeDisp ::
    "cg_tables \<Rightarrow> u32 \<Rightarrow> u64 \<Rightarrow> fix_class \<Rightarrow> bool \<Rightarrow> bool \<Rightarrow> obj_call list" where
  "OutCodeDisp E loc lbl f rel far =
    (let s = AskForLblSym E lbl
     in if AskIfRTLabel E lbl
        then [OutRTImport (SYM2RTIDX s) f] @ (if far then OutFarD 0 0 else OutFarOff 0)
        else if AskIfCommonLabel E lbl
        then [OutSpecialCommon s f rel] @ OutFarOff 0
        else if s \<noteq> 0 \<and> UseImportForm (FEAttr E s)
        then [OutImport s f rel] @ (if far then OutFarD 0 0 else OutFarOff 0)
        else
          let addr = AskAddress E lbl
          in if \<not> far
             then if addr = ADDR_UNKNOWN
                  then [OutPatch lbl (ADD_PATCH OR LONG_PATCH)] @ OutNearD loc 0
                  else OutNearD loc addr
             else (if addr = ADDR_UNKNOWN then [OutPatch lbl LONG_PATCH] else []) @
                  OutFarOff addr @
                  [OutReloc (AskSegID E s CG_FE) F_BASE False] @ OutFarSeg 0)"

definition after :: "u32 \<Rightarrow> obj_call list \<Rightarrow> u32" where
  "after loc cs = loc + word_of_nat (calls_size cs)"

definition ExpandCJ :: "cg_target \<Rightarrow> cg_tables \<Rightarrow> u32 \<Rightarrow> any_oc \<Rightarrow> obj_call list option" where
  "ExpandCJ T E loc oc =
    (if oc_base oc = OC_JCOND then
       if objlen oc = OptInsSize T OC_JCOND OC_DEST_NEAR then do {
         pre \<leftarrow> (if cpu386 T
                 then Some (OutOpndSize T @ [OutDataByte 0x0f, OutDataByte (0x80 + oc_cond oc)])
                 else do {
                   rev \<leftarrow> ReverseCondition (oc_cond oc);
                   Some ([OutDataByte (0x70 + rev), OutDataByte (OptInsSize T OC_JMP OC_DEST_NEAR)]
                         @ OutOpndSize T @ [OutDataByte 0xe9])
                 });
         Some (pre @ OutCodeDisp E (after loc pre) (oc_handle oc) F_OFFSET True (attr_far oc))
       }
       else
         let pre = [OutDataByte (0x70 + oc_cond oc)]
         in Some (pre @ OutShortDisp E (after loc pre) (oc_handle oc))
     else if oc_base oc = OC_JMP \<and> objlen oc = OptInsSize T OC_JMP OC_DEST_SHORT then
       let pre = [OutDataByte 0xeb]
       in Some (pre @ OutShortDisp E (after loc pre) (oc_handle oc))
     else
       let (pre, f, rel, far) =
         (if attr_far oc then
            if oc_base oc = OC_CALL then
              if objlen oc = OptInsSize T OC_CALL OC_DEST_CHEAP
              then ([OutDataByte 0x0e] @ OutOpndSize T @ [OutDataByte 0xe8], F_OFFSET, True, False)
              else (OutOpndSize T @ [OutDataByte 0x9a], F_PTR, False, True)
            else (OutOpndSize T @ [OutDataByte 0xea], F_PTR, False, True)
          else if oc_base oc = OC_CALL
          then (OutOpndSize T @ [OutDataByte 0xe8], F_OFFSET, True, False)
          else (OutOpndSize T @ [OutDataByte 0xe9], F_OFFSET, True, False))
       in Some (pre @ OutCodeDisp E (after loc pre) (oc_handle oc) f rel far))"

text \<open>
  The entries of calls and branches as the rest of the code generator makes them: the size is that
  of a form the instruction has, only the two far forms carry the far attribute, and a conditional
  branch has one of the sixteen conditions.
\<close>

definition cj_forms :: "oc_base \<Rightarrow> oc_dest_attr list" where
  "cj_forms b =
    (case b of
       OC_CALL \<Rightarrow> [OC_DEST_NEAR, OC_DEST_CHEAP, OC_DEST_FAR]
     | OC_JMP \<Rightarrow> [OC_DEST_SHORT, OC_DEST_NEAR, OC_DEST_FAR]
     | OC_JCOND \<Rightarrow> [OC_DEST_SHORT, OC_DEST_NEAR]
     | _ \<Rightarrow> [])"

definition cj_ok :: "cg_target \<Rightarrow> any_oc \<Rightarrow> oc_dest_attr \<Rightarrow> bool" where
  "cj_ok T oc d \<longleftrightarrow>
     cpu386 T \<and> d \<in> set (cj_forms (oc_base oc)) \<and> objlen oc = OptInsSize T (oc_base oc) d \<and>
     attr_far oc = (d = OC_DEST_CHEAP \<or> d = OC_DEST_FAR) \<and> oc_cond oc < 16"

lemmas out_macros =
  OutOpndSize_def OutShortD_def OutNearD_def OutFarOff_def OutFarD_def OutFarSeg_def

lemma OutShortDisp_size: "calls_size (OutShortDisp E loc lbl) = 1"
  by (simp add: OutShortDisp_def out_macros Let_def)

lemma OutCodeDisp_size:
  assumes "far \<longrightarrow> \<not> AskIfCommonLabel E lbl \<or> AskIfRTLabel E lbl"
  shows "calls_size (OutCodeDisp E loc lbl f rel far) = (if far then 6 else 4)"
  using assms by (auto simp: OutCodeDisp_def out_macros Let_def)

lemma OptInsSize_values:
  "OptInsSize T OC_CALL d = (if use32 T then [0, 5, 6, 7] else [0, 6, 7, 8]) ! dest_index d"
  "OptInsSize T OC_JMP d = (if use32 T then [2, 5, 0, 7] else [2, 6, 0, 8]) ! dest_index d"
  "OptInsSize T OC_JCOND d = (if use32 T then [2, 6, 0, 0] else [2, 7, 0, 0]) ! dest_index d"
  by (cases d; simp add: OptInsSize_def InsSize_def Let_def)+


lemmas cj_expand = ExpandCJ_def after_def Let_def out_macros OutShortDisp_size OptInsSize_values

lemma ExpandCJ_size:
  assumes ok: "cj_ok T oc d"
    and com: "d = OC_DEST_FAR \<longrightarrow>
                \<not> AskIfCommonLabel E (oc_handle oc) \<or> AskIfRTLabel E (oc_handle oc)"
  shows "\<exists>cs. ExpandCJ T E loc oc = Some cs \<and> calls_size cs = unat (objlen oc)"
proof -
  have near: "calls_size (OutCodeDisp E l (oc_handle oc) f rel False) = 4" for l f rel
    by (simp add: OutCodeDisp_size)
  have far: "d = OC_DEST_FAR \<Longrightarrow> calls_size (OutCodeDisp E l (oc_handle oc) f rel True) = 6" for l f rel
    using com by (simp add: OutCodeDisp_size)
  show ?thesis
    using ok far
    by (cases "oc_base oc"; cases d; cases "use32 T")
       (simp_all add: cj_ok_def cj_forms_def cj_expand near)
qed

text \<open>
  The exception in \<open>ExpandCJ_size\<close>: a far call of a common symbol takes two bytes less than its entry
  announces, because \<open>OutCodeDisp\<close> writes an offset without a segment.
\<close>

definition sample_oc :: any_oc where
  "sample_oc = \<lparr>oc_base = OC_JMP, oc_info = OC_INFO_LINE, attr_far = False, attr_short = False,
     attr_pop = False, objlen = 5, oc_data = [], oc_handle = 7, oc_cond = 0, oc_pops = 0,
     oc_line = 0, oc_label_line = False, oc_ptr = 0, oc_starts = False\<rparr>"

definition flat32 :: cg_target where
  "flat32 = \<lparr>use32 = True, cpu386 = True\<rparr>"

lemma far_call_of_common:
  assumes "AskIfCommonLabel E (oc_handle oc)" "\<not> AskIfRTLabel E (oc_handle oc)"
    and "oc_base oc = OC_CALL" "attr_far oc" "objlen oc = OptInsSize T OC_CALL OC_DEST_FAR"
  shows "\<exists>cs. ExpandCJ T E loc oc = Some cs \<and> calls_size cs + 2 = unat (objlen oc)"
  using assms by (auto simp: cj_expand OutCodeDisp_def)

section \<open>Where a branch goes\<close>

lemma byte_displacement:
  fixes x :: u32
  assumes "- 128 \<le> sint x" "sint x < 128"
  shows "scast (ucast x :: u8) = x"
proof -
  have "sint (ucast x :: u8) = signed_take_bit 7 (sint x)"
    by (simp add: sint_uint unsigned_ucast_eq signed_take_bit_take_bit min_def)
  also have "\<dots> = sint x"
    using assms by (intro signed_take_bit_int_eq_self) auto
  finally have "word_of_int (sint (ucast x :: u8)) = (word_of_int (sint x) :: u32)" by simp
  then show ?thesis unfolding scast_eq by (simp only: of_int_sint scast_id)
qed

fun call_disp :: "obj_call \<Rightarrow> u32" where
  "call_disp (OutDataByte b) = scast b"
| "call_disp (OutDataLong w) = w"
| "call_disp c = 0"

definition placed_here :: "cg_tables \<Rightarrow> u64 \<Rightarrow> bool" where
  "placed_here E lbl \<longleftrightarrow>
     \<not> AskIfRTLabel E lbl \<and> \<not> AskIfCommonLabel E lbl \<and>
     \<not> (AskForLblSym E lbl \<noteq> 0 \<and> UseImportForm (FEAttr E (AskForLblSym E lbl)))"

text \<open>
  C18. The displacement of a near or short branch is relative to the end of the instruction: added to
  the location after the branch it gives the address of the label, for a short branch as long as the
  label is within reach of a signed byte.
\<close>

theorem branch_reaches_label:
  assumes "cj_ok T oc d" "d \<noteq> OC_DEST_FAR" "placed_here E (oc_handle oc)"
    and "AskAddress E (oc_handle oc) \<noteq> ADDR_UNKNOWN"
    and "ExpandCJ T E loc oc = Some cs"
    and "d = OC_DEST_SHORT \<longrightarrow>
           - 128 \<le> sint (AskAddress E (oc_handle oc) - after loc cs) \<and>
           sint (AskAddress E (oc_handle oc) - after loc cs) < 128"
  shows "after loc cs + call_disp (last cs) = AskAddress E (oc_handle oc)"
proof -
  let ?a = "AskAddress E (oc_handle oc)"
  have near: "OutCodeDisp E l (oc_handle oc) f rel False = [OutDataLong (?a - l - 4)]" for l f rel
    using assms(3,4) by (auto simp: OutCodeDisp_def placed_here_def out_macros Let_def)
  have short: "OutShortDisp E l (oc_handle oc) = [OutDataByte (ucast (?a - l - 1))]" for l
    using assms(4) by (simp add: OutShortDisp_def out_macros Let_def)
  have byte: "after loc cs + scast (ucast (?a - after loc cs) :: u8) = ?a" if "d = OC_DEST_SHORT"
    using byte_displacement assms(6) that by simp
  show ?thesis
  proof (cases "d = OC_DEST_SHORT")
    case True
    then have cs: "calls_size cs = 2 \<and> (\<exists>b. cs = [OutDataByte b, OutDataByte (ucast (?a - (loc + 1) - 1))])"
      using assms(1,5)
      by (cases "oc_base oc"; cases "use32 T")
         (auto simp: cj_ok_def cj_forms_def cj_expand short)
    have "?a - (loc + 1) - 1 = ?a - after loc cs" using cs by (simp add: after_def)
    moreover have "last cs = OutDataByte (ucast (?a - (loc + 1) - 1))"
      using cs by (metis last.simps list.distinct(1))
    ultimately have "last cs = OutDataByte (ucast (?a - after loc cs))" by (simp only:)
    with byte [OF True] show ?thesis by simp
  next
    case False
    then have "\<exists>pre. cs = pre @ [OutDataLong (?a - after loc pre - 4)]"
      using assms(1,2,5)
      by (cases "oc_base oc"; cases d; cases "use32 T")
         (auto simp: cj_ok_def cj_forms_def cj_expand near)
    then show ?thesis by (auto simp: after_def)
  qed
qed

definition sample_short :: any_oc where
  "sample_short = sample_oc\<lparr>objlen := 2\<rparr>"

theorem branch_reaches_label_witness:
  "after 0x90 [OutDataByte 0xeb, OutDataByte 0x6e]
     + call_disp (last [OutDataByte 0xeb, OutDataByte 0x6e])
   = AskAddress sample_later (oc_handle sample_short)"
proof (rule branch_reaches_label [where d = OC_DEST_SHORT and T = flat32])
  show "cj_ok flat32 sample_short OC_DEST_SHORT"
    by (simp add: cj_ok_def cj_forms_def sample_short_def sample_oc_def flat32_def OptInsSize_values)
  show "placed_here sample_later (oc_handle sample_short)"
    by (simp add: placed_here_def AskIfRTLabel_def AskIfCommonLabel_def AskForLblSym_def sample_later_def)
  show "AskAddress sample_later (oc_handle sample_short) \<noteq> ADDR_UNKNOWN"
    by (simp add: AskAddress_def sample_later_def)
  show "ExpandCJ flat32 sample_later 0x90 sample_short = Some [OutDataByte 0xeb, OutDataByte 0x6e]"
    by (simp add: cj_expand OutShortDisp_def AskAddress_def sample_later_def sample_short_def
        sample_oc_def flat32_def)
qed (simp_all add: AskAddress_def sample_later_def after_def)


section \<open>One queue entry\<close>

text \<open>
  The state: the location \<open>AskLocation()\<close> of the segment being written and its id \<open>AskOP()\<close>, the
  tables, and the statics of \<open>x86esc.c\<close>.  \<open>SaveDbgOc\<close> is \<open>None\<close> for \<open>OC_INFO_NOT_DEBUG\<close>.
\<close>

record out_state =
  o_loc :: u32
  o_seg :: u16
  o_tab :: cg_tables
  LastUnique :: u32
  SaveDbgOc :: "oc_info option"
  SaveDbgPtr :: u64

definition put :: "obj_call list \<Rightarrow> out_state \<Rightarrow> out_state" where
  "put cs st = st\<lparr>o_loc := after (o_loc st) cs\<rparr>"

definition DumpSavedDebug :: "out_state \<Rightarrow> out_state \<times> obj_call list" where
  "DumpSavedDebug st =
    (st\<lparr>SaveDbgOc := None\<rparr>,
     (case SaveDbgOc st of
        Some OC_INFO_DBG_RTN_BEG \<Rightarrow> [DbgRtnBeg (SaveDbgPtr st) (o_loc st)]
      | Some OC_INFO_DBG_BLK_BEG \<Rightarrow> [DbgBlkBeg (SaveDbgPtr st) (o_loc st)]
      | Some OC_INFO_DBG_EPI_BEG \<Rightarrow> [DbgEpiBeg (SaveDbgPtr st) (o_loc st)]
      | _ \<Rightarrow> []))"

definition TellAddress :: "u64 \<Rightarrow> u32 \<Rightarrow> cg_tables \<Rightarrow> cg_tables" where
  "TellAddress lbl addr E =
     E\<lparr>labels := (labels E)(lbl := (labels E lbl)\<lparr>lbl_address := addr\<rparr>)\<rparr>"

definition tell_keep :: "u64 \<Rightarrow> cg_tables \<Rightarrow> cg_tables" where
  "tell_keep lbl E =
     E\<lparr>labels := (labels E)(lbl := (labels E lbl)\<lparr>lbl_status := lbl_status (labels E lbl) OR 2\<rparr>)\<rparr>"

text \<open>
  \<open>OC_LABEL\<close>: the padding, and the new \<open>LastUnique\<close>.
\<close>

definition label_pad :: "out_state \<Rightarrow> any_oc \<Rightarrow> u32 \<times> u32" where
  "label_pad st oc =
    (let lc = o_loc st;
         len = (- lc) AND ucast (objlen oc)
     in if AskIfUniqueLabel (o_tab st) (oc_handle oc)
        then let len = (if lc = LastUnique st \<and> len = 0 then ucast (objlen oc) + 1 else len)
             in (len, lc + len)
        else (len, LastUnique st))"

definition output_label :: "out_state \<Rightarrow> any_oc \<Rightarrow> (out_state \<times> obj_call list) option" where
  "output_label st oc = do {
     let (len, last) = label_pad st oc;
     pad \<leftarrow> DoAlignment (unat len);
     let st = put pad (st\<lparr>LastUnique := last\<rparr>);
     let st = st\<lparr>o_tab := TellAddress (oc_handle oc) (o_loc st) (o_tab st)\<rparr>;
     let (st, dbg) = DumpSavedDebug st;
     Some (st, pad @ [OutLabel (oc_handle oc), DbgSetBase] @ dbg)
   }"

definition output_lref :: "out_state \<Rightarrow> any_oc \<Rightarrow> obj_call list" where
  "output_lref st oc =
    (let E = o_tab st; lbl = oc_handle oc; s = AskForLblSym E lbl
     in if AskIfRTLabel E lbl then [OutRTImport (SYM2RTIDX s) F_OFFSET] @ OutFarOff 0
        else if AskIfCommonLabel E lbl then [OutSpecialCommon s F_OFFSET False] @ OutFarOff 0
        else if s \<noteq> 0 \<and> UseImportForm (FEAttr E s) then [OutImport s F_OFFSET False] @ OutFarOff 0
        else
          let lc = AskAddress E lbl
          in [OutReloc (o_seg st) F_OFFSET False] @
             (if lc = ADDR_UNKNOWN then [OutPatch lbl (ADD_PATCH OR LONG_PATCH)] @ OutFarOff 0
              else OutFarOff lc))"

text \<open>
  \<open>OC_JMPI\<close>, \<open>OC_CALLI\<close>: the bytes up to the opcode \<open>M_CJINEAR\<close> (\<open>FF\<close>), the ModR/M byte with the bits
  that make it a call or a jump, and the rest.
\<close>

definition output_indirect ::
    "cg_target \<Rightarrow> out_state \<Rightarrow> any_oc \<Rightarrow> (out_state \<times> obj_call list) option" where
  "output_indirect T st oc = do {
     let len = length (takeWhile (\<lambda>b. b \<noteq> 0xff) (oc_data oc));
     _ \<leftarrow> rd (oc_data oc) len;
     (_, head_calls) \<leftarrow> ExpandObj (o_tab st) (take (len + 1) (oc_data oc));
     rmr \<leftarrow> rd (oc_data oc) (len + 1);
     let rmr = rmr OR (if oc_base oc = OC_CALLI then 0x10 else 0x20);
     (lbl, rest_calls) \<leftarrow> ExpandObj (o_tab st) (drop (len + 2) (oc_data oc));
     let cs = OutOpndSize T @ head_calls @ [OutDataByte rmr] @ rest_calls;
     if lbl \<noteq> 0 \<and> oc_base oc = OC_JMPI
     then Some (put cs (st\<lparr>o_tab := tell_keep lbl (o_tab st)\<rparr>), cs @ [TellKeepLabel lbl, GenKillLabel lbl])
     else Some (put cs st, cs)
   }"

definition output_ret :: "cg_target \<Rightarrow> any_oc \<Rightarrow> obj_call list" where
  "output_ret T oc =
     OutOpndSize T @
     [OutDataByte (0xc2 OR (if attr_short oc then 0x0c else 0) OR (if attr_far oc then 8 else 0) OR
                   (if \<not> attr_pop oc then 1 else 0))] @
     (if attr_pop oc then [OutDataShort (ucast (oc_pops oc))] else [])"

definition output_info :: "out_state \<Rightarrow> any_oc \<Rightarrow> out_state \<times> obj_call list" where
  "output_info st oc =
    (case oc_info oc of
       OC_INFO_LINE \<Rightarrow> (st, [OutLineNum (oc_line oc) (oc_label_line oc)])
     | OC_INFO_LDONE \<Rightarrow> (st, [TellScrapLabel (oc_handle oc)])
     | OC_INFO_DEAD_JMP \<Rightarrow> (st, [Zoiks 36])
     | OC_INFO_DBG_RTN_BEG \<Rightarrow> (st\<lparr>SaveDbgOc := Some (oc_info oc), SaveDbgPtr := oc_ptr oc\<rparr>, [])
     | OC_INFO_DBG_BLK_BEG \<Rightarrow> (st\<lparr>SaveDbgOc := Some (oc_info oc), SaveDbgPtr := oc_ptr oc\<rparr>, [])
     | OC_INFO_DBG_EPI_BEG \<Rightarrow> (st\<lparr>SaveDbgOc := Some (oc_info oc), SaveDbgPtr := oc_ptr oc\<rparr>, [])
     | OC_INFO_DBG_BLK_END \<Rightarrow> (st, [DbgBlkEnd (oc_ptr oc) (o_loc st)])
     | OC_INFO_DBG_PRO_END \<Rightarrow> (st, [DbgProEnd (oc_ptr oc) (o_loc st)])
     | OC_INFO_DBG_RTN_END \<Rightarrow> (st, [DbgRtnEnd (oc_ptr oc) (o_loc st), OutLineNum 0 False])
     | OC_INFO_SELECT \<Rightarrow> (st, [OutSelect (oc_starts oc)])
     | OC_INFO_FUNC_START \<Rightarrow> (st, [])
     | OC_INFO_FUNC_END \<Rightarrow> (st, []))"

definition output_switch ::
    "cg_target \<Rightarrow> out_state \<Rightarrow> any_oc \<Rightarrow> any_oc option \<Rightarrow> (out_state \<times> obj_call list) option" where
  "output_switch T st oc next_lbl =
    (let code = (\<lambda>cs. Some (put cs st, cs));
         entry_bytes = rd_slice (oc_data oc) 0 (unat (objlen oc));
         expand = do { (_, cs) \<leftarrow> ExpandObj (o_tab st) (oc_data oc); code cs };
         jump = do { cs \<leftarrow> ExpandCJ T (o_tab st) (o_loc st) oc; code cs }
     in case oc_base oc of
          OC_CODE \<Rightarrow> expand
        | OC_DATA \<Rightarrow> expand
        | OC_IDATA \<Rightarrow> do {
            pad \<leftarrow> (case next_lbl of
                     None \<Rightarrow> Some []
                   | Some l \<Rightarrow> DoAlignment (unat ((- (o_loc st + ucast (objlen oc)))
                                                    AND ucast (objlen l))));
            bs \<leftarrow> entry_bytes;
            code (pad @ [OutSelect True] @ SendBytes bs @ [OutSelect False])
          }
        | OC_BDATA \<Rightarrow> do { bs \<leftarrow> entry_bytes; code (SendBytes bs) }
        | OC_LABEL \<Rightarrow> output_label st oc
        | OC_LREF \<Rightarrow> code (output_lref st oc)
        | OC_JMPI \<Rightarrow> output_indirect T st oc
        | OC_CALLI \<Rightarrow> output_indirect T st oc
        | OC_JCONDI \<Rightarrow> output_indirect T st oc
        | OC_CALL \<Rightarrow> jump
        | OC_JMP \<Rightarrow> jump
        | OC_JCOND \<Rightarrow> jump
        | OC_RET \<Rightarrow> code (output_ret T oc)
        | OC_INFO \<Rightarrow> Some (output_info st oc)
        | _ \<Rightarrow> Some (st, [Zoiks 36]))"

definition OutputOC ::
    "cg_target \<Rightarrow> out_state \<Rightarrow> any_oc \<Rightarrow> any_oc option \<Rightarrow> (out_state \<times> obj_call list) option" where
  "OutputOC T st oc next_lbl =
    (if oc_base oc = OC_NORET then Some (st, [])
     else do {
       let (st, dbg) = (if oc_base oc \<noteq> OC_LABEL then DumpSavedDebug st else (st, []));
       (st, cs) \<leftarrow> output_switch T st oc next_lbl;
       Some (st, dbg @ [SetUpObj False] @ cs)
     })"

section \<open>The location moves by \<open>objlen\<close>\<close>

lemma DumpSavedDebug_simps [simp]:
  "o_loc (fst (DumpSavedDebug st)) = o_loc st" "o_tab (fst (DumpSavedDebug st)) = o_tab st"
  "LastUnique (fst (DumpSavedDebug st)) = LastUnique st"
  "calls_size (snd (DumpSavedDebug st)) = 0"
  by (auto simp: DumpSavedDebug_def split: option.splits oc_info.splits)

lemma put_simps [simp]:
  "o_loc (put cs st) = after (o_loc st) cs" "o_tab (put cs st) = o_tab st"
  "LastUnique (put cs st) = LastUnique st"
  by (simp_all add: put_def)

lemma after_append [simp]: "after loc (cs @ cs') = after (after loc cs) cs'"
  by (simp add: after_def algebra_simps)

lemma after_no_data [simp]: "calls_size cs = 0 \<Longrightarrow> after loc cs = loc"
  by (simp add: after_def)

lemma output_info_size: "calls_size (snd (output_info st oc)) = 0 \<and> o_loc (fst (output_info st oc)) = o_loc st"
  by (simp add: output_info_def split: oc_info.splits)

text \<open>
  What the makers of entries keep to.  \<open>code_items\<close> are the entry's data as items: code and data
  entries are a list of items, an indirect branch is prefix bytes, \<open>FF\<close>, a ModR/M byte and items.
\<close>

definition indirect_data :: "bytes \<Rightarrow> u8 \<Rightarrow> esc_item list \<Rightarrow> bytes" where
  "indirect_data pre rmr is = pre @ [0xff, rmr] @ items_bytes is"

definition oc_ok :: "cg_target \<Rightarrow> cg_tables \<Rightarrow> any_oc \<Rightarrow> bool" where
  "oc_ok T E oc \<longleftrightarrow>
    (case oc_base oc of
       OC_CODE \<Rightarrow> \<exists>is. oc_data oc = items_bytes is \<and> unat (objlen oc) = sum_list (map item_size is)
     | OC_DATA \<Rightarrow> \<exists>is. oc_data oc = items_bytes is \<and> unat (objlen oc) = sum_list (map item_size is)
     | OC_IDATA \<Rightarrow> length (oc_data oc) = unat (objlen oc)
     | OC_BDATA \<Rightarrow> length (oc_data oc) = unat (objlen oc)
     | OC_LREF \<Rightarrow> objlen oc = 4
     | OC_JMPI \<Rightarrow> use32 T \<and> (\<exists>pre rmr is. oc_data oc = indirect_data pre rmr is \<and>
           ESC \<notin> set pre \<and> 0xff \<notin> set pre \<and>
           unat (objlen oc) = length pre + 2 + sum_list (map item_size is))
     | OC_CALLI \<Rightarrow> use32 T \<and> (\<exists>pre rmr is. oc_data oc = indirect_data pre rmr is \<and>
           ESC \<notin> set pre \<and> 0xff \<notin> set pre \<and>
           unat (objlen oc) = length pre + 2 + sum_list (map item_size is))
     | OC_CALL \<Rightarrow> \<exists>d. cj_ok T oc d \<and> (d = OC_DEST_FAR \<longrightarrow>
           \<not> AskIfCommonLabel E (oc_handle oc) \<or> AskIfRTLabel E (oc_handle oc))
     | OC_JMP \<Rightarrow> \<exists>d. cj_ok T oc d \<and> (d = OC_DEST_FAR \<longrightarrow>
           \<not> AskIfCommonLabel E (oc_handle oc) \<or> AskIfRTLabel E (oc_handle oc))
     | OC_JCOND \<Rightarrow> \<exists>d. cj_ok T oc d
     | OC_RET \<Rightarrow> use32 T \<and> objlen oc = (if attr_pop oc then 3 else 1)
     | OC_INFO \<Rightarrow> objlen oc = 0
     | OC_NORET \<Rightarrow> objlen oc = 0
     | _ \<Rightarrow> False)"


definition advances :: "out_state \<Rightarrow> any_oc \<Rightarrow> (out_state \<times> obj_call list) option \<Rightarrow> bool" where
  "advances st oc r \<longleftrightarrow>
     (\<exists>st' cs. r = Some (st', cs) \<and> calls_size cs = unat (objlen oc) \<and>
        o_loc st' = o_loc st + ucast (objlen oc))"

lemma advancesI:
  assumes "calls_size cs = unat (objlen oc)" "calls_size cs' = calls_size cs"
    and "o_loc st' = after (o_loc st) cs"
  shows "advances st oc (Some (st', cs'))"
  using assms by (simp add: advances_def after_def)

lemma advances_code:
  assumes "calls_size cs = unat (objlen oc)"
  shows "advances st oc (Some (put cs st, cs))"
  using assms by (auto intro: advancesI)

lemma expand_items:
  "\<exists>l cs. ExpandObj E (items_bytes is) = Some (l, cs) \<and> calls_size cs = sum_list (map item_size is)"
  using expand_items_total [of E "is"] expand_items_size by blast

lemma expand_plain:
  assumes "ESC \<notin> set bs"
  shows "\<exists>l cs. ExpandObj E bs = Some (l, cs) \<and> calls_size cs = length bs"
proof -
  have "items_bytes (map EByte bs) = bs" "sum_list (map item_size (map EByte bs)) = length bs"
    using assms by (induction bs) auto
  then show ?thesis using expand_items [of E "map EByte bs"] by metis
qed

lemma takeWhile_stops: "x \<notin> set pre \<Longrightarrow> takeWhile (\<lambda>b. b \<noteq> x) (pre @ x # rest) = pre"
  by (induction pre) auto

lemma output_indirect_advances:
  assumes "use32 T" "oc_data oc = indirect_data pre rmr is" "ESC \<notin> set pre" "0xff \<notin> set pre"
    and "unat (objlen oc) = length pre + 2 + sum_list (map item_size is)"
  shows "advances st oc (output_indirect T st oc)"
proof -
  have run: "takeWhile (\<lambda>b. b \<noteq> 0xff) (oc_data oc) = pre"
    using assms(2,4) by (simp add: indirect_data_def takeWhile_stops)
  have parts: "rd (oc_data oc) (length pre) = Some 0xff"
    "rd (oc_data oc) (length pre + 1) = Some rmr"
    "take (length pre + 1) (oc_data oc) = pre @ [0xff]"
    "drop (length pre + 2) (oc_data oc) = items_bytes is"
    using assms(2) by (auto simp: indirect_data_def rd_def nth_append)
  have "ESC \<notin> set (pre @ [0xff])" using assms(3) by simp
  from expand_plain [OF this, of "o_tab st"] obtain l1 c1 where
      e1: "ExpandObj (o_tab st) (pre @ [0xff]) = Some (l1, c1)" "calls_size c1 = length pre + 1"
    by auto
  obtain l2 c2 where e2: "ExpandObj (o_tab st) (items_bytes is) = Some (l2, c2)"
      "calls_size c2 = sum_list (map item_size is)"
    using expand_items by blast
  define rmr' where "rmr' = rmr OR (if oc_base oc = OC_CALLI then 0x10 else 0x20)"
  define cs where "cs = OutOpndSize T @ c1 @ [OutDataByte rmr'] @ c2"
  have out: "output_indirect T st oc =
      (if l2 \<noteq> 0 \<and> oc_base oc = OC_JMPI
       then Some (put cs (st\<lparr>o_tab := tell_keep l2 (o_tab st)\<rparr>), cs @ [TellKeepLabel l2, GenKillLabel l2])
       else Some (put cs st, cs))"
    unfolding output_indirect_def run Let_def parts e1 e2 bind.simps prod.case
      rmr'_def [symmetric] cs_def [symmetric] by simp
  have "calls_size cs = unat (objlen oc)"
    using assms(1,5) e1(2) e2(2) by (simp add: cs_def OutOpndSize_def)
  then show ?thesis
    unfolding out by (auto intro: advancesI)
qed

lemma output_switch_advances:
  assumes ok: "oc_ok T (o_tab st) oc" and "oc_base oc = OC_IDATA \<longrightarrow> next_lbl = None"
    and "oc_base oc \<noteq> OC_NORET"
  shows "advances st oc (output_switch T st oc next_lbl)"
proof (cases "oc_base oc")
  case OC_INFO
  then show ?thesis
    using ok output_info_size [of st oc]
    by (cases "output_info st oc") (simp add: output_switch_def oc_ok_def advances_def)
next
  case OC_CODE
  with ok obtain "is" where "oc_data oc = items_bytes is" "unat (objlen oc) = sum_list (map item_size is)"
    by (auto simp: oc_ok_def)
  with OC_CODE expand_items [of "o_tab st" "is"] show ?thesis
    by (auto simp: output_switch_def Let_def intro!: advances_code)
next
  case OC_DATA
  with ok obtain "is" where "oc_data oc = items_bytes is" "unat (objlen oc) = sum_list (map item_size is)"
    by (auto simp: oc_ok_def)
  with OC_DATA expand_items [of "o_tab st" "is"] show ?thesis
    by (auto simp: output_switch_def Let_def intro!: advances_code)
next
  case OC_BDATA
  then show ?thesis
    using ok by (auto simp: output_switch_def oc_ok_def rd_slice_def SendBytes_def intro!: advances_code)
next
  case OC_IDATA
  then show ?thesis
    using ok assms(2)
    by (auto simp: output_switch_def oc_ok_def rd_slice_def SendBytes_def intro!: advances_code)
next
  case OC_LREF
  have "calls_size (output_lref st oc) = 4"
    by (auto simp: output_lref_def out_macros Let_def)
  with OC_LREF ok show ?thesis
    by (auto simp: output_switch_def oc_ok_def intro!: advances_code)
next
  case OC_CALL
  with ok obtain d where "cj_ok T oc d" "d = OC_DEST_FAR \<longrightarrow>
      \<not> AskIfCommonLabel (o_tab st) (oc_handle oc) \<or> AskIfRTLabel (o_tab st) (oc_handle oc)"
    by (auto simp: oc_ok_def)
  from ExpandCJ_size [OF this, of "o_loc st"] OC_CALL show ?thesis
    by (auto simp: output_switch_def intro!: advances_code)
next
  case OC_JMP
  with ok obtain d where "cj_ok T oc d" "d = OC_DEST_FAR \<longrightarrow>
      \<not> AskIfCommonLabel (o_tab st) (oc_handle oc) \<or> AskIfRTLabel (o_tab st) (oc_handle oc)"
    by (auto simp: oc_ok_def)
  from ExpandCJ_size [OF this, of "o_loc st"] OC_JMP show ?thesis
    by (auto simp: output_switch_def intro!: advances_code)
next
  case OC_JCOND
  with ok obtain d where d: "cj_ok T oc d" by (auto simp: oc_ok_def)
  with OC_JCOND have "d \<noteq> OC_DEST_FAR" by (auto simp: cj_ok_def cj_forms_def)
  with ExpandCJ_size [OF d, of "o_tab st" "o_loc st"] OC_JCOND show ?thesis
    by (auto simp: output_switch_def intro!: advances_code)
next
  case OC_JMPI
  with ok obtain pre rmr "is" where "use32 T" "oc_data oc = indirect_data pre rmr is"
      "ESC \<notin> set pre" "0xff \<notin> set pre"
      "unat (objlen oc) = length pre + 2 + sum_list (map item_size is)"
    by (auto simp: oc_ok_def)
  from output_indirect_advances [OF this] OC_JMPI show ?thesis
    by (simp add: output_switch_def)
next
  case OC_CALLI
  with ok obtain pre rmr "is" where "use32 T" "oc_data oc = indirect_data pre rmr is"
      "ESC \<notin> set pre" "0xff \<notin> set pre"
      "unat (objlen oc) = length pre + 2 + sum_list (map item_size is)"
    by (auto simp: oc_ok_def)
  from output_indirect_advances [OF this] OC_CALLI show ?thesis
    by (simp add: output_switch_def)
next
  case OC_RET
  then show ?thesis
    using ok
    by (auto simp: output_switch_def oc_ok_def output_ret_def OutOpndSize_def intro!: advances_code)
qed (use assms in \<open>simp_all add: oc_ok_def\<close>)

text \<open>
  C11. One queue entry moves the location by exactly \<open>objlen\<close>: the output succeeds, the bytes written are as
  many as the entry announces, and the location of the segment has grown by as much, debug records of an
  earlier entry or not.  The entries covered (\<open>oc_ok\<close>) are code and data, inline and blank data, label
  references of 4 bytes, information and \<open>NORET\<close> entries, near, cheap and far calls, short, near and far jumps and
  short and near conditional jumps for a 386 and later, and, in 32-bit output, indirect jumps and calls and returns.  Not
  covered are labels, inline data padded before an aligned label, indirect branches and returns in 16-bit output,
  branches for the processors before the 386, conditional branches in the far form, dead and indirect conditional
  entries, and far calls and jumps to a common label that is no run-time label: these
  write 2 bytes fewer than announced (lemma \<open>far_call_of_common\<close>).
\<close>

theorem entry_moves_location_by_objlen:
  assumes "oc_ok T (o_tab st) oc" and "oc_base oc = OC_IDATA \<longrightarrow> next_lbl = None"
  shows "\<exists>st' cs. OutputOC T st oc next_lbl = Some (st', cs) \<and>
           length (calls_bytes cs) = unat (objlen oc) \<and> o_loc st' = o_loc st + ucast (objlen oc)"
proof (cases "oc_base oc = OC_NORET")
  case True
  then show ?thesis using assms by (auto simp: OutputOC_def oc_ok_def)
next
  case False
  let ?d = "DumpSavedDebug st"
  have nl: "oc_base oc \<noteq> OC_LABEL" using assms(1) by (auto simp: oc_ok_def)
  have "advances (fst ?d) oc (output_switch T (fst ?d) oc next_lbl)"
    by (rule output_switch_advances) (use assms False in simp_all)
  then show ?thesis
    using False nl by (auto simp: advances_def OutputOC_def Let_def case_prod_unfold)
qed

theorem entry_moves_location_by_objlen_witness:
  "\<exists>st' cs. OutputOC flat32
       \<lparr>o_loc = 0x90, o_seg = 1, o_tab = sample_tables, LastUnique = ADDR_UNKNOWN,
        SaveDbgOc = Some OC_INFO_DBG_BLK_BEG, SaveDbgPtr = 3\<rparr> sample_short None = Some (st', cs) \<and>
     length (calls_bytes cs) = unat (objlen sample_short) \<and>
     o_loc st' = 0x90 + ucast (objlen sample_short)"
proof -
  let ?st = "\<lparr>o_loc = 0x90, o_seg = 1, o_tab = sample_tables, LastUnique = ADDR_UNKNOWN,
        SaveDbgOc = Some OC_INFO_DBG_BLK_BEG, SaveDbgPtr = 3\<rparr>"
  have "cj_ok flat32 sample_short OC_DEST_SHORT"
    by (simp add: cj_ok_def cj_forms_def sample_short_def sample_oc_def flat32_def OptInsSize_values)
  then have "oc_ok flat32 (o_tab ?st) sample_short"
    by (auto simp: oc_ok_def sample_short_def sample_oc_def)
  from entry_moves_location_by_objlen [OF this, of None] show ?thesis by simp
qed


section \<open>Labels\<close>

lemma TellAddress_simps [simp]:
  "AskAddress (TellAddress lbl a E) lbl = a"
  "l \<noteq> lbl \<Longrightarrow> AskAddress (TellAddress lbl a E) l = AskAddress E l"
  by (simp_all add: TellAddress_def AskAddress_def)

lemma OutputOC_label:
  assumes "oc_base oc = OC_LABEL"
  shows "\<exists>st' cs. OutputOC T st oc next_lbl = Some (st', cs) \<and>
     length (calls_bytes cs) = unat (fst (label_pad st oc)) \<and>
     o_loc st' = o_loc st + fst (label_pad st oc) \<and>
     LastUnique st' = snd (label_pad st oc) \<and>
     AskAddress (o_tab st') (oc_handle oc) = o_loc st'"
proof -
  obtain len last where p: "label_pad st oc = (len, last)" by (cases "label_pad st oc")
  obtain pad where pad: "DoAlignment (unat len) = Some pad" "calls_size pad = unat len"
    using DoAlignment_size by blast
  show ?thesis
    using assms
    by (simp add: OutputOC_def output_switch_def output_label_def p pad Let_def case_prod_unfold
        after_def)
qed

lemma take_bit_pad:
  fixes a :: int
  shows "take_bit k (a + take_bit k (- a)) = 0"
proof -
  have "take_bit k (a + take_bit k (- a)) = take_bit k (take_bit k a + take_bit k (take_bit k (- a)))"
    by (rule take_bit_add [symmetric])
  also have "\<dots> = take_bit k (take_bit k a + take_bit k (- a))" by simp
  also have "\<dots> = take_bit k (a + (- a))" by (rule take_bit_add)
  finally show ?thesis by simp
qed

lemma pad_to_multiple:
  fixes lc :: u32
  assumes "k \<le> 32"
  shows "2 ^ k dvd unat (lc + take_bit k (- lc))"
proof -
  have "take_bit k (lc + take_bit k (- lc)) = 0"
    using assms by transfer (simp add: take_bit_take_bit min_def take_bit_pad)
  then have "unat (take_bit k (lc + take_bit k (- lc))) = 0" by simp
  then have "take_bit k (unat (lc + take_bit k (- lc))) = 0"
    by (simp only: unsigned_take_bit_eq)
  then show ?thesis by (simp add: take_bit_eq_mod mod_eq_0_iff_dvd)
qed

lemma label_pad_aligned:
  assumes "unat (objlen oc) + 1 = 2 ^ k"
  shows "2 ^ k dvd unat (o_loc st + fst (label_pad st oc)) \<and> unat (fst (label_pad st oc)) \<le> 2 ^ k"
proof -
  let ?lc = "o_loc st"
  have k: "k < 32"
  proof -
    have "2 ^ k \<le> (256::nat)" using assms unat_u8_le [of "objlen oc"] by linarith
    also have "\<dots> < 2 ^ 32" by simp
    finally show ?thesis by (rule power_less_imp_less_exp [rotated]) simp
  qed
  have m: "ucast (objlen oc) = (mask k :: u32)"
  proof -
    have "unat (objlen oc) = 2 ^ k - 1" using assms by simp
    have "(ucast (objlen oc) :: u32) = word_of_nat (unat (objlen oc))" by simp
    also have "\<dots> = word_of_nat (2 ^ k - 1)"
      by (rule arg_cong [OF \<open>unat (objlen oc) = 2 ^ k - 1\<close>])
    also have "\<dots> = mask k" by (simp add: mask_eq_exp_minus_1 of_nat_diff)
    finally show ?thesis .
  qed
  have len: "(- ?lc) AND ucast (objlen oc) = take_bit k (- ?lc)"
    by (simp add: m take_bit_eq_mask)
  have p1: "ucast (objlen oc) + 1 = (2 ^ k :: u32)"
    by (simp add: m mask_eq_exp_minus_1)
  have pad: "fst (label_pad st oc) = take_bit k (- ?lc) \<or>
      (fst (label_pad st oc) = 2 ^ k \<and> take_bit k (- ?lc) = 0)"
    unfolding label_pad_def Let_def len p1 by auto
  have p2: "unat (2 ^ k :: u32) = 2 ^ k"
  proof -
    have "(2 :: nat) ^ k < 2 ^ 32" using k by (intro power_strict_increasing) simp_all
    then have "unat (word_of_nat (2 ^ k) :: u32) = 2 ^ k"
      by (simp only: unat_of_nat) simp
    then show ?thesis by simp
  qed
  have small: "unat (fst (label_pad st oc)) \<le> 2 ^ k"
  proof -
    have "unat (take_bit k (- ?lc)) < 2 ^ k"
      by (simp add: unsigned_take_bit_eq take_bit_nat_less_exp)
    then show ?thesis using pad p2 by auto
  qed
  have al: "2 ^ k dvd unat (?lc + fst (label_pad st oc))"
    using pad
  proof
    assume "fst (label_pad st oc) = take_bit k (- ?lc)"
    then show ?thesis using pad_to_multiple k by simp
  next
    assume e: "fst (label_pad st oc) = 2 ^ k \<and> take_bit k (- ?lc) = 0"
    then have "2 ^ k dvd unat ?lc" using pad_to_multiple [of k ?lc] k by simp
    then have "2 ^ k dvd unat ?lc + 2 ^ k" by simp
    then have "2 ^ k dvd (unat ?lc + 2 ^ k) mod 2 ^ 32"
      using k by (metis dvd_mod le_imp_power_dvd less_or_eq_imp_le)
    then show ?thesis using e p2 by (simp add: unat_word_ariths)
  qed
  from al small show ?thesis ..
qed

text \<open>
  C40. A label is put at a multiple of its alignment: with \<open>objlen + 1 = 2^k\<close> the location after the
  padding is a multiple of \<open>2^k\<close>, also when a unique label is moved away from another one, the
  padding is at most \<open>2^k\<close> bytes, and the label gets that location as its address.
\<close>

theorem label_is_aligned:
  assumes "oc_base oc = OC_LABEL" and "unat (objlen oc) + 1 = 2 ^ k"
  shows "\<exists>st' cs. OutputOC T st oc next_lbl = Some (st', cs) \<and> 2 ^ k dvd unat (o_loc st') \<and>
           length (calls_bytes cs) \<le> 2 ^ k \<and> o_loc st' = o_loc st + word_of_nat (length (calls_bytes cs)) \<and>
           AskAddress (o_tab st') (oc_handle oc) = o_loc st'"
  using OutputOC_label [OF assms(1), of T st next_lbl] label_pad_aligned [OF assms(2), of st] by auto

definition sample_label :: any_oc where
  "sample_label = sample_oc\<lparr>oc_base := OC_LABEL, objlen := 15\<rparr>"

definition sample_state :: out_state where
  "sample_state = \<lparr>o_loc = 0x93, o_seg = 1, o_tab = sample_tables, LastUnique = 0x93,
     SaveDbgOc = None, SaveDbgPtr = 0\<rparr>"

theorem label_is_aligned_witness:
  "\<exists>st' cs. OutputOC flat32 sample_state sample_label None = Some (st', cs) \<and>
     16 dvd unat (o_loc st') \<and> length (calls_bytes cs) \<le> 16 \<and>
     o_loc st' = o_loc sample_state + word_of_nat (length (calls_bytes cs)) \<and>
     AskAddress (o_tab st') (oc_handle sample_label) = o_loc st'"
  using label_is_aligned [of sample_label 4 flat32 sample_state None]
  by (simp add: sample_label_def)

text \<open>
  Two unique labels never share an address: when the last unique label of the segment lies at or
  below the location, a further one is placed strictly above it, and becomes the last one itself.
\<close>

theorem unique_labels_apart:
  assumes "oc_base oc = OC_LABEL" and "AskIfUniqueLabel (o_tab st) (oc_handle oc)"
    and "LastUnique st \<le> o_loc st" and "unat (o_loc st) + unat (objlen oc) + 1 < 2 ^ 32"
  shows "\<exists>st' cs. OutputOC T st oc next_lbl = Some (st', cs) \<and>
           LastUnique st < AskAddress (o_tab st') (oc_handle oc) \<and>
           LastUnique st' = AskAddress (o_tab st') (oc_handle oc) \<and> LastUnique st' = o_loc st'"
proof -
  let ?lc = "o_loc st" and ?len = "fst (label_pad st oc)"
  have o: "unat (ucast (objlen oc) :: u32) = unat (objlen oc)"
    by (simp add: unsigned_ucast_eq take_bit_nat_eq_self less_trans [OF unat_u8_lt])
  have pad: "?len = (if ?lc = LastUnique st \<and> (- ?lc) AND ucast (objlen oc) = 0
                     then ucast (objlen oc) + 1 else (- ?lc) AND ucast (objlen oc))"
    "snd (label_pad st oc) = ?lc + ?len"
    using assms(2) by (simp_all add: label_pad_def Let_def)
  have "Suc (unat (objlen oc)) < 4294967296" using unat_u8_lt [of "objlen oc"] by linarith
  then have one: "unat (ucast (objlen oc) + 1 :: u32) = unat (objlen oc) + 1"
    by (simp add: unat_word_ariths o)
  have le: "unat ((- ?lc) AND ucast (objlen oc)) \<le> unat (objlen oc)"
    using word_and_le1 [of "- ?lc" "ucast (objlen oc)"] by (simp add: word_le_nat_alt o)
  have "unat ?len \<le> unat (objlen oc) + 1" using pad(1) one le by (auto split: if_splits)
  then have sum: "unat (?lc + ?len) = unat ?lc + unat ?len"
    using assms(4) by (simp add: unat_word_ariths)
  have "LastUnique st < ?lc + ?len"
  proof (cases "?lc = LastUnique st")
    case True
    have "0 < unat ?len"
      using pad(1) one True by (auto simp: unat_gt_0)
    with True sum show ?thesis by (simp add: word_less_nat_alt)
  next
    case False
    then have "LastUnique st < ?lc" using assms(3) by simp
    then show ?thesis using sum by (simp add: word_less_nat_alt)
  qed
  then show ?thesis
    using OutputOC_label [OF assms(1), of T st next_lbl] pad(2) by auto
qed

definition sample_unique :: out_state where
  "sample_unique = sample_state\<lparr>o_loc := 0x90, LastUnique := 0x90,
     o_tab := sample_tables\<lparr>labels := (\<lambda>p. \<lparr>lbl_address = ADDR_UNKNOWN, lbl_status = 0x101, lbl_sym = 0\<rparr>)\<rparr>\<rparr>"

theorem unique_labels_apart_witness:
  "\<exists>st' cs. OutputOC flat32 sample_unique sample_label None = Some (st', cs) \<and>
     0x90 < AskAddress (o_tab st') (oc_handle sample_label) \<and>
     LastUnique st' = AskAddress (o_tab st') (oc_handle sample_label) \<and> LastUnique st' = o_loc st'"
  using unique_labels_apart [of sample_label sample_unique flat32 None]
  by (simp add: sample_label_def sample_unique_def sample_state_def sample_oc_def AskIfUniqueLabel_def)

end
