(* ===== verification/CgEncode.thy ===== *)
theory CgEncode
  imports CgOutput
begin

text \<open>
  The instruction encoder of \<open>bld/cg/intel/c/x86enc.c\<close>, in the build for x64: the buffers \<open>Inst\<close> and
  \<open>Temp\<close>, the accumulator of the REX prefix, \<open>TransferIns\<close>, the routines that lay opcodes, registers and
  constants, and the generators for moves, arithmetic on registers, stack frames and the like.

  An instruction is formatted in \<open>Inst\<close> and then transferred to \<open>Temp\<close>, which becomes a queue entry.
  The first \<open>IEsc\<close> bytes of \<open>Inst\<close> are raw, so that \<open>Inst[KEY]\<close> and \<open>Inst[RMR]\<close> can be modified in place;
  the bytes after them are escape encoded already.  \<open>TransferIns\<close> doubles the raw \<open>ESC\<close> bytes as it
  copies them, and on the way inserts the REX prefix and rewrites the one-byte \<open>INC\<close> and \<open>DEC\<close>,
  whose opcodes are REX prefixes in 64-bit code.

  Both buffers have \<open>INSSIZE\<close> bytes and are not checked in C.  Here a write outside them is \<open>None\<close>.
  \<open>ICur\<close>, \<open>ILen\<close> and \<open>IEsc\<close> are bytes in C; inside the buffer they stay below 256 and are naturals here.
\<close>

section \<open>Registers\<close>

record hw_reg_set =
  hw_0 :: u32
  hw_1 :: u32

definition HW :: "u32 \<Rightarrow> u32 \<Rightarrow> hw_reg_set" where
  "HW a b = \<lparr>hw_0 = a, hw_1 = b\<rparr>"

definition HW_SEGS :: hw_reg_set where "HW_SEGS = HW 0xf000 3"
definition HW_FS :: hw_reg_set where "HW_FS = HW 0 1"
definition HW_GS :: hw_reg_set where "HW_GS = HW 0 2"
definition HW_SS :: hw_reg_set where "HW_SS = HW 0x8000 0"
definition HW_DS :: hw_reg_set where "HW_DS = HW 0x1000 0"
definition HW_32 :: hw_reg_set where "HW_32 = HW 0xff000000 0"
definition HW_EAX :: hw_reg_set where "HW_EAX = HW 0x01000003 0"
definition HW_EBP :: hw_reg_set where "HW_EBP = HW 0x40000400 0"
definition HW_ESP :: hw_reg_set where "HW_ESP = HW 0x80000800 0"

definition HW_COvlap :: "hw_reg_set \<Rightarrow> hw_reg_set \<Rightarrow> bool" where
  "HW_COvlap a c \<longleftrightarrow> hw_0 a AND hw_0 c \<noteq> 0 \<or> hw_1 a AND hw_1 c \<noteq> 0"

definition HW_CTurnOff :: "hw_reg_set \<Rightarrow> hw_reg_set \<Rightarrow> hw_reg_set" where
  "HW_CTurnOff a c = HW (hw_0 a AND NOT (hw_0 c)) (hw_1 a AND NOT (hw_1 c))"

definition HW_COnlyOn :: "hw_reg_set \<Rightarrow> hw_reg_set \<Rightarrow> hw_reg_set" where
  "HW_COnlyOn a c = HW (hw_0 a AND hw_0 c) (hw_1 a AND hw_1 c)"

text \<open>
  \<open>RegsTab\<close>, from \<open>regindex.h\<close> of the x64 build: the general-purpose part (\<open>ARCH_GPR_START\<close> to
  \<open>ARCH_GPR_END\<close>: bytes, words, double words, \<open>R8\<close> to \<open>R15\<close>) and the segment registers.
\<close>

definition gpr_tab :: "(hw_reg_set \<times> u8) list" where
  "gpr_tab =
     [(HW 0x00000002 0, 0), (HW 0x00000020 0, 1), (HW 0x00000080 0, 2), (HW 0x00000008 0, 3),
      (HW 0x00000001 0, 4), (HW 0x00000010 0, 5), (HW 0x00000040 0, 6), (HW 0x00000004 0, 7),
      (HW 0x00000003 0, 0), (HW 0x00000030 0, 1), (HW 0x000000c0 0, 2), (HW 0x0000000c 0, 3),
      (HW 0x00000800 0, 4), (HW 0x00000400 0, 5), (HW 0x00000100 0, 6), (HW 0x00000200 0, 7),
      (HW 0x01000003 0, 0), (HW 0x04000030 0, 1), (HW 0x080000c0 0, 2), (HW 0x0200000c 0, 3),
      (HW 0x80000800 0, 4), (HW 0x40000400 0, 5), (HW 0x10000100 0, 6), (HW 0x20000200 0, 7),
      (HW 0 0x004, 0), (HW 0 0x008, 1), (HW 0 0x010, 2), (HW 0 0x020, 3),
      (HW 0 0x040, 4), (HW 0 0x080, 5), (HW 0 0x100, 6), (HW 0 0x200, 7)]"

definition seg_tab :: "(hw_reg_set \<times> u8) list" where
  "seg_tab =
     [(HW 0x2000 0, 0), (HW 0x4000 0, 1), (HW 0x8000 0, 2), (HW 0x1000 0, 3), (HW 0 1, 4), (HW 0 2, 5)]"

text \<open>
  \<open>None\<close> stands for the internal errors \<open>ZOIKS_031\<close> and \<open>ZOIKS_032\<close>.
\<close>

definition RegTrans :: "hw_reg_set \<Rightarrow> u8 option" where
  "RegTrans regs = map_of gpr_tab (HW_CTurnOff regs HW_SEGS)"

definition SegTrans :: "hw_reg_set \<Rightarrow> u8 option" where
  "SegTrans regs = map_of seg_tab (HW_COnlyOn regs HW_SEGS)"

definition is_r8_15 :: "hw_reg_set \<Rightarrow> bool" where
  "is_r8_15 r \<longleftrightarrow> hw_1 r AND 0x3FC \<noteq> 0"

section \<open>The buffers\<close>

definition INSSIZE :: nat where "INSSIZE = 128"

abbreviation KEY :: nat where "KEY \<equiv> 0"
abbreviation RMR :: nat where "RMR \<equiv> 1"

text \<open>
  \<open>queue\<close> collects the arguments of \<open>InputOC\<close>; \<open>FPPatchType\<close> is \<open>None\<close> for \<open>FPP_NONE\<close>.
\<close>

record enc_state =
  Inst :: bytes
  ICur :: nat
  ILen :: nat
  IEsc :: nat
  Temp :: any_oc
  RexAccum :: u8
  RexNeeded :: bool
  x64_mode :: bool
  FPPatchType :: "u8 option"
  queue :: "any_oc list"

type_synonym enc_op = "enc_state \<Rightarrow> enc_state option"

definition set_rex :: "u8 \<Rightarrow> enc_state \<Rightarrow> enc_state" where
  "set_rex b s = (if x64_mode s then s\<lparr>RexAccum := RexAccum s OR b, RexNeeded := True\<rparr> else s)"

definition SetRexW :: "enc_state \<Rightarrow> enc_state" where "SetRexW = set_rex 8"
definition SetRexR :: "enc_state \<Rightarrow> enc_state" where "SetRexR = set_rex 4"
definition SetRexX :: "enc_state \<Rightarrow> enc_state" where "SetRexX = set_rex 2"
definition SetRexB :: "enc_state \<Rightarrow> enc_state" where "SetRexB = set_rex 1"

definition ResetRex :: "enc_state \<Rightarrow> enc_state" where
  "ResetRex s = s\<lparr>RexAccum := 0, RexNeeded := False\<rparr>"

definition X64EncInit :: "bool \<Rightarrow> enc_state \<Rightarrow> enc_state" where
  "X64EncInit is_x64 s = ResetRex (s\<lparr>x64_mode := is_x64\<rparr>)"

definition blank_oc :: "oc_base \<Rightarrow> any_oc" where
  "blank_oc cls = \<lparr>oc_base = cls, oc_info = OC_INFO_LINE, attr_far = False, attr_short = False,
     attr_pop = False, objlen = 0, oc_data = [], oc_handle = 0, oc_cond = 0, oc_pops = 0,
     oc_line = 0, oc_label_line = False, oc_ptr = 0, oc_starts = False\<rparr>"

definition Format :: "oc_base \<Rightarrow> enc_state \<Rightarrow> enc_state" where
  "Format cls s = s\<lparr>FPPatchType := None, Temp := blank_oc cls, ICur := 0, ILen := 0, IEsc := 0\<rparr>"

definition ReFormat :: "oc_base \<Rightarrow> enc_state \<Rightarrow> enc_state" where
  "ReFormat cls s = s\<lparr>Temp := (Temp s)\<lparr>oc_base := cls\<rparr>\<rparr>"

definition put_inst :: "nat \<Rightarrow> u8 \<Rightarrow> enc_op" where
  "put_inst i b s = (if i < length (Inst s) then Some (s\<lparr>Inst := (Inst s)[i := b]\<rparr>) else None)"

definition EmitByte :: "u8 \<Rightarrow> enc_op" where
  "EmitByte b s = do { s \<leftarrow> put_inst (ICur s) b s; Some (s\<lparr>ICur := ICur s + 1\<rparr>) }"

fun EmitBytes :: "bytes \<Rightarrow> enc_op" where
  "EmitBytes [] s = Some s"
| "EmitBytes (b # bs) s = do { s \<leftarrow> EmitByte b s; EmitBytes bs s }"

definition AddByte :: "u8 \<Rightarrow> enc_op" where
  "AddByte b s = do {
     s \<leftarrow> (if b = ESC then EmitByte b s else Some s);
     s \<leftarrow> EmitByte b s;
     Some (s\<lparr>ILen := ILen s + 1\<rparr>)
   }"

definition add_temp :: "bytes \<Rightarrow> u8 \<Rightarrow> enc_op" where
  "add_temp bs len s =
    (let t = Temp s in
     if length (oc_data t) + length bs \<le> INSSIZE
     then Some (s\<lparr>Temp := t\<lparr>oc_data := oc_data t @ bs, objlen := objlen t + len\<rparr>\<rparr>)
     else None)"

definition AddToTemp :: "u8 \<Rightarrow> enc_op" where
  "AddToTemp b = add_temp (if b = ESC then [b, b] else [b]) 1"

section \<open>\<open>TransferIns\<close>\<close>

definition is_legacy_prefix :: "u8 \<Rightarrow> bool" where
  "is_legacy_prefix b \<longleftrightarrow>
     b = 0x66 \<or> b = 0x67 \<or> b = 0xF0 \<or> b = 0xF2 \<or> b = 0xF3 \<or> b = 0x2E \<or> b = 0x36 \<or> b = 0x3E \<or>
     b = 0x26 \<or> b = 0x64 \<or> b = 0x65"

definition remap_incdec :: "enc_op" where
  "remap_incdec s =
    (if x64_mode s \<and> ICur s = 1 then do {
       k \<leftarrow> rd (Inst s) KEY;
       let grow = (\<lambda>rmr. do {
             s \<leftarrow> put_inst KEY 0xFF s;
             s \<leftarrow> put_inst RMR rmr s;
             let s = s\<lparr>ICur := ICur s + 1, ILen := ILen s + 1\<rparr>;
             Some (if IEsc s < ICur s then s\<lparr>IEsc := ICur s\<rparr> else s)
           });
       if 0x40 \<le> k \<and> k \<le> 0x47 then grow ((k - 0x40) + 0xc0)
       else if 0x48 \<le> k \<and> k \<le> 0x4F then grow (8 OR (k - 0x48) OR 0xc0)
       else Some s
     }
     else Some s)"

definition insert_rex :: "enc_op" where
  "insert_rex s =
    (if RexNeeded s \<and> x64_mode s then
       let pos = length (takeWhile is_legacy_prefix (take (ICur s) (Inst s)))
       in if ICur s < length (Inst s)
          then Some (ResetRex (s\<lparr>
                 Inst := take pos (Inst s) @ [0x40 OR RexAccum s] @ drop pos (take (ICur s) (Inst s))
                         @ drop (ICur s + 1) (Inst s),
                 ICur := ICur s + 1, ILen := ILen s + 1,
                 IEsc := (if pos < IEsc s then IEsc s + 1 else IEsc s)\<rparr>))
          else None
     else Some s)"

definition double_esc :: "bytes \<Rightarrow> bytes" where
  "double_esc bs = concat (map (\<lambda>b. if b = ESC then [ESC, b] else [b]) bs)"

definition TransferIns :: "enc_op" where
  "TransferIns s = do {
     s \<leftarrow> remap_incdec s;
     s \<leftarrow> insert_rex s;
     if IEsc s \<le> ICur s
     then add_temp (double_esc (take (IEsc s) (Inst s)) @ take (ICur s - IEsc s) (drop (IEsc s) (Inst s)))
            (word_of_nat (ILen s)) s
     else None
   }"

definition EjectInst :: "enc_op" where
  "EjectInst s = do { s \<leftarrow> TransferIns s; Some (s\<lparr>ICur := 0, ILen := 0, IEsc := 0\<rparr>) }"

text \<open>
  With a floating-point patch pending, three bytes are put in front of the data.
\<close>

definition FPPatchTypeRef :: "enc_op" where
  "FPPatchTypeRef s =
    (case FPPatchType s of
       None \<Rightarrow> Some s
     | Some p \<Rightarrow>
         if length (oc_data (Temp s)) + 3 \<le> INSSIZE
         then Some (s\<lparr>Temp := (Temp s)\<lparr>oc_data := [ESC, ESC_FUN, p] @ oc_data (Temp s)\<rparr>,
                      FPPatchType := None\<rparr>)
         else None)"

definition Finalize :: "enc_op" where
  "Finalize s = do {
     s \<leftarrow> EjectInst s;
     s \<leftarrow> FPPatchTypeRef s;
     Some (if objlen (Temp s) \<noteq> 0 then s\<lparr>queue := queue s @ [Temp s]\<rparr> else s)
   }"

section \<open>Laying opcodes, registers and constants\<close>

definition LayOpbyte :: "u16 \<Rightarrow> enc_op" where
  "LayOpbyte op s = do {
     s \<leftarrow> put_inst KEY (ucast op) s;
     Some (s\<lparr>ICur := 1, ILen := 1, IEsc := 1\<rparr>)
   }"

definition LayOpword :: "u16 \<Rightarrow> enc_op" where
  "LayOpword op s = do {
     s \<leftarrow> put_inst KEY (ucast op) s;
     s \<leftarrow> put_inst RMR (ucast (drop_bit 8 op)) s;
     Some (s\<lparr>ICur := 2, ILen := 2, IEsc := 2\<rparr>)
   }"

datatype type_class_def = U1 | I1 | U2 | I2 | U4 | I4 | U8 | I8 | CP | PT | FS | FD | FL | XX | ER

definition or_inst :: "nat \<Rightarrow> u8 \<Rightarrow> enc_op" where
  "or_inst i b s = do { c \<leftarrow> rd (Inst s) i; put_inst i (c OR b) s }"

definition LayW :: "type_class_def \<Rightarrow> enc_op" where
  "LayW tc = (if tc \<in> {U2, I2, U4, I4, FS} then or_inst KEY 1 else Some)"

definition LayReg :: "hw_reg_set \<Rightarrow> enc_op" where
  "LayReg r s = do {
     let s = (if x64_mode s \<and> is_r8_15 r then SetRexR s else s);
     i \<leftarrow> RegTrans r;
     or_inst RMR (push_bit 3 i) s
   }"

definition LayRegRM :: "hw_reg_set \<Rightarrow> enc_op" where
  "LayRegRM r s = do {
     let s = (if x64_mode s \<and> is_r8_15 r then SetRexB s else s);
     i \<leftarrow> RegTrans r;
     or_inst RMR (i + 0xc0) s
   }"

definition LayRegAC :: "hw_reg_set \<Rightarrow> enc_op" where
  "LayRegAC r s = do {
     let s = (if x64_mode s \<and> is_r8_15 r then SetRexB s else s);
     i \<leftarrow> RegTrans r;
     or_inst KEY i s
   }"

definition OpndSize :: "cg_target \<Rightarrow> hw_reg_set \<Rightarrow> enc_state \<Rightarrow> (type_class_def \<times> enc_state) option" where
  "OpndSize T regs s =
    (if HW_COvlap regs HW_SEGS then Some (U2, s)
     else if HW_COvlap regs HW_32
     then do { s \<leftarrow> (if \<not> use32 T then AddToTemp 0x66 s else Some s); Some (U4, s) }
     else do { s \<leftarrow> (if use32 T then AddToTemp 0x66 s else Some s); Some (U2, s) })"

definition AddWData :: "u32 \<Rightarrow> type_class_def \<Rightarrow> enc_op" where
  "AddWData v tc s = do {
     s \<leftarrow> AddByte (ucast v) s;
     if tc = U1 \<or> tc = I1 then Some s
     else do {
       let v = signed_drop_bit 8 v;
       s \<leftarrow> AddByte (ucast v) s;
       if tc = U2 \<or> tc = I2 then Some s
       else do {
         let v = signed_drop_bit 8 v;
         s \<leftarrow> AddByte (ucast v) s;
         let v = signed_drop_bit 8 v;
         AddByte (ucast v) s
       }
     }
   }"

definition AddSData :: "u32 \<Rightarrow> type_class_def \<Rightarrow> enc_op" where
  "AddSData v tc s =
    (if (tc = U2 \<or> tc = I2) \<and> (v AND 0xff80 = 0xff80 \<or> v AND 0xff80 = 0)
     then do { s \<leftarrow> or_inst KEY 2 s; AddByte (ucast v) s }
     else if (tc = U4 \<or> tc = I4) \<and> (v AND 0xffffff80 = 0xffffff80 \<or> v AND 0xffffff80 = 0)
     then do { s \<leftarrow> or_inst KEY 2 s; AddByte (ucast v) s }
     else AddWData v tc s)"

section \<open>Generators\<close>

definition PushSeg :: "hw_reg_set \<Rightarrow> enc_op" where
  "PushSeg reg s =
    (if HW_COvlap reg HW_FS then LayOpword 0xA00F s
     else if HW_COvlap reg HW_GS then LayOpword 0xA80F s
     else do { i \<leftarrow> SegTrans reg; LayOpbyte (0x06 OR ucast (push_bit 3 i)) s })"

definition PopSeg :: "hw_reg_set \<Rightarrow> enc_op" where
  "PopSeg reg s =
    (if HW_COvlap reg HW_FS then LayOpword 0xA10F s
     else if HW_COvlap reg HW_GS then LayOpword 0xA90F s
     else do { i \<leftarrow> SegTrans reg; LayOpbyte (0x07 OR ucast (push_bit 3 i)) s })"

definition QuickSave :: "cg_target \<Rightarrow> hw_reg_set \<Rightarrow> bool \<Rightarrow> enc_op" where
  "QuickSave T reg push s = do {
     let s = Format OC_CODE s;
     s \<leftarrow> (if HW_COvlap reg HW_SEGS
           then if push then PushSeg reg s else PopSeg reg s
           else do {
             i \<leftarrow> RegTrans reg;
             s \<leftarrow> LayOpbyte ((if push then 0x50 else 0x58) OR ucast i) s;
             (_, s) \<leftarrow> OpndSize T reg s;
             Some s
           });
     Finalize s
   }"

definition GenRegXor :: "cg_target \<Rightarrow> hw_reg_set \<Rightarrow> hw_reg_set \<Rightarrow> enc_op" where
  "GenRegXor T src dst s = do {
     s \<leftarrow> LayOpword (0xc030 OR 1) (Format OC_CODE s);
     (_, s) \<leftarrow> OpndSize T src s;
     s \<leftarrow> LayReg src s;
     s \<leftarrow> LayRegRM dst s;
     Finalize s
   }"

definition GenRegNeg :: "cg_target \<Rightarrow> hw_reg_set \<Rightarrow> enc_op" where
  "GenRegNeg T src s = do {
     s \<leftarrow> LayOpword (0xd8f6 OR 1) (Format OC_CODE s);
     (_, s) \<leftarrow> OpndSize T src s;
     s \<leftarrow> LayRegRM src s;
     Finalize s
   }"

definition GenRegMove :: "cg_target \<Rightarrow> hw_reg_set \<Rightarrow> hw_reg_set \<Rightarrow> enc_op" where
  "GenRegMove T src dst s = do {
     s \<leftarrow> LayOpword (0xc088 OR 1) (Format OC_CODE s);
     (_, s) \<leftarrow> OpndSize T src s;
     s \<leftarrow> LayReg src s;
     s \<leftarrow> LayRegRM dst s;
     Finalize s
   }"

definition GenRegOp :: "cg_target \<Rightarrow> hw_reg_set \<Rightarrow> u32 \<Rightarrow> u16 \<Rightarrow> enc_op" where
  "GenRegOp T dst v op s = do {
     s \<leftarrow> LayOpword (op OR 1) (Format OC_CODE s);
     (tc, s) \<leftarrow> OpndSize T dst s;
     s \<leftarrow> LayRegRM dst s;
     s \<leftarrow> AddSData v tc s;
     Finalize s
   }"

definition GenRegAdd :: "cg_target \<Rightarrow> hw_reg_set \<Rightarrow> u32 \<Rightarrow> enc_op" where
  "GenRegAdd T dst v = GenRegOp T dst v 0xc080"

definition GenRegSub :: "cg_target \<Rightarrow> hw_reg_set \<Rightarrow> u32 \<Rightarrow> enc_op" where
  "GenRegSub T dst v = GenRegOp T dst v 0xe880"

definition GenRegAnd :: "cg_target \<Rightarrow> hw_reg_set \<Rightarrow> u32 \<Rightarrow> enc_op" where
  "GenRegAnd T dst v = GenRegOp T dst v 0xe080"

definition code_op :: "enc_op \<Rightarrow> enc_op" where
  "code_op lay s = do { s \<leftarrow> lay (Format OC_CODE s); Finalize s }"

definition GFldz :: enc_op where "GFldz = code_op (LayOpword 0xeed9)"
definition GFld1 :: enc_op where "GFld1 = code_op (LayOpword 0xe8d9)"

definition GFstp :: "u8 \<Rightarrow> enc_op" where
  "GFstp i = code_op (\<lambda>s. do { s \<leftarrow> LayOpword 0xd8dd s; or_inst RMR i s })"

definition GFxch :: "u8 \<Rightarrow> enc_op" where
  "GFxch i = code_op (\<lambda>s. do { s \<leftarrow> LayOpword 0xc8d9 s; or_inst RMR i s })"

definition GFld :: "u8 \<Rightarrow> enc_op" where
  "GFld i = code_op (\<lambda>s. do { s \<leftarrow> LayOpword 0xc0d9 s; or_inst RMR i s })"

definition Gpusha :: enc_op where "Gpusha = code_op (LayOpbyte 0x60)"
definition Gpopa :: enc_op where "Gpopa = code_op (LayOpbyte 0x61)"
definition Gcld :: enc_op where "Gcld = code_op (LayOpbyte 0xfc)"

definition lay_size :: "cg_target \<Rightarrow> hw_reg_set \<Rightarrow> enc_op" where
  "lay_size T r s = map_option snd (OpndSize T r s)"

definition GenLeave :: "cg_target \<Rightarrow> enc_op" where
  "GenLeave T = code_op (\<lambda>s. do { s \<leftarrow> LayOpbyte 0xc9 s; lay_size T HW_EBP s })"

definition GenTouchStack :: "cg_target \<Rightarrow> bool \<Rightarrow> bool \<Rightarrow> enc_op" where
  "GenTouchStack T sp_might_point_at_something for_size s =
    (if sp_might_point_at_something \<or> for_size
     then do { s \<leftarrow> QuickSave T HW_EAX True s; QuickSave T HW_EAX False s }
     else code_op (\<lambda>s. do { s \<leftarrow> LayOpword 0x0489 s; s \<leftarrow> lay_size T HW_ESP s; AddByte 0x24 s }) s)"

definition GenEnter :: "cg_target \<Rightarrow> u32 \<Rightarrow> u8 \<Rightarrow> enc_op" where
  "GenEnter T sz level = code_op (\<lambda>s. do {
     s \<leftarrow> LayOpbyte 0xc8 s;
     s \<leftarrow> lay_size T HW_EBP s;
     s \<leftarrow> AddWData sz U2 s;
     AddByte level s
   })"

definition GenPushOffset :: "u8 \<Rightarrow> enc_op" where
  "GenPushOffset off = code_op (\<lambda>s. do { s \<leftarrow> LayOpword 0x76ff s; AddWData (ucast off) I1 s })"

definition add_ilen :: "nat \<Rightarrow> enc_state \<Rightarrow> enc_state" where
  "add_ilen n s = s\<lparr>ILen := ILen s + n\<rparr>"

definition GenUnkSub :: "cg_target \<Rightarrow> hw_reg_set \<Rightarrow> u64 \<Rightarrow> enc_op" where
  "GenUnkSub T dst apatch = code_op (\<lambda>s. do {
     s \<leftarrow> LayOpword (0xe880 OR 1) s;
     s \<leftarrow> lay_size T dst s;
     s \<leftarrow> LayRegRM dst s;
     EmitBytes (DoAbsPatch apatch 4) (add_ilen 4 s)
   })"

definition GenUnkMov :: "cg_target \<Rightarrow> hw_reg_set \<Rightarrow> u64 \<Rightarrow> enc_op" where
  "GenUnkMov T dst apatch = code_op (\<lambda>s. do {
     s \<leftarrow> LayOpbyte 0xb8 s;
     s \<leftarrow> lay_size T dst s;
     EmitBytes (DoAbsPatch apatch 4) (add_ilen 4 s)
   })"

definition GenUnkEnter :: "u64 \<Rightarrow> u8 \<Rightarrow> enc_op" where
  "GenUnkEnter apatch level = code_op (\<lambda>s. do {
     s \<leftarrow> LayOpbyte 0xc8 s;
     s \<leftarrow> EmitBytes (DoAbsPatch apatch 2) s;
     AddByte level (add_ilen 2 s)
   })"

definition GenReturn :: "u32 \<Rightarrow> bool \<Rightarrow> enc_state \<Rightarrow> enc_state" where
  "GenReturn pop is_long s =
     s\<lparr>queue := queue s @ [(blank_oc OC_RET)\<lparr>attr_pop := (pop \<noteq> 0), attr_far := is_long,
        objlen := (if pop \<noteq> 0 then 3 else 1), oc_pops := pop\<rparr>]\<rparr>"

definition GenIRET :: "enc_state \<Rightarrow> enc_state" where
  "GenIRET s = s\<lparr>queue := queue s @ [(blank_oc OC_RET)\<lparr>attr_short := True, objlen := 1\<rparr>]\<rparr>"


section \<open>What the buffers hold\<close>

text \<open>
  The buffers as items: \<open>hs\<close> are the raw bytes of \<open>Inst\<close>, \<open>ops\<close> the items encoded after them, \<open>ts\<close>
  those in \<open>Temp\<close>.  \<open>ILen\<close> and \<open>objlen\<close> count the bytes of code, not those of the encoding.
\<close>

definition items_size :: "esc_item list \<Rightarrow> nat" where
  "items_size is = sum_list (map item_size is)"

lemma items_size_simps [simp]:
  "items_size [] = 0" "items_size (i # is) = item_size i + items_size is"
  "items_size (is @ js) = items_size is + items_size js"
  by (simp_all add: items_size_def)

lemma items_size_bytes [simp]: "items_size (map EByte bs) = length bs"
  by (induction bs) auto

definition enc_abs :: "enc_state \<Rightarrow> bytes \<Rightarrow> esc_item list \<Rightarrow> esc_item list \<Rightarrow> bool" where
  "enc_abs s hs ops ts \<longleftrightarrow>
     length (Inst s) = INSSIZE \<and> IEsc s = length hs \<and>
     ICur s = length hs + length (items_bytes ops) \<and> ICur s \<le> INSSIZE \<and>
     take (ICur s) (Inst s) = hs @ items_bytes ops \<and>
     ILen s = length hs + items_size ops \<and>
     oc_data (Temp s) = items_bytes ts \<and> objlen (Temp s) = word_of_nat (items_size ts) \<and>
     RexAccum s < 16"

lemma enc_absD:
  assumes "enc_abs s hs ops ts"
  shows "length (Inst s) = INSSIZE" "IEsc s = length hs"
    "ICur s = length hs + length (items_bytes ops)" "ICur s \<le> INSSIZE"
    "take (ICur s) (Inst s) = hs @ items_bytes ops"
    "ILen s = length hs + items_size ops" "oc_data (Temp s) = items_bytes ts"
    "objlen (Temp s) = word_of_nat (items_size ts)" "RexAccum s < 16"
  using assms unfolding enc_abs_def by blast+

text \<open>
  \<open>same_rest\<close> is about what an operation on the buffers leaves alone.
\<close>

definition same_rest :: "enc_state \<Rightarrow> enc_state \<Rightarrow> bool" where
  "same_rest s s' \<longleftrightarrow> queue s' = queue s \<and> x64_mode s' = x64_mode s \<and>
     FPPatchType s' = FPPatchType s \<and> (Temp s')\<lparr>oc_data := [], objlen := 0\<rparr> = (Temp s)\<lparr>oc_data := [], objlen := 0\<rparr>"

lemma same_rest_refl [simp]: "same_rest s s"
  by (simp add: same_rest_def)

lemma same_rest_trans: "same_rest s s' \<Longrightarrow> same_rest s' s'' \<Longrightarrow> same_rest s s''"
  by (simp add: same_rest_def)

fun is_prefix_item :: "esc_item \<Rightarrow> bool" where
  "is_prefix_item (EByte b) = is_legacy_prefix b"
| "is_prefix_item i = False"

definition rex_items :: "u8 \<Rightarrow> esc_item list \<Rightarrow> esc_item list" where
  "rex_items acc is =
     takeWhile is_prefix_item is @ [EByte (0x40 OR acc)] @ dropWhile is_prefix_item is"

definition incdec_items :: "esc_item list \<Rightarrow> esc_item list" where
  "incdec_items is =
    (case is of
       [EByte k] \<Rightarrow>
         if 0x40 \<le> k \<and> k \<le> 0x47 then [EByte 0xFF, EByte ((k - 0x40) + 0xc0)]
         else if 0x48 \<le> k \<and> k \<le> 0x4F then [EByte 0xFF, EByte (8 OR (k - 0x48) OR 0xc0)]
         else [EByte k]
     | _ \<Rightarrow> is)"

definition final_items :: "enc_state \<Rightarrow> esc_item list \<Rightarrow> esc_item list" where
  "final_items s is =
    (if x64_mode s
     then if RexNeeded s then rex_items (RexAccum s) (incdec_items is) else incdec_items is
     else is)"

lemma double_esc_items: "double_esc bs = items_bytes (map EByte bs)"
  by (induction bs) (simp_all add: double_esc_def)

lemma legacy_prefix_not_esc: "is_legacy_prefix b \<Longrightarrow> b \<noteq> ESC"
  by (auto simp: is_legacy_prefix_def)

lemma prefix_items_bytes:
  "takeWhile is_legacy_prefix (items_bytes is) = items_bytes (takeWhile is_prefix_item is)"
proof (induction "is")
  case (Cons i "is")
  have "\<not> is_legacy_prefix ESC" by (simp add: is_legacy_prefix_def)
  with Cons show ?case by (cases i) (auto dest: legacy_prefix_not_esc)
qed simp

lemma prefix_bytes_items:
  "takeWhile is_prefix_item (map EByte bs) = map EByte (takeWhile is_legacy_prefix bs)"
  "dropWhile is_prefix_item (map EByte bs) = map EByte (dropWhile is_legacy_prefix bs)"
  by (induction bs) auto

lemma rex_not_esc:
  assumes "acc < (16 :: u8)"
  shows "0x40 OR acc \<noteq> ESC"
proof -
  have "list_all (\<lambda>n. 0x40 OR word_of_nat n \<noteq> ESC) [0..<16]" by code_simp
  moreover have "unat acc \<in> set [0..<16]" using assms by (simp add: word_less_nat_alt)
  ultimately have "0x40 OR word_of_nat (unat acc) \<noteq> ESC" unfolding list_all_iff by blast
  then show ?thesis by simp
qed

lemma take_prefix_eq: "take n xs = a @ b \<Longrightarrow> length a + length b = n \<Longrightarrow> take (length a) xs = a"
  by (metis append_eq_conv_conj le_add1 min.absorb1 take_take)

lemma enc_abs_split:
  assumes "enc_abs s hs ops ts"
  shows "take (IEsc s) (Inst s) = hs"
    "take (ICur s - IEsc s) (drop (IEsc s) (Inst s)) = items_bytes ops"
proof -
  have a: "take (ICur s) (Inst s) = hs @ items_bytes ops" "IEsc s = length hs"
    "ICur s = length hs + length (items_bytes ops)"
    using enc_absD [OF assms] by blast+
  show "take (IEsc s) (Inst s) = hs"
    using a take_prefix_eq by fastforce
  have "take (ICur s - IEsc s) (drop (IEsc s) (Inst s)) = drop (IEsc s) (take (ICur s) (Inst s))"
    by (simp add: drop_take)
  also have "\<dots> = items_bytes ops" using a by simp
  finally show "take (ICur s - IEsc s) (drop (IEsc s) (Inst s)) = items_bytes ops" .
qed

text \<open>
  The REX step.
\<close>

lemma insert_rex_abs:
  assumes abs: "enc_abs s hs ops ts" and rex: "RexNeeded s" "x64_mode s" and room: "ICur s < INSSIZE"
  shows "\<exists>s' hs' ops'. insert_rex s = Some s' \<and> enc_abs s' hs' ops' ts \<and> same_rest s s' \<and>
     map EByte hs' @ ops' = rex_items (RexAccum s) (map EByte hs @ ops) \<and>
     \<not> RexNeeded s' \<and> RexAccum s' = 0"
proof -
  define pos where "pos = length (takeWhile is_legacy_prefix (take (ICur s) (Inst s)))"
  define rexb where "rexb = 0x40 OR RexAccum s"
  define s' where "s' = ResetRex (s\<lparr>
                 Inst := take pos (Inst s) @ [rexb] @ drop pos (take (ICur s) (Inst s))
                         @ drop (ICur s + 1) (Inst s),
                 ICur := ICur s + 1, ILen := ILen s + 1,
                 IEsc := (if pos < IEsc s then IEsc s + 1 else IEsc s)\<rparr>)"
  have len: "length (Inst s) = INSSIZE" and all: "take (ICur s) (Inst s) = hs @ items_bytes ops"
    and esc: "IEsc s = length hs" and cur: "ICur s = length hs + length (items_bytes ops)"
    using enc_absD [OF abs] by blast+
  have run: "insert_rex s = Some s'"
    unfolding insert_rex_def s'_def pos_def rexb_def using rex room len by (simp add: Let_def)
  have pos_le: "pos \<le> ICur s"
    unfolding pos_def by (metis length_take length_takeWhile_le min.cobounded2 order_trans)
  have nesc: "rexb \<noteq> ESC" unfolding rexb_def by (rule rex_not_esc [OF enc_absD(9) [OF abs]])
  have rest: "same_rest s s'" "\<not> RexNeeded s'" "RexAccum s' = 0"
    by (simp_all add: s'_def ResetRex_def same_rest_def)
  define W where "W = hs @ items_bytes ops"
  have W: "take (ICur s) (Inst s) = W" "length W = ICur s" using all cur by (simp_all add: W_def)
  have "take pos (Inst s) = take pos W"
    using pos_le by (simp flip: W(1))
  then have inst': "Inst s' = (take pos W @ [rexb] @ drop pos W) @ drop (ICur s + 1) (Inst s)"
    unfolding s'_def ResetRex_def by (simp add: W)
  have "length (take pos W @ [rexb] @ drop pos W) = ICur s + 1"
    using pos_le W(2) by simp
  then have take': "take (ICur s + 1) (Inst s') =
      take pos (hs @ items_bytes ops) @ [rexb] @ drop pos (hs @ items_bytes ops)"
    unfolding inst' W_def [symmetric] by (metis append_eq_conv_conj)
  have len': "length (Inst s') = INSSIZE"
    using pos_le room len by (simp add: s'_def ResetRex_def)
  show ?thesis
  proof (cases "list_all is_legacy_prefix hs")
    case True
    let ?P = "takeWhile is_prefix_item ops" and ?D = "dropWhile is_prefix_item ops"
    have pos: "pos = length hs + length (items_bytes ?P)"
      unfolding pos_def all using True
      by (simp add: takeWhile_append list_all_iff prefix_items_bytes)
    have ops: "items_bytes ops = items_bytes ?P @ items_bytes ?D"
      by (metis items_bytes_simps(3) takeWhile_dropWhile_id)
    have "enc_abs s' hs (?P @ [EByte rexb] @ ?D) ts"
    proof -
      have "take (ICur s + 1) (Inst s') = hs @ items_bytes (?P @ [EByte rexb] @ ?D)"
        unfolding take' pos using nesc by (subst ops, subst ops) simp
      moreover have "items_size (?P @ [EByte rexb] @ ?D) = items_size ops + 1"
      proof -
        have "items_size ops = items_size ?P + items_size ?D"
          by (metis items_size_simps(3) takeWhile_dropWhile_id)
        then show ?thesis by simp
      qed
      moreover have "ICur s' = ICur s + 1" "IEsc s' = length hs" "ILen s' = ILen s + 1"
        "Temp s' = Temp s" "RexAccum s' = 0"
        using pos esc by (simp_all add: s'_def ResetRex_def)
      moreover have "length (items_bytes (?P @ [EByte rexb] @ ?D)) = length (items_bytes ops) + 1"
        using nesc by (subst ops) simp
      ultimately show ?thesis
        using abs len' room by (simp add: enc_abs_def)
    qed
    moreover have "map EByte hs @ ?P @ [EByte rexb] @ ?D = rex_items (RexAccum s) (map EByte hs @ ops)"
      using True by (simp add: rex_items_def rexb_def takeWhile_append dropWhile_append list_all_iff)
    ultimately show ?thesis using run rest by blast
  next
    case False
    let ?P = "takeWhile is_legacy_prefix hs" and ?D = "dropWhile is_legacy_prefix hs"
    have pos: "pos = length ?P"
      unfolding pos_def all using False
      by (auto simp: takeWhile_append list_all_iff)
    have "?P \<noteq> hs"
      using False by (metis list_all_iff set_takeWhileD)
    then have "?D \<noteq> []" by (metis append_Nil2 takeWhile_dropWhile_id)
    moreover have hlen: "length hs = length ?P + length ?D"
      by (metis length_append takeWhile_dropWhile_id)
    ultimately have lt: "pos < length hs" by (simp add: pos)
    have "enc_abs s' (?P @ [rexb] @ ?D) ops ts"
    proof -
      have "take pos hs = ?P" unfolding pos by (rule takeWhile_eq_take [symmetric])
      moreover have "drop pos hs = ?D" unfolding pos by (rule dropWhile_eq_drop [symmetric])
      ultimately have "take (ICur s + 1) (Inst s') = (?P @ [rexb] @ ?D) @ items_bytes ops"
        unfolding take' using lt by simp
      moreover have "ICur s' = ICur s + 1" "IEsc s' = length hs + 1" "ILen s' = ILen s + 1"
        "Temp s' = Temp s" "RexAccum s' = 0"
        using lt esc by (simp_all add: s'_def ResetRex_def)
      moreover have "length (?P @ [rexb] @ ?D) = length hs + 1"
        by (simp add: hlen)
      ultimately show ?thesis
        using abs len' room by (simp add: enc_abs_def)
    qed
    moreover have "map EByte (?P @ [rexb] @ ?D) @ ops = rex_items (RexAccum s) (map EByte hs @ ops)"
    proof -
      have "\<exists>i \<in> set (map EByte hs). \<not> is_prefix_item i"
        using False by (auto simp: list_all_iff)
      then show ?thesis
        by (auto simp: rex_items_def rexb_def takeWhile_append dropWhile_append prefix_bytes_items)
    qed
    ultimately show ?thesis using run rest by blast
  qed
qed


text \<open>
  The \<open>INC\<close> and \<open>DEC\<close> step.
\<close>

lemma incdec_not_esc:
  fixes k :: u8
  shows "\<lbrakk>0x40 \<le> k; k \<le> 0x47\<rbrakk> \<Longrightarrow> (k - 0x40) + 0xc0 \<noteq> ESC"
    "\<lbrakk>0x48 \<le> k; k \<le> 0x4F\<rbrakk> \<Longrightarrow> 8 OR (k - 0x48) OR 0xc0 \<noteq> ESC"
proof -
  have all: "list_all (\<lambda>n. word_of_nat n + 0xc0 \<noteq> ESC \<and> 8 OR word_of_nat n OR 0xc0 \<noteq> ESC) [0..<8]"
    by code_simp
  have small: "x + 0xc0 \<noteq> ESC \<and> 8 OR x OR 0xc0 \<noteq> ESC" if "unat x < 8" for x
  proof -
    have "unat x \<in> set [0..<8]" using that by simp
    with all have "word_of_nat (unat x) + 0xc0 \<noteq> ESC \<and> 8 OR word_of_nat (unat x) OR 0xc0 \<noteq> ESC"
      unfolding list_all_iff by blast
    then show ?thesis by simp
  qed
  show "\<lbrakk>0x40 \<le> k; k \<le> 0x47\<rbrakk> \<Longrightarrow> (k - 0x40) + 0xc0 \<noteq> ESC"
    using small [of "k - 0x40"] by (simp add: word_le_nat_alt unat_sub)
  show "\<lbrakk>0x48 \<le> k; k \<le> 0x4F\<rbrakk> \<Longrightarrow> 8 OR (k - 0x48) OR 0xc0 \<noteq> ESC"
    using small [of "k - 0x48"] by (simp add: word_le_nat_alt unat_sub)
qed

lemma one_item:
  assumes "length hs + length (items_bytes ops) = 1"
  shows "\<exists>k. hs @ items_bytes ops = [k] \<and> map EByte hs @ ops = [EByte k]"
proof (cases hs)
  case Nil
  have long: "item_bytes i \<noteq> []" for i by (cases i) auto
  obtain i r where ops: "ops = i # r" using assms Nil by (cases ops) auto
  have "length (item_bytes i) = 1 \<and> items_bytes r = []"
    using assms Nil ops long [of i] by (cases "item_bytes i") auto
  moreover from this have "r = []" using long by (cases r) auto
  ultimately show ?thesis using Nil ops by (cases i) (auto split: if_splits)
next
  case (Cons k r)
  then have "r = []" "items_bytes ops = []" using assms by auto
  moreover from this(2) have "ops = []"
    by (cases ops) (auto, case_tac a, auto split: if_splits)
  ultimately show ?thesis using Cons by simp
qed

lemma incdec_items_other:
  assumes "length (items_bytes is) \<noteq> 1 \<or> (\<exists>k. is = [EByte k] \<and> (k < 0x40 \<or> 0x4F < k))"
  shows "incdec_items is = is"
  using assms
  by (auto simp: incdec_items_def word_le_nat_alt word_less_nat_alt
      split: list.splits esc_item.splits if_splits)


lemma remap_incdec_abs:
  assumes abs: "enc_abs s hs ops ts" and room: "ICur s < INSSIZE"
  shows "\<exists>s' hs' ops'. remap_incdec s = Some s' \<and> enc_abs s' hs' ops' ts \<and> same_rest s s' \<and>
     map EByte hs' @ ops' = (if x64_mode s then incdec_items (map EByte hs @ ops) else map EByte hs @ ops) \<and>
     RexNeeded s' = RexNeeded s \<and> RexAccum s' = RexAccum s"
proof (cases "x64_mode s \<and> ICur s = 1")
  case False
  have "incdec_items (map EByte hs @ ops) = map EByte hs @ ops" if "ICur s \<noteq> 1"
  proof (cases "length (items_bytes (map EByte hs @ ops)) \<noteq> 1")
    case True
    then show ?thesis by (intro incdec_items_other) simp
  next
    case 1: False
    then have "length [] + length (items_bytes (map EByte hs @ ops)) = 1" by simp
    from one_item [OF this] obtain k where "map EByte hs @ ops = [EByte k]" by auto
    then have "ICur s = 1"
      using enc_absD(3) [OF abs] 1 by (cases hs) (auto split: if_splits)
    with that show ?thesis by simp
  qed
  with False abs show ?thesis
    by (auto simp: remap_incdec_def)
next
  case True
  note [simp] = enc_absD(1) [OF abs]
  have len: "length (Inst s) = 128" by (simp add: INSSIZE_def)
  from True enc_absD(3) [OF abs] one_item [of hs ops] obtain k where
    k: "hs @ items_bytes ops = [k]" "map EByte hs @ ops = [EByte k]" by auto
  have k0: "rd (Inst s) 0 = Some k"
    using enc_absD(5) [OF abs] True k(1) len by (cases "Inst s") (auto simp: rd_def)
  have esc: "IEsc s \<le> 1" using enc_absD(2,3) [OF abs] True by simp
  define grown where "grown = (\<lambda>rmr. s\<lparr>Inst := (Inst s)[0 := 0xFF, 1 := rmr], ICur := 2,
     ILen := ILen s + 1, IEsc := 2\<rparr>)"
  have grow: "(do { s \<leftarrow> put_inst 0 0xFF s; s \<leftarrow> put_inst 1 rmr s;
        let s = s\<lparr>ICur := ICur s + 1, ILen := ILen s + 1\<rparr>;
        Some (if IEsc s < ICur s then s\<lparr>IEsc := ICur s\<rparr> else s) }) = Some (grown rmr)" for rmr
    using True esc len by (simp add: put_inst_def grown_def Let_def)
  have grown: "enc_abs (grown rmr) [0xFF, rmr] [] ts \<and> same_rest s (grown rmr) \<and>
      RexNeeded (grown rmr) = RexNeeded s \<and> RexAccum (grown rmr) = RexAccum s" for rmr
  proof -
    have "take 2 ((Inst s)[0 := 0xFF, 1 := rmr]) = [0xFF, rmr]"
      using len by (cases "Inst s"; cases "tl (Inst s)") auto
    moreover have "ILen s = 1"
      using enc_absD(6) [OF abs] arg_cong [OF k(2), of items_size] by simp
    ultimately show ?thesis
      using abs by (simp add: enc_abs_def grown_def same_rest_def INSSIZE_def)
  qed
  have remapped: ?thesis
    if "remap_incdec s = Some (grown m)" "incdec_items [EByte k] = [EByte 0xFF, EByte m]" for m
    by (rule exI [of _ "grown m"], rule exI [of _ "[0xFF, m]"], rule exI [of _ "[]"])
       (use that grown [of m] True k(2) in simp)
  consider "0x40 \<le> k" "k \<le> 0x47" | "0x48 \<le> k" "k \<le> 0x4F" "\<not> (0x40 \<le> k \<and> k \<le> 0x47)"
    | "\<not> (0x40 \<le> k \<and> k \<le> 0x47)" "\<not> (0x48 \<le> k \<and> k \<le> 0x4F)" by blast
  then show ?thesis
  proof cases
    case 1
    then have "remap_incdec s = Some (grown ((k - 0x40) + 0xc0))"
      unfolding remap_incdec_def using True k0 grow by (simp add: Let_def)
    then show ?thesis by (rule remapped) (use 1 in \<open>simp add: incdec_items_def\<close>)
  next
    case 2
    then have "remap_incdec s = Some (grown (8 OR (k - 0x48) OR 0xc0))"
      unfolding remap_incdec_def using True k0 grow by (auto simp: Let_def)
    then show ?thesis by (rule remapped) (use 2 in \<open>auto simp: incdec_items_def\<close>)
  next
    case 3
    then have "remap_incdec s = Some s"
      unfolding remap_incdec_def using True k0 by (auto simp: Let_def)
    moreover have "incdec_items [EByte k] = [EByte k]" using 3 by (auto simp: incdec_items_def)
    ultimately show ?thesis
      using abs True k(2) by (intro exI [of _ s] exI [of _ hs] exI [of _ ops]) simp
  qed
qed


text \<open>
  \<open>TransferIns\<close> adds to \<open>Temp\<close> the items of \<open>Inst\<close>, with the REX prefix and the long forms of \<open>INC\<close> and \<open>DEC\<close>
  in 64-bit mode.  Each of the two steps takes one more byte of \<open>Inst\<close>.
\<close>

lemma length_incdec_items:
  "length (items_bytes is) \<le> length (items_bytes (incdec_items is))"
  using incdec_not_esc
  by (auto simp: incdec_items_def split: list.splits esc_item.splits)

lemma TransferIns_abs:
  assumes abs: "enc_abs s hs ops ts" and room: "ICur s + 2 \<le> INSSIZE"
    and fits: "length (items_bytes (ts @ final_items s (map EByte hs @ ops))) \<le> INSSIZE"
  shows "\<exists>s'. TransferIns s = Some s' \<and> length (Inst s') = INSSIZE \<and> same_rest s s' \<and>
     oc_data (Temp s') = items_bytes (ts @ final_items s (map EByte hs @ ops)) \<and>
     objlen (Temp s') = word_of_nat (items_size (ts @ final_items s (map EByte hs @ ops))) \<and>
     RexAccum s' < 16 \<and> (x64_mode s \<longrightarrow> RexAccum s' = (if RexNeeded s then 0 else RexAccum s) \<and> \<not> RexNeeded s')"
proof -
  let ?F = "final_items s (map EByte hs @ ops)"
  obtain s1 h1 o1 where 1: "remap_incdec s = Some s1" "enc_abs s1 h1 o1 ts" "same_rest s s1"
      "map EByte h1 @ o1 = (if x64_mode s then incdec_items (map EByte hs @ ops) else map EByte hs @ ops)"
      "RexNeeded s1 = RexNeeded s" "RexAccum s1 = RexAccum s"
    using remap_incdec_abs [OF abs] room by auto
  have x1: "x64_mode s1 = x64_mode s" using 1(3) by (simp add: same_rest_def)
  have cur1: "ICur s1 < INSSIZE"
  proof (cases "s1 = s")
    case True
    then show ?thesis using room by simp
  next
    case False
    then have "ICur s1 \<le> 2" using 1(1)
      by (auto simp: remap_incdec_def put_inst_def Let_def bind_eq_Some_conv split: if_splits)
    then show ?thesis by (simp add: INSSIZE_def)
  qed
  obtain s2 h2 o2 where 2: "insert_rex s1 = Some s2" "enc_abs s2 h2 o2 ts" "same_rest s s2"
      "map EByte h2 @ o2 = ?F"
      "x64_mode s \<longrightarrow> RexAccum s2 = (if RexNeeded s then 0 else RexAccum s) \<and> \<not> RexNeeded s2"
  proof (cases "RexNeeded s1 \<and> x64_mode s1")
    case True
    from insert_rex_abs [OF 1(2) _ _ cur1] True obtain s2 h2 o2 where
      "insert_rex s1 = Some s2" "enc_abs s2 h2 o2 ts" "same_rest s1 s2"
      "map EByte h2 @ o2 = rex_items (RexAccum s1) (map EByte h1 @ o1)" "\<not> RexNeeded s2" "RexAccum s2 = 0"
      by blast
    with that True 1 x1 same_rest_trans [OF 1(3)] show ?thesis
      by (auto simp: final_items_def)
  next
    case False
    then have "insert_rex s1 = Some s1" by (auto simp: insert_rex_def)
    with that [of s1 h1 o1] False 1 x1 show ?thesis
      by (auto simp: final_items_def)
  qed
  have parts: "double_esc (take (IEsc s2) (Inst s2)) @ take (ICur s2 - IEsc s2) (drop (IEsc s2) (Inst s2))
      = items_bytes ?F"
    unfolding enc_abs_split [OF 2(2)] double_esc_items using 2(4) [symmetric] by simp
  have len: "ILen s2 = items_size ?F"
    using enc_absD(6) [OF 2(2)] 2(4) [symmetric] by simp
  have "TransferIns s = add_temp (items_bytes ?F) (word_of_nat (items_size ?F)) s2"
    unfolding TransferIns_def using 1(1) 2(1) parts len enc_absD(2,3) [OF 2(2)] by simp
  then show ?thesis
    using fits 2 enc_absD [OF 2(2)] by (simp add: add_temp_def Let_def same_rest_def)
qed


section \<open>Encoding as a sequence of steps\<close>

text \<open>
  Between \<open>_Code\<close> and \<open>_Emit\<close> a generator makes calls of the following kinds: an opcode is laid, bits
  are or-ed into the raw bytes, a bit of the REX prefix is set, a byte or a reference is added, a
  byte goes to \<open>Temp\<close> directly, or the instruction is transferred and a new one begun (\<open>_Next\<close>).
\<close>

datatype enc_step =
    LOpbyte u16
  | LOpword u16
  | LOr nat u8
  | LRex u8
  | LByte u8
  | LItem esc_item
  | LTemp u8
  | LNext

fun exec_step :: "enc_step \<Rightarrow> enc_op" where
  "exec_step (LOpbyte op) s = LayOpbyte op s"
| "exec_step (LOpword op) s = LayOpword op s"
| "exec_step (LOr i b) s = or_inst i b s"
| "exec_step (LRex b) s = Some (set_rex b s)"
| "exec_step (LByte b) s = AddByte b s"
| "exec_step (LItem i) s = EmitBytes (item_bytes i) (add_ilen (item_size i) s)"
| "exec_step (LTemp b) s = AddToTemp b s"
| "exec_step LNext s = EjectInst s"

fun exec_steps :: "enc_step list \<Rightarrow> enc_op" where
  "exec_steps [] s = Some s"
| "exec_steps (p # ps) s = do { s \<leftarrow> exec_step p s; exec_steps ps s }"

definition run_code :: "enc_step list \<Rightarrow> enc_op" where
  "run_code ps = code_op (exec_steps ps)"

text \<open>
  The same steps on items: the raw bytes, the items after them, those of \<open>Temp\<close>, and the REX bits.
\<close>

type_synonym abs_state = "bytes \<times> esc_item list \<times> esc_item list \<times> u8 option"

definition finish_items :: "bool \<Rightarrow> u8 option \<Rightarrow> esc_item list \<Rightarrow> esc_item list" where
  "finish_items x64 acc is =
    (if x64 then (case acc of None \<Rightarrow> incdec_items is | Some a \<Rightarrow> rex_items a (incdec_items is)) else is)"

fun abs_step :: "bool \<Rightarrow> enc_step \<Rightarrow> abs_state \<Rightarrow> abs_state option" where
  "abs_step x64 (LOpbyte op) (hs, ops, ts, acc) = Some ([ucast op], [], ts, acc)"
| "abs_step x64 (LOpword op) (hs, ops, ts, acc) = Some ([ucast op, ucast (drop_bit 8 op)], [], ts, acc)"
| "abs_step x64 (LOr i b) (hs, ops, ts, acc) =
     (if i < length hs then Some (hs[i := hs ! i OR b], ops, ts, acc) else None)"
| "abs_step x64 (LRex b) (hs, ops, ts, acc) =
     (if b < 16 then Some (hs, ops, ts, if x64 then Some (case acc of None \<Rightarrow> b | Some a \<Rightarrow> a OR b) else acc)
      else None)"
| "abs_step x64 (LByte b) (hs, ops, ts, acc) = Some (hs, ops @ [EByte b], ts, acc)"
| "abs_step x64 (LItem i) (hs, ops, ts, acc) = Some (hs, ops @ [i], ts, acc)"
| "abs_step x64 (LTemp b) (hs, ops, ts, acc) = Some (hs, ops, ts @ [EByte b], acc)"
| "abs_step x64 LNext (hs, ops, ts, acc) =
     Some ([], [], ts @ finish_items x64 acc (map EByte hs @ ops), if x64 then None else acc)"

fun abs_steps :: "bool \<Rightarrow> enc_step list \<Rightarrow> abs_state \<Rightarrow> abs_state option" where
  "abs_steps x64 [] a = Some a"
| "abs_steps x64 (p # ps) a = do { a \<leftarrow> abs_step x64 p a; abs_steps x64 ps a }"

text \<open>
  How much room a step may take in the buffers, with all its bytes doubled, a REX prefix and the long
  form of \<open>INC\<close>.
\<close>

fun step_cost :: "enc_step \<Rightarrow> nat" where
  "step_cost (LOpbyte op) = 2"
| "step_cost (LOpword op) = 4"
| "step_cost (LByte b) = 2"
| "step_cost (LItem i) = length (item_bytes i)"
| "step_cost (LTemp b) = 2"
| "step_cost LNext = 4"
| "step_cost p = 0"

definition conf_rel :: "enc_state \<Rightarrow> abs_state \<Rightarrow> bool" where
  "conf_rel s a \<longleftrightarrow>
    (case a of (hs, ops, ts, acc) \<Rightarrow>
       enc_abs s hs ops ts \<and>
       RexNeeded s = (acc \<noteq> None) \<and> RexAccum s = (case acc of None \<Rightarrow> 0 | Some b \<Rightarrow> b))"

definition conf_size :: "abs_state \<Rightarrow> nat" where
  "conf_size a = (case a of (hs, ops, ts, acc) \<Rightarrow>
     length (items_bytes ts) + 2 * length hs + length (items_bytes ops))"

lemma conf_finish:
  assumes "conf_rel s (hs, ops, ts, acc)"
  shows "final_items s (map EByte hs @ ops) = finish_items (x64_mode s) acc (map EByte hs @ ops)"
  using assms by (auto simp: conf_rel_def final_items_def finish_items_def split: option.splits)

lemma put_inst_Some: "i < length (Inst s) \<Longrightarrow> put_inst i b s = Some (s\<lparr>Inst := (Inst s)[i := b]\<rparr>)"
  by (simp add: put_inst_def)

lemma EmitBytes_run:
  "ICur s + length bs \<le> length (Inst s) \<Longrightarrow>
   EmitBytes bs s = Some (s\<lparr>Inst := take (ICur s) (Inst s) @ bs @ drop (ICur s + length bs) (Inst s),
                            ICur := ICur s + length bs\<rparr>)"
proof (induction bs arbitrary: s)
  case Nil
  then show ?case by simp
next
  case (Cons b bs)
  define s1 where "s1 = s\<lparr>Inst := (Inst s)[ICur s := b], ICur := ICur s + 1\<rparr>"
  have lt: "ICur s < length (Inst s)" using Cons.prems by simp
  have e: "EmitByte b s = Some s1"
    using lt by (simp add: EmitByte_def put_inst_def s1_def)
  have u: "(Inst s)[ICur s := b] = take (ICur s) (Inst s) @ b # drop (Suc (ICur s)) (Inst s)"
    using lt by (rule upd_conv_take_nth_drop)
  have "EmitBytes bs s1 = Some (s1\<lparr>Inst := take (ICur s1) (Inst s1) @ bs @ drop (ICur s1 + length bs) (Inst s1),
                            ICur := ICur s1 + length bs\<rparr>)"
    by (rule Cons.IH) (use Cons.prems in \<open>simp add: s1_def\<close>)
  then show ?case
    using lt by (simp add: e s1_def u min_def add.commute)
qed


lemma or_below_16:
  fixes a b :: u8
  assumes "a < 16" "b < 16"
  shows "a OR b < 16"
proof -
  have "uint a < 2 ^ 4" "uint b < 2 ^ 4"
    using assms by (simp_all add: word_less_def)
  then have "uint a OR uint b < 2 ^ 4" by (intro OR_upper) simp_all
  then show ?thesis by (simp add: word_less_def uint_or)
qed

lemma length_rex_items: "length (items_bytes (rex_items a is)) \<le> length (items_bytes is) + 2"
proof -
  have "length (items_bytes is) = length (items_bytes (takeWhile is_prefix_item is)) +
      length (items_bytes (dropWhile is_prefix_item is))"
    by (metis items_bytes_simps(3) length_append takeWhile_dropWhile_id)
  then show ?thesis by (simp add: rex_items_def)
qed

lemma length_incdec_le: "length (items_bytes (incdec_items is)) \<le> length (items_bytes is) + 1"
  using incdec_not_esc
  by (auto simp: incdec_items_def split: list.splits esc_item.splits if_splits)

lemma length_finish: "length (items_bytes (finish_items x64 acc is)) \<le> length (items_bytes is) + 3"
  using length_rex_items [of "the acc" "incdec_items is"] length_incdec_le [of "is"]
  by (cases acc) (auto simp: finish_items_def)

lemma length_raw: "length (items_bytes (map EByte hs)) \<le> 2 * length hs"
  by (induction hs) auto

lemma conf_LNext:
  assumes "conf_rel s (hs, ops, ts, acc)"
    and "conf_size (hs, ops, ts, acc) + 4 \<le> INSSIZE"
  shows "\<exists>s'. EjectInst s = Some s' \<and> same_rest s s' \<and>
           conf_rel s' ([], [], ts @ finish_items (x64_mode s) acc (map EByte hs @ ops),
                        if x64_mode s then None else acc)"
proof -
  let ?F = "finish_items (x64_mode s) acc (map EByte hs @ ops)"
  have abs: "enc_abs s hs ops ts" using assms(1) by (simp add: conf_rel_def)
  have cur: "ICur s + 2 \<le> INSSIZE"
    using enc_absD(3) [OF abs] assms(2) by (simp add: conf_size_def)
  have "length (items_bytes (ts @ ?F)) \<le> INSSIZE"
    using assms(2) length_finish [of "x64_mode s" acc "map EByte hs @ ops"] length_raw [of hs]
    by (simp add: conf_size_def)
  then obtain s' where s': "TransferIns s = Some s'" "length (Inst s') = INSSIZE" "same_rest s s'"
      "oc_data (Temp s') = items_bytes (ts @ ?F)" "objlen (Temp s') = word_of_nat (items_size (ts @ ?F))"
      "RexAccum s' < 16"
      "x64_mode s \<longrightarrow> RexAccum s' = (if RexNeeded s then 0 else RexAccum s) \<and> \<not> RexNeeded s'"
    using TransferIns_abs [OF abs cur] conf_finish [OF assms(1)] by auto
  have "\<not> x64_mode s \<Longrightarrow> RexAccum s' = RexAccum s \<and> RexNeeded s' = RexNeeded s"
    using s'(1) by (auto simp: TransferIns_def remap_incdec_def insert_rex_def add_temp_def Let_def
        split: if_splits)
  then have "conf_rel (s'\<lparr>ICur := 0, ILen := 0, IEsc := 0\<rparr>) ([], [], ts @ ?F, if x64_mode s then None else acc)"
    using s' assms(1) by (auto simp: conf_rel_def enc_abs_def split: option.splits)
  moreover have "same_rest s (s'\<lparr>ICur := 0, ILen := 0, IEsc := 0\<rparr>)"
    using s'(3) by (simp add: same_rest_def)
  ultimately show ?thesis using s'(1) by (auto simp: EjectInst_def)
qed

lemma enc_abs_rex:
  assumes "enc_abs s hs ops ts" and "acc < 16"
  shows "enc_abs (s\<lparr>RexAccum := acc, RexNeeded := n\<rparr>) hs ops ts"
  using enc_absD [OF assms(1)] assms(2) by (simp add: enc_abs_def)

lemma enc_abs_item:
  assumes abs: "enc_abs s hs ops ts" and room: "ICur s + length (item_bytes i) \<le> INSSIZE"
  shows "\<exists>s'. EmitBytes (item_bytes i) s = Some s' \<and> enc_abs (add_ilen (item_size i) s') hs (ops @ [i]) ts \<and>
           same_rest s s' \<and> RexNeeded s' = RexNeeded s \<and> RexAccum s' = RexAccum s"
proof -
  define s' where "s' = s\<lparr>Inst := take (ICur s) (Inst s) @ item_bytes i @ drop (ICur s + length (item_bytes i)) (Inst s),
                         ICur := ICur s + length (item_bytes i)\<rparr>"
  note a = enc_absD [OF abs]
  have "EmitBytes (item_bytes i) s = Some s'"
    unfolding s'_def by (rule EmitBytes_run) (use room a(1) in simp)
  moreover have "enc_abs (add_ilen (item_size i) s') hs (ops @ [i]) ts"
    using a room by (simp add: enc_abs_def s'_def add_ilen_def)
  ultimately show ?thesis
    by (intro exI [of _ s']) (simp add: s'_def same_rest_def)
qed

lemma EmitBytes_ilen:
  "EmitBytes bs (add_ilen n s) = map_option (add_ilen n) (EmitBytes bs s)"
proof (induction bs arbitrary: s)
  case (Cons b bs)
  have "EmitByte b (add_ilen n s) = map_option (add_ilen n) (EmitByte b s)"
    by (auto simp: EmitByte_def put_inst_def add_ilen_def)
  with Cons show ?case by (cases "EmitByte b s") auto
qed simp

lemma AddByte_item: "AddByte b s = map_option (add_ilen 1) (EmitBytes (item_bytes (EByte b)) s)"
proof (cases "EmitByte b s")
  case (Some s1)
  then show ?thesis by (cases "EmitByte b s1") (auto simp: AddByte_def add_ilen_def)
qed (auto simp: AddByte_def)


lemma enc_abs_opcode:
  assumes abs: "enc_abs s hs ops ts" and n: "length bs = n" "n \<le> INSSIZE"
    and tk: "take n is' = bs" "length is' = INSSIZE"
  shows "enc_abs (s\<lparr>Inst := is', ICur := n, ILen := n, IEsc := n\<rparr>) bs [] ts"
  using enc_absD [OF abs] n tk by (simp add: enc_abs_def)

lemma enc_abs_or:
  assumes abs: "enc_abs s hs ops ts" and i: "i < length hs"
  shows "or_inst i b s = Some (s\<lparr>Inst := (Inst s)[i := hs ! i OR b]\<rparr>) \<and>
         enc_abs (s\<lparr>Inst := (Inst s)[i := hs ! i OR b]\<rparr>) (hs[i := hs ! i OR b]) ops ts"
proof -
  note a = enc_absD [OF abs]
  have le: "i < ICur s" "i < length (Inst s)" using a i by simp_all
  have "Inst s ! i = take (ICur s) (Inst s) ! i" using le(1) by simp
  also have "\<dots> = hs ! i" using a(5) i by (simp add: nth_append)
  finally have "Inst s ! i = hs ! i" .
  moreover have "take (ICur s) ((Inst s)[i := x]) = hs[i := x] @ items_bytes ops" for x
    using a(5) i by (simp add: take_update_swap list_update_append)
  ultimately show ?thesis
    using a le by (simp add: or_inst_def put_inst_def enc_abs_def)
qed

lemma exec_step_rel:
  assumes rel: "conf_rel s a" and st: "abs_step (x64_mode s) p a = Some a'"
    and room: "conf_size a + step_cost p + 4 \<le> INSSIZE"
  shows "\<exists>s'. exec_step p s = Some s' \<and> conf_rel s' a' \<and> same_rest s s' \<and>
           conf_size a' \<le> conf_size a + step_cost p"
proof -
  obtain hs ops ts acc where a: "a = (hs, ops, ts, acc)" by (cases a)
  have abs: "enc_abs s hs ops ts" and rx: "RexNeeded s = (acc \<noteq> None)"
      "RexAccum s = (case acc of None \<Rightarrow> 0 | Some b \<Rightarrow> b)"
    using rel by (simp_all add: conf_rel_def a)
  note ab = enc_absD [OF abs]
  have lenI: "0 < length (Inst s)" "1 < length (Inst s)" using ab(1) by (simp_all add: INSSIZE_def)
  have item: "\<exists>s'. EmitBytes (item_bytes i) (add_ilen (item_size i) s) = Some s' \<and>
      conf_rel s' (hs, ops @ [i], ts, acc) \<and> same_rest s s'"
    if c: "length (item_bytes i) \<le> step_cost p" for i
  proof -
    have "ICur s + length (item_bytes i) \<le> INSSIZE"
      using room ab(3) c by (simp add: a conf_size_def)
    from enc_abs_item [OF abs this] obtain s' where
      "EmitBytes (item_bytes i) s = Some s'" "enc_abs (add_ilen (item_size i) s') hs (ops @ [i]) ts"
      "same_rest s s'" "RexNeeded s' = RexNeeded s" "RexAccum s' = RexAccum s" by blast
    moreover from this have "conf_rel (add_ilen (item_size i) s') (hs, ops @ [i], ts, acc)"
      using rx by (simp add: conf_rel_def, simp add: add_ilen_def)
    moreover have "same_rest s (add_ilen (item_size i) s')"
      using \<open>same_rest s s'\<close> by (simp add: same_rest_def add_ilen_def)
    ultimately show ?thesis by (simp add: EmitBytes_ilen)
  qed
  show ?thesis
  proof (cases p)
    case (LOpbyte op)
    have tk: "take 1 ((Inst s)[0 := ucast op]) = [ucast op]"
      using lenI by (cases "Inst s") auto
    have "enc_abs (s\<lparr>Inst := (Inst s)[0 := ucast op], ICur := 1, ILen := 1, IEsc := 1\<rparr>) [ucast op] [] ts"
      by (rule enc_abs_opcode [OF abs _ _ tk]) (use lenI ab(1) in \<open>auto simp: INSSIZE_def\<close>)
    then show ?thesis
      using st rx lenI by (auto simp: a LOpbyte LayOpbyte_def put_inst_def conf_rel_def same_rest_def conf_size_def)
  next
    case (LOpword op)
    let ?b = "[ucast op, ucast (drop_bit 8 op)] :: bytes"
    have tk: "take 2 ((Inst s)[0 := ?b ! 0, 1 := ?b ! 1]) = ?b"
      using lenI by (cases "Inst s"; cases "tl (Inst s)") auto
    have "enc_abs (s\<lparr>Inst := (Inst s)[0 := ?b ! 0, 1 := ?b ! 1], ICur := 2, ILen := 2, IEsc := 2\<rparr>) ?b [] ts"
      by (rule enc_abs_opcode [OF abs _ _ tk]) (use lenI ab(1) in \<open>auto simp: INSSIZE_def\<close>)
    then show ?thesis
      using st rx lenI by (auto simp: a LOpword LayOpword_def put_inst_def conf_rel_def same_rest_def conf_size_def)
  next
    case (LOr i b)
    with st a have "i < length hs" by (auto split: if_splits)
    from enc_abs_or [OF abs this] show ?thesis
      using st rx by (auto simp: a LOr conf_rel_def same_rest_def conf_size_def split: if_splits)
  next
    case (LRex b)
    with st a have b: "b < 16" by (auto split: if_splits)
    have "enc_abs (s\<lparr>RexAccum := RexAccum s OR b, RexNeeded := True\<rparr>) hs ops ts"
      by (rule enc_abs_rex [OF abs]) (rule or_below_16 [OF ab(9) b])
    then show ?thesis
      using st rx abs b by (auto simp: a LRex conf_rel_def same_rest_def conf_size_def set_rex_def split: option.splits)
  next
    case (LByte b)
    then show ?thesis
      using st item [of "EByte b"] by (auto simp: a AddByte_item conf_size_def EmitBytes_ilen [symmetric])
  next
    case (LItem i)
    then show ?thesis
      using st item [of i] by (auto simp: a conf_size_def)
  next
    case (LTemp b)
    have "length (items_bytes (ts @ [EByte b])) \<le> INSSIZE"
      using room by (auto simp: a LTemp conf_size_def)
    then show ?thesis
      using st rx ab by (auto simp: a LTemp AddToTemp_def add_temp_def conf_rel_def same_rest_def conf_size_def enc_abs_def)
  next
    case LNext
    have "conf_size (hs, ops, ts, acc) + 4 \<le> INSSIZE" using room by (simp add: a)
    from conf_LNext [OF rel [unfolded a] this] obtain s' where
      "EjectInst s = Some s'" "same_rest s s'" "conf_rel s' ([], [], ts @ finish_items (x64_mode s) acc (map EByte hs @ ops),
                        if x64_mode s then None else acc)" by blast
    moreover have "conf_size ([], [], ts @ finish_items (x64_mode s) acc (map EByte hs @ ops),
        if x64_mode s then None else acc) \<le> conf_size (hs, ops, ts, acc) + 4"
      using length_finish [of "x64_mode s" acc "map EByte hs @ ops"] length_raw [of hs]
      by (simp add: conf_size_def)
    ultimately show ?thesis using st by (auto simp: a LNext)
  qed
qed


definition steps_cost :: "enc_step list \<Rightarrow> nat" where
  "steps_cost ps = sum_list (map step_cost ps)"

lemma exec_steps_rel:
  "\<lbrakk>conf_rel s a; abs_steps (x64_mode s) ps a = Some a'; conf_size a + steps_cost ps + 4 \<le> INSSIZE\<rbrakk> \<Longrightarrow>
   \<exists>s'. exec_steps ps s = Some s' \<and> conf_rel s' a' \<and> same_rest s s' \<and> conf_size a' \<le> conf_size a + steps_cost ps"
proof (induction ps arbitrary: s a)
  case Nil
  then show ?case by (simp add: steps_cost_def)
next
  case (Cons p ps)
  from Cons.prems(2) obtain a1 where a1: "abs_step (x64_mode s) p a = Some a1"
      "abs_steps (x64_mode s) ps a1 = Some a'" by (auto simp: bind_eq_Some_conv)
  have cost: "steps_cost (p # ps) = step_cost p + steps_cost ps" by (simp add: steps_cost_def)
  have "conf_size a + step_cost p + 4 \<le> INSSIZE" using Cons.prems(3) cost by simp
  from exec_step_rel [OF Cons.prems(1) a1(1) this] obtain s1 where
    s1: "exec_step p s = Some s1" "conf_rel s1 a1" "same_rest s s1" "conf_size a1 \<le> conf_size a + step_cost p"
    by blast
  have x: "x64_mode s1 = x64_mode s" using s1(3) by (simp add: same_rest_def)
  have "conf_size a1 + steps_cost ps + 4 \<le> INSSIZE" using Cons.prems(3) cost s1(4) by simp
  from Cons.IH [OF s1(2) _ this] a1(2) x obtain s' where
    "exec_steps ps s1 = Some s'" "conf_rel s' a'" "same_rest s1 s'" "conf_size a' \<le> conf_size a1 + steps_cost ps"
    by auto
  with s1 cost same_rest_trans [OF s1(3)] show ?case by fastforce
qed

lemma abs_steps_acc:
  "abs_steps False ps (hs, ops, ts, acc) = Some (hs', ops', ts', acc') \<Longrightarrow> acc' = acc"
proof (induction ps arbitrary: hs ops ts acc)
  case (Cons p ps)
  then show ?case by (cases p) (auto split: if_splits)
qed simp

text \<open>
  Between two generators the REX accumulator is empty; \<open>code_items\<close> is what a list of steps encodes.
\<close>

definition enc_ready :: "enc_state \<Rightarrow> bool" where
  "enc_ready s \<longleftrightarrow> length (Inst s) = INSSIZE \<and> \<not> RexNeeded s \<and> RexAccum s = 0"

definition code_items :: "bool \<Rightarrow> enc_step list \<Rightarrow> esc_item list option" where
  "code_items x64 ps =
    map_option (\<lambda>(hs, ops, ts, acc). ts @ finish_items x64 acc (map EByte hs @ ops))
      (abs_steps x64 ps ([], [], [], None))"

definition code_entry :: "esc_item list \<Rightarrow> any_oc" where
  "code_entry is = (blank_oc OC_CODE)\<lparr>oc_data := items_bytes is, objlen := word_of_nat (items_size is)\<rparr>"

lemma Format_rel:
  "enc_ready s \<Longrightarrow> conf_rel (Format OC_CODE s) ([], [], [], None)"
  by (simp add: enc_ready_def conf_rel_def enc_abs_def Format_def blank_oc_def)

lemma item_size_le: "item_size i \<le> length (item_bytes i)"
proof (cases i)
  case (ERef r base ldof self off)
  have "2 \<le> length (ref_operand r)" by (cases r) (simp_all add: EmitPtr_def EmitSegId_def)
  then show ?thesis using ERef by simp
qed (simp_all add: patch_size_def EmitPtr_def)

lemma items_size_le: "items_size is \<le> length (items_bytes is)"
  by (induction "is") (auto intro: add_mono item_size_le)

lemma unat_small_u8: "n < 256 \<Longrightarrow> unat (word_of_nat n :: u8) = n"
  by (simp add: unat_of_nat)

lemma small_u8: "n < 256 \<Longrightarrow> (word_of_nat n :: u8) = 0 \<longleftrightarrow> n = 0"
  by (auto simp: word_of_nat_eq_0_iff dvd_imp_le dest!: dvd_imp_le)

lemma run_code_items:
  assumes ready: "enc_ready s" and code: "code_items (x64_mode s) ps = Some is"
    and room: "steps_cost ps + 4 \<le> INSSIZE"
  shows "\<exists>s'. run_code ps s = Some s' \<and> enc_ready s' \<and> x64_mode s' = x64_mode s \<and>
     queue s' = queue s @ (if items_size is = 0 then [] else [code_entry is]) \<and> items_size is \<le> INSSIZE"
proof -
  let ?s = "Format OC_CODE s"
  from code obtain hs ops ts acc where st: "abs_steps (x64_mode s) ps ([], [], [], None) = Some (hs, ops, ts, acc)"
      and is': "is = ts @ finish_items (x64_mode s) acc (map EByte hs @ ops)"
    by (auto simp: code_items_def)
  have x: "x64_mode ?s = x64_mode s" by (simp add: Format_def)
  have "conf_size ([], [], [], None) + steps_cost ps + 4 \<le> INSSIZE"
    using room by (simp add: conf_size_def)
  from exec_steps_rel [OF Format_rel [OF ready] _ this] st x obtain s1 where
    s1: "exec_steps ps ?s = Some s1" "conf_rel s1 (hs, ops, ts, acc)" "same_rest ?s s1"
      "conf_size (hs, ops, ts, acc) \<le> steps_cost ps"
    by (auto simp: conf_size_def)
  have x1: "x64_mode s1 = x64_mode s" using s1(3) x by (simp add: same_rest_def)
  have "conf_size (hs, ops, ts, acc) + 4 \<le> INSSIZE" using s1(4) room by simp
  from conf_LNext [OF s1(2) this] x1 is' obtain s2 where
    s2: "EjectInst s1 = Some s2" "same_rest s1 s2" "conf_rel s2 ([], [], is, if x64_mode s then None else acc)"
    by auto
  have noacc: "(if x64_mode s then None else acc) = None"
    using abs_steps_acc st by (cases "x64_mode s") auto
  have rest: "same_rest ?s s2" by (rule same_rest_trans [OF s1(3) s2(2)])
  then have fp: "FPPatchType s2 = None" and q: "queue s2 = queue s" and x2: "x64_mode s2 = x64_mode s"
    by (simp_all add: same_rest_def Format_def)
  have abs: "enc_abs s2 [] [] is" and rdy: "\<not> RexNeeded s2" "RexAccum s2 = 0"
    using s2(3) noacc by (auto simp: conf_rel_def)
  have temp: "Temp s2 = code_entry is"
    using rest enc_absD(7,8) [OF abs]
    by (cases "Temp s2") (simp add: same_rest_def Format_def code_entry_def blank_oc_def)
  have "run_code ps s = Some (if objlen (Temp s2) \<noteq> 0 then s2\<lparr>queue := queue s2 @ [Temp s2]\<rparr> else s2)"
    using s1(1) s2(1) fp by (simp add: run_code_def code_op_def Finalize_def FPPatchTypeRef_def)
  moreover have "length (items_bytes is) \<le> INSSIZE"
    unfolding is' using length_finish [of "x64_mode s" acc "map EByte hs @ ops"] length_raw [of hs] s1(4) room
    by (simp add: conf_size_def)
  then have le: "items_size is \<le> INSSIZE" using items_size_le [of "is"] by linarith
  moreover from this have "objlen (code_entry is) = 0 \<longleftrightarrow> items_size is = 0"
    by (simp add: code_entry_def small_u8 INSSIZE_def)
  ultimately show ?thesis
    using q x2 temp rdy enc_absD(1) [OF abs] by (auto simp: enc_ready_def)
qed


section \<open>The generators as steps\<close>

lemma exec_steps_append: "exec_steps (ps @ qs) s = Option.bind (exec_steps ps s) (exec_steps qs)"
proof (induction ps arbitrary: s)
  case (Cons p ps)
  then show ?case by (cases "exec_step p s") simp_all
qed simp

definition size_steps :: "cg_target \<Rightarrow> hw_reg_set \<Rightarrow> enc_step list" where
  "size_steps T r =
    (if HW_COvlap r HW_SEGS \<or> HW_COvlap r HW_32 = use32 T then [] else [LTemp 0x66])"


definition opnd_class :: "hw_reg_set \<Rightarrow> type_class_def" where
  "opnd_class r = (if HW_COvlap r HW_SEGS then U2 else if HW_COvlap r HW_32 then U4 else U2)"

lemma OpndSize_steps: "OpndSize T r s = map_option (Pair (opnd_class r)) (exec_steps (size_steps T r) s)"
  by (cases "AddToTemp 0x66 s") (simp_all add: OpndSize_def size_steps_def opnd_class_def)

definition reg_steps :: "hw_reg_set \<Rightarrow> u8 \<Rightarrow> nat \<Rightarrow> u8 \<Rightarrow> enc_step list" where
  "reg_steps r rexbit pos field = (if is_r8_15 r then [LRex rexbit] else []) @ [LOr pos field]"

lemma reg_steps_exec:
  "(let s = (if x64_mode s \<and> is_r8_15 r then set_rex b s else s) in or_inst i f s) =
   exec_steps (reg_steps r b i f) s"
  by (cases "or_inst i f (set_rex b s)"; cases "or_inst i f s") (auto simp: reg_steps_def set_rex_def Let_def)

lemma LayReg_steps:
  "RegTrans r = Some i \<Longrightarrow> LayReg r s = exec_steps (reg_steps r 4 1 (push_bit 3 i)) s"
  by (simp add: LayReg_def SetRexR_def reg_steps_exec [symmetric] Let_def)

lemma LayRegRM_steps:
  "RegTrans r = Some i \<Longrightarrow> LayRegRM r s = exec_steps (reg_steps r 1 1 (i + 0xc0)) s"
  by (simp add: LayRegRM_def SetRexB_def reg_steps_exec [symmetric] Let_def)

definition wdata :: "u32 \<Rightarrow> type_class_def \<Rightarrow> bytes" where
  "wdata v tc =
    (let bs = [ucast v, ucast (drop_bit 8 v), ucast (drop_bit 16 v), ucast (drop_bit 24 v)]
     in take (if tc = U1 \<or> tc = I1 then 1 else if tc = U2 \<or> tc = I2 then 2 else 4) bs)"

lemma bind_Some_id: "Option.bind x Some = x"
  by (cases x) simp_all

lemma sdrop_bytes:
  fixes v :: u32
  shows "(ucast (signed_drop_bit 8 v) :: u8) = ucast (drop_bit 8 v)"
    "(ucast (signed_drop_bit 16 v) :: u8) = ucast (drop_bit 16 v)"
    "(ucast (drop_bit 8 (signed_drop_bit 16 v)) :: u8) = ucast (drop_bit 24 v)"
  by (rule bit_word_eqI; auto simp: bit_simps)+

lemma exec_steps_fun:
  "exec_steps [] = Some" "exec_steps (p # ps) = (\<lambda>s. Option.bind (exec_step p s) (exec_steps ps))"
  by (rule ext, simp)+

lemma exec_steps_append_fun: "exec_steps (ps @ qs) = (\<lambda>s. Option.bind (exec_steps ps s) (exec_steps qs))"
  by (rule ext) (rule exec_steps_append)

lemma AddWData_steps: "AddWData v tc s = exec_steps (map LByte (wdata v tc)) s"
  by (simp add: AddWData_def wdata_def sdrop_bytes exec_steps_fun Let_def bind_Some_id)

definition short_imm :: "u32 \<Rightarrow> type_class_def \<Rightarrow> bool" where
  "short_imm v tc \<longleftrightarrow>
     (tc = U2 \<or> tc = I2) \<and> (v AND 0xff80 = 0xff80 \<or> v AND 0xff80 = 0) \<or>
     (tc = U4 \<or> tc = I4) \<and> (v AND 0xffffff80 = 0xffffff80 \<or> v AND 0xffffff80 = 0)"

definition sdata_steps :: "u32 \<Rightarrow> type_class_def \<Rightarrow> enc_step list" where
  "sdata_steps v tc = (if short_imm v tc then [LOr 0 2, LByte (ucast v)] else map LByte (wdata v tc))"

lemma AddSData_steps: "AddSData v tc s = exec_steps (sdata_steps v tc) s"
  by (cases tc) (simp_all add: AddSData_def sdata_steps_def short_imm_def AddWData_steps exec_steps_fun bind_Some_id)

lemma code_op_steps: "(\<And>s. lay s = exec_steps ps s) \<Longrightarrow> code_op lay = run_code ps"
  by (rule ext) (simp add: code_op_def run_code_def)

lemma lay_size_steps: "lay_size T r s = exec_steps (size_steps T r) s"
  by (simp add: lay_size_def OpndSize_steps option.map_comp comp_def option.map_ident)

lemmas lay_steps = LayReg_steps LayRegRM_steps AddWData_steps AddSData_steps lay_size_steps

definition rr_steps :: "cg_target \<Rightarrow> u16 \<Rightarrow> hw_reg_set \<Rightarrow> u8 \<Rightarrow> hw_reg_set \<Rightarrow> u8 \<Rightarrow> enc_step list" where
  "rr_steps T op src i dst j =
     LOpword op # size_steps T src @ reg_steps src 4 1 (push_bit 3 i) @ reg_steps dst 1 1 (j + 0xc0)"


definition imm_steps :: "cg_target \<Rightarrow> u16 \<Rightarrow> hw_reg_set \<Rightarrow> u8 \<Rightarrow> u32 \<Rightarrow> enc_step list" where
  "imm_steps T op dst j v =
     LOpword (op OR 1) # size_steps T dst @ reg_steps dst 1 1 (j + 0xc0) @ sdata_steps v (opnd_class dst)"

lemma gen_rr_steps:
  assumes "RegTrans src = Some i" "RegTrans dst = Some j"
  shows "GenRegMove T src dst = run_code (rr_steps T 0xc089 src i dst j)"
    "GenRegXor T src dst = run_code (rr_steps T 0xc031 src i dst j)"
proof -
  have *: "(do { s \<leftarrow> LayOpword op s; (_, s) \<leftarrow> OpndSize T src s; s \<leftarrow> LayReg src s; LayRegRM dst s }) =
      exec_steps (rr_steps T op src i dst j) s" for op s
    unfolding rr_steps_def
    by (cases "LayOpword op s") (simp_all add: OpndSize_steps lay_steps assms exec_steps_append_fun bind_map_option comp_def)
  show "GenRegMove T src dst = run_code (rr_steps T 0xc089 src i dst j)"
    by (rule ext) (simp add: GenRegMove_def run_code_def code_op_def * [symmetric] case_prod_unfold)
  show "GenRegXor T src dst = run_code (rr_steps T 0xc031 src i dst j)"
    by (rule ext) (simp add: GenRegXor_def run_code_def code_op_def * [symmetric] case_prod_unfold)
qed


lemma GenRegOp_steps:
  assumes "RegTrans dst = Some j"
  shows "GenRegOp T dst v op = run_code (imm_steps T op dst j v)"
proof -
  have *: "(do { s \<leftarrow> LayOpword (op OR 1) s; (tc, s) \<leftarrow> OpndSize T dst s; s \<leftarrow> LayRegRM dst s; AddSData v tc s }) =
      exec_steps (imm_steps T op dst j v) s" for s
    unfolding imm_steps_def
    by (cases "LayOpword (op OR 1) s")
       (simp_all add: OpndSize_steps lay_steps assms exec_steps_append_fun bind_map_option comp_def)
  show ?thesis
    by (rule ext) (simp add: GenRegOp_def run_code_def code_op_def * [symmetric] case_prod_unfold)
qed

text \<open>
  The other generators with fixed opcodes.
\<close>

lemma gen_fixed_steps:
  "GFldz = run_code [LOpword 0xeed9]" "GFld1 = run_code [LOpword 0xe8d9]"
  "GFstp i = run_code [LOpword 0xd8dd, LOr 1 i]" "GFxch i = run_code [LOpword 0xc8d9, LOr 1 i]"
  "GFld i = run_code [LOpword 0xc0d9, LOr 1 i]"
  "Gpusha = run_code [LOpbyte 0x60]" "Gpopa = run_code [LOpbyte 0x61]" "Gcld = run_code [LOpbyte 0xfc]"
  by (rule ext; simp add: GFldz_def GFld1_def GFstp_def GFxch_def GFld_def Gpusha_def Gpopa_def Gcld_def
      run_code_def code_op_def bind_Some_id exec_steps_fun)+

lemma exec_item: "exec_step (LItem i) s = map_option (add_ilen (item_size i)) (EmitBytes (item_bytes i) s)"
  by (simp add: EmitBytes_ilen)

lemma lay_fun:
  "lay_size T r = exec_steps (size_steps T r)" "AddWData v tc = exec_steps (map LByte (wdata v tc))"
  by (rule ext, simp add: lay_steps)+

lemma gen_frame_steps:
  "GenLeave T = run_code (LOpbyte 0xc9 # size_steps T HW_EBP)"
  "GenEnter T sz level =
     run_code (LOpbyte 0xc8 # size_steps T HW_EBP @ map LByte (wdata sz U2) @ [LByte level])"
  "GenPushOffset off = run_code (LOpword 0x76ff # map LByte (wdata (ucast off) I1))"
  "GenUnkMov T dst p = run_code (LOpbyte 0xb8 # size_steps T dst @ [LItem (EAbs LONG_PATCH p)])"
  "GenUnkEnter p level = run_code [LOpbyte 0xc8, LItem (EAbs WORD_PATCH p), LByte level]"
  unfolding GenLeave_def GenEnter_def GenPushOffset_def GenUnkMov_def GenUnkEnter_def
  by (rule code_op_steps; simp add: lay_fun exec_steps_fun exec_steps_append_fun bind_Some_id
      DoAbsPatch_writes_item patch_size_def bind_map_option comp_def EmitBytes_ilen)+

lemma GenUnkSub_steps:
  assumes "RegTrans dst = Some j"
  shows "GenUnkSub T dst p =
    run_code (LOpword 0xe881 # size_steps T dst @ reg_steps dst 1 1 (j + 0xc0) @ [LItem (EAbs LONG_PATCH p)])"
  unfolding GenUnkSub_def
  by (rule code_op_steps) (simp add: lay_steps assms exec_steps_fun exec_steps_append_fun bind_Some_id
      DoAbsPatch_writes_item patch_size_def)

lemma QuickSave_steps:
  assumes "\<not> HW_COvlap reg HW_SEGS" "RegTrans reg = Some i"
  shows "QuickSave T reg push = run_code (LOpbyte ((if push then 0x50 else 0x58) OR ucast i) # size_steps T reg)"
  by (rule ext) (simp add: QuickSave_def assms run_code_def code_op_def OpndSize_steps exec_steps_fun
      bind_map_option comp_def case_prod_unfold bind_Some_id)


section \<open>Reading the register instructions back\<close>

text \<open>
  A decoder for the register forms, written from the instruction format and not from the encoder: an
  operand-size prefix, a REX prefix, the opcode, a ModR/M byte with \<open>mod\<close> 3, the rest.
\<close>

fun decode_opnd :: "bytes \<Rightarrow> bool \<times> bytes" where
  "decode_opnd [] = (False, [])"
| "decode_opnd (b # bs) = (if b = 0x66 then (True, bs) else (False, b # bs))"

fun decode_rex :: "bytes \<Rightarrow> u8 \<times> bytes" where
  "decode_rex [] = (0, [])"
| "decode_rex (b # bs) = (if b AND 0xF0 = 0x40 then (b AND 0x0F, bs) else (0, b # bs))"

fun decode_modrm :: "u8 \<Rightarrow> bytes \<Rightarrow> (u8 \<times> nat \<times> nat \<times> bytes) option" where
  "decode_modrm rex (op # m # rest) =
    (if drop_bit 6 m = 3
     then Some (op, unat (drop_bit 3 m AND 7) + (if bit rex 2 then 8 else 0),
                unat (m AND 7) + (if bit rex 0 then 8 else 0), rest)
     else None)"
| "decode_modrm rex bs = None"

definition decode_reg_op :: "bytes \<Rightarrow> (bool \<times> u8 \<times> nat \<times> nat \<times> bytes) option" where
  "decode_reg_op bs =
    (let (p, bs) = decode_opnd bs; (rex, bs) = decode_rex bs
     in map_option (Pair p) (decode_modrm rex bs))"

definition reg_no :: "hw_reg_set \<Rightarrow> nat" where
  "reg_no r = (case RegTrans r of None \<Rightarrow> 0 | Some i \<Rightarrow> unat i) + (if is_r8_15 r then 8 else 0)"

definition size_prefix :: "cg_target \<Rightarrow> hw_reg_set \<Rightarrow> bool" where
  "size_prefix T r \<longleftrightarrow> \<not> HW_COvlap r HW_SEGS \<and> HW_COvlap r HW_32 \<noteq> use32 T"

lemma RegTrans_less:
  assumes "RegTrans r = Some i"
  shows "i < 8"
proof -
  have "(HW_CTurnOff r HW_SEGS, i) \<in> set gpr_tab"
    using assms unfolding RegTrans_def by (rule map_of_SomeD)
  moreover have "list_all (\<lambda>p. snd p < 8) gpr_tab" by (simp add: gpr_tab_def)
  ultimately show ?thesis unfolding list_all_iff by fastforce
qed

lemma modrm_reg_fields:
  fixes i j :: u8
  assumes "i < 8" "j < 8"
  shows "drop_bit 6 (0xc0 OR push_bit 3 i OR (j + 0xc0)) = 3"
    "drop_bit 3 (0xc0 OR push_bit 3 i OR (j + 0xc0)) AND 7 = i"
    "(0xc0 OR push_bit 3 i OR (j + 0xc0)) AND 7 = j"
proof -
  let ?ok = "\<lambda>i j :: u8. drop_bit 6 (0xc0 OR push_bit 3 i OR (j + 0xc0)) = 3 \<and>
    drop_bit 3 (0xc0 OR push_bit 3 i OR (j + 0xc0)) AND 7 = i \<and> (0xc0 OR push_bit 3 i OR (j + 0xc0)) AND 7 = j"
  have "list_all (\<lambda>m. list_all (\<lambda>n. ?ok (word_of_nat m) (word_of_nat n)) [0..<8]) [0..<8]" by code_simp
  moreover have "unat i \<in> set [0..<8]" "unat j \<in> set [0..<8]"
    using assms by (simp_all add: word_less_nat_alt)
  ultimately have "?ok (word_of_nat (unat i)) (word_of_nat (unat j))" unfolding list_all_iff by blast
  then show "drop_bit 6 (0xc0 OR push_bit 3 i OR (j + 0xc0)) = 3"
    "drop_bit 3 (0xc0 OR push_bit 3 i OR (j + 0xc0)) AND 7 = i"
    "(0xc0 OR push_bit 3 i OR (j + 0xc0)) AND 7 = j" by simp_all
qed

definition rex_prefix :: "bool \<Rightarrow> bool \<Rightarrow> bytes" where
  "rex_prefix r b = (if r \<or> b then [0x40 OR ((if r then 4 else 0) OR (if b then 1 else 0))] else [])"

lemma decode_reg_bytes:
  assumes "i < 8" "j < 8" "op \<noteq> 0x66" "op AND 0xF0 \<noteq> 0x40"
  shows "decode_reg_op ((if p then [0x66] else []) @ rex_prefix r b @
           [op, 0xc0 OR push_bit 3 i OR (j + 0xc0)] @ rest) =
         Some (p, op, unat i + (if r then 8 else 0), unat j + (if b then 8 else 0), rest)"
  using assms modrm_reg_fields [OF assms(1,2)]
  by (cases p; cases r; cases b) (simp_all add: decode_reg_op_def rex_prefix_def bit_numeral_rec)

lemma rr_items:
  assumes "\<not> is_legacy_prefix (ucast op)"
  shows "code_items True (rr_steps T op src i dst j) =
     Some (map EByte ((if size_prefix T src then [0x66] else []) @ rex_prefix (is_r8_15 src) (is_r8_15 dst) @
                      [ucast op, ucast (drop_bit 8 op) OR push_bit 3 i OR (j + 0xc0)]))"
  using assms
  by (auto simp: code_items_def rr_steps_def size_steps_def reg_steps_def size_prefix_def rex_prefix_def
      finish_items_def incdec_items_def rex_items_def or.assoc)


lemma reg_gen_queues:
  assumes ready: "enc_ready s" and "code_items (x64_mode s) ps = Some (map EByte bs)"
    and "steps_cost ps + 4 \<le> INSSIZE" "bs \<noteq> []" "length bs < 256"
  shows "\<exists>s'. run_code ps s = Some s' \<and> enc_ready s' \<and> queue s' = queue s @ [code_entry (map EByte bs)]"
proof -
  show ?thesis using run_code_items [OF assms(1-3)] assms(4) by auto
qed

text \<open>
  C14. The bytes that a register-to-register instruction puts into the queue name the registers asked
  for: in 64-bit mode \<open>GenRegMove\<close> and \<open>GenRegXor\<close> of any two registers queue one entry that an
  independent decoder reads as the opcode with the source in the \<open>reg\<close> field and the destination in
  \<open>r/m\<close>, numbers 8 to 15 through \<open>REX.R\<close> and \<open>REX.B\<close>, with an operand-size prefix exactly where the
  width of the source differs from the default; the accumulator is left empty for the next one.
\<close>

theorem register_pair_encoding:
  assumes "enc_ready s" "x64_mode s" "RegTrans src \<noteq> None" "RegTrans dst \<noteq> None"
  shows "\<exists>s1 s2 b1 b2. GenRegMove T src dst s = Some s1 \<and> GenRegXor T src dst s = Some s2 \<and>
     enc_ready s1 \<and> enc_ready s2 \<and>
     queue s1 = queue s @ [code_entry (map EByte b1)] \<and> queue s2 = queue s @ [code_entry (map EByte b2)] \<and>
     decode_reg_op b1 = Some (size_prefix T src, 0x89, reg_no src, reg_no dst, []) \<and>
     decode_reg_op b2 = Some (size_prefix T src, 0x31, reg_no src, reg_no dst, [])"
proof -
  obtain i j where r: "RegTrans src = Some i" "RegTrans dst = Some j" using assms(3,4) by blast
  define bs where "bs = (\<lambda>op :: u8. (if size_prefix T src then [0x66] else []) @
     rex_prefix (is_r8_15 src) (is_r8_15 dst) @ [op, 0xc0 OR push_bit 3 i OR (j + 0xc0)])"
  have dec: "decode_reg_op (bs op) = Some (size_prefix T src, op, reg_no src, reg_no dst, [])"
    if "op \<noteq> 0x66" "op AND 0xF0 \<noteq> 0x40" for op
    using decode_reg_bytes [OF RegTrans_less [OF r(1)] RegTrans_less [OF r(2)] that, of _ _ _ "[]"]
    by (simp add: bs_def reg_no_def r)
  have cost: "steps_cost (rr_steps T op src i dst j) + 4 \<le> INSSIZE" for op
    by (simp add: steps_cost_def rr_steps_def size_steps_def reg_steps_def INSSIZE_def)
  have len: "bs op \<noteq> []" "length (bs op) < 256" for op
    by (simp_all add: bs_def rex_prefix_def)
  have "code_items True (rr_steps T 0xc089 src i dst j) = Some (map EByte (bs 0x89))"
    "code_items True (rr_steps T 0xc031 src i dst j) = Some (map EByte (bs 0x31))"
    by (simp_all add: rr_items is_legacy_prefix_def bs_def)
  have run: "\<exists>s'. run_code (rr_steps T op src i dst j) s = Some s' \<and> enc_ready s' \<and>
      queue s' = queue s @ [code_entry (map EByte (bs b))]"
    if "code_items True (rr_steps T op src i dst j) = Some (map EByte (bs b))" for op b
    by (rule reg_gen_queues [OF assms(1) _ cost len]) (use that assms(2) in simp)
  have "decode_reg_op (bs 0x89) = Some (size_prefix T src, 0x89, reg_no src, reg_no dst, [])"
    "decode_reg_op (bs 0x31) = Some (size_prefix T src, 0x31, reg_no src, reg_no dst, [])"
    by (rule dec; simp)+
  then show ?thesis
    using run [OF \<open>code_items True (rr_steps T 0xc089 src i dst j) = _\<close>]
      run [OF \<open>code_items True (rr_steps T 0xc031 src i dst j) = _\<close>]
    unfolding gen_rr_steps [OF r] by blast
qed

definition empty_enc :: enc_state where
  "empty_enc = \<lparr>Inst = replicate INSSIZE 0, ICur = 0, ILen = 0, IEsc = 0, Temp = blank_oc OC_CODE,
     RexAccum = 0, RexNeeded = False, x64_mode = False, FPPatchType = None, queue = []\<rparr>"

lemma X64EncInit_ready: "length (Inst s) = INSSIZE \<Longrightarrow> enc_ready (X64EncInit x64 s)"
  by (simp add: enc_ready_def X64EncInit_def ResetRex_def)

abbreviation sample_enc :: enc_state where "sample_enc \<equiv> X64EncInit True empty_enc"

definition HW_R9 :: hw_reg_set where "HW_R9 = HW 0 8"
definition HW_R12 :: hw_reg_set where "HW_R12 = HW 0 0x40"

lemma sample_enc_simps: "enc_ready sample_enc" "x64_mode sample_enc" "queue sample_enc = []"
  by (rule X64EncInit_ready, simp_all add: X64EncInit_def ResetRex_def empty_enc_def)

theorem register_pair_encoding_witness:
  "\<exists>s1 s2 b1 b2. GenRegMove flat32 HW_R9 HW_EBP sample_enc = Some s1 \<and>
     GenRegXor flat32 HW_R9 HW_EBP sample_enc = Some s2 \<and> enc_ready s1 \<and> enc_ready s2 \<and>
     queue s1 = queue sample_enc @ [code_entry (map EByte b1)] \<and>
     queue s2 = queue sample_enc @ [code_entry (map EByte b2)] \<and>
     decode_reg_op b1 = Some (size_prefix flat32 HW_R9, 0x89, 9, 5, []) \<and>
     decode_reg_op b2 = Some (size_prefix flat32 HW_R9, 0x31, 9, 5, [])"
proof -
  have r: "RegTrans HW_R9 = Some 1" "RegTrans HW_EBP = Some 5" by code_simp+
  then have "reg_no HW_R9 = 9" "reg_no HW_EBP = 5"
    by (simp_all add: reg_no_def is_r8_15_def HW_R9_def HW_EBP_def HW_def)
  with register_pair_encoding [of sample_enc HW_R9 HW_EBP flat32] r sample_enc_simps show ?thesis by auto
qed


text \<open>
  The size test knows only \<open>HW_32\<close>, which has no bit of \<open>R8\<close> to \<open>R15\<close>: they count as word registers.
\<close>

lemma extended_register_is_word:
  assumes "hw_0 r = 0" "hw_1 r AND 3 = 0" "use32 T"
  shows "size_prefix T r" "opnd_class r = U2"
  using assms
  by (simp_all add: size_prefix_def opnd_class_def HW_COvlap_def HW_SEGS_def HW_32_def HW_def)

text \<open>
  \<open>QuickSave\<close> lays \<open>RegTrans\<close> into the opcode itself and sets no \<open>REX.B\<close>: a push of \<open>R12\<close> is a push of \<open>SP\<close>.
\<close>

lemma quicksave_loses_rex:
  "QuickSave T HW_R12 push = QuickSave T (HW 0x800 0) push"
proof -
  have r: "RegTrans HW_R12 = Some 4" "RegTrans (HW 0x800 0) = Some 4" by code_simp+
  have s: "\<not> HW_COvlap HW_R12 HW_SEGS" "\<not> HW_COvlap (HW 0x800 0) HW_SEGS"
    "\<not> HW_COvlap HW_R12 HW_32" "\<not> HW_COvlap (HW 0x800 0) HW_32"
    by (simp_all add: HW_COvlap_def HW_R12_def HW_SEGS_def HW_32_def HW_def)
  show ?thesis
    unfolding QuickSave_steps [OF s(1) r(1)] QuickSave_steps [OF s(2) r(2)]
    by (simp add: size_steps_def s)
qed

section \<open>Immediate operands\<close>

definition le_word :: "bytes \<Rightarrow> u32" where
  "le_word bs = foldr (\<lambda>b w. ucast b OR push_bit 8 w) bs 0"

definition decode_imm :: "cg_target \<Rightarrow> bytes \<Rightarrow> (bool \<times> nat \<times> nat \<times> u32) option" where
  "decode_imm T bs = do {
     (p, op, ext, rm, rest) \<leftarrow> decode_reg_op bs;
     let wide = (p \<noteq> use32 T);
     let clip = (\<lambda>v :: u32. if wide then v else v AND 0xFFFF);
     if op = 0x83 \<and> length rest = 1 then Some (wide, ext, rm, clip (scast (rest ! 0)))
     else if op = 0x81 \<and> length rest = (if wide then 4 else 2) then Some (wide, ext, rm, le_word rest)
     else None
   }"

lemma high_bits_equal:
  fixes v m :: u32
  assumes "v AND m = m \<or> v AND m = 0" and "bit m k" "bit m 7"
  shows "bit v k = bit v 7"
proof -
  have "bit (v AND m) k = bit v k" "bit (v AND m) 7 = bit v 7"
    using assms(2,3) by (simp_all add: bit_simps)
  with assms show ?thesis by (metis bit_0_eq bot_apply bot_bool_def)
qed

lemma imm_bits:
  fixes v :: u32
  shows "v AND 0xffffff80 = 0xffffff80 \<or> v AND 0xffffff80 = 0 \<Longrightarrow> scast (ucast v :: u8) = v"
    "v AND 0xff80 = 0xff80 \<or> v AND 0xff80 = 0 \<Longrightarrow> scast (ucast v :: u8) AND 0xFFFF = v AND (0xFFFF :: u32)"
proof -
  have m: "(0xffffff80 :: u32) = NOT (mask 7)" "(0xff80 :: u32) = mask 16 AND NOT (mask 7)" "(0xFFFF :: u32) = mask 16"
    by (simp_all add: mask_eq_decr_exp)
  have b: "bit (NOT (mask 7) :: u32) k" if "7 \<le> k" "k < 32" for k
    using that by (simp add: bit_simps)
  have b2: "bit (mask 16 AND NOT (mask 7) :: u32) k" if "7 \<le> k" "k < 16" for k
    using that by (simp add: bit_simps)
  have sx: "bit (scast (ucast v :: u8) :: u32) n = bit v (min n 7)" if "n < 32" for n
    using that by (auto simp: bit_simps min_def)
  show "scast (ucast v :: u8) = v" if d: "v AND 0xffffff80 = 0xffffff80 \<or> v AND 0xffffff80 = 0"
  proof (rule bit_word_eqI)
    fix n assume "n < LENGTH(32)"
    then show "bit (scast (ucast v :: u8) :: u32) n = bit v n"
      using sx [of n] high_bits_equal [OF d [unfolded m] b b, of n] by (auto simp: min_def)
  qed
  show "scast (ucast v :: u8) AND 0xFFFF = v AND (0xFFFF :: u32)"
    if d: "v AND 0xff80 = 0xff80 \<or> v AND 0xff80 = 0"
  proof (rule bit_word_eqI)
    fix n assume "n < LENGTH(32)"
    then show "bit (scast (ucast v :: u8) AND 0xFFFF :: u32) n = bit (v AND 0xFFFF) n"
      using sx [of n] high_bits_equal [OF d [unfolded m] b2 b2, of n]
      unfolding m by (auto simp: min_def bit_simps)
  qed
qed

lemma le_word_wdata:
  "le_word (wdata v U4) = v" "le_word (wdata v U2) = v AND 0xFFFF"
proof -
  have m: "(0xFFFF :: u32) = mask 16" by (simp add: mask_eq_decr_exp)
  show "le_word (wdata v U4) = v"
  proof (rule bit_word_eqI)
    fix n assume "n < LENGTH(32)"
    then show "bit (le_word (wdata v U4)) n = bit v n"
      by (cases "24 \<le> n"; cases "16 \<le> n") (auto simp: le_word_def wdata_def bit_simps not_less not_le)
  qed
  show "le_word (wdata v U2) = v AND 0xFFFF"
    unfolding m by (rule bit_word_eqI) (auto simp: le_word_def wdata_def bit_simps not_less numeral_2_eq_2)
qed


definition imm_bytes :: "u32 \<Rightarrow> type_class_def \<Rightarrow> bytes" where
  "imm_bytes v tc = (if short_imm v tc then [ucast v] else wdata v tc)"

lemma abs_steps_append: "abs_steps x (ps @ qs) a = Option.bind (abs_steps x ps a) (abs_steps x qs)"
proof (induction ps arbitrary: a)
  case (Cons p ps)
  then show ?case by (cases "abs_step x p a") simp_all
qed simp

lemma abs_steps_LByte:
  "abs_steps x (map LByte bs) (hs, ops, ts, acc) = Some (hs, ops @ map EByte bs, ts, acc)"
  by (induction bs arbitrary: ops) simp_all

lemma imm_items:
  assumes op: "ucast (op OR 1) = (0x81 :: u8)"
  shows "code_items True (imm_steps T op dst j v) =
     Some (map EByte ((if size_prefix T dst then [0x66] else []) @ rex_prefix False (is_r8_15 dst) @
                      [if short_imm v (opnd_class dst) then 0x83 else 0x81,
                       ucast (drop_bit 8 (op OR 1)) OR (j + 0xc0)] @
                      imm_bytes v (opnd_class dst)))"
proof -
  let ?hi = "ucast (drop_bit 8 (op OR 1)) :: u8" and ?tc = "opnd_class dst"
  let ?pfx = "map EByte (if size_prefix T dst then [0x66] else [])"
  let ?acc = "if is_r8_15 dst then Some 1 else None :: u8 option"
  let ?key = "if short_imm v ?tc then 0x83 else 0x81 :: u8"
  have 1: "abs_steps True (LOpword (op OR 1) # size_steps T dst) ([], [], [], None) = Some ([0x81, ?hi], [], ?pfx, None)"
    by (simp add: op size_steps_def size_prefix_def)
  have 2: "abs_steps True (reg_steps dst 1 1 (j + 0xc0)) ([0x81, ?hi], [], ?pfx, None) =
      Some ([0x81, ?hi OR (j + 0xc0)], [], ?pfx, ?acc)"
    by (simp add: reg_steps_def)
  have 3: "abs_steps True (sdata_steps v ?tc) ([0x81, m], [], ts, acc) =
      Some ([?key, m], map EByte (imm_bytes v ?tc), ts, acc)" for m ts acc
    by (simp add: sdata_steps_def imm_bytes_def abs_steps_LByte)
  have 4: "finish_items True ?acc (map EByte (?key # m # bs)) =
      map EByte (rex_prefix False (is_r8_15 dst) @ ?key # m # bs)" for m bs
    by (simp add: finish_items_def rex_items_def rex_prefix_def incdec_items_def is_legacy_prefix_def)
  have "abs_steps True (imm_steps T op dst j v) ([], [], [], None) =
      Some ([?key, ?hi OR (j + 0xc0)], map EByte (imm_bytes v ?tc), ?pfx, ?acc)"
    unfolding imm_steps_def append_Cons [symmetric] abs_steps_append 1 bind.simps 2 3 by simp
  then show ?thesis
    using 4 [of "?hi OR (j + 0xc0)" "imm_bytes v ?tc"] by (simp add: code_items_def)
qed


lemma decode_imm_bytes:
  assumes j: "j < 8" and ext: "ext < 8" and seg: "\<not> HW_COvlap dst HW_SEGS"
  shows "decode_imm T ((if size_prefix T dst then [0x66] else []) @ rex_prefix False (is_r8_15 dst) @
            [if short_imm v (opnd_class dst) then 0x83 else 0x81, 0xc0 OR push_bit 3 ext OR (j + 0xc0)] @
            imm_bytes v (opnd_class dst)) =
         Some (HW_COvlap dst HW_32, unat ext, unat j + (if is_r8_15 dst then 8 else 0),
               if HW_COvlap dst HW_32 then v else v AND 0xFFFF)"
proof -
  have pfx: "size_prefix T dst = (HW_COvlap dst HW_32 \<noteq> use32 T)"
    using seg by (simp add: size_prefix_def)
  have cls: "opnd_class dst = (if HW_COvlap dst HW_32 then U4 else U2)"
    using seg by (simp add: opnd_class_def)
  have len: "length (wdata v U4) = 4" "length (wdata v U2) = 2" by (simp_all add: wdata_def)
  show ?thesis
    unfolding decode_imm_def
    by (subst decode_reg_bytes; cases "use32 T"; cases "HW_COvlap dst HW_32")
       (use ext j imm_bits [of v] in \<open>auto simp: pfx cls Let_def imm_bytes_def short_imm_def le_word_wdata len\<close>)
qed

text \<open>
  C15. Immediate operands survive the choice of the short form: in 64-bit mode \<open>GenRegAdd\<close>, \<open>GenRegSub\<close>
  and \<open>GenRegAnd\<close> of any constant and any register but a segment register queue one entry that decodes
  to the operation asked for, on the register asked for, with that very constant, whether it is
  encoded as a sign-extended byte or in full; of a word register the low 16 bits count.
\<close>

theorem immediate_encoding:
  assumes "enc_ready s" "x64_mode s" "RegTrans dst \<noteq> None" "\<not> HW_COvlap dst HW_SEGS"
    and gen: "(gen, ext) = (GenRegAdd T dst v, 0) \<or> (gen, ext) = (GenRegSub T dst v, 5) \<or>
              (gen, ext) = (GenRegAnd T dst v, 4)"
  shows "\<exists>s' bs. gen s = Some s' \<and> enc_ready s' \<and> queue s' = queue s @ [code_entry (map EByte bs)] \<and>
     decode_imm T bs = Some (HW_COvlap dst HW_32, ext, reg_no dst,
                             if HW_COvlap dst HW_32 then v else v AND 0xFFFF)"
proof -
  obtain j where r: "RegTrans dst = Some j" using assms(3) by blast
  obtain op e where op: "gen = run_code (imm_steps T op dst j v)" "ucast (op OR 1) = (0x81 :: u8)"
      "ucast (drop_bit 8 (op OR 1)) = (0xc0 OR push_bit 3 e :: u8)" "e < 8" "ext = unat e"
  proof -
    note * = that [of "0xc080" 0] that [of "0xe880" 5] that [of "0xe080" 4]
    show thesis
      using gen by (elim disjE) (rule *; simp add: GenRegAdd_def GenRegSub_def GenRegAnd_def GenRegOp_steps [OF r])+
  qed
  define bs where "bs = (if size_prefix T dst then [0x66] else []) @ rex_prefix False (is_r8_15 dst) @
      [if short_imm v (opnd_class dst) then 0x83 else 0x81, 0xc0 OR push_bit 3 e OR (j + 0xc0)] @
      imm_bytes v (opnd_class dst)"
  have len: "length (wdata v tc) \<le> 4" for tc by (simp add: wdata_def)
  have "sum_list (map step_cost (map LByte bs)) = 2 * length bs" for bs
    by (induction bs) simp_all
  then have "steps_cost (imm_steps T op dst j v) + 4 \<le> INSSIZE"
    using len [of "opnd_class dst"]
    by (simp add: steps_cost_def imm_steps_def size_steps_def reg_steps_def sdata_steps_def INSSIZE_def)
  moreover have "bs \<noteq> []" "length bs < 256"
    using len [of "opnd_class dst"] by (simp_all add: bs_def rex_prefix_def imm_bytes_def)
  moreover have "code_items (x64_mode s) (imm_steps T op dst j v) = Some (map EByte bs)"
    unfolding bs_def using assms(2) imm_items [OF op(2)] op(3) by (simp add: or.assoc)
  moreover have "decode_imm T bs = Some (HW_COvlap dst HW_32, ext, reg_no dst,
      if HW_COvlap dst HW_32 then v else v AND 0xFFFF)"
    unfolding bs_def decode_imm_bytes [OF RegTrans_less [OF r] op(4) assms(4)] op(5) by (simp add: reg_no_def r)
  ultimately show ?thesis
    using reg_gen_queues [OF assms(1)] unfolding op(1) by blast
qed

theorem immediate_encoding_witness:
  "\<exists>s' bs. GenRegSub flat32 HW_ESP 0xFFFFFF80 sample_enc = Some s' \<and> enc_ready s' \<and>
     queue s' = queue sample_enc @ [code_entry (map EByte bs)] \<and>
     decode_imm flat32 bs = Some (True, 5, 4, 0xFFFFFF80)"
proof -
  have r: "RegTrans HW_ESP = Some 4" by code_simp
  moreover have "reg_no HW_ESP = 4" "\<not> HW_COvlap HW_ESP HW_SEGS" "HW_COvlap HW_ESP HW_32"
    using r by (simp_all add: reg_no_def is_r8_15_def HW_ESP_def HW_def HW_COvlap_def HW_SEGS_def HW_32_def)
  ultimately show ?thesis
    using immediate_encoding [of sample_enc HW_ESP "GenRegSub flat32 HW_ESP 0xFFFFFF80" 5 flat32 "0xFFFFFF80"]
      sample_enc_simps by simp
qed


section \<open>From the encoder to the object file\<close>

lemma calls_bytes_flat [simp]: "calls_bytes (flat cs) = calls_bytes cs"
proof (induction cs)
  case (Cons c cs)
  have "calls_bytes (map OutDataByte bs @ cs) = bs @ calls_bytes cs" for bs
    by (induction bs) simp_all
  with Cons show ?case by (cases c) simp_all
qed simp

lemma output_code_entry:
  assumes "items_size is \<le> INSSIZE"
  shows "\<exists>st' cs. OutputOC T st (code_entry is) None = Some (st', cs) \<and>
     calls_bytes cs = calls_bytes (concat (map (item_calls (o_tab st)) is)) \<and>
     o_loc st' = o_loc st + word_of_nat (items_size is)"
proof -
  define st1 where "st1 = fst (DumpSavedDebug st)"
  obtain l cs where e: "ExpandObj (o_tab st) (items_bytes is) = Some (l, cs)"
      "flat cs = concat (map (item_calls (o_tab st)) is)"
    using expand_loop_is_scan [of "o_tab st" "items_bytes is" 0 0] by (auto simp: ExpandObj_def scan_items)
  have "calls_size (snd (DumpSavedDebug st)) = 0" by simp
  then have d: "calls_bytes (snd (DumpSavedDebug st)) = []"
    by (metis length_0_conv length_calls_bytes)
  have "output_switch T st1 (code_entry is) None = Some (put cs st1, cs)"
    using e(1) by (simp add: output_switch_def code_entry_def blank_oc_def st1_def)
  then have o: "OutputOC T st (code_entry is) None = Some (put cs st1, snd (DumpSavedDebug st) @ [SetUpObj False] @ cs)"
    by (simp add: OutputOC_def code_entry_def blank_oc_def st1_def case_prod_unfold Let_def)
  have "calls_size cs = items_size is"
    using expand_items_size [OF e(1)] by (simp add: items_size_def)
  then show ?thesis
    using o d e(2) calls_bytes_flat [of cs] by (simp add: after_def st1_def)
qed

text \<open>
  C2. What a generator lays is what the object file gets.  For every sequence of encoder calls that
  fits the buffers, in 64-bit mode or not, the generator succeeds and queues one entry; when that entry
  is output later, with the tables of that time, the bytes written are those of the items laid, with the
  prefixes of \<open>Temp\<close> in front, the REX prefix behind the legacy prefixes and the long forms of \<open>INC\<close> and
  \<open>DEC\<close>, references resolved; and the location moves by their size.
\<close>

theorem generated_code_reaches_object:
  assumes "enc_ready s" "code_items (x64_mode s) ps = Some is" "steps_cost ps + 4 \<le> INSSIZE" "items_size is \<noteq> 0"
  shows "\<exists>s' st' cs. run_code ps s = Some s' \<and> enc_ready s' \<and> queue s' = queue s @ [code_entry is] \<and>
     OutputOC T st (code_entry is) None = Some (st', cs) \<and>
     calls_bytes cs = calls_bytes (concat (map (item_calls (o_tab st)) is)) \<and>
     o_loc st' = o_loc st + word_of_nat (items_size is)"
  using run_code_items [OF assms(1-3)] assms(4) output_code_entry [of "is" T st] by auto


theorem generated_code_reaches_object_witness:
  "\<exists>s' st' cs. run_code [LOpbyte 0xb8, LTemp 0x66, LRex 1, LOr 0 2, LItem (EAbs LONG_PATCH 7)] sample_enc = Some s' \<and>
     enc_ready s' \<and>
     queue s' = [code_entry [EByte 0x66, EByte 0x41, EByte 0xba, EAbs LONG_PATCH 7]] \<and>
     OutputOC flat32 \<lparr>o_loc = 0x90, o_seg = 1, o_tab = sample_tables, LastUnique = ADDR_UNKNOWN,
        SaveDbgOc = None, SaveDbgPtr = 0\<rparr>
       (code_entry [EByte 0x66, EByte 0x41, EByte 0xba, EAbs LONG_PATCH 7]) None = Some (st', cs) \<and>
     calls_bytes cs = [0x66, 0x41, 0xba, 0, 0, 0, 0] \<and> o_loc st' = 0x97"
proof -
  let ?ps = "[LOpbyte 0xb8, LTemp 0x66, LRex 1, LOr 0 2, LItem (EAbs LONG_PATCH 7)]"
  let ?is = "[EByte 0x66, EByte 0x41, EByte 0xba, EAbs LONG_PATCH 7]"
  let ?st = "\<lparr>o_loc = 0x90, o_seg = 1, o_tab = sample_tables, LastUnique = ADDR_UNKNOWN,
        SaveDbgOc = None, SaveDbgPtr = 0\<rparr>"
  have c: "code_items (x64_mode sample_enc) ?ps = Some ?is"
    using sample_enc_simps
    by (simp add: code_items_def finish_items_def rex_items_def is_legacy_prefix_def incdec_items_def)
  have k: "steps_cost ?ps + 4 \<le> INSSIZE"
    by (simp add: steps_cost_def INSSIZE_def EmitPtr_def)
  have n: "items_size ?is = 7" by (simp add: patch_size_def)
  have "calls_bytes (concat (map (item_calls (o_tab ?st)) ?is)) = [0x66, 0x41, 0xba, 0, 0, 0, 0]"
  proof -
    have "replicate 4 (0 :: u8) = [0, 0, 0, 0]" by (simp add: numeral_eq_Suc)
    then show ?thesis by (simp add: patch_size_def)
  qed
  with generated_code_reaches_object [OF sample_enc_simps(1) c k, of flat32 ?st] n sample_enc_simps(3)
  show ?thesis by auto
qed

section \<open>\<open>INC\<close> and \<open>DEC\<close>\<close>

text \<open>The byte that becomes the ModR/M byte of the long form, and a REX prefix, taken apart.\<close>

definition long_modrm :: "u8 \<Rightarrow> u8" where
  "long_modrm k = (if k \<le> 0x47 then (k - 0x40) + 0xc0 else 8 OR (k - 0x48) OR 0xc0)"

lemma byte_range:
  fixes k :: u8
  assumes "list_all P (map word_of_nat [m..<n])" and "word_of_nat m \<le> k" "unat k < n" "m < 256"
  shows "P k"
proof -
  have "m \<le> unat k" using assms(2,4) by (simp add: word_le_nat_alt unat_of_nat)
  then have "\<exists>x \<in> {m..<n}. k = word_of_nat x" using assms(3) by (intro bexI [of _ "unat k"]) simp_all
  then show ?thesis using assms(1) by (auto simp: list_all_iff)
qed

lemma long_modrm_fields:
  assumes "0x40 \<le> k" "k \<le> 0x4F"
  shows "long_modrm k \<noteq> ESC" "drop_bit 6 (long_modrm k) = 3"
    "unat (drop_bit 3 (long_modrm k) AND 7) = (if k \<le> 0x47 then 0 else 1)" "long_modrm k AND 7 = k AND 7"
proof -
  let ?ok = "\<lambda>k :: u8. long_modrm k \<noteq> ESC \<and> drop_bit 6 (long_modrm k) = 3 \<and>
    unat (drop_bit 3 (long_modrm k) AND 7) = (if k \<le> 0x47 then 0 else 1) \<and> long_modrm k AND 7 = k AND 7"
  have "list_all ?ok (map word_of_nat [64..<80])" by code_simp
  from byte_range [OF this] assms have "?ok k" by (simp add: word_le_nat_alt)
  then show "long_modrm k \<noteq> ESC" "drop_bit 6 (long_modrm k) = 3"
    "unat (drop_bit 3 (long_modrm k) AND 7) = (if k \<le> 0x47 then 0 else 1)" "long_modrm k AND 7 = k AND 7" by simp_all
qed

lemma rex_fields:
  assumes "acc < (16 :: u8)"
  shows "(0x40 OR acc) AND 0xF0 = 0x40" "(0x40 OR acc) AND 0x0F = acc" "0x40 OR acc \<noteq> 0x66"
proof -
  let ?ok = "\<lambda>acc :: u8. (0x40 OR acc) AND 0xF0 = 0x40 \<and> (0x40 OR acc) AND 0x0F = acc \<and> 0x40 OR acc \<noteq> 0x66"
  have "list_all ?ok (map word_of_nat [0..<16])" by code_simp
  from byte_range [OF this] assms have "?ok acc" by (simp add: word_less_nat_alt)
  then show "(0x40 OR acc) AND 0xF0 = 0x40" "(0x40 OR acc) AND 0x0F = acc" "0x40 OR acc \<noteq> 0x66" by simp_all
qed

text \<open>What one transfer adds to \<open>Temp\<close>.\<close>

definition transfer_adds :: "enc_state \<Rightarrow> enc_state \<Rightarrow> bytes \<Rightarrow> bool" where
  "transfer_adds s s' bs \<longleftrightarrow> oc_data (Temp s') = oc_data (Temp s) @ bs \<and> queue s' = queue s"

lemma remap_incdec_lone:
  assumes "length (Inst s) = INSSIZE" "x64_mode s" "ICur s = 1" "IEsc s \<le> 1" "rd (Inst s) KEY = Some k" "0x40 \<le> k" "k \<le> 0x4F"
  shows "remap_incdec s = Some (s\<lparr>Inst := (Inst s)[KEY := 0xFF, RMR := long_modrm k], ICur := 2, ILen := ILen s + 1, IEsc := 2\<rparr>)"
proof -
  have len: "KEY < length (Inst s)" "RMR < length (Inst s)" using assms(1) by (simp_all add:  INSSIZE_def)
  have "\<not> k \<le> 0x47 \<Longrightarrow> 0x48 \<le> k" by (simp add: word_le_nat_alt)
  then show ?thesis
    using assms len by (auto simp: remap_incdec_def put_inst_def Let_def long_modrm_def)
qed

lemma transfer_lone:
  assumes "length (Inst s) = INSSIZE" "x64_mode s" "ICur s = 1" "IEsc s \<le> 1" "rd (Inst s) KEY = Some k" "0x40 \<le> k" "k \<le> 0x4F"
    and "RexAccum s < 16" "length (oc_data (Temp s)) + 3 \<le> INSSIZE"
  shows "\<exists>s'. TransferIns s = Some s' \<and> transfer_adds s s'
    ((if RexNeeded s then [0x40 OR RexAccum s] else []) @ [0xFF, long_modrm k])"
proof -
  obtain a b rest where inst: "Inst s = a # b # rest" "2 + length rest = INSSIZE"
    using assms(1) by (cases "Inst s"; cases "tl (Inst s)") (auto simp: INSSIZE_def)
  have r: "remap_incdec s = Some (s\<lparr>Inst := 0xFF # long_modrm k # rest, ICur := 2, ILen := ILen s + 1, IEsc := 2\<rparr>)"
    using remap_incdec_lone [OF assms(1-7)] by (simp add: inst(1) )
  have plain: "double_esc [0xFF, long_modrm k] = [0xFF, long_modrm k]" "\<not> is_legacy_prefix 0xFF"
    using long_modrm_fields(1) [OF assms(6,7)] by (simp_all add: double_esc_def is_legacy_prefix_def)
  have rex: "double_esc [0x40 OR RexAccum s, 0xFF, long_modrm k] = [0x40 OR RexAccum s, 0xFF, long_modrm k]"
    using long_modrm_fields(1) [OF assms(6,7)] rex_not_esc [OF assms(8)] by (simp add: double_esc_def)
  show ?thesis
    using assms(2,9) inst(2) plain rex
    by (cases "RexNeeded s")
      (simp_all add: TransferIns_def r insert_rex_def add_temp_def ResetRex_def transfer_adds_def INSSIZE_def Let_def eval_nat_numeral)
qed

lemma decode_long_form:
  assumes "0x40 \<le> k" "k \<le> 0x4F" "acc < 16" "\<not> rexed \<Longrightarrow> acc = 0"
  shows "decode_reg_op ((if rexed then [0x40 OR acc] else []) @ [0xFF, long_modrm k])
    = Some (False, 0xFF, (if k \<le> 0x47 then 0 else 1) + (if bit acc 2 then 8 else 0), unat (k AND 7) + (if bit acc 0 then 8 else 0), [])"
  using long_modrm_fields [OF assms(1,2)] rex_fields [OF assms(3)] assms(4)
  by (cases rexed) (simp_all add: decode_reg_op_def)

text \<open>No transfer in 64-bit mode adds just one byte of the range that has become the REX prefixes.\<close>

lemma double_esc_long: "length bs \<le> length (double_esc bs)"
  by (induction bs) (simp_all add: double_esc_def)

lemma transfer_not_lone:
  assumes "length (Inst s) = INSSIZE" "x64_mode s" "0 < ICur s" "ICur s \<le> INSSIZE" "IEsc s \<le> ICur s" "TransferIns s = Some s'"
    and "transfer_adds s s' [b]" "0x40 \<le> b" "b \<le> 0x4F"
  shows False
proof -
  obtain s1 s2 where r: "remap_incdec s = Some s1" "insert_rex s1 = Some s2"
    "add_temp (double_esc (take (IEsc s2) (Inst s2)) @ take (ICur s2 - IEsc s2) (drop (IEsc s2) (Inst s2))) (word_of_nat (ILen s2)) s2 = Some s'"
    "IEsc s2 \<le> ICur s2"
    using assms(6) by (auto simp: TransferIns_def bind_eq_Some_conv split: if_splits)
  have same1: "Temp s1 = Temp s" "length (Inst s1) = INSSIZE" "ICur s \<le> ICur s1" "ICur s1 \<le> INSSIZE"
    using r(1) assms(1,4)
    by (auto simp: remap_incdec_def put_inst_def Let_def bind_eq_Some_conv INSSIZE_def split: if_splits)
  have "length (takeWhile is_legacy_prefix (take (ICur s1) (Inst s1))) \<le> min INSSIZE (ICur s1)"
    using length_takeWhile_le [of is_legacy_prefix "take (ICur s1) (Inst s1)"] same1(2) by simp
  then have same2: "Temp s2 = Temp s1" "ICur s1 \<le> ICur s2" "length (Inst s2) = INSSIZE" "ICur s2 \<le> INSSIZE"
    using r(2) same1(2,4) by (auto simp: insert_rex_def ResetRex_def Let_def split: if_splits)
  let ?bs = "double_esc (take (IEsc s2) (Inst s2)) @ take (ICur s2 - IEsc s2) (drop (IEsc s2) (Inst s2))"
  have bs: "?bs = [b]" using r(3) assms(7) same1(1) same2(1) by (auto simp: add_temp_def Let_def transfer_adds_def split: if_splits)
  have "ICur s2 \<le> length ?bs"
    using double_esc_long [of "take (IEsc s2) (Inst s2)"] r(4) same2(3,4) by simp
  then have one: "ICur s2 = 1" "ICur s1 = 1" "ICur s = 1" using bs same1(3) same2(2) assms(3) by simp_all
  have "\<not> RexNeeded s1 \<or> \<not> x64_mode s1" using r(2) one by (auto simp: insert_rex_def ResetRex_def Let_def split: if_splits)
  then have s2: "s2 = s1" using r(2) by (auto simp: insert_rex_def)
  obtain k where k: "rd (Inst s) KEY = Some k" using assms(1) by (simp add: rd_def INSSIZE_def)
  have "\<not> (0x40 \<le> k \<and> k \<le> 0x4F)"
    using remap_incdec_lone [OF assms(1,2) one(3) _ k] assms(5) r(1) one by auto
  moreover from this have "s1 = s"
    using r(1) assms(2) one(3) k by (auto simp: remap_incdec_def word_le_nat_alt split: if_splits)
  moreover have "Inst s \<noteq> []" "Inst s ! 0 = k" using k assms(1) by (auto simp: rd_def INSSIZE_def split: if_splits)
  then have "take 1 (Inst s) = [k]" by (cases "Inst s") simp_all
  ultimately have "?bs \<in> {[k], [ESC, k]}"
    using s2 one r(4) by (cases "IEsc s") (auto simp: double_esc_def)
  then show False using bs \<open>\<not> (0x40 \<le> k \<and> k \<le> 0x4F)\<close> assms(8,9) by auto
qed

text \<open>
  C16. The one-byte \<open>INC\<close> and \<open>DEC\<close>, which a 64-bit processor would take for REX prefixes, do not get into
  64-bit code.  Whatever is in the buffers, a transfer of an instruction to \<open>Temp\<close> never adds a lone byte from 40 to 4F; and when the
  instruction is such a byte, what is added behind the prefixes laid in \<open>Temp\<close> before is, to an independent decoder, the long form \<open>FF /0\<close> or \<open>FF /1\<close>
  of the same register, extended by the REX prefix accumulated.
\<close>

theorem incdec_long_form:
  assumes "length (Inst s) = INSSIZE" "x64_mode s" "0 < ICur s" "ICur s \<le> INSSIZE" "IEsc s \<le> ICur s"
    and "RexAccum s < 16" "\<not> RexNeeded s \<Longrightarrow> RexAccum s = 0"
  shows "(\<forall>s' b. TransferIns s = Some s' \<longrightarrow> 0x40 \<le> b \<longrightarrow> b \<le> 0x4F \<longrightarrow> \<not> transfer_adds s s' [b])
    \<and> (\<forall>k. ICur s = 1 \<longrightarrow> rd (Inst s) KEY = Some k \<longrightarrow> 0x40 \<le> k \<longrightarrow> k \<le> 0x4F \<longrightarrow> length (oc_data (Temp s)) + 3 \<le> INSSIZE \<longrightarrow>
         (\<exists>s' bs. TransferIns s = Some s' \<and> transfer_adds s s' bs
            \<and> decode_reg_op bs = Some (False, 0xFF, (if k \<le> 0x47 then 0 else 1) + (if bit (RexAccum s) 2 then 8 else 0),
                unat (k AND 7) + (if bit (RexAccum s) 0 then 8 else 0), [])))"
proof (intro conjI allI impI notI)
  show False if "TransferIns s = Some s'" "0x40 \<le> b" "b \<le> 0x4F" "transfer_adds s s' [b]" for s' b
    using transfer_not_lone [OF assms(1-5) that(1,4,2,3)] .
next
  fix k
  assume k: "ICur s = 1" "rd (Inst s) KEY = Some k" "0x40 \<le> k" "k \<le> 0x4F" "length (oc_data (Temp s)) + 3 \<le> INSSIZE"
  have "IEsc s \<le> 1" using assms(5) k(1) by simp
  from transfer_lone [OF assms(1,2) k(1) this k(2-4) assms(6) k(5)]
  show "\<exists>s' bs. TransferIns s = Some s' \<and> transfer_adds s s' bs
            \<and> decode_reg_op bs = Some (False, 0xFF, (if k \<le> 0x47 then 0 else 1) + (if bit (RexAccum s) 2 then 8 else 0),
                unat (k AND 7) + (if bit (RexAccum s) 0 then 8 else 0), [])"
    using decode_long_form [OF k(3,4) assms(6,7)] by blast
qed

text \<open>The one-byte decrement of R12 behind an operand-size prefix.\<close>

abbreviation dec_r12 :: enc_state where
  "dec_r12 \<equiv> sample_enc\<lparr>Inst := 0x4C # replicate (INSSIZE - 1) 0, ICur := 1, ILen := 1, IEsc := 1, RexAccum := 1, RexNeeded := True,
     Temp := (blank_oc OC_CODE)\<lparr>oc_data := [0x66], objlen := 1\<rparr>\<rparr>"

theorem incdec_long_form_witness:
  "\<exists>s' bs. TransferIns dec_r12 = Some s' \<and> oc_data (Temp s') = 0x66 # bs \<and> decode_reg_op bs = Some (False, 0xFF, 1, 12, [])"
proof -
  have s: "length (Inst dec_r12) = INSSIZE" "x64_mode dec_r12" "0 < ICur dec_r12" "ICur dec_r12 \<le> INSSIZE" "IEsc dec_r12 \<le> ICur dec_r12"
    "RexAccum dec_r12 < 16" "\<not> RexNeeded dec_r12 \<Longrightarrow> RexAccum dec_r12 = 0" "ICur dec_r12 = 1" "rd (Inst dec_r12) KEY = Some 0x4C"
    "length (oc_data (Temp dec_r12)) + 3 \<le> INSSIZE"
    by (simp_all add: INSSIZE_def X64EncInit_def ResetRex_def)
  have k: "0x40 \<le> (0x4C :: u8)" "(0x4C :: u8) \<le> 0x4F" by simp_all
  obtain s' bs where "TransferIns dec_r12 = Some s'" "transfer_adds dec_r12 s' bs"
    "decode_reg_op bs = Some (False, 0xFF, (if (0x4C :: u8) \<le> 0x47 then 0 else 1) + (if bit (RexAccum dec_r12) 2 then 8 else 0),
                unat ((0x4C :: u8) AND 7) + (if bit (RexAccum dec_r12) 0 then 8 else 0), [])"
    using incdec_long_form [OF s(1-7)] s(8-10) k by blast
  then show ?thesis by (simp add: transfer_adds_def bit_numeral_rec)
qed

end
