(* ===== verification/X64Enc.thy ===== *)
theory X64Enc
  imports CgEncode
begin

text \<open>
  The x64 extensions of the encoder, \<open>bld/cg/intel/x64/c/x64enc.c\<close> and \<open>bld/cg/intel/x64/h/x64enc.h\<close>: an
  accumulator of the REX prefix, its insertion into a buffer, the numbers of the registers \<open>R8\<close> to \<open>R15\<close>
  and the long forms of \<open>INC\<close> and \<open>DEC\<close>.  All of this exists a second time inside \<open>x86enc.c\<close>, in \<open>CgEncode\<close>;
  the theorem here compares the two.

  A write outside the buffer is \<open>None\<close>.
\<close>

section \<open>The accumulator\<close>

record x64_state =
  rex_pending :: u8
  rex_needed :: bool
  x64_target :: bool

definition X64Init :: "bool \<Rightarrow> x64_state \<Rightarrow> x64_state" where
  "X64Init is_x64 t = t\<lparr>x64_target := is_x64\<rparr>"

definition X64ResetRex :: "x64_state \<Rightarrow> x64_state" where
  "X64ResetRex t = t\<lparr>rex_pending := 0, rex_needed := False\<rparr>"

definition X64SetRexW :: "x64_state \<Rightarrow> x64_state" where
  "X64SetRexW t = (if \<not> x64_target t then t else t\<lparr>rex_pending := rex_pending t OR 8, rex_needed := True\<rparr>)"

definition X64SetRexR :: "x64_state \<Rightarrow> x64_state" where
  "X64SetRexR t = (if \<not> x64_target t then t else t\<lparr>rex_pending := rex_pending t OR 4, rex_needed := True\<rparr>)"

definition X64SetRexX :: "x64_state \<Rightarrow> x64_state" where
  "X64SetRexX t = (if \<not> x64_target t then t else t\<lparr>rex_pending := rex_pending t OR 2, rex_needed := True\<rparr>)"

definition X64SetRexB :: "x64_state \<Rightarrow> x64_state" where
  "X64SetRexB t = (if \<not> x64_target t then t else t\<lparr>rex_pending := rex_pending t OR 1, rex_needed := True\<rparr>)"

definition X64GetRex :: "x64_state \<Rightarrow> u8 \<times> x64_state" where
  "X64GetRex t = (if rex_needed t then 0x40 OR rex_pending t else 0, X64ResetRex t)"

definition x64_rex :: "bool \<Rightarrow> bool \<Rightarrow> bool \<Rightarrow> bool \<Rightarrow> u8" where
  "x64_rex need_w reg_ext index_ext rm_ext =
    (let rex = 0 :: u8;
         rex = (if need_w then rex OR 8 else rex);
         rex = (if reg_ext then rex OR 4 else rex);
         rex = (if index_ext then rex OR 2 else rex);
         rex = (if rm_ext then rex OR 1 else rex)
     in if rex \<noteq> 0 then rex OR 0x40 else rex)"

section \<open>Registers and operands\<close>

definition X64IsExtReg :: "x64_state \<Rightarrow> hw_reg_set \<Rightarrow> bool" where
  "X64IsExtReg t reg \<longleftrightarrow> x64_target t \<and> hw_1 reg AND 0x3FC \<noteq> 0"

function ext_reg_loop :: "u32 \<Rightarrow> int \<Rightarrow> int" where
  "ext_reg_loop bits idx = (if 1 < bits then ext_reg_loop (drop_bit 1 bits) (idx + 1) else idx)"
  by pat_completeness auto
termination
proof (relation "measure (\<lambda>(bits, idx). unat bits)")
  fix bits :: u32 and idx :: int
  assume "1 < bits"
  then have "unat (drop_bit 1 bits) < unat bits"
    by (simp add: drop_bit_eq_div unat_div word_less_nat_alt)
  then show "((drop_bit 1 bits, idx + 1), (bits, idx)) \<in> measure (\<lambda>(bits, idx). unat bits)" by simp
qed simp

declare ext_reg_loop.simps [simp del]

definition X64ExtRegIdx :: "hw_reg_set \<Rightarrow> int" where
  "X64ExtRegIdx reg = ext_reg_loop (drop_bit 2 (hw_1 reg) AND 0xFF) 0"

definition X64UseRipRelative :: "x64_state \<Rightarrow> bool" where
  "X64UseRipRelative t = x64_target t"

definition X64NeedsRexW :: "x64_state \<Rightarrow> type_class_def \<Rightarrow> bool" where
  "X64NeedsRexW t tc \<longleftrightarrow> x64_target t \<and> (tc = XX \<or> tc = PT \<or> tc = CP)"

section \<open>The buffer\<close>

fun shift_up :: "nat \<Rightarrow> nat \<Rightarrow> bytes \<Rightarrow> bytes option" where
  "shift_up 0 opcode_pos inst = Some inst"
| "shift_up (Suc i) opcode_pos inst =
    (if opcode_pos < Suc i
     then if Suc i < length inst then shift_up i opcode_pos (inst[Suc i := inst ! i]) else None
     else Some inst)"

definition X64InsertRex :: "bytes \<Rightarrow> nat \<Rightarrow> nat \<Rightarrow> u8 \<Rightarrow> (bytes \<times> nat) option" where
  "X64InsertRex inst ilen opcode_pos rex =
    (if rex = 0 then Some (inst, ilen)
     else do {
       inst \<leftarrow> shift_up ilen opcode_pos inst;
       if opcode_pos < length inst then Some (inst[opcode_pos := rex], ilen + 1) else None
     })"

definition MODRM :: "u8 \<Rightarrow> u8 \<Rightarrow> u8 \<Rightarrow> u8" where
  "MODRM m reg rm = push_bit 6 m OR push_bit 3 reg OR rm"

definition X64FixupIncDec :: "x64_state \<Rightarrow> bytes \<Rightarrow> nat \<Rightarrow> (bytes \<times> nat) option" where
  "X64FixupIncDec t inst ilen =
    (if \<not> x64_target t then Some (inst, ilen)
     else do {
       k \<leftarrow> rd inst KEY;
       let fix_up = (\<lambda>rmr. if RMR < length inst then Some (inst[KEY := 0xFF, RMR := rmr], ilen) else None);
       if 0x40 \<le> k \<and> k \<le> 0x47 then fix_up (MODRM 3 0 (k - 0x40))
       else if 0x48 \<le> k \<and> k \<le> 0x4F then fix_up (MODRM 3 1 (k - 0x48))
       else Some (inst, ilen)
     })"

section \<open>The two encoders\<close>

lemma shift_up_run:
  assumes "pos \<le> n" "n < length inst"
  shows "shift_up n pos inst = Some (take pos inst @ [inst ! pos] @ drop pos (take n inst) @ drop (n + 1) inst)"
  using assms
proof (induction n arbitrary: inst)
  case 0
  then show ?case by (simp add: Cons_nth_drop_Suc)
next
  case (Suc n)
  show ?case
  proof (cases "pos = Suc n")
    case True
    then show ?thesis using Suc.prems by (simp add: id_take_nth_drop [symmetric])
  next
    case False
    then have le: "pos \<le> n" using Suc.prems by simp
    let ?i = "inst[Suc n := inst ! n]"
    have "shift_up (Suc n) pos inst = shift_up n pos ?i" using False Suc.prems by simp
    also have "\<dots> = Some (take pos ?i @ [?i ! pos] @ drop pos (take n ?i) @ drop (n + 1) ?i)"
      by (rule Suc.IH) (use le Suc.prems in simp_all)
    also have "drop (n + 1) ?i = inst ! n # drop (n + 2) inst"
      using Suc.prems by (simp add: drop_update_swap drop_Cons' Cons_nth_drop_Suc [symmetric])
    also have "take pos ?i @ [?i ! pos] @ drop pos (take n ?i) @ inst ! n # drop (n + 2) inst =
        take pos inst @ [inst ! pos] @ drop pos (take (Suc n) inst) @ drop (Suc n + 1) inst"
      using le Suc.prems by (simp add: take_Suc_conv_app_nth)
    finally show ?thesis .
  qed
qed


definition rex_sim :: "x64_state \<Rightarrow> enc_state \<Rightarrow> bool" where
  "rex_sim t s \<longleftrightarrow> rex_pending t = RexAccum s \<and> rex_needed t = RexNeeded s \<and> x64_target t = x64_mode s \<and>
     (RexNeeded s \<longrightarrow> x64_mode s) \<and> (\<not> RexNeeded s \<longrightarrow> RexAccum s = 0) \<and> RexAccum s < 16"

datatype rex_call = SetW | SetR | SetX | SetB | Reset

fun x64_call :: "rex_call \<Rightarrow> x64_state \<Rightarrow> x64_state" where
  "x64_call SetW = X64SetRexW" | "x64_call SetR = X64SetRexR" | "x64_call SetX = X64SetRexX"
| "x64_call SetB = X64SetRexB" | "x64_call Reset = X64ResetRex"

fun enc_call :: "rex_call \<Rightarrow> enc_state \<Rightarrow> enc_state" where
  "enc_call SetW = SetRexW" | "enc_call SetR = SetRexR" | "enc_call SetX = SetRexX"
| "enc_call SetB = SetRexB" | "enc_call Reset = ResetRex"

lemmas x64_calls = X64SetRexW_def X64SetRexR_def X64SetRexX_def X64SetRexB_def X64ResetRex_def
lemmas enc_calls = SetRexW_def SetRexR_def SetRexX_def SetRexB_def ResetRex_def set_rex_def

lemma rex_sim_call: "rex_sim t s \<Longrightarrow> rex_sim (x64_call c t) (enc_call c s)"
  by (cases c) (auto simp: rex_sim_def x64_calls enc_calls intro: or_below_16)

lemma rex_sim_calls: "rex_sim t s \<Longrightarrow> rex_sim (fold x64_call cs t) (fold enc_call cs s)"
  by (induction cs arbitrary: t s) (simp_all add: rex_sim_call)

lemma rex_sim_init: "rex_sim (X64ResetRex (X64Init m t)) (X64EncInit m s)"
  by (simp add: rex_sim_def X64ResetRex_def X64Init_def X64EncInit_def ResetRex_def)

lemma enc_call_frame:
  "Inst (enc_call c s) = Inst s" "ICur (enc_call c s) = ICur s" "x64_mode (enc_call c s) = x64_mode s"
  by (cases c; simp add: enc_calls)+

lemma enc_calls_frame:
  "Inst (fold enc_call cs s) = Inst s" "ICur (fold enc_call cs s) = ICur s"
  by (induction cs arbitrary: s) (simp_all add: enc_call_frame)

definition opcode_pos :: "enc_state \<Rightarrow> nat" where
  "opcode_pos s = length (takeWhile is_legacy_prefix (take (ICur s) (Inst s)))"

lemma opcode_pos_le: "opcode_pos s \<le> ICur s"
  unfolding opcode_pos_def by (metis length_take length_takeWhile_le min.cobounded2 order_trans)

lemma rex_byte_nonzero: "0x40 OR (b :: u8) \<noteq> 0"
proof
  assume "0x40 OR b = 0"
  then have "\<not> bit (0x40 OR b) 6" by simp
  then show False by (simp add: bit_simps bit_numeral_rec)
qed

lemma insert_rex_agrees:
  assumes sim: "rex_sim t s" and fits: "ICur s < length (Inst s)"
  shows "map_option (\<lambda>s'. (Inst s', ICur s')) (insert_rex s) =
     X64InsertRex (Inst s) (ICur s) (opcode_pos s) (fst (X64GetRex t))"
proof (cases "RexNeeded s")
  case False
  then show ?thesis
    using sim by (simp add: rex_sim_def insert_rex_def X64GetRex_def X64InsertRex_def)
next
  case True
  then have x: "x64_mode s" "fst (X64GetRex t) = 0x40 OR RexAccum s"
    using sim by (simp_all add: rex_sim_def X64GetRex_def)
  have nz: "0x40 OR RexAccum s \<noteq> 0" by (rule rex_byte_nonzero)
  have "(take p l @ [a] @ r)[p := b] = take p l @ [b] @ r" if "p \<le> length l" for p a b and l r :: bytes
    using that by (simp add: list_update_append)
  from this [of "opcode_pos s" "Inst s"] show ?thesis
    unfolding X64InsertRex_def x(2) using True x(1) fits nz opcode_pos_le [of s]
    by (simp add: insert_rex_def opcode_pos_def [symmetric] Let_def shift_up_run ResetRex_def)
qed


text \<open>
  Without a reset in between, the byte is that of \<open>x64_rex\<close> for the bits that were set.
\<close>

definition call_bits :: "rex_call list \<Rightarrow> u8" where
  "call_bits cs = (if SetW \<in> set cs then 8 else 0) OR (if SetR \<in> set cs then 4 else 0) OR
     (if SetX \<in> set cs then 2 else 0) OR (if SetB \<in> set cs then 1 else 0)"

lemma pending_calls:
  assumes "x64_target t" "Reset \<notin> set cs"
  shows "rex_pending (fold x64_call cs t) = rex_pending t OR call_bits cs \<and>
    rex_needed (fold x64_call cs t) = (rex_needed t \<or> cs \<noteq> [])"
  using assms
proof (induction cs arbitrary: t)
  case (Cons c cs)
  let ?t = "x64_call c t"
  have "x64_target ?t" using Cons.prems by (cases c) (simp_all add: x64_calls)
  with Cons have IH: "rex_pending (fold x64_call cs ?t) = rex_pending ?t OR call_bits cs \<and>
      rex_needed (fold x64_call cs ?t) = (rex_needed ?t \<or> cs \<noteq> [])" by simp
  have "rex_pending ?t = rex_pending t OR call_bits [c]" "rex_needed ?t"
    using Cons.prems by (cases c; simp add: x64_calls call_bits_def)+
  moreover have "call_bits (c # cs) = call_bits [c] OR call_bits cs"
    by (rule bit_word_eqI) (cases c; auto simp: call_bits_def bit_simps)
  ultimately show ?case using IH by (simp add: or.assoc)
qed (simp add: call_bits_def)

lemma get_rex_flags:
  assumes "Reset \<notin> set cs"
  shows "fst (X64GetRex (fold x64_call cs (X64ResetRex (X64Init True t)))) =
    x64_rex (SetW \<in> set cs) (SetR \<in> set cs) (SetX \<in> set cs) (SetB \<in> set cs)"
proof -
  let ?t = "X64ResetRex (X64Init True t)"
  have "rex_pending (fold x64_call cs ?t) = call_bits cs" "rex_needed (fold x64_call cs ?t) = (cs \<noteq> [])"
    using pending_calls [of ?t cs] assms by (simp_all add: X64ResetRex_def X64Init_def)
  moreover have "cs \<noteq> [] \<Longrightarrow> SetW \<in> set cs \<or> SetR \<in> set cs \<or> SetX \<in> set cs \<or> SetB \<in> set cs"
    using assms by (metis list.set_sel(1) rex_call.exhaust)
  ultimately show ?thesis
    by (auto simp: X64GetRex_def x64_rex_def call_bits_def Let_def)
qed

text \<open>
  \<open>X64ExtRegIdx\<close> agrees with the table of registers on \<open>R8\<close> to \<open>R15\<close>.
\<close>

lemma ext_reg_index:
  "list_all (\<lambda>k. map_option uint (RegTrans (HW 0 (2 ^ (k + 2)))) = Some (X64ExtRegIdx (HW 0 (2 ^ (k + 2))))) [0..<8]"
  by code_simp

text \<open>
  \<open>X64FixupIncDec\<close> writes the same two bytes as \<open>TransferIns\<close> does and leaves the length at one.
\<close>

lemma fixup_keeps_length:
  assumes "x64_target t" "x64_mode s" "ICur s = 1" "length (Inst s) = INSSIZE"
    and "Inst s = k # rest" "0x40 \<le> k" "k \<le> 0x47"
  shows "\<exists>s'. remap_incdec s = Some s' \<and> ICur s' = 2 \<and> X64FixupIncDec t (Inst s) (ICur s) = Some (Inst s', 1)"
proof -
  have "MODRM 3 0 (k - 0x40) = (k - 0x40) + 0xc0"
  proof -
    have "list_all (\<lambda>n. MODRM 3 0 (word_of_nat n) = word_of_nat n + 0xc0) [0..<8]" by code_simp
    moreover have "unat (k - 0x40) \<in> set [0..<8]"
      using assms(6,7) by (simp add: word_le_nat_alt unat_sub)
    ultimately have "MODRM 3 0 (word_of_nat (unat (k - 0x40))) = word_of_nat (unat (k - 0x40)) + 0xc0"
      unfolding list_all_iff by blast
    then show ?thesis by simp
  qed
  then show ?thesis
    using assms by (simp add: remap_incdec_def X64FixupIncDec_def rd_def put_inst_def Let_def INSSIZE_def)
qed

text \<open>
  C17. The two accumulators and the two inserters of the REX prefix do the same: started together and
  given the same calls in the same order, \<open>X64GetRex\<close> returns the byte, or none, that \<open>TransferIns\<close> inserts,
  and \<open>X64InsertRex\<close> at the place after the legacy prefixes leaves the buffer as \<open>TransferIns\<close> does, past the end
  of the instruction too.
\<close>

theorem encoders_insert_same_rex:
  assumes "ICur s < length (Inst s)"
  shows "map_option (\<lambda>s'. (Inst s', ICur s')) (insert_rex (fold enc_call cs (X64EncInit m s))) =
     X64InsertRex (Inst s) (ICur s) (opcode_pos s)
       (fst (X64GetRex (fold x64_call cs (X64ResetRex (X64Init m t)))))"
proof -
  let ?s = "fold enc_call cs (X64EncInit m s)"
  have "Inst ?s = Inst s" "ICur ?s = ICur s"
    by (simp_all add: enc_calls_frame X64EncInit_def ResetRex_def)
  moreover from this have "opcode_pos ?s = opcode_pos s" by (simp add: opcode_pos_def)
  moreover have "rex_sim (fold x64_call cs (X64ResetRex (X64Init m t))) ?s"
    by (rule rex_sim_calls [OF rex_sim_init])
  ultimately show ?thesis using insert_rex_agrees assms by metis
qed


definition sample_long :: enc_state where
  "sample_long = empty_enc\<lparr>Inst := [0x66, 0x89, 0xC1] @ replicate 125 0, ICur := 3, ILen := 3, IEsc := 3\<rparr>"

theorem encoders_insert_same_rex_witness:
  "map_option (\<lambda>s'. take (ICur s') (Inst s')) (insert_rex (fold enc_call [SetW, SetB] (X64EncInit True sample_long))) =
     Some [0x66, 0x49, 0x89, 0xC1]"
proof -
  let ?t = "\<lparr>rex_pending = 3, rex_needed = True, x64_target = False\<rparr>"
  have fits: "ICur sample_long < length (Inst sample_long)" by (simp add: sample_long_def)
  have pos: "opcode_pos sample_long = 1"
    by (simp add: opcode_pos_def sample_long_def is_legacy_prefix_def)
  have rex: "fst (X64GetRex (fold x64_call [SetW, SetB] (X64ResetRex (X64Init True ?t)))) = 0x49"
    using get_rex_flags [of "[SetW, SetB]" ?t] by (simp add: x64_rex_def)
  have "X64InsertRex (Inst sample_long) (ICur sample_long) 1 0x49 =
      Some ([0x66, 0x49, 0x89, 0xC1] @ replicate 124 0, 4)"
    by (simp add: X64InsertRex_def sample_long_def shift_up_run)
  with encoders_insert_same_rex [OF fits, of "[SetW, SetB]" True ?t] pos rex
  have "map_option (\<lambda>s'. (Inst s', ICur s')) (insert_rex (fold enc_call [SetW, SetB] (X64EncInit True sample_long))) =
      Some ([0x66, 0x49, 0x89, 0xC1] @ replicate 124 0, 4)" by simp
  then show ?thesis by (auto simp: map_option_case split: option.splits)
qed

end
