(* ===== verification/CgQueue.thy ===== *)
theory CgQueue
  imports CgOutput
begin

text \<open>
  The queue of the optimiser: \<open>bld/cg/c/optq.c\<close>, \<open>optutil.c\<close>, and of \<open>optlbl.c\<close>, \<open>optrel.c\<close> and \<open>optmain.c\<close> what
  decides which branches are short.  Entries wait in a doubly linked list between the encoder
  (\<open>InputOC\<close>) and the output (\<open>OutputOC\<close>).

  Entries are numbered; \<open>entries\<close> is the memory they live in, \<open>None\<close> the null pointer.  A step through a
  null or dangling pointer is \<open>None\<close>.  The fields of label records that the optimiser uses are functions of
  the label, as the tables of \<open>CgEscape\<close> are.
\<close>

section \<open>Entries and the queue\<close>

record ins_entry =
  ins_prev :: "nat option"
  ins_next :: "nat option"
  ins_oc :: any_oc
  ins_ref :: "nat option"

type_synonym ins_heap = "nat \<Rightarrow> ins_entry option"

record opt_state =
  entries :: ins_heap
  FirstIns :: "nat option"
  LastIns :: "nat option"
  QCount :: nat
  PendingDeletes :: "nat option"
  InsDelete :: bool
  RetList :: "nat option"
  NoRetList :: "nat option"
  lbl_ins :: "u64 \<Rightarrow> nat option"
  lbl_refs :: "u64 \<Rightarrow> nat option"
  lbl_alias :: "u64 \<Rightarrow> u64"
  opt_out :: out_state

type_synonym opt_op = "opt_state \<Rightarrow> opt_state option"

definition upd_ins :: "nat \<Rightarrow> (ins_entry \<Rightarrow> ins_entry) \<Rightarrow> opt_op" where
  "upd_ins p f q = do { e \<leftarrow> entries q p; Some (q\<lparr>entries := (entries q)(p \<mapsto> f e)\<rparr>) }"

definition set_prev :: "nat \<Rightarrow> nat option \<Rightarrow> opt_op" where
  "set_prev p v = upd_ins p (\<lambda>e. e\<lparr>ins_prev := v\<rparr>)"

definition set_next :: "nat \<Rightarrow> nat option \<Rightarrow> opt_op" where
  "set_next p v = upd_ins p (\<lambda>e. e\<lparr>ins_next := v\<rparr>)"

definition InsertQueue :: "nat \<Rightarrow> nat option \<Rightarrow> opt_op" where
  "InsertQueue old_ins new_ins q = do {
     q \<leftarrow> (case FirstIns q of
            None \<Rightarrow> do {
              let q = q\<lparr>FirstIns := Some old_ins, LastIns := Some old_ins\<rparr>;
              q \<leftarrow> set_prev old_ins None q;
              set_next old_ins None q
            }
          | Some first \<Rightarrow>
              (case new_ins of
                 None \<Rightarrow> do {
                   q \<leftarrow> set_prev first (Some old_ins) q;
                   q \<leftarrow> set_next old_ins (Some first) q;
                   q \<leftarrow> set_prev old_ins None q;
                   Some (q\<lparr>FirstIns := Some old_ins\<rparr>)
                 }
               | Some new \<Rightarrow>
                   if LastIns q = Some new then do {
                     q \<leftarrow> set_next new (Some old_ins) q;
                     q \<leftarrow> set_next old_ins None q;
                     q \<leftarrow> set_prev old_ins (Some new) q;
                     Some (q\<lparr>LastIns := Some old_ins\<rparr>)
                   }
                   else do {
                     n \<leftarrow> entries q new;
                     q \<leftarrow> set_next old_ins (ins_next n) q;
                     q \<leftarrow> set_prev old_ins (Some new) q;
                     n \<leftarrow> entries q new;
                     follow \<leftarrow> ins_next n;
                     q \<leftarrow> set_prev follow (Some old_ins) q;
                     set_next new (Some old_ins) q
                   }));
     Some (q\<lparr>QCount := QCount q + 1\<rparr>)
   }"

definition DeleteQueue :: "nat \<Rightarrow> opt_op" where
  "DeleteQueue old_ins q = do {
     q \<leftarrow> (if FirstIns q = Some old_ins then do {
             e \<leftarrow> entries q old_ins;
             let q = q\<lparr>FirstIns := ins_next e\<rparr>;
             (case FirstIns q of
                Some first \<Rightarrow> set_prev first None q
              | None \<Rightarrow> Some (q\<lparr>LastIns := None\<rparr>))
           }
           else if LastIns q = Some old_ins then do {
             e \<leftarrow> entries q old_ins;
             let q = q\<lparr>LastIns := ins_prev e\<rparr>;
             last \<leftarrow> LastIns q;
             set_next last None q
           }
           else do {
             e \<leftarrow> entries q old_ins;
             n \<leftarrow> ins_next e;
             q \<leftarrow> set_prev n (ins_prev e) q;
             e \<leftarrow> entries q old_ins;
             p \<leftarrow> ins_prev e;
             set_next p (ins_next e) q
           });
     Some (q\<lparr>QCount := QCount q - 1\<rparr>)
   }"

definition UnLinkInstr :: "nat \<Rightarrow> opt_op" where
  "UnLinkInstr old q = do {
     q \<leftarrow> DeleteQueue old (q\<lparr>InsDelete := True\<rparr>);
     q \<leftarrow> set_prev old (PendingDeletes q) q;
     Some (q\<lparr>PendingDeletes := Some old\<rparr>)
   }"

section \<open>The list a queue stands for\<close>

definition hd_opt :: "'a list \<Rightarrow> 'a option \<Rightarrow> 'a option" where
  "hd_opt xs n = (case xs of [] \<Rightarrow> n | x # _ \<Rightarrow> Some x)"

definition last_opt :: "'a option \<Rightarrow> 'a list \<Rightarrow> 'a option" where
  "last_opt p xs = (if xs = [] then p else Some (last xs))"

lemma hd_opt_simps [simp]: "hd_opt [] n = n" "hd_opt (x # xs) n = Some x"
  "hd_opt (xs @ ys) n = hd_opt xs (hd_opt ys n)"
  by (simp_all add: hd_opt_def split: list.splits)

lemma last_opt_simps [simp]: "last_opt p [] = p" "last_opt p (x # xs) = last_opt (Some x) xs"
  "last_opt p (xs @ ys) = last_opt (last_opt p xs) ys"
  by (simp_all add: last_opt_def)

fun linked :: "ins_heap \<Rightarrow> nat option \<Rightarrow> nat list \<Rightarrow> nat option \<Rightarrow> bool" where
  "linked h p [] n = True"
| "linked h p (x # xs) n =
    ((\<exists>e. h x = Some e \<and> ins_prev e = p \<and> ins_next e = hd_opt xs n) \<and> linked h (Some x) xs n)"

definition queue_is :: "opt_state \<Rightarrow> nat list \<Rightarrow> bool" where
  "queue_is q ps \<longleftrightarrow> distinct ps \<and> linked (entries q) None ps None \<and>
     FirstIns q = hd_opt ps None \<and> LastIns q = last_opt None ps \<and> QCount q = length ps"

lemma linked_append [simp]:
  "linked h p (xs @ ys) n \<longleftrightarrow> linked h p xs (hd_opt ys n) \<and> linked h (last_opt p xs) ys n"
  by (induction xs arbitrary: p) (auto simp del: last_opt_simps(3))

lemma linked_frame:
  "(\<And>x. x \<in> set xs \<Longrightarrow> h' x = h x) \<Longrightarrow> linked h' p xs n = linked h p xs n"
  by (induction xs arbitrary: p) auto

lemma linked_frame_upd [simp]:
  "x \<notin> set xs \<Longrightarrow> linked (h(x := v)) p xs n = linked h p xs n"
  by (rule linked_frame) auto

lemma linked_in: "linked h p xs n \<Longrightarrow> x \<in> set xs \<Longrightarrow> \<exists>e. h x = Some e"
  by (induction xs arbitrary: p) auto


text \<open>
  What the operations on the list leave alone: everything but the links.
\<close>

definition links_only :: "opt_state \<Rightarrow> opt_state \<Rightarrow> bool" where
  "links_only q q' \<longleftrightarrow>
     (\<forall>x. map_option ins_oc (entries q' x) = map_option ins_oc (entries q x) \<and>
          map_option ins_ref (entries q' x) = map_option ins_ref (entries q x)) \<and>
     RetList q' = RetList q \<and> NoRetList q' = NoRetList q \<and> lbl_ins q' = lbl_ins q \<and>
     lbl_refs q' = lbl_refs q \<and> lbl_alias q' = lbl_alias q \<and> opt_out q' = opt_out q"

lemmas queue_steps = set_prev_def set_next_def upd_ins_def

lemma queue_at:
  assumes "queue_is q (as @ y # bs)"
  shows "\<exists>f. entries q y = Some f \<and> ins_prev f = last_opt None as \<and> ins_next f = hd_opt bs None"
  using assms by (auto simp: queue_is_def)

lemma InsertQueue_front:
  assumes q: "queue_is q ps" and x: "x \<notin> set ps" "entries q x = Some e" and new: "new = None \<or> ps = []"
  shows "\<exists>q'. InsertQueue x new q = Some q' \<and> queue_is q' (x # ps) \<and> links_only q q'"
proof (cases ps)
  case Nil
  then show ?thesis
    using q x by (auto simp: InsertQueue_def queue_is_def queue_steps links_only_def)
next
  case (Cons y ys)
  then show ?thesis
    using q x new by (auto simp: InsertQueue_def queue_is_def queue_steps links_only_def)
qed

lemma InsertQueue_last:
  assumes q: "queue_is q (as @ [y])" and x: "x \<notin> set (as @ [y])" "entries q x = Some e"
  shows "\<exists>q'. InsertQueue x (Some y) q = Some q' \<and> queue_is q' (as @ [y, x]) \<and> links_only q q'"
proof -
  have "FirstIns q \<noteq> None" using q by (cases as) (auto simp: queue_is_def)
  then show ?thesis
    using q x by (auto simp: InsertQueue_def queue_is_def queue_steps links_only_def)
qed

lemma InsertQueue_middle:
  assumes q: "queue_is q (as @ y # z # bs)" and x: "x \<notin> set (as @ y # z # bs)" "entries q x = Some e"
  shows "\<exists>q'. InsertQueue x (Some y) q = Some q' \<and> queue_is q' (as @ y # x # z # bs) \<and> links_only q q'"
proof -
  have "FirstIns q \<noteq> None" using q by (cases as) (auto simp: queue_is_def)
  moreover have "LastIns q \<noteq> Some y" using q by (auto simp: queue_is_def last_opt_def split: if_splits)
  ultimately show ?thesis
    using q x by (auto simp: InsertQueue_def queue_is_def queue_steps links_only_def)
qed

lemma DeleteQueue_first:
  assumes q: "queue_is q (x # ps)"
  shows "\<exists>q'. DeleteQueue x q = Some q' \<and> queue_is q' ps \<and> links_only q q' \<and>
     map_option ins_next (entries q' x) = Some (hd_opt ps None)"
  using q by (cases ps) (auto simp: DeleteQueue_def queue_is_def queue_steps links_only_def)

lemma DeleteQueue_last:
  assumes q: "queue_is q (as @ [y, x])"
  shows "\<exists>q'. DeleteQueue x q = Some q' \<and> queue_is q' (as @ [y]) \<and> links_only q q' \<and>
     map_option ins_next (entries q' x) = Some None"
proof -
  have "FirstIns q \<noteq> Some x" using q by (cases as) (auto simp: queue_is_def)
  then show ?thesis
    using q by (auto simp: DeleteQueue_def queue_is_def queue_steps links_only_def)
qed

lemma DeleteQueue_middle:
  assumes q: "queue_is q (as @ y # x # z # bs)"
  shows "\<exists>q'. DeleteQueue x q = Some q' \<and> queue_is q' (as @ y # z # bs) \<and> links_only q q' \<and>
     map_option ins_next (entries q' x) = Some (Some z)"
proof -
  have "FirstIns q \<noteq> Some x" using q by (cases as) (auto simp: queue_is_def)
  moreover have "LastIns q \<noteq> Some x" using q by (auto simp: queue_is_def last_opt_def split: if_splits)
  ultimately show ?thesis
    using q by (auto simp: DeleteQueue_def queue_is_def queue_steps links_only_def)
qed


definition insert_after :: "'a option \<Rightarrow> 'a \<Rightarrow> 'a list \<Rightarrow> 'a list" where
  "insert_after new x ps =
    (case new of None \<Rightarrow> x # ps
     | Some y \<Rightarrow> if ps = [] then [x] else takeWhile (\<lambda>z. z \<noteq> y) ps @ y # x # tl (dropWhile (\<lambda>z. z \<noteq> y) ps))"

lemma insert_after_split:
  "y \<notin> set as \<Longrightarrow> insert_after (Some y) x (as @ y # bs) = as @ y # x # bs"
  by (auto simp: insert_after_def takeWhile_append dropWhile_append)

text \<open>
  What the optimiser needs of a queue: entries can be added behind a given one and taken out.  From this
  follows that an entry can be moved, which is how \<open>StraightenCode\<close> reorders code.
\<close>

locale entry_queue =
  fixes holds :: "'s \<Rightarrow> 'a list \<Rightarrow> bool"
    and alive :: "'s \<Rightarrow> 'a \<Rightarrow> bool"
    and ins :: "'a \<Rightarrow> 'a option \<Rightarrow> 's \<Rightarrow> 's option"
    and del :: "'a \<Rightarrow> 's \<Rightarrow> 's option"
  assumes ins_holds: "\<lbrakk>holds s ps; alive s x; x \<notin> set ps; new = None \<or> ps = [] \<or> new \<in> Some ` set ps\<rbrakk> \<Longrightarrow>
      \<exists>s'. ins x new s = Some s' \<and> holds s' (insert_after new x ps)"
    and del_holds: "\<lbrakk>holds s ps; x \<in> set ps\<rbrakk> \<Longrightarrow>
      \<exists>s'. del x s = Some s' \<and> holds s' (remove1 x ps) \<and> alive s' x"
    and holds_distinct: "holds s ps \<Longrightarrow> distinct ps"
begin

definition move :: "'a \<Rightarrow> 'a \<Rightarrow> 's \<Rightarrow> 's option" where
  "move x y s = do { s \<leftarrow> del x s; ins x (Some y) s }"

lemma move_holds:
  assumes "holds s ps" "x \<in> set ps" "y \<in> set ps" "x \<noteq> y"
  shows "\<exists>s'. move x y s = Some s' \<and> holds s' (insert_after (Some y) x (remove1 x ps))"
proof -
  obtain s1 where s1: "del x s = Some s1" "holds s1 (remove1 x ps)" "alive s1 x"
    using del_holds [OF assms(1,2)] by blast
  have "x \<notin> set (remove1 x ps)" using holds_distinct [OF assms(1)] by simp
  moreover have "y \<in> set (remove1 x ps)" using assms(3,4) by (metis in_set_remove1)
  ultimately show ?thesis
    using ins_holds [OF s1(2,3), of "Some y"] s1(1) by (auto simp: move_def)
qed

end

lemma queue_distinct: "queue_is q ps \<Longrightarrow> distinct ps"
  by (simp add: queue_is_def)

lemma InsertQueue_holds:
  assumes q: "queue_is q ps" and e: "entries q x \<noteq> None" and x: "x \<notin> set ps"
    and new: "new = None \<or> ps = [] \<or> new \<in> Some ` set ps"
  shows "\<exists>q'. InsertQueue x new q = Some q' \<and> queue_is q' (insert_after new x ps) \<and> links_only q q'"
proof -
  obtain ex where ex: "entries q x = Some ex" using e by blast
  show ?thesis
  proof (cases "new = None \<or> ps = []")
    case True
    then have "insert_after new x ps = x # ps" by (auto simp: insert_after_def split: option.splits)
    then show ?thesis using InsertQueue_front [OF q x ex True] by simp
  next
    case False
    then obtain y as bs where y: "new = Some y" "ps = as @ y # bs" using new by (auto dest!: split_list)
    then have after: "insert_after new x ps = as @ y # x # bs"
      using queue_distinct [OF q] by (simp add: insert_after_split)
    show ?thesis
      using InsertQueue_last [of q as y x ex] InsertQueue_middle [of q as y "hd bs" "tl bs" x ex] q x ex y
      unfolding after by (cases bs) simp_all
  qed
qed

lemma DeleteQueue_holds:
  assumes q: "queue_is q ps" and x: "x \<in> set ps"
  shows "\<exists>q'. DeleteQueue x q = Some q' \<and> queue_is q' (remove1 x ps) \<and> links_only q q'"
proof -
  obtain as bs where ps: "ps = as @ x # bs" using x by (auto dest!: split_list)
  then have rem: "remove1 x ps = as @ bs" using queue_distinct [OF q] by (simp add: remove1_append)
  show ?thesis
  proof (cases as rule: rev_cases)
    case Nil
    then show ?thesis using DeleteQueue_first [of q x bs] q ps rem by auto
  next
    case (snoc as' y)
    then show ?thesis
      using DeleteQueue_last [of q as' y x] DeleteQueue_middle [of q as' y x "hd bs" "tl bs"] q ps rem
      by (cases bs) auto
  qed
qed

lemma links_only_alive: "links_only q q' \<Longrightarrow> entries q x \<noteq> None \<longleftrightarrow> entries q' x \<noteq> None"
  unfolding links_only_def by (metis option.map_disc_iff)

lemma queue_alive: "queue_is q ps \<Longrightarrow> x \<in> set ps \<Longrightarrow> entries q x \<noteq> None"
  using linked_in by (fastforce simp: queue_is_def)

interpretation oq: entry_queue queue_is "\<lambda>q x. entries q x \<noteq> None" InsertQueue DeleteQueue
proof unfold_locales
  fix s ps x and new :: "nat option"
  assume "queue_is s ps" "entries s x \<noteq> None" "x \<notin> set ps" "new = None \<or> ps = [] \<or> new \<in> Some ` set ps"
  then show "\<exists>s'. InsertQueue x new s = Some s' \<and> queue_is s' (insert_after new x ps)"
    using InsertQueue_holds by blast
next
  fix s ps x
  assume "queue_is s ps" "x \<in> set ps"
  then show "\<exists>s'. DeleteQueue x s = Some s' \<and> queue_is s' (remove1 x ps) \<and> entries s' x \<noteq> None"
    using DeleteQueue_holds [of s ps x] links_only_alive [of s] queue_alive [of s ps x] by metis
qed (rule queue_distinct)

text \<open>
  C20. The doubly linked queue is a list: \<open>InsertQueue\<close> puts an entry behind any entry of the queue, or in front,
  and \<open>DeleteQueue\<close> takes any entry out, following no null pointer, with both directions of links,
  both ends and the count kept right and the entries themselves untouched; an entry that is taken out and
  put in elsewhere has moved.
\<close>

theorem queue_is_a_list:
  assumes "queue_is q ps" "x \<notin> set ps" "entries q x \<noteq> None" "y \<in> set ps" "z \<in> set ps" "y \<noteq> z"
  shows "(\<exists>q'. InsertQueue x (Some y) q = Some q' \<and> queue_is q' (insert_after (Some y) x ps) \<and> links_only q q') \<and>
    (\<exists>q'. InsertQueue x None q = Some q' \<and> queue_is q' (x # ps) \<and> links_only q q') \<and>
    (\<exists>q'. DeleteQueue y q = Some q' \<and> queue_is q' (remove1 y ps) \<and> links_only q q') \<and>
    (\<exists>q'. do { q \<leftarrow> DeleteQueue z q; InsertQueue z (Some y) q } = Some q' \<and>
          queue_is q' (insert_after (Some y) z (remove1 z ps)))"
proof -
  have "insert_after None x ps = x # ps" by (simp add: insert_after_def)
  then have "\<exists>q'. InsertQueue x None q = Some q' \<and> queue_is q' (x # ps) \<and> links_only q q'"
    using InsertQueue_holds [OF assms(1,3,2), of None] by simp
  moreover have "Some y \<in> Some ` set ps" using assms(4) by simp
  moreover have "\<exists>q'. do { q \<leftarrow> DeleteQueue z q; InsertQueue z (Some y) q } = Some q' \<and>
      queue_is q' (insert_after (Some y) z (remove1 z ps))"
    using oq.move_holds [OF assms(1,5,4)] assms(6) by (simp add: oq.move_def)
  ultimately show ?thesis
    using InsertQueue_holds [OF assms(1,3,2), of "Some y"] DeleteQueue_holds [OF assms(1,4)] by simp
qed


section \<open>Walking the queue\<close>

partial_function (option) skip_next :: "ins_heap \<Rightarrow> nat option \<Rightarrow> nat option option" where
  "skip_next h instr =
    (case instr of
       None \<Rightarrow> Some None
     | Some i \<Rightarrow> do {
         e \<leftarrow> h i;
         if oc_base (ins_oc e) \<noteq> OC_INFO then Some (Some i) else skip_next h (ins_next e)
       })"

partial_function (option) skip_prev :: "ins_heap \<Rightarrow> nat option \<Rightarrow> nat option option" where
  "skip_prev h instr =
    (case instr of
       None \<Rightarrow> Some None
     | Some i \<Rightarrow> do {
         e \<leftarrow> h i;
         if oc_base (ins_oc e) \<noteq> OC_INFO then Some (Some i) else skip_prev h (ins_prev e)
       })"

partial_function (option) valid_ins :: "ins_heap \<Rightarrow> nat option \<Rightarrow> nat option option" where
  "valid_ins h instr =
    (case instr of
       None \<Rightarrow> Some None
     | Some i \<Rightarrow> do {
         e \<leftarrow> h i;
         if oc_base (ins_oc e) \<noteq> OC_DEAD then Some (Some i) else valid_ins h (ins_next e)
       })"

definition ValidIns :: "opt_state \<Rightarrow> nat option \<Rightarrow> nat option option" where
  "ValidIns q instr = valid_ins (entries q) instr"

definition NextIns :: "opt_state \<Rightarrow> nat option \<Rightarrow> nat option option" where
  "NextIns q instr =
    (case instr of
       None \<Rightarrow> skip_next (entries q) (FirstIns q)
     | Some i \<Rightarrow> do {
         e \<leftarrow> entries q i;
         if oc_base (ins_oc e) = OC_DEAD then Some None else skip_next (entries q) (ins_next e)
       })"

definition PrevIns :: "opt_state \<Rightarrow> nat option \<Rightarrow> nat option option" where
  "PrevIns q instr =
    (case instr of
       None \<Rightarrow> skip_prev (entries q) (LastIns q)
     | Some i \<Rightarrow> do {
         e \<leftarrow> entries q i;
         if oc_base (ins_oc e) = OC_DEAD then Some None else skip_prev (entries q) (ins_prev e)
       })"

definition ins_class :: "opt_state \<Rightarrow> nat option \<Rightarrow> oc_base option" where
  "ins_class q instr =
    (case instr of None \<Rightarrow> Some OC_DEAD | Some i \<Rightarrow> do { e \<leftarrow> entries q i; Some (oc_base (ins_oc e)) })"

definition PrevClass :: "opt_state \<Rightarrow> nat option \<Rightarrow> oc_base option" where
  "PrevClass q instr = do { instr \<leftarrow> PrevIns q instr; ins_class q instr }"

definition NextClass :: "opt_state \<Rightarrow> nat option \<Rightarrow> oc_base option" where
  "NextClass q instr = do { instr \<leftarrow> NextIns q instr; ins_class q instr }"

definition oc_at :: "opt_state \<Rightarrow> nat \<Rightarrow> any_oc" where
  "oc_at q i = ins_oc (the (entries q i))"

definition code_entry_at :: "opt_state \<Rightarrow> nat \<Rightarrow> bool" where
  "code_entry_at q i \<longleftrightarrow> oc_base (oc_at q i) \<noteq> OC_INFO"

lemma code_entry_at_Some: "entries q x = Some e \<Longrightarrow> code_entry_at q x = (oc_base (ins_oc e) \<noteq> OC_INFO)"
  by (simp add: code_entry_at_def oc_at_def)

lemma skip_next_run:
  "linked (entries q) p xs None \<Longrightarrow> skip_next (entries q) (hd_opt xs None) = Some (find (code_entry_at q) xs)"
proof (induction xs arbitrary: p)
  case Nil
  then show ?case by (simp add: skip_next.simps)
next
  case (Cons x xs)
  then show ?case by (subst skip_next.simps) (auto simp: code_entry_at_Some)
qed

lemma skip_prev_run:
  "linked (entries q) None xs n \<Longrightarrow> skip_prev (entries q) (last_opt None xs) = Some (find (code_entry_at q) (rev xs))"
proof (induction xs arbitrary: n rule: rev_induct)
  case Nil
  then show ?case by (simp add: skip_prev.simps)
next
  case (snoc x xs)
  then show ?case by (subst skip_prev.simps) (auto simp: code_entry_at_Some)
qed

lemma NextIns_run:
  assumes q: "queue_is q (as @ x # bs)" and live: "oc_base (oc_at q x) \<noteq> OC_DEAD"
  shows "NextIns q (Some x) = Some (find (code_entry_at q) bs)"
proof -
  have "linked (entries q) (Some x) bs None" using q by (simp add: queue_is_def)
  from skip_next_run [OF this] queue_at [OF q] live show ?thesis
    by (auto simp: NextIns_def oc_at_def)
qed

lemma PrevIns_run:
  assumes q: "queue_is q (as @ x # bs)" and live: "oc_base (oc_at q x) \<noteq> OC_DEAD"
  shows "PrevIns q (Some x) = Some (find (code_entry_at q) (rev as))"
proof -
  have "linked (entries q) None as (Some x)" using q by (simp add: queue_is_def)
  from skip_prev_run [OF this] queue_at [OF q] live show ?thesis
    by (auto simp: PrevIns_def oc_at_def)
qed

lemma ends_run:
  assumes "queue_is q ps"
  shows "NextIns q None = Some (find (code_entry_at q) ps)"
    "PrevIns q None = Some (find (code_entry_at q) (rev ps))"
  using assms skip_next_run [of q None ps] skip_prev_run [of q ps None]
  by (simp_all add: queue_is_def NextIns_def PrevIns_def)


section \<open>Labels and their references\<close>

abbreviation CODELABEL :: u32 where "CODELABEL \<equiv> 0x0001"
abbreviation SHORTREACH :: u32 where "SHORTREACH \<equiv> 0x0010"
abbreviation UNREACHABLE :: u32 where "UNREACHABLE \<equiv> 0x0400"

definition TstStatus :: "opt_state \<Rightarrow> u64 \<Rightarrow> u32 \<Rightarrow> bool" where
  "TstStatus q lbl stat \<longleftrightarrow> lbl_status (labels (o_tab (opt_out q)) lbl) AND stat \<noteq> 0"

definition SetStatus :: "u64 \<Rightarrow> u32 \<Rightarrow> opt_state \<Rightarrow> opt_state" where
  "SetStatus lbl stat q =
    (let st = opt_out q; E = o_tab st
     in q\<lparr>opt_out := st\<lparr>o_tab := E\<lparr>labels := (labels E)(lbl := (labels E lbl)
          \<lparr>lbl_status := lbl_status (labels E lbl) OR stat\<rparr>)\<rparr>\<rparr>\<rparr>)"

text \<open>
  \<open>_LblRef\<close> links the entries that refer to one label; \<open>DelRef\<close> takes one out, given the place the list
  starts at.
\<close>

datatype ref_owner = Head | RefOf nat

partial_function (option) find_owner :: "ins_heap \<Rightarrow> ref_owner \<Rightarrow> nat option \<Rightarrow> nat \<Rightarrow> ref_owner option" where
  "find_owner h owner cur instr = do {
     c \<leftarrow> cur;
     if c = instr then Some owner
     else do { e \<leftarrow> h c; find_owner h (RefOf c) (ins_ref e) instr }
   }"

definition DelRef :: "nat option \<Rightarrow> nat \<Rightarrow> ins_heap \<Rightarrow> (nat option \<times> ins_heap) option" where
  "DelRef head instr h = do {
     owner \<leftarrow> find_owner h Head head instr;
     e \<leftarrow> h instr;
     (case owner of
        Head \<Rightarrow> Some (ins_ref e, h)
      | RefOf c \<Rightarrow> do { f \<leftarrow> h c; Some (head, h(c \<mapsto> f\<lparr>ins_ref := ins_ref e\<rparr>)) })
   }"

partial_function (option) def_aliases :: "nat \<Rightarrow> u64 \<Rightarrow> opt_state \<Rightarrow> opt_state option" where
  "def_aliases instr lbl q =
    (let q = SetStatus lbl CODELABEL q;
         q = q\<lparr>lbl_ins := (lbl_ins q)(lbl := Some instr)\<rparr>
     in if lbl_alias q lbl = 0 then Some q else def_aliases instr (lbl_alias q lbl) q)"

definition AddLblDef :: "nat \<Rightarrow> opt_op" where
  "AddLblDef instr q = do {
     q \<leftarrow> upd_ins instr (\<lambda>e. e\<lparr>ins_ref := None\<rparr>) q;
     e \<leftarrow> entries q instr;
     def_aliases instr (oc_handle (ins_oc e)) q
   }"

definition AddLblRef :: "nat \<Rightarrow> opt_op" where
  "AddLblRef instr q = do {
     e \<leftarrow> entries q instr;
     let lbl = oc_handle (ins_oc e);
     (lbl, q) \<leftarrow>
       (case lbl_ins q lbl of
          None \<Rightarrow> Some (lbl, q)
        | Some i \<Rightarrow> do {
            d \<leftarrow> entries q i;
            let lbl = oc_handle (ins_oc d);
            q \<leftarrow> upd_ins instr (\<lambda>e. e\<lparr>ins_oc := (ins_oc e)\<lparr>oc_handle := lbl\<rparr>\<rparr>) q;
            Some (lbl, q)
          });
     q \<leftarrow> upd_ins instr (\<lambda>e. e\<lparr>ins_ref := lbl_refs q lbl\<rparr>) q;
     Some (q\<lparr>lbl_refs := (lbl_refs q)(lbl := Some instr)\<rparr>)
   }"

definition AddInstr :: "nat \<Rightarrow> nat option \<Rightarrow> opt_op" where
  "AddInstr instr insert_at q = do {
     q \<leftarrow> InsertQueue instr insert_at q;
     e \<leftarrow> entries q instr;
     (case oc_base (ins_oc e) of
        OC_LABEL \<Rightarrow> AddLblDef instr q
      | OC_LREF \<Rightarrow> AddLblRef instr q
      | OC_CALL \<Rightarrow> AddLblRef instr q
      | OC_JCOND \<Rightarrow> AddLblRef instr q
      | OC_JMP \<Rightarrow> AddLblRef instr q
      | OC_RET \<Rightarrow> do {
          q \<leftarrow> upd_ins instr (\<lambda>e. e\<lparr>ins_ref := RetList q\<rparr>) q;
          Some (q\<lparr>RetList := Some instr\<rparr>)
        }
      | OC_NORET \<Rightarrow> do {
          q \<leftarrow> upd_ins instr (\<lambda>e. e\<lparr>ins_ref := NoRetList q\<rparr>) q;
          Some (q\<lparr>NoRetList := Some instr\<rparr>)
        }
      | _ \<Rightarrow> Some q)
   }"

fun ref_chain :: "ins_heap \<Rightarrow> nat option \<Rightarrow> nat list \<Rightarrow> bool" where
  "ref_chain h p [] \<longleftrightarrow> p = None"
| "ref_chain h p (x # xs) \<longleftrightarrow> p = Some x \<and> (\<exists>e. h x = Some e \<and> ref_chain h (ins_ref e) xs)"

lemma ref_chain_frame: "(\<And>x. x \<in> set xs \<Longrightarrow> h' x = h x) \<Longrightarrow> ref_chain h' p xs = ref_chain h p xs"
  by (induction xs arbitrary: p) auto



lemma ref_chain_unique: "ref_chain h p xs \<Longrightarrow> distinct xs \<Longrightarrow> p = hd_opt xs None"
  by (cases xs) auto

lemma find_owner_run:
  "\<lbrakk>ref_chain h cur (as @ x # bs); x \<notin> set as\<rbrakk> \<Longrightarrow>
   find_owner h own cur x = Some (if as = [] then own else RefOf (last as))"
proof (induction "as" arbitrary: own cur)
  case Nil
  then show ?case by (simp add: find_owner.simps)
next
  case (Cons a "as")
  then show ?case by (subst find_owner.simps) auto
qed

lemma ref_chain_cut:
  "\<lbrakk>ref_chain h p (as @ c # x # bs); distinct (as @ c # x # bs); h c = Some f; h x = Some e\<rbrakk> \<Longrightarrow>
   ref_chain (h(c \<mapsto> f\<lparr>ins_ref := ins_ref e\<rparr>)) p (as @ c # bs)"
proof (induction "as" arbitrary: p)
  case Nil
  then have "ref_chain (h(c \<mapsto> f\<lparr>ins_ref := ins_ref e\<rparr>)) (ins_ref e) bs"
    by (subst ref_chain_frame [of _ _ h]) auto
  with Nil show ?case by (simp add: fun_upd_def)
qed (auto simp: fun_upd_def)

lemma DelRef_run:
  assumes "ref_chain h p xs" "distinct xs" "x \<in> set xs"
  shows "\<exists>p' h'. DelRef p x h = Some (p', h') \<and> ref_chain h' p' (remove1 x xs)"
proof -
  obtain as bs where xs: "xs = as @ x # bs" using assms(3) by (auto dest!: split_list)
  then have rem: "remove1 x xs = as @ bs" "x \<notin> set as" using assms(2) by (auto simp: remove1_append)
  have own: "find_owner h Head p x = Some (if as = [] then Head else RefOf (last as))"
    using assms(1) xs rem(2) by (intro find_owner_run) simp_all
  show ?thesis
  proof (cases as rule: rev_cases)
    case Nil
    then show ?thesis using assms(1) xs rem own by (auto simp: DelRef_def)
  next
    case (snoc cs c)
    have "\<exists>e. h y = Some e" if "ref_chain h p ys" "y \<in> set ys" for ys y p
      using that by (induction ys arbitrary: p) auto
    then obtain f e where fe: "h c = Some f" "h x = Some e" using assms(1) xs snoc by fastforce
    have "ref_chain (h(c \<mapsto> f\<lparr>ins_ref := ins_ref e\<rparr>)) p (cs @ c # bs)"
      by (rule ref_chain_cut [OF _ _ fe]) (use assms xs snoc in simp_all)
    then show ?thesis using fe own snoc rem by (simp add: DelRef_def)
  qed
qed

section \<open>Short branches\<close>

definition transfer_class :: "oc_base \<Rightarrow> bool" where
  "transfer_class c \<longleftrightarrow> c \<in> {OC_JMP, OC_JMPI, OC_RET, OC_NORET, OC_IDATA}"

definition MAX_SHORT_FWD :: u32 where "MAX_SHORT_FWD = 127"
definition MAX_SHORT_BWD :: u32 where "MAX_SHORT_BWD = 126"

definition Jmp_to_lbl :: "u64 \<Rightarrow> any_oc \<Rightarrow> bool" where
  "Jmp_to_lbl handle oc \<longleftrightarrow> oc_base oc = OC_JMP \<and> oc_handle oc = handle"

text \<open>
  The result of \<open>CanReach\<close> and what it leaves in \<open>add_ptr\<close> and \<open>jmp_ptr\<close>; with the result \<open>true\<close> it leaves them
  alone, here \<open>None\<close>.  \<open>handle\<close> is the variable \<open>Handle\<close> of the file.
\<close>

type_synonym reach_result = "bool \<times> nat option \<times> nat option"

definition note_jump :: "u64 \<Rightarrow> nat \<Rightarrow> any_oc \<Rightarrow> nat option \<times> nat option \<Rightarrow> nat option \<times> nat option" where
  "note_jump handle i oc = (\<lambda>(add, jmp).
     if Jmp_to_lbl handle oc then (add, Some i)
     else if transfer_class (oc_base oc) then (Some i, jmp) else (add, jmp))"

partial_function (option) reach_scan ::
    "opt_state \<Rightarrow> u64 \<Rightarrow> nat option \<Rightarrow> u32 \<Rightarrow> nat option \<times> nat option \<Rightarrow> reach_result option" where
  "reach_scan q handle instr obj_len seen =
    (case instr of
       None \<Rightarrow> Some (False, seen)
     | Some i \<Rightarrow> do {
         e \<leftarrow> entries q i;
         let oc = ins_oc e;
         let obj_len = obj_len + ucast (objlen oc);
         if MAX_SHORT_FWD < obj_len then Some (False, seen)
         else do {
           let seen = note_jump handle i oc seen;
           if lbl_ins q handle = Some i then Some (True, None, None)
           else do {
             instr \<leftarrow> NextIns q (Some i);
             reach_scan q handle instr obj_len seen
           }
         }
       })"

definition CanReach :: "cg_target \<Rightarrow> opt_state \<Rightarrow> u64 \<Rightarrow> u64 \<Rightarrow> reach_result option" where
  "CanReach T q handle lbl =
    (let addr = AskAddress (o_tab (opt_out q)) lbl
     in if TstStatus q lbl UNREACHABLE then Some (False, None, None)
        else if addr = ADDR_UNKNOWN then
          if TstStatus q lbl SHORTREACH then Some (True, None, None)
          else do {
            first \<leftarrow> FirstIns q;
            instr \<leftarrow> NextIns q (Some first);
            reach_scan q handle instr (ucast (OptInsSize T OC_JMP OC_DEST_SHORT)) (None, None)
          }
        else if o_loc (opt_out q) - addr \<le> MAX_SHORT_BWD then Some (True, None, None)
        else Some (False, None, None))"

definition make_short :: "cg_target \<Rightarrow> any_oc \<Rightarrow> any_oc" where
  "make_short T oc = oc\<lparr>objlen := OptInsSize T (oc_base oc) OC_DEST_SHORT,
     oc_base := (if oc_base oc = OC_JMP then OC_JMP else OC_JCOND),
     attr_far := False, attr_short := False, attr_pop := False\<rparr>"

definition SetShort :: "cg_target \<Rightarrow> opt_op" where
  "SetShort T q = do {
     first \<leftarrow> FirstIns q;
     q \<leftarrow> upd_ins first (\<lambda>e. e\<lparr>ins_oc := make_short T (ins_oc e)\<rparr>) q;
     e \<leftarrow> entries q first;
     (case lbl_ins q (oc_handle (ins_oc e)) of
        None \<Rightarrow> Some q
      | Some l \<Rightarrow> upd_ins l (\<lambda>e. e\<lparr>ins_oc := (ins_oc e)\<lparr>attr_short := True\<rparr>\<rparr>) q)
   }"

fun reach_list :: "u64 \<Rightarrow> nat option \<Rightarrow> (nat \<times> any_oc) list \<Rightarrow> u32 \<Rightarrow> nat option \<times> nat option \<Rightarrow> reach_result" where
  "reach_list handle l [] n seen = (False, seen)"
| "reach_list handle l ((i, oc) # es) n seen =
    (let n = n + ucast (objlen oc)
     in if MAX_SHORT_FWD < n then (False, seen)
        else if l = Some i then (True, None, None)
        else reach_list handle l es n (note_jump handle i oc seen))"

definition live_entries :: "opt_state \<Rightarrow> nat list \<Rightarrow> (nat \<times> any_oc) list" where
  "live_entries q ps = map (\<lambda>i. (i, oc_at q i)) (filter (code_entry_at q) ps)"

lemma reach_scan_run:
  assumes "queue_is q (as @ bs)" "\<forall>x \<in> set bs. oc_base (oc_at q x) \<noteq> OC_DEAD"
  shows "reach_scan q handle (find (code_entry_at q) bs) n seen =
     Some (reach_list handle (lbl_ins q handle) (live_entries q bs) n seen)"
  using assms
proof (induction bs arbitrary: "as" n seen)
  case Nil
  then show ?case by (simp add: reach_scan.simps live_entries_def)
next
  case (Cons b bs)
  have IH: "reach_scan q handle (find (code_entry_at q) bs) n seen =
      Some (reach_list handle (lbl_ins q handle) (live_entries q bs) n seen)" for n seen
    using Cons.IH [of "as @ [b]"] Cons.prems by simp
  show ?case
  proof (cases "code_entry_at q b")
    case False
    then show ?thesis using IH by (simp add: live_entries_def)
  next
    case True
    obtain e where e: "entries q b = Some e" using queue_at [OF Cons.prems(1)] by blast
    have next_b: "NextIns q (Some b) = Some (find (code_entry_at q) bs)"
      by (rule NextIns_run [OF Cons.prems(1)]) (use Cons.prems(2) in simp)
    have "oc_at q b = ins_oc e" by (simp add: oc_at_def e)
    with True e next_b IH show ?thesis
      by (subst (1) find.simps, subst reach_scan.simps) (simp add: live_entries_def Let_def)
  qed
qed


definition entries_size :: "(nat \<times> any_oc) list \<Rightarrow> nat" where
  "entries_size es = sum_list (map (\<lambda>(i, oc). unat (objlen oc)) es)"

lemma entries_size_simps [simp]:
  "entries_size [] = 0" "entries_size ((i, oc) # es) = unat (objlen oc) + entries_size es"
  "entries_size (es @ fs) = entries_size es + entries_size fs"
  by (simp_all add: entries_size_def)

lemma unat_u8_u32: "unat (ucast (b :: u8) :: u32) = unat b"
  by (simp add: unsigned_ucast_eq take_bit_nat_eq_self less_trans [OF unat_u8_lt])

lemma reach_list_iff:
  assumes "unat n \<le> 127" "distinct (map fst es)"
  shows "fst (reach_list handle l es n seen) \<longleftrightarrow>
     (\<exists>ms x oc rest. es = ms @ (x, oc) # rest \<and> l = Some x \<and> unat n + entries_size ms + unat (objlen oc) \<le> 127)"
  using assms
proof (induction es arbitrary: n seen)
  case Nil
  then show ?case by simp
next
  case (Cons e es)
  obtain i oc where e: "e = (i, oc)" by (cases e)
  let ?n = "n + ucast (objlen oc)"
  have "unat (ucast (objlen oc) :: u32) = unat (objlen oc)" by (rule unat_u8_u32)
  moreover have "unat n + unat (objlen oc) < 4294967296"
    using Cons.prems(1) unat_u8_lt [of "objlen oc"] by linarith
  ultimately have n: "unat ?n = unat n + unat (objlen oc)"
    by (subst unat_add_lem [THEN iffD1]) simp_all
  have far: "MAX_SHORT_FWD < ?n \<longleftrightarrow> 127 < unat ?n"
    by (simp add: MAX_SHORT_FWD_def word_less_nat_alt)
  let ?P = "\<lambda>ms x oc' rest. (i, oc) # es = ms @ (x, oc') # rest \<and> l = Some x \<and>
      unat n + entries_size ms + unat (objlen oc') \<le> 127"
  have here: "(\<exists>ms x oc' rest. ?P ms x oc' rest) \<longleftrightarrow> (l = Some i \<and> unat ?n \<le> 127) \<or>
      (\<exists>ms x oc' rest. es = ms @ (x, oc') # rest \<and> l = Some x \<and> unat ?n + entries_size ms + unat (objlen oc') \<le> 127)"
    (is "?L \<longleftrightarrow> ?R1 \<or> ?R2")
  proof
    assume ?L
    then obtain ms x oc' rest where P: "?P ms x oc' rest" by blast
    then show "?R1 \<or> ?R2"
    proof (cases ms)
      case Nil
      then show ?thesis using P n by simp
    next
      case (Cons a ms')
      then have "es = ms' @ (x, oc') # rest \<and> l = Some x \<and> unat ?n + entries_size ms' + unat (objlen oc') \<le> 127"
        using P n by auto
      then show ?thesis by blast
    qed
  next
    assume "?R1 \<or> ?R2"
    then show ?L
    proof
      assume ?R1
      then have "?P [] i oc es" using n by simp
      then show ?thesis by blast
    next
      assume ?R2
      then obtain ms x oc' rest where "es = ms @ (x, oc') # rest" "l = Some x"
        "unat ?n + entries_size ms + unat (objlen oc') \<le> 127" by blast
      then have "?P ((i, oc) # ms) x oc' rest" using n by simp
      then show ?thesis by blast
    qed
  qed
  show ?case
  proof (cases "unat ?n \<le> 127")
    case False
    then show ?thesis unfolding e here using far by (auto simp: Let_def)
  next
    case True
    have "i \<notin> fst ` set es" using Cons.prems(2) e by simp
    have IH: "fst (reach_list handle l es ?n s) \<longleftrightarrow>
        (\<exists>ms x oc' rest. es = ms @ (x, oc') # rest \<and> l = Some x \<and> unat ?n + entries_size ms + unat (objlen oc') \<le> 127)" for s
      by (rule Cons.IH [OF True]) (use Cons.prems(2) in simp)
    show ?thesis
      unfolding e here using True far IH by (cases "l = Some i") (simp_all add: Let_def)
  qed
qed

lemma live_entries_simps [simp]:
  "live_entries q [] = []" "live_entries q (as @ bs) = live_entries q as @ live_entries q bs"
  "live_entries q (x # as) = (if code_entry_at q x then [(x, oc_at q x)] else []) @ live_entries q as"
  by (simp_all add: live_entries_def)

lemma live_entries_split:
  assumes "live_entries q ps = ms @ (x, oc) # rest"
  shows "\<exists>as bs. ps = as @ x # bs \<and> ms = live_entries q as \<and> code_entry_at q x \<and> oc = oc_at q x"
  using assms
proof (induction ps arbitrary: ms)
  case (Cons p ps)
  show ?case
  proof (cases "code_entry_at q p")
    case False
    with Cons obtain as bs where "ps = as @ x # bs" "ms = live_entries q as" "code_entry_at q x" "oc = oc_at q x"
      by auto
    with False have "p # ps = (p # as) @ x # bs \<and> ms = live_entries q (p # as) \<and> code_entry_at q x \<and> oc = oc_at q x"
      by simp
    then show ?thesis by blast
  next
    case True
    show ?thesis
    proof (cases ms)
      case Nil
      then have "p # ps = [] @ x # ps \<and> ms = live_entries q [] \<and> code_entry_at q x \<and> oc = oc_at q x"
        using True Cons.prems by auto
      then show ?thesis by blast
    next
      case (Cons a ms')
      with True Cons.prems Cons.IH [of ms'] obtain as bs where
        "ps = as @ x # bs" "ms' = live_entries q as" "code_entry_at q x" "oc = oc_at q x" "a = (p, oc_at q p)"
        by auto
      with True Cons have "p # ps = (p # as) @ x # bs \<and> ms = live_entries q (p # as) \<and> code_entry_at q x \<and> oc = oc_at q x"
        by simp
      then show ?thesis by blast
    qed
  qed
qed simp

lemma short_jump_size: "OptInsSize T OC_JMP OC_DEST_SHORT = 2" "OptInsSize T OC_JCOND OC_DEST_SHORT = 2"
  by (simp_all add: OptInsSize_values)

text \<open>
  The scan as a whole.  The answer depends on \<open>lbl\<close> only through its status: the scan looks for the label
  of \<open>Handle\<close>.
\<close>

lemma CanReach_scan:
  assumes q: "queue_is q (p # ps)" and live: "\<forall>x \<in> set (p # ps). oc_base (oc_at q x) \<noteq> OC_DEAD"
    and lbl: "AskAddress (o_tab (opt_out q)) lbl = ADDR_UNKNOWN" "\<not> TstStatus q lbl UNREACHABLE"
      "\<not> TstStatus q lbl SHORTREACH"
  shows "CanReach T q handle lbl = Some (reach_list handle (lbl_ins q handle) (live_entries q ps) 2 (None, None))"
proof -
  have first: "FirstIns q = Some p" using q by (simp add: queue_is_def)
  have "NextIns q (Some p) = Some (find (code_entry_at q) ps)"
    using NextIns_run [of q "[]" p ps] q live by simp
  moreover have "reach_scan q handle (find (code_entry_at q) ps) 2 (None, None) =
      Some (reach_list handle (lbl_ins q handle) (live_entries q ps) 2 (None, None))"
    using reach_scan_run [of q "[p]" ps] q live by simp
  ultimately show ?thesis
    using lbl first by (simp add: CanReach_def short_jump_size Let_def)
qed

lemma CanReach_iff:
  assumes "queue_is q (p # ps)" "\<forall>x \<in> set (p # ps). oc_base (oc_at q x) \<noteq> OC_DEAD"
    and "AskAddress (o_tab (opt_out q)) lbl = ADDR_UNKNOWN" "\<not> TstStatus q lbl UNREACHABLE"
      "\<not> TstStatus q lbl SHORTREACH"
  shows "\<exists>b seen. CanReach T q handle lbl = Some (b, seen) \<and>
     (b \<longleftrightarrow> (\<exists>as x bs. ps = as @ x # bs \<and> lbl_ins q handle = Some x \<and> code_entry_at q x \<and>
                 2 + entries_size (live_entries q as) + unat (objlen (oc_at q x)) \<le> 127))"
proof -
  let ?r = "reach_list handle (lbl_ins q handle) (live_entries q ps) 2 (None, None)"
  have "distinct (map fst (live_entries q ps))"
    using queue_distinct [OF assms(1)] by (simp add: live_entries_def comp_def)
  then have "fst ?r \<longleftrightarrow> (\<exists>ms x oc rest. live_entries q ps = ms @ (x, oc) # rest \<and> lbl_ins q handle = Some x \<and>
      2 + entries_size ms + unat (objlen oc) \<le> 127)"
    by (subst reach_list_iff) simp_all
  also have "\<dots> \<longleftrightarrow> (\<exists>as x bs. ps = as @ x # bs \<and> lbl_ins q handle = Some x \<and> code_entry_at q x \<and>
                 2 + entries_size (live_entries q as) + unat (objlen (oc_at q x)) \<le> 127)" (is "?A \<longleftrightarrow> ?B")
  proof
    assume ?A
    then obtain ms x oc rest where m: "live_entries q ps = ms @ (x, oc) # rest" "lbl_ins q handle = Some x"
      "2 + entries_size ms + unat (objlen oc) \<le> 127" by blast
    with live_entries_split [OF m(1)] show ?B by blast
  next
    assume ?B
    then obtain as x bs where "ps = as @ x # bs" "lbl_ins q handle = Some x" "code_entry_at q x"
      "2 + entries_size (live_entries q as) + unat (objlen (oc_at q x)) \<le> 127" by blast
    then show ?A
      by (intro exI [of _ "live_entries q as"] exI [of _ x] exI [of _ "oc_at q x"] exI [of _ "live_entries q bs"]) simp
  qed
  finally show ?thesis
    using CanReach_scan [OF assms] by (cases ?r) simp
qed

lemma second_scan_same:
  assumes "queue_is q (p # ps)" "\<forall>x \<in> set (p # ps). oc_base (oc_at q x) \<noteq> OC_DEAD"
    and "list_all (\<lambda>l. AskAddress (o_tab (opt_out q)) l = ADDR_UNKNOWN \<and> \<not> TstStatus q l UNREACHABLE \<and>
           \<not> TstStatus q l SHORTREACH) [handle, lbl]"
  shows "CanReach T q handle lbl = CanReach T q handle handle"
  using assms CanReach_scan [OF assms(1,2), of lbl T handle] CanReach_scan [OF assms(1,2), of handle T handle]
  by simp


section \<open>Short branches reach\<close>

text \<open>
  The entries leave the queue in order.  This is the inner part of \<open>PullQueue\<close>, for labels without aliases:
  the byte that \<open>InputOC\<close> adds to the length of a unique label is taken off again.
\<close>

definition pulled_oc :: "out_state \<Rightarrow> any_oc \<Rightarrow> any_oc" where
  "pulled_oc st oc =
    (if oc_base oc = OC_LABEL \<and> AskIfUniqueLabel (o_tab st) (oc_handle oc)
     then oc\<lparr>objlen := objlen oc - 1\<rparr> else oc)"

definition next_label :: "any_oc list \<Rightarrow> any_oc option" where
  "next_label ocs =
    (case dropWhile (\<lambda>oc. oc_base oc = OC_INFO) ocs of
       [] \<Rightarrow> None
     | oc # _ \<Rightarrow> if oc_base oc = OC_LABEL then Some oc else None)"

fun output_run :: "cg_target \<Rightarrow> out_state \<Rightarrow> any_oc list \<Rightarrow> out_state option" where
  "output_run T st [] = Some st"
| "output_run T st (oc # ocs) = do {
     (st, _) \<leftarrow> OutputOC T st (pulled_oc st oc) (next_label ocs);
     output_run T st ocs
   }"

definition status_like :: "cg_tables \<Rightarrow> cg_tables \<Rightarrow> bool" where
  "status_like E E' \<longleftrightarrow> (\<forall>l. lbl_status (labels E' l) AND NOT 2 = lbl_status (labels E l) AND NOT 2)"

lemma status_like_refl [simp]: "status_like E E"
  by (simp add: status_like_def)

lemma status_like_trans: "status_like E E' \<Longrightarrow> status_like E' E'' \<Longrightarrow> status_like E E''"
  by (simp add: status_like_def)

lemma status_like_tell [simp]: "status_like E (TellAddress l a E)" "status_like E (tell_keep l E)"
proof -
  show "status_like E (TellAddress l a E)" by (simp add: status_like_def TellAddress_def)
  have "(x OR 2) AND NOT 2 = x AND NOT (2 :: u32)" for x
    by (rule bit_word_eqI) (auto simp: bit_simps)
  then show "status_like E (tell_keep l E)" by (simp add: status_like_def tell_keep_def)
qed

lemma status_like_bit:
  assumes "status_like E E'" "b AND 2 = (0 :: u32)"
  shows "lbl_status (labels E' l) AND b = lbl_status (labels E l) AND b"
proof -
  have "x AND b = (x AND NOT 2) AND b" for x :: u32
  proof (rule bit_word_eqI)
    fix n assume "n < LENGTH(32)"
    have "\<not> (bit b n \<and> bit (2 :: u32) n)" using assms(2) by (metis bit_0_eq bit_and_iff bot_apply bot_bool_def)
    then show "bit (x AND b) n = bit ((x AND NOT 2) AND b) n"
      using \<open>n < LENGTH(32)\<close> by (auto simp: bit_simps)
  qed
  with assms(1) show ?thesis unfolding status_like_def by metis
qed

lemma status_like_asks:
  assumes "status_like E E'"
  shows "AskIfUniqueLabel E' l = AskIfUniqueLabel E l" "AskIfCommonLabel E' l = AskIfCommonLabel E l"
    "AskIfRTLabel E' l = AskIfRTLabel E l"
  unfolding AskIfUniqueLabel_def AskIfCommonLabel_def AskIfRTLabel_def
  by (subst status_like_bit [OF assms], simp_all)+

lemma status_like_ok: "status_like E E' \<Longrightarrow> oc_ok T E' oc = oc_ok T E oc"
  by (simp add: oc_ok_def status_like_asks split: oc_base.splits)

lemma output_keeps_status:
  "OutputOC T st oc nl = Some (st', cs) \<Longrightarrow> status_like (o_tab st) (o_tab st')"
  by (cases "oc_base oc"; cases "oc_info oc")
     (auto simp: OutputOC_def output_switch_def output_label_def output_indirect_def output_info_def Let_def
        bind_eq_Some_conv case_prod_unfold split: if_splits option.splits)


definition entry_fine :: "cg_target \<Rightarrow> cg_tables \<Rightarrow> any_oc \<Rightarrow> bool" where
  "entry_fine T E oc \<longleftrightarrow>
     (if oc_base oc = OC_LABEL then \<not> (AskIfUniqueLabel E (oc_handle oc) \<and> objlen oc = 0)
      else oc_base oc \<noteq> OC_IDATA \<and> oc_ok T E oc)"

lemma fine_like: "status_like E E' \<Longrightarrow> entry_fine T E' oc = entry_fine T E oc"
  by (simp add: entry_fine_def status_like_asks status_like_ok)

lemma label_pad_bound:
  assumes "oc_base oc = OC_LABEL" "entry_fine T (o_tab st) oc"
  shows "unat (fst (label_pad st (pulled_oc st oc))) \<le> unat (objlen oc)"
proof -
  have le: "unat (x AND ucast b) \<le> unat (b :: u8)" for x :: u32 and b
    using word_and_le1 [of x "ucast b"] by (simp add: word_le_nat_alt unat_u8_u32)
  show ?thesis
  proof (cases "AskIfUniqueLabel (o_tab st) (oc_handle oc)")
    case False
    then show ?thesis using assms(1) le [of _ "objlen oc"] by (simp add: pulled_oc_def label_pad_def Let_def)
  next
    case True
    let ?b = "objlen oc - 1"
    have "objlen oc \<noteq> 0" using assms True by (simp add: entry_fine_def)
    then have b: "unat ?b + 1 = unat (objlen oc)"
      by (metis Suc_eq_plus1 Suc_pred' unat_minus_one unat_gt_0)
    have "unat ?b + 1 < 4294967296" using unat_u8_lt [of ?b] by linarith
    then have "unat (ucast ?b + 1 :: u32) = unat ?b + 1"
      by (subst unat_add_lem [THEN iffD1]) (simp_all add: unat_u8_u32)
    then show ?thesis
      using True assms(1) le [of "- o_loc st" ?b] b by (simp add: pulled_oc_def label_pad_def Let_def)
  qed
qed

lemma OutputOC_exact:
  assumes "entry_fine T (o_tab st) oc" "oc_base oc \<noteq> OC_LABEL"
  shows "\<exists>st' cs. OutputOC T st (pulled_oc st oc) nl = Some (st', cs) \<and> o_loc st' = o_loc st + ucast (objlen oc)"
proof -
  have p: "pulled_oc st oc = oc" "oc_base oc \<noteq> OC_IDATA" "oc_ok T (o_tab st) oc"
    using assms by (simp_all add: pulled_oc_def entry_fine_def)
  show ?thesis
  proof (cases "oc_base oc = OC_NORET")
    case True
    then show ?thesis using p by (auto simp: OutputOC_def oc_ok_def)
  next
    case noret: False
    have "advances (fst (DumpSavedDebug st)) oc (output_switch T (fst (DumpSavedDebug st)) oc nl)"
      by (rule output_switch_advances) (use p noret in simp_all)
    then show ?thesis
      using noret assms(2) p(1) by (auto simp: advances_def OutputOC_def Let_def case_prod_unfold)
  qed
qed

lemma OutputOC_bound:
  assumes "entry_fine T (o_tab st) oc"
  shows "\<exists>st' cs d. OutputOC T st (pulled_oc st oc) nl = Some (st', cs) \<and> status_like (o_tab st) (o_tab st') \<and>
     o_loc st' = o_loc st + word_of_nat d \<and> d \<le> unat (objlen oc) \<and>
     (oc_base oc = OC_INFO \<longrightarrow> d = 0) \<and>
     (oc_base oc = OC_LABEL \<longrightarrow> AskAddress (o_tab st') (oc_handle oc) = o_loc st')"
proof (cases "oc_base oc = OC_LABEL")
  case True
  have lbl: "oc_base (pulled_oc st oc) = OC_LABEL" "oc_handle (pulled_oc st oc) = oc_handle oc"
    using True by (simp_all add: pulled_oc_def)
  from OutputOC_label [OF lbl(1), of T st nl] obtain st' cs where
    o: "OutputOC T st (pulled_oc st oc) nl = Some (st', cs)" and
    l: "o_loc st' = o_loc st + fst (label_pad st (pulled_oc st oc))"
       "AskAddress (o_tab st') (oc_handle oc) = o_loc st'"
    unfolding lbl(2) by blast
  then show ?thesis
    using label_pad_bound [OF True assms] output_keeps_status [OF o] True
    by (intro exI [of _ st'] exI [of _ cs] exI [of _ "unat (fst (label_pad st (pulled_oc st oc)))"]) simp
next
  case False
  from OutputOC_exact [OF assms False, of nl] obtain st' cs where
    o: "OutputOC T st (pulled_oc st oc) nl = Some (st', cs)" "o_loc st' = o_loc st + ucast (objlen oc)" by blast
  have "(ucast (objlen oc) :: u32) = word_of_nat (unat (objlen oc))" by simp
  with o(2) have loc: "o_loc st' = o_loc st + word_of_nat (unat (objlen oc))" by (simp only:)
  have info: "oc_base oc = OC_INFO \<Longrightarrow> unat (objlen oc) = 0"
    using assms by (simp add: entry_fine_def oc_ok_def)
  show ?thesis
  proof (intro exI conjI)
    show "OutputOC T st (pulled_oc st oc) nl = Some (st', cs)" by (rule o(1))
    show "status_like (o_tab st) (o_tab st')" using output_keeps_status [OF o(1)] .
    show "o_loc st' = o_loc st + word_of_nat (unat (objlen oc))" by (rule loc)
    show "unat (objlen oc) \<le> unat (objlen oc)" by simp
    show "oc_base oc = OC_INFO \<longrightarrow> unat (objlen oc) = 0" using info by blast
    show "oc_base oc = OC_LABEL \<longrightarrow> AskAddress (o_tab st') (oc_handle oc) = o_loc st'" using False by blast
  qed
qed

definition live_size :: "any_oc list \<Rightarrow> nat" where
  "live_size ocs = sum_list (map (\<lambda>oc. if oc_base oc = OC_INFO then 0 else unat (objlen oc)) ocs)"

lemma output_run_bound:
  assumes "list_all (entry_fine T (o_tab st)) (ocs @ [l])" "oc_base l = OC_LABEL"
  shows "\<exists>st' d. output_run T st (ocs @ [l]) = Some st' \<and> d \<le> live_size (ocs @ [l]) \<and>
     o_loc st' = o_loc st + word_of_nat d \<and> AskAddress (o_tab st') (oc_handle l) = o_loc st'"
  using assms
proof (induction ocs arbitrary: st)
  case Nil
  then have "entry_fine T (o_tab st) l" by simp
  from OutputOC_bound [OF this, of None] Nil(2) show ?case
    by (auto simp: next_label_def live_size_def)
next
  case (Cons oc ocs)
  let ?nl = "next_label (ocs @ [l])"
  from Cons.prems have "entry_fine T (o_tab st) oc" by simp
  from OutputOC_bound [OF this, of ?nl] obtain st1 cs d where
    1: "OutputOC T st (pulled_oc st oc) ?nl = Some (st1, cs)" "status_like (o_tab st) (o_tab st1)"
       "o_loc st1 = o_loc st + word_of_nat d" "d \<le> unat (objlen oc)" "oc_base oc = OC_INFO \<longrightarrow> d = 0"
    by blast
  have "list_all (entry_fine T (o_tab st1)) (ocs @ [l])"
  proof -
    have "entry_fine T (o_tab st1) = entry_fine T (o_tab st)" by (rule ext) (rule fine_like [OF 1(2)])
    then show ?thesis using Cons.prems(1) by simp
  qed
  from Cons.IH [OF this Cons.prems(2)] obtain st' d' where
    2: "output_run T st1 (ocs @ [l]) = Some st'" "d' \<le> live_size (ocs @ [l])"
       "o_loc st' = o_loc st1 + word_of_nat d'" "AskAddress (o_tab st') (oc_handle l) = o_loc st'" by blast
  have "d + d' \<le> live_size ((oc # ocs) @ [l])" using 1(4,5) 2(2) by (auto simp: live_size_def)
  moreover have "o_loc st' = o_loc st + word_of_nat (d + d')" using 1(3) 2(3) by simp
  ultimately show ?case using 1(1) 2(1,4) by auto
qed


lemma SetShort_run:
  assumes q: "queue_is q (p # ps)" and x: "x \<in> set ps" "lbl_ins q (oc_handle (oc_at q p)) = Some x"
  shows "\<exists>q'. SetShort T q = Some q' \<and> opt_out q' = opt_out q \<and> oc_at q' p = make_short T (oc_at q p) \<and>
     oc_at q' x = (oc_at q x)\<lparr>attr_short := True\<rparr> \<and> (\<forall>i. i \<noteq> p \<and> i \<noteq> x \<longrightarrow> oc_at q' i = oc_at q i)"
proof -
  obtain e f where ef: "entries q p = Some e" "entries q x = Some f"
    using queue_alive [OF q, of p] queue_alive [OF q, of x] x(1) by auto
  have "x \<noteq> p" using queue_distinct [OF q] x(1) by auto
  then show ?thesis
    using q x(2) ef
    by (auto simp: SetShort_def queue_is_def upd_ins_def oc_at_def make_short_def)
qed

lemma live_size_entries:
  "live_size (map (oc_at q) as) = entries_size (live_entries q as)"
  by (induction "as") (simp_all add: live_size_def code_entry_at_def)

lemma make_short_fine:
  assumes "oc_base oc = OC_JMP \<or> oc_base oc = OC_JCOND" "cpu386 T" "oc_cond oc < 16"
  shows "entry_fine T E (make_short T oc) \<and> objlen (make_short T oc) = 2 \<and>
     oc_base (make_short T oc) \<notin> {OC_LABEL, OC_INFO}"
proof -
  have "cj_ok T (make_short T oc) OC_DEST_SHORT"
    using assms by (auto simp: cj_ok_def cj_forms_def make_short_def)
  then show ?thesis
    using assms by (auto simp: entry_fine_def oc_ok_def make_short_def short_jump_size)
qed

lemma short_branch_output:
  assumes j: "entry_fine T (o_tab st0) j" "objlen j = 2" "oc_base j \<noteq> OC_LABEL"
    and rest: "list_all (entry_fine T (o_tab st0)) (ocs @ [l])" "oc_base l = OC_LABEL"
  shows "\<exists>st d. output_run T st0 (j # ocs @ [l]) = Some st \<and> d \<le> live_size (ocs @ [l]) \<and>
     AskAddress (o_tab st) (oc_handle l) = o_loc st0 + 2 + word_of_nat d"
proof -
  obtain st1 cs where 1: "OutputOC T st0 (pulled_oc st0 j) (next_label (ocs @ [l])) = Some (st1, cs)"
      "o_loc st1 = o_loc st0 + 2"
    using OutputOC_exact [OF j(1,3), of "next_label (ocs @ [l])"] j(2) by auto
  have "status_like (o_tab st0) (o_tab st1)"
    using output_keeps_status [OF 1(1)] .
  then have "entry_fine T (o_tab st1) = entry_fine T (o_tab st0)" by (intro ext fine_like)
  then have "list_all (entry_fine T (o_tab st1)) (ocs @ [l])" using rest(1) by simp
  from output_run_bound [OF this rest(2)] obtain st d where
    2: "output_run T st1 (ocs @ [l]) = Some st" "d \<le> live_size (ocs @ [l])"
       "o_loc st = o_loc st1 + word_of_nat d" "AskAddress (o_tab st) (oc_handle l) = o_loc st" by blast
  then show ?thesis
    using 1 by (intro exI [of _ st] exI [of _ d]) simp
qed

text \<open>
  C19. A branch that \<open>CanReach\<close> lets be short reaches its label: if the label at the head of a forward
  branch is not placed yet, the scan of the queue says yes, and the entries up to the label leave the queue as they
  stand after \<open>SetShort\<close>, with whatever padding the labels among them need, then the label is placed at
  most 125 bytes after the end of the two-byte branch.
\<close>

theorem short_branch_reaches:
  assumes q: "queue_is q (p # ps)" and live: "list_all (\<lambda>i. oc_base (oc_at q i) \<noteq> OC_DEAD) (p # ps)"
    and lbl: "AskAddress (o_tab (opt_out q)) lbl = ADDR_UNKNOWN" "\<not> TstStatus q lbl UNREACHABLE"
      "\<not> TstStatus q lbl SHORTREACH"
    and jump: "oc_base (oc_at q p) = OC_JMP \<or> oc_base (oc_at q p) = OC_JCOND" "oc_handle (oc_at q p) = lbl"
      "oc_cond (oc_at q p) < 16" "cpu386 T"
    and label: "lbl_ins q lbl = Some x" "oc_base (oc_at q x) = OC_LABEL" "oc_handle (oc_at q x) = lbl"
    and fine: "list_all (\<lambda>i. entry_fine T (o_tab (opt_out q)) (oc_at q i)) ps"
    and reach: "CanReach T q lbl lbl = Some (True, seen)"
  shows "\<exists>q' as bs st d. SetShort T q = Some q' \<and> ps = as @ x # bs \<and>
     output_run T (opt_out q') (map (oc_at q') (p # as @ [x])) = Some st \<and> d \<le> 125 \<and>
     AskAddress (o_tab st) lbl = o_loc (opt_out q) + 2 + word_of_nat d"
proof -
  have dead: "\<forall>i \<in> set (p # ps). oc_base (oc_at q i) \<noteq> OC_DEAD" using live by (simp add: list_all_iff)
  obtain as bs where ps: "ps = as @ x # bs" and sz: "2 + entries_size (live_entries q as) + unat (objlen (oc_at q x)) \<le> 127"
    using CanReach_iff [OF q dead lbl, of T lbl] reach label(1) by auto
  obtain q' where q': "SetShort T q = Some q'" "opt_out q' = opt_out q" "oc_at q' p = make_short T (oc_at q p)"
      "oc_at q' x = (oc_at q x)\<lparr>attr_short := True\<rparr>" "\<And>i. i \<noteq> p \<Longrightarrow> i \<noteq> x \<Longrightarrow> oc_at q' i = oc_at q i"
    using SetShort_run [OF q, of x T] ps label(1) jump(2) by auto
  have "oc_at q' i = oc_at q i" if "i \<in> set as" for i
    using that queue_distinct [OF q] ps by (intro q'(5)) auto
  then have run: "map (oc_at q') (p # as @ [x]) =
      make_short T (oc_at q p) # map (oc_at q) as @ [(oc_at q x)\<lparr>attr_short := True\<rparr>]"
    using q'(3,4) by simp
  let ?j = "make_short T (oc_at q p)" and ?l = "(oc_at q x)\<lparr>attr_short := True\<rparr>"
  have lb: "oc_base ?l = OC_LABEL" "oc_handle ?l = lbl" "entry_fine T (o_tab (opt_out q)) ?l"
    using label fine ps by (simp_all add: entry_fine_def)
  then have "list_all (entry_fine T (o_tab (opt_out q))) (map (oc_at q) as @ [?l])"
    using fine ps by (simp add: list_all_iff)
  from short_branch_output [OF _ _ _ this lb(1), of ?j] make_short_fine [OF jump(1,4,3)]
  obtain st d where 2: "output_run T (opt_out q) (?j # map (oc_at q) as @ [?l]) = Some st"
      "d \<le> live_size (map (oc_at q) as @ [?l])" "AskAddress (o_tab st) lbl = o_loc (opt_out q) + 2 + word_of_nat d"
    unfolding lb(2) by blast
  have "live_size (map (oc_at q) as @ [?l]) = entries_size (live_entries q as) + unat (objlen (oc_at q x))"
    using live_size_entries [of q as] label(2) by (simp add: live_size_def)
  then have "d \<le> 125" using 2(2) sz by linarith
  then show ?thesis
    using q'(1,2) ps 2(1,3) run by metis
qed


text \<open>
  A backward branch is short when its label lies at most 126 bytes before it, which is 128 before its end.
\<close>

lemma backward_branch_reaches:
  assumes "AskAddress (o_tab (opt_out q)) lbl \<noteq> ADDR_UNKNOWN" "CanReach T q handle lbl = Some (True, seen)"
  shows "AskAddress (o_tab (opt_out q)) lbl - (o_loc (opt_out q) + 2) = - word_of_nat (unat (o_loc (opt_out q) - AskAddress (o_tab (opt_out q)) lbl) + 2) \<and>
    unat (o_loc (opt_out q) - AskAddress (o_tab (opt_out q)) lbl) + 2 \<le> 128"
proof -
  have "o_loc (opt_out q) - AskAddress (o_tab (opt_out q)) lbl \<le> 126"
    using assms by (simp add: CanReach_def MAX_SHORT_BWD_def Let_def split: if_splits)
  then show ?thesis by (simp add: word_le_nat_alt)
qed

section \<open>Specimens\<close>

definition sample_entry :: "nat option \<Rightarrow> nat option \<Rightarrow> any_oc \<Rightarrow> ins_entry" where
  "sample_entry p n oc = \<lparr>ins_prev = p, ins_next = n, ins_oc = oc, ins_ref = None\<rparr>"

definition sample_queue :: opt_state where
  "sample_queue =
     \<lparr>entries = [1 \<mapsto> sample_entry None (Some 2) sample_oc,
        2 \<mapsto> sample_entry (Some 1) (Some 3) (sample_oc\<lparr>oc_base := OC_CODE, objlen := 2, oc_data := [0x89, 0xc1]\<rparr>),
        3 \<mapsto> sample_entry (Some 2) None (sample_oc\<lparr>oc_base := OC_LABEL, objlen := 3\<rparr>),
        4 \<mapsto> sample_entry None None (sample_oc\<lparr>oc_base := OC_CODE, objlen := 1, oc_data := [0x90]\<rparr>)],
      FirstIns = Some 1, LastIns = Some 3, QCount = 3, PendingDeletes = None, InsDelete = False, RetList = None,
      NoRetList = None, lbl_ins = [7 \<mapsto> 3], lbl_refs = [7 \<mapsto> 1], lbl_alias = (\<lambda>l. 0),
      opt_out = \<lparr>o_loc = 0x90, o_seg = 1, o_tab = sample_tables, LastUnique = ADDR_UNKNOWN, SaveDbgOc = None,
        SaveDbgPtr = 0\<rparr>\<rparr>"

lemma sample_queue_is: "queue_is sample_queue [1, 2, 3]"
  by (simp add: queue_is_def sample_queue_def sample_entry_def last_opt_def)

theorem queue_is_a_list_witness:
  "\<exists>q'. InsertQueue 4 (Some 1) sample_queue = Some q' \<and> queue_is q' [1, 4, 2, 3]"
proof -
  have "insert_after (Some 1) 4 [1, 2, 3 :: nat] = [1, 4, 2, 3]" by (simp add: insert_after_def)
  moreover have "entries sample_queue 4 \<noteq> None" by (simp add: sample_queue_def)
  ultimately show ?thesis
    using queue_is_a_list [OF sample_queue_is, of 4 1 2] by auto
qed

theorem short_branch_reaches_witness:
  "\<exists>q' st d. SetShort flat32 sample_queue = Some q' \<and>
     output_run flat32 (opt_out q') (map (oc_at q') [1, 2, 3]) = Some st \<and> d \<le> 125 \<and>
     AskAddress (o_tab st) 7 = 0x90 + 2 + word_of_nat d"
proof -
  let ?q = sample_queue
  have at: "oc_at ?q (Suc 0) = sample_oc" "oc_at ?q 2 = sample_oc\<lparr>oc_base := OC_CODE, objlen := 2, oc_data := [0x89, 0xc1]\<rparr>"
    "oc_at ?q 3 = sample_oc\<lparr>oc_base := OC_LABEL, objlen := 3\<rparr>"
    by (simp_all add: oc_at_def sample_queue_def sample_entry_def)
  have tab: "o_tab (opt_out ?q) = sample_tables" "o_loc (opt_out ?q) = 0x90" "lbl_ins ?q 7 = Some 3"
    by (simp_all add: sample_queue_def)
  have live: "list_all (\<lambda>i. oc_base (oc_at ?q i) \<noteq> OC_DEAD) [1, 2, 3]" by (simp add: at sample_oc_def)
  have lbl: "AskAddress (o_tab (opt_out ?q)) 7 = ADDR_UNKNOWN" "\<not> TstStatus ?q 7 UNREACHABLE" "\<not> TstStatus ?q 7 SHORTREACH"
    by (simp_all add: tab AskAddress_def TstStatus_def sample_tables_def)
  have "[0x89, 0xc1] = items_bytes [EByte 0x89, EByte 0xc1]" by simp
  then have "oc_ok flat32 sample_tables (oc_at ?q 2)"
    unfolding oc_ok_def at by (auto simp: sample_oc_def intro!: exI [of _ "[EByte 0x89, EByte 0xc1]"])
  then have fine: "list_all (\<lambda>i. entry_fine flat32 (o_tab (opt_out ?q)) (oc_at ?q i)) [2, 3]"
    by (simp add: tab entry_fine_def at sample_oc_def)
  have "CanReach flat32 ?q 7 7 = Some (reach_list 7 (Some 3) (live_entries ?q [2, 3]) 2 (None, None))"
    using CanReach_scan [OF sample_queue_is, of 7 flat32 7] live lbl tab(3) by (simp add: list_all_iff)
  then have reach: "CanReach flat32 ?q 7 7 = Some (True, None, None)"
    by (simp add: live_entries_def code_entry_at_def at sample_oc_def MAX_SHORT_FWD_def Let_def)
  have jump: "oc_base (oc_at ?q 1) = OC_JMP \<or> oc_base (oc_at ?q 1) = OC_JCOND" "oc_handle (oc_at ?q 1) = 7"
    "oc_cond (oc_at ?q 1) < 16" "cpu386 flat32"
    by (simp_all add: at sample_oc_def flat32_def)
  have label: "oc_base (oc_at ?q 3) = OC_LABEL" "oc_handle (oc_at ?q 3) = 7" by (simp_all add: at sample_oc_def)
  from short_branch_reaches [OF sample_queue_is live lbl jump tab(3) label fine reach]
  obtain q' as bs st d where r: "SetShort flat32 ?q = Some q'" "[2, 3] = as @ 3 # bs"
    "output_run flat32 (opt_out q') (map (oc_at q') (1 # as @ [3])) = Some st" "d \<le> 125"
    "AskAddress (o_tab st) 7 = o_loc (opt_out ?q) + 2 + word_of_nat d" by blast
  have "as = [2]" using r(2) by (cases as) (auto simp: Cons_eq_append_conv)
  with r show ?thesis by (auto simp: tab)
qed

end
