(* ===== verification/ClibConv.thy ===== *)
theory ClibConv
  imports OwPrelude
begin

text \<open>
  Numbers and strings in the run-time library: \<open>bld/clib/convert/c/ltoa.c\<close>, \<open>strtol.c\<close> and \<open>atol.c\<close>, in the
  build for 8-bit characters and 32-bit \<open>long\<close>.

  A string is a list of bytes and an index; a read or write outside is \<open>None\<close>, and so is a division by zero
  or the overflow of a signed addition.  \<open>endptr\<close> is the index it is set to.
\<close>

section \<open>Characters\<close>

definition is_space :: "u8 \<Rightarrow> bool" where
  "is_space c \<longleftrightarrow> c \<in> {0x09, 0x0a, 0x0b, 0x0c, 0x0d, 0x20}"

definition is_digit :: "u8 \<Rightarrow> bool" where
  "is_digit c \<longleftrightarrow> 0x30 \<le> c \<and> c \<le> 0x39"

definition to_lower :: "u8 \<Rightarrow> u8" where
  "to_lower c = (if 0x41 \<le> c \<and> c \<le> 0x5a then c + 0x20 else c)"

definition alphabet :: bytes where
  "alphabet = [0x30, 0x31, 0x32, 0x33, 0x34, 0x35, 0x36, 0x37, 0x38, 0x39,
     0x61, 0x62, 0x63, 0x64, 0x65, 0x66, 0x67, 0x68, 0x69, 0x6a, 0x6b, 0x6c, 0x6d,
     0x6e, 0x6f, 0x70, 0x71, 0x72, 0x73, 0x74, 0x75, 0x76, 0x77, 0x78, 0x79, 0x7a, 0]"

section \<open>From numbers to strings\<close>

text \<open>The loop leaves the digits in \<open>buf\<close>, the least significant first, behind the terminator at index 0.\<close>

function digit_loop :: "u32 \<Rightarrow> u32 \<Rightarrow> bytes \<Rightarrow> nat \<Rightarrow> (bytes \<times> nat) option" where
  "digit_loop value radix buf q =
    (if radix = 0 then None
     else case rd alphabet (unat (value mod radix)) of
       None \<Rightarrow> None
     | Some c \<Rightarrow>
        (case wr_slice buf q [c] of
           None \<Rightarrow> None
         | Some buf' \<Rightarrow>
            if value div radix = 0 then Some (buf', q + 1)
            else digit_loop (value div radix) radix buf' (q + 1)))"
  by pat_completeness auto
termination
  by (relation "measure (\<lambda>(_, _, buf, q). length buf - q)") (auto simp: byte_simps dest: wr_slice_length)

declare digit_loop.simps [simp del]

fun copy_back :: "bytes \<Rightarrow> nat \<Rightarrow> bytes \<Rightarrow> nat \<Rightarrow> bytes option" where
  "copy_back buf 0 dest p = None"
| "copy_back buf (Suc q) dest p = do {
     c \<leftarrow> rd buf q;
     dest \<leftarrow> wr_slice dest p [c];
     if c = 0 then Some dest else copy_back buf q dest (p + 1)
   }"

definition ultoa :: "u32 \<Rightarrow> bytes \<Rightarrow> nat \<Rightarrow> u32 \<Rightarrow> bytes option" where
  "ultoa value dest p radix = do {
     buf \<leftarrow> wr_slice (replicate 34 0) 0 [0];
     (buf, q) \<leftarrow> digit_loop value radix buf 1;
     copy_back buf q dest p
   }"

definition ltoa :: "u32 \<Rightarrow> bytes \<Rightarrow> nat \<Rightarrow> u32 \<Rightarrow> bytes option" where
  "ltoa value dest p radix =
    (if radix = 10 \<and> value <s 0 then do {
       dest \<leftarrow> wr_slice dest p [0x2d];
       ultoa (- value) dest (p + 1) radix
     }
     else ultoa value dest p radix)"

section \<open>From strings to numbers\<close>

datatype errno = EDOM | ERANGE

record stol_result =
  st_value :: u32
  st_end :: nat
  st_errno :: "errno option"

definition radix_value :: "u8 \<Rightarrow> int" where
  "radix_value c =
    (if 0x30 \<le> c \<and> c \<le> 0x39 then uint (c - 0x30)
     else let c = to_lower c
       in if 0x61 \<le> c \<and> c \<le> 0x69 then uint (c - 0x61) + 10
          else if 0x6a \<le> c \<and> c \<le> 0x72 then uint (c - 0x6a) + 19
          else if 0x73 \<le> c \<and> c \<le> 0x7a then uint (c - 0x73) + 28
          else 37)"

definition nearly_overflowing :: "u32 list" where
  "nearly_overflowing = map (\<lambda>b. 0xffffffff div word_of_nat b) [2..<37]"

function skip_space :: "bytes \<Rightarrow> nat \<Rightarrow> nat option" where
  "skip_space s p =
    (case rd s p of None \<Rightarrow> None | Some c \<Rightarrow> if is_space c then skip_space s (p + 1) else Some p)"
  by pat_completeness auto
termination
  by (relation "measure (\<lambda>(s, p). length s - p)") (auto simp: byte_simps)

declare skip_space.simps [simp del]

definition read_sign :: "bytes \<Rightarrow> nat \<Rightarrow> (bool \<times> nat) option" where
  "read_sign s p = do {
     c \<leftarrow> rd s p;
     Some (c = 0x2d, if c = 0x2d \<or> c = 0x2b then p + 1 else p)
   }"

definition hexstr :: "bytes \<Rightarrow> nat \<Rightarrow> bool option" where
  "hexstr s p = do {
     c \<leftarrow> rd s p;
     if c = 0x30 then do { d \<leftarrow> rd s (p + 1); Some (d = 0x78 \<or> d = 0x58) } else Some False
   }"

definition guess_base :: "bytes \<Rightarrow> nat \<Rightarrow> int \<Rightarrow> int option" where
  "guess_base s p base =
    (if base = 0 then do {
       hex \<leftarrow> hexstr s p;
       c \<leftarrow> rd s p;
       Some (if hex then 16 else if c = 0x30 then 8 else 10)
     }
     else Some base)"

function value_loop :: "bytes \<Rightarrow> int \<Rightarrow> nat \<Rightarrow> u32 \<Rightarrow> bool \<Rightarrow> (nat \<times> u32 \<times> bool) option" where
  "value_loop s base p val overflow =
    (case rd s p of
       None \<Rightarrow> None
     | Some c \<Rightarrow>
        (let digit = radix_value c
         in if base \<le> digit then Some (p, val, overflow)
            else case rd nearly_overflowing (nat (base - 2)) of
              None \<Rightarrow> None
            | Some limit \<Rightarrow>
               (let overflow = (overflow \<or> limit < val);
                    new = val * word_of_int base + word_of_int digit
                in value_loop s base (p + 1) new (overflow \<or> new < val))))"
  by pat_completeness auto
termination
  by (relation "measure (\<lambda>(s, _, p, _). length s - p)") (auto simp: byte_simps)

declare value_loop.simps [simp del]

definition stol_result :: "bool \<Rightarrow> bool \<Rightarrow> u32 \<Rightarrow> bool \<Rightarrow> nat \<Rightarrow> stol_result" where
  "stol_result who negative val overflow p =
    (let overflow = (overflow \<or> (who \<and> val AND 0x80000000 \<noteq> 0 \<and> \<not> (val = 0x80000000 \<and> negative)))
     in if overflow then
          \<lparr>st_value = (if \<not> who then 0xffffffff else if negative then 0x80000000 else 0x7fffffff),
           st_end = p, st_errno = Some ERANGE\<rparr>
        else \<lparr>st_value = (if negative then - val else val), st_end = p, st_errno = None\<rparr>)"

definition stol :: "bytes \<Rightarrow> nat \<Rightarrow> int \<Rightarrow> bool \<Rightarrow> stol_result option" where
  "stol s nptr base who = do {
     p \<leftarrow> skip_space s nptr;
     (negative, p) \<leftarrow> read_sign s p;
     base \<leftarrow> guess_base s p base;
     if base < 2 \<or> 36 < base then Some \<lparr>st_value = 0, st_end = nptr, st_errno = Some EDOM\<rparr>
     else do {
       hex \<leftarrow> (if base = 16 then hexstr s p else Some False);
       let startp = (if hex then p + 2 else p);
       (p, val, overflow) \<leftarrow> value_loop s base startp 0 False;
       Some (stol_result who negative val overflow (if p = startp then nptr else p))
     }
   }"

definition strtoul :: "bytes \<Rightarrow> nat \<Rightarrow> int \<Rightarrow> stol_result option" where
  "strtoul s nptr base = stol s nptr base False"

definition strtol :: "bytes \<Rightarrow> nat \<Rightarrow> int \<Rightarrow> stol_result option" where
  "strtol s nptr base = stol s nptr base True"

text \<open>\<open>atol\<close> computes with signed integers, in the order of the source; what leaves their range is \<open>None\<close>.\<close>

definition in_long :: "int \<Rightarrow> int option" where
  "in_long i = (if - (2 ^ 31) \<le> i \<and> i < 2 ^ 31 then Some i else None)"

function atol_loop :: "bytes \<Rightarrow> nat \<Rightarrow> int \<Rightarrow> int option" where
  "atol_loop s p val =
    (case rd s p of
       None \<Rightarrow> None
     | Some c \<Rightarrow>
        if is_digit c then
          (case do { v \<leftarrow> in_long (val * 10); v \<leftarrow> in_long (v + uint c); in_long (v - 0x30) } of
             None \<Rightarrow> None
           | Some v \<Rightarrow> atol_loop s (p + 1) v)
        else Some val)"
  by pat_completeness auto
termination
  by (relation "measure (\<lambda>(s, p, _). length s - p)") (auto simp: byte_simps)

declare atol_loop.simps [simp del]

definition atol :: "bytes \<Rightarrow> nat \<Rightarrow> int option" where
  "atol s p = do {
     p \<leftarrow> skip_space s p;
     (negative, p) \<leftarrow> read_sign s p;
     v \<leftarrow> atol_loop s p 0;
     if negative then in_long (- v) else Some v
   }"

section \<open>Digits\<close>

fun low_digits :: "nat \<Rightarrow> nat \<Rightarrow> nat list" where
  "low_digits b n = (if b < 2 \<or> n < b then [n] else n mod b # low_digits b (n div b))"

declare low_digits.simps [simp del]

lemma low_digits_bound: "2 \<le> b \<Longrightarrow> list_all (\<lambda>d. d < b) (low_digits b n)"
  by (induction b n rule: low_digits.induct) (subst low_digits.simps, simp)

lemma low_digits_value: "2 \<le> b \<Longrightarrow> foldr (\<lambda>d a. a * b + d) (low_digits b n) 0 = n"
  by (induction b n rule: low_digits.induct) (subst low_digits.simps, simp)

lemma low_digits_length: "2 \<le> b \<Longrightarrow> n < b ^ Suc k \<Longrightarrow> length (low_digits b n) \<le> Suc k"
proof (induction k arbitrary: n)
  case 0
  then show ?case by (subst low_digits.simps) simp
next
  case (Suc k)
  then have "n div b < b ^ Suc k" by (simp add: less_mult_imp_div_less mult.commute)
  from Suc.IH [OF Suc.prems(1) this] show ?case by (subst low_digits.simps) simp
qed

lemma low_digits_32: "2 \<le> b \<Longrightarrow> length (low_digits b (unat (v :: u32))) \<le> 32"
proof -
  assume b: "2 \<le> b"
  have "unat v < 2 ^ Suc 31" using unsigned_less [of v] by simp
  also have "\<dots> \<le> b ^ Suc 31" using b by (rule power_mono) simp
  finally show ?thesis using low_digits_length [OF b, of "unat v" 31] by simp
qed

definition number_text :: "nat \<Rightarrow> nat \<Rightarrow> bytes" where
  "number_text b n = map ((!) alphabet) (rev (low_digits b n))"

lemma alphabet_length [simp]: "length alphabet = 37"
  by (simp add: alphabet_def)

lemma alphabet_facts:
  "list_all (\<lambda>d. alphabet ! d \<noteq> 0 \<and> alphabet ! d \<noteq> 0x2d \<and> alphabet ! d \<noteq> 0x2b \<and> \<not> is_space (alphabet ! d) \<and>
     radix_value (alphabet ! d) = int d) [0..<36]"
  by code_simp

lemma alphabet_fact:
  assumes "d < 36"
  shows "alphabet ! d \<noteq> 0" "alphabet ! d \<noteq> 0x2d" "alphabet ! d \<noteq> 0x2b" "\<not> is_space (alphabet ! d)"
    "radix_value (alphabet ! d) = int d"
  using assms alphabet_facts by (simp_all only: list_all_iff set_upt atLeastLessThan_iff) simp_all

lemma wr_slice_next:
  "Option.bind (wr_slice d p [c]) (\<lambda>d. wr_slice d (Suc p) ys) = wr_slice d p (c # ys)"
  by (cases "p + Suc (length ys) \<le> length d")
    (auto simp: wr_slice_def Option.bind_eq_Some_conv min_def take_Suc_conv_app_nth not_le ac_simps split: option.splits)

lemma digit_loop_run:
  assumes "2 \<le> unat r" "unat r \<le> 36" "q + length (low_digits (unat r) (unat v)) \<le> length buf"
  shows "digit_loop v r buf q =
    Some (take q buf @ map ((!) alphabet) (low_digits (unat r) (unat v)) @
            drop (q + length (low_digits (unat r) (unat v))) buf,
          q + length (low_digits (unat r) (unat v)))"
  using assms(3)
proof (induction "unat r" "unat v" arbitrary: v buf q rule: low_digits.induct)
  case (1 v)
  have r0: "r \<noteq> 0" using assms(1) by auto
  have m: "unat v mod unat r < 36" using assms(1,2) mod_less_divisor [of "unat r" "unat v"] by linarith
  then have rd: "rd alphabet (unat (v mod r)) = Some (alphabet ! (unat v mod unat r))"
    by (simp add: unat_mod_distrib)
  have q: "q < length buf" using 1(2) by (subst (asm) low_digits.simps) (auto split: if_splits)
  then have wr: "wr_slice buf q [x] = Some (take q buf @ [x] @ drop (Suc q) buf)" for x
    by (simp add: wr_slice_def)
  show ?case
  proof (cases "unat v < unat r")
    case True
    then have "v div r = 0" by (simp add: unat_arith_simps unat_div_distrib)
    with True show ?thesis
      using r0 rd wr by (subst digit_loop.simps) (simp add: low_digits.simps [of _ "unat v"])
  next
    case False
    then have "v div r \<noteq> 0" using assms(1) by (simp add: unat_arith_simps unat_div_distrib div_eq_0_iff)
    moreover have "low_digits (unat r) (unat v) = unat v mod unat r # low_digits (unat r) (unat (v div r))"
      using False assms(1) by (subst low_digits.simps) (simp add: unat_div_distrib)
    moreover note 1(1) [of "v div r" "Suc q" "take q buf @ [alphabet ! (unat v mod unat r)] @ drop (Suc q) buf"]
    ultimately show ?thesis
      using False 1(2) r0 rd wr q assms(1)
      by (subst digit_loop.simps) (simp add: unat_div_distrib min_def ac_simps)
  qed
qed

lemma copy_back_run:
  "0 \<notin> set xs \<Longrightarrow> copy_back (0 # xs @ ys) (Suc (length xs)) dest p = wr_slice dest p (rev xs @ [0])"
proof (induction xs arbitrary: ys dest p rule: rev_induct)
  case Nil
  then show ?case by (auto simp: wr_slice_def)
next
  case (snoc x xs)
  then have "copy_back (0 # xs @ [x] @ ys) (Suc (length xs)) d (Suc p) = wr_slice d (Suc p) (rev xs @ [0])" for d
    by simp
  then show ?case
    using snoc.prems wr_slice_next [of dest p x "rev xs @ [0]"] by (simp add: rd_def nth_append)
qed

lemma ultoa_run:
  assumes "2 \<le> unat r" "unat r \<le> 36"
  shows "ultoa v dest p r = wr_slice dest p (number_text (unat r) (unat v) @ [0])"
proof -
  let ?ds = "low_digits (unat r) (unat v)"
  have len: "length ?ds \<le> 32" using assms(1) by (rule low_digits_32)
  have start: "wr_slice (replicate 34 (0 :: u8)) 0 [0] = Some (0 # replicate 33 0)"
    by (simp add: wr_slice_def flip: replicate_Suc)
  have "list_all (\<lambda>d. d < 36) ?ds"
    using low_digits_bound [OF assms(1), of "unat v"] assms(2) by (auto simp: list_all_iff)
  then have nz: "0 \<notin> set (map ((!) alphabet) ?ds)"
    using alphabet_fact(1) by (fastforce simp: list_all_iff)
  have "digit_loop v r (0 # replicate 33 0) 1 =
      Some (0 # map ((!) alphabet) ?ds @ replicate (33 - length ?ds) 0, Suc (length ?ds))"
    using digit_loop_run [OF assms, of 1 v "0 # replicate 33 0"] len by simp
  then show ?thesis
    using copy_back_run [OF nz, of "replicate (33 - length ?ds) 0" dest p]
    by (simp add: ultoa_def start number_text_def rev_map)
qed

section \<open>Values\<close>

definition digits_value :: "int \<Rightarrow> int \<Rightarrow> bytes \<Rightarrow> int" where
  "digits_value base x ds = foldl (\<lambda>a c. a * base + radix_value c) x ds"

lemma digits_value_simps [simp]:
  "digits_value base x [] = x"
  "digits_value base x (c # ds) = digits_value base (x * base + radix_value c) ds"
  by (simp_all add: digits_value_def)

lemma radix_value_nonneg [simp]: "0 \<le> radix_value c"
  by (simp add: radix_value_def Let_def)

lemma nearly_overflowing_at:
  assumes "2 \<le> base" "base \<le> 36"
  shows "rd nearly_overflowing (nat (base - 2)) = Some (0xffffffff div word_of_int base)"
proof -
  have k: "nat (base - 2) < 37 - 2" "2 + nat (base - 2) = nat base" using assms by auto
  have "nearly_overflowing ! nat (base - 2) = 0xffffffff div word_of_nat (nat base)"
    unfolding nearly_overflowing_def nth_map_upt [OF k(1)] k(2) ..
  moreover have "length nearly_overflowing = 35" by (simp add: nearly_overflowing_def)
  ultimately show ?thesis using k(1) assms(1) by (simp add: rd_def)
qed

lemma limit_value:
  assumes "2 \<le> base" "base \<le> 36"
  shows "uint ((0xffffffff :: u32) div word_of_int base) = (2 ^ 32 - 1) div base"
  using assms by (simp add: uint_div_distrib take_bit_int_eq_self unsigned_of_int)

text \<open>One digit: the flag says whether the exact value has left the range.\<close>

lemma value_step:
  assumes b: "2 \<le> base" "base \<le> 36" and d: "0 \<le> d" "d < base" and x: "0 \<le> x"
    and val: "val = (word_of_int x :: u32)"
  shows "(2 ^ 32 \<le> x \<or> 0xffffffff div word_of_int base < val \<or>
           val * word_of_int base + word_of_int d < val) \<longleftrightarrow> 2 ^ 32 \<le> x * base + d"
proof (cases "2 ^ 32 \<le> x")
  case True
  moreover have "x \<le> x * base + d" using b d x by (simp add: mult_le_cancel_left1 add_increasing2)
  ultimately show ?thesis by linarith
next
  case False
  have val_int: "uint val = x" using False x val by (simp add: unsigned_of_int take_bit_int_eq_self)
  have new: "uint (val * word_of_int base + word_of_int d) = (x * base + d) mod 2 ^ 32"
    by (simp add: val unsigned_of_int take_bit_eq_mod flip: of_int_mult of_int_add)
  have lim: "(2 ^ 32 - 1) div base < x \<longleftrightarrow> 2 ^ 32 - 1 < x * base"
  proof -
    have "(2 ^ 32 - 1) div base * base \<le> 2 ^ 32 - 1" "2 ^ 32 - 1 < ((2 ^ 32 - 1) div base + 1) * base"
      using b pos_mod_sign [of base "2 ^ 32 - 1"] pos_mod_bound [of base "2 ^ 32 - 1"]
      by (simp_all add: distrib_right flip: minus_mod_eq_div_mult)
    then show ?thesis
      using b by (smt (verit) mult_right_mono)
  qed
  show ?thesis
  proof (cases "2 ^ 32 - 1 < x * base")
    case True
    then show ?thesis
      using False b d by (simp add: word_less_def val_int limit_value lim [simplified])
  next
    case no: False
    show ?thesis
    proof (cases "2 ^ 32 \<le> x * base + d")
      case True
      then have "(x * base + d) mod 2 ^ 32 = x * base + d - 2 ^ 32"
        using no d b mod_pos_pos_trivial [of "x * base + d - 2 ^ 32" "2 ^ 32"] by simp
      moreover have "x * base + d - 2 ^ 32 < x"
      proof -
        have "\<not> x \<le> 99"
        proof
          assume "x \<le> 99"
          then have "x * base \<le> 99 * 36" using b x by (intro mult_mono) simp_all
          then show False using True d b by simp
        qed
        then show ?thesis using no d b by simp
      qed
      ultimately show ?thesis using True by (simp add: word_less_def val_int new)
    next
      case less: False
      have "x \<le> x * base" using b x by (simp add: mult_le_cancel_left1)
      then show ?thesis
        using less no False x b d by (simp add: word_less_def val_int new limit_value lim [simplified])
    qed
  qed
qed

lemma value_loop_run:
  assumes b: "2 \<le> base" "base \<le> 36"
    and ds: "list_all (\<lambda>c. radix_value c < base) ds" "base \<le> radix_value c" and x: "0 \<le> x"
  shows "value_loop (pre @ ds @ c # rest) base (length pre) (word_of_int x) (2 ^ 32 \<le> x) =
    Some (length pre + length ds, word_of_int (digits_value base x ds), 2 ^ 32 \<le> digits_value base x ds)"
  using ds(1) x
proof (induction ds arbitrary: pre x)
  case Nil
  then show ?case using ds(2) by (subst value_loop.simps) (simp add: rd_def)
next
  case (Cons d ds)
  let ?y = "x * base + radix_value d"
  have d: "radix_value d < base" using Cons.prems(1) by simp
  have y: "0 \<le> ?y" using Cons.prems(2) b by simp
  have "(2 ^ 32 \<le> x \<or> 0xffffffff div word_of_int base < (word_of_int x :: u32)) \<or>
      word_of_int x * word_of_int base + word_of_int (radix_value d) < (word_of_int x :: u32) \<longleftrightarrow> 2 ^ 32 \<le> ?y"
    using value_step [OF b radix_value_nonneg d Cons.prems(2) refl] by blast
  moreover have "word_of_int x * word_of_int base + word_of_int (radix_value d) = (word_of_int ?y :: u32)"
    by simp
  ultimately have "value_loop (pre @ (d # ds) @ c # rest) base (length pre) (word_of_int x) (2 ^ 32 \<le> x) =
      value_loop ((pre @ [d]) @ ds @ c # rest) base (length (pre @ [d])) (word_of_int ?y) (2 ^ 32 \<le> ?y)"
    using d by (subst value_loop.simps) (simp add: nearly_overflowing_at [OF b] Let_def del: of_int_add of_int_mult)
  then show ?case
    using Cons.IH [of ?y "pre @ [d]"] Cons.prems y by simp
qed

section \<open>What strtol and strtoul return\<close>

text \<open>The C standard's value of a numeral, with its exact value \<open>x\<close>.\<close>

definition standard_result :: "bool \<Rightarrow> bool \<Rightarrow> int \<Rightarrow> nat \<Rightarrow> stol_result" where
  "standard_result who negative x p =
    (if who then
       if negative then
         if x \<le> 2 ^ 31 then \<lparr>st_value = word_of_int (- x), st_end = p, st_errno = None\<rparr>
         else \<lparr>st_value = word_of_int (- (2 ^ 31)), st_end = p, st_errno = Some ERANGE\<rparr>
       else
         if x < 2 ^ 31 then \<lparr>st_value = word_of_int x, st_end = p, st_errno = None\<rparr>
         else \<lparr>st_value = word_of_int (2 ^ 31 - 1), st_end = p, st_errno = Some ERANGE\<rparr>
     else
       if x < 2 ^ 32 then \<lparr>st_value = word_of_int (if negative then - x else x), st_end = p, st_errno = None\<rparr>
       else \<lparr>st_value = word_of_int (2 ^ 32 - 1), st_end = p, st_errno = Some ERANGE\<rparr>)"

lemma high_bit_test: "(v :: u32) AND 0x80000000 \<noteq> 0 \<longleftrightarrow> 2 ^ 31 \<le> uint v"
proof -
  have "v AND 0x80000000 \<noteq> 0 \<longleftrightarrow> bit v 31"
    using and_exp_eq_0_iff_not_bit [of v 31] by simp
  also have "\<dots> \<longleftrightarrow> odd (uint v div 2 ^ 31)"
    using bit_uint_iff [of v 31] by (simp add: bit_iff_odd [of "uint v"])
  also have "\<dots> \<longleftrightarrow> 2 ^ 31 \<le> uint v"
  proof -
    have "uint v div 2 ^ 31 < 2" using unsigned_less [of v, where ?'a = int] by simp
    moreover have "0 \<le> uint v div 2 ^ 31" by (intro pos_imp_zdiv_nonneg_iff [THEN iffD2]) simp_all
    ultimately have "uint v div 2 ^ 31 = 0 \<or> uint v div 2 ^ 31 = 1" by linarith
    then show ?thesis by auto
  qed
  finally show ?thesis .
qed

lemma stol_result_standard:
  assumes "0 \<le> x"
  shows "stol_result who negative (word_of_int x) (2 ^ 32 \<le> x) p = standard_result who negative x p"
proof (cases "2 ^ 32 \<le> x")
  case True
  then show ?thesis by (simp add: stol_result_def standard_result_def)
next
  case False
  then have v: "uint (word_of_int x :: u32) = x" using assms by (simp add: unsigned_of_int take_bit_int_eq_self)
  have "(word_of_int x :: u32) = 0x80000000 \<longleftrightarrow> x = 2 ^ 31"
    using v by (auto simp: word_uint_eq_iff)
  then show ?thesis
    using False assms unfolding stol_result_def standard_result_def high_bit_test v
    by auto
qed

lemma skip_space_run:
  "list_all is_space ws \<Longrightarrow> \<not> is_space c \<Longrightarrow>
     skip_space (pre @ ws @ c # rest) (length pre) = Some (length pre + length ws)"
proof (induction ws arbitrary: pre)
  case Nil
  then show ?case by (subst skip_space.simps) simp
next
  case (Cons w ws)
  from Cons.IH [of "pre @ [w]"] Cons.prems show ?case
    by (subst skip_space.simps) simp
qed

definition sign_of :: "bytes \<Rightarrow> bool" where
  "sign_of sg \<longleftrightarrow> sg = [0x2d]"

lemma radix_value_space: "radix_value c < 37 \<Longrightarrow> \<not> is_space c \<and> c \<noteq> 0x2d \<and> c \<noteq> 0x2b"
  by (auto simp: radix_value_def is_space_def to_lower_def Let_def split: if_splits)

text \<open>
  A numeral: white space, sign, the prefix of hexadecimal numbers, digits, and a character that is not a digit.
\<close>

definition c_numeral :: "int \<Rightarrow> bytes \<Rightarrow> bytes \<Rightarrow> bytes \<Rightarrow> bytes \<Rightarrow> u8 \<Rightarrow> bool" where
  "c_numeral base ws sg pre ds c \<longleftrightarrow> 2 \<le> base \<and> base \<le> 36 \<and> list_all is_space ws \<and>
     sg \<in> {[], [0x2b], [0x2d]} \<and>
     pre \<in> (if base = 16 then {[], [0x30, 0x78], [0x30, 0x58]} else {[]}) \<and>
     list_all (\<lambda>d. radix_value d < base) ds \<and> base \<le> radix_value c \<and> (pre @ ds \<noteq> []) \<and>
     (base = 16 \<and> pre = [] \<longrightarrow> \<not> (ds = [0x30] \<and> c \<in> {0x78, 0x58}))"

lemma hexstr_run:
  assumes "c_numeral base ws sg pre ds c" "base = 16"
  shows "hexstr (a @ pre @ ds @ c # rest) (length a) = Some (pre \<noteq> [])"
proof (cases "pre = []")
  case False
  then show ?thesis using assms by (auto simp: c_numeral_def hexstr_def rd_def nth_append)
next
  case True
  then obtain d ds' where ds: "ds = d # ds'" using assms by (cases ds) (auto simp: c_numeral_def)
  have x: "radix_value 0x78 = 33" "radix_value 0x58 = 33" by (simp_all add: radix_value_def to_lower_def)
  show ?thesis
    using assms True ds x by (cases ds') (auto simp: c_numeral_def hexstr_def rd_def nth_append)
qed

lemma stol_guess:
  assumes n: "c_numeral base ws sg pre ds c"
    and g: "guess_base (a @ ws @ sg @ pre @ ds @ c # rest) (length (a @ ws @ sg)) asked = Some base"
  shows "stol (a @ ws @ sg @ pre @ ds @ c # rest) (length a) asked who =
    Some (standard_result who (sign_of sg) (digits_value base 0 ds)
      (if ds = [] then length a else length (a @ ws @ sg @ pre @ ds)))"
proof -
  have b: "2 \<le> base" "base \<le> 36" "base \<noteq> 0" using n by (auto simp: c_numeral_def)
  have "\<exists>d t. pre @ ds @ c # rest = d # t \<and> radix_value d < 37"
  proof (cases "pre = []")
    case True
    then show ?thesis using n by (cases ds) (auto simp: c_numeral_def)
  next
    case False
    have "radix_value 0x30 = 0" by (simp add: radix_value_def)
    with False show ?thesis using n by (auto simp: c_numeral_def split: if_splits)
  qed
  then obtain d t where dt: "pre @ ds @ c # rest = d # t" "radix_value d < 37" by blast
  obtain e u where eu: "sg @ pre @ ds @ c # rest = e # u" "\<not> is_space e"
    using n dt radix_value_space [OF dt(2)] by (auto simp: c_numeral_def is_space_def)
  have ws: "skip_space (a @ ws @ sg @ pre @ ds @ c # rest) (length a) = Some (length (a @ ws))"
    using skip_space_run [of ws e a u] eu n by (simp add: c_numeral_def)
  have sg: "read_sign (a @ ws @ sg @ pre @ ds @ c # rest) (length (a @ ws)) =
      Some (sign_of sg, length (a @ ws @ sg))"
    using n dt(1) radix_value_space [OF dt(2)]
    by (auto simp: c_numeral_def read_sign_def sign_of_def rd_def nth_append)
  have hex: "(if base = 16 then hexstr (a @ ws @ sg @ pre @ ds @ c # rest) (length (a @ ws @ sg)) else Some False) =
      Some (pre \<noteq> [])"
    using hexstr_run [OF n, of "a @ ws @ sg" rest] n by (auto simp: c_numeral_def)
  have start: "(if pre \<noteq> [] then length (a @ ws @ sg) + 2 else length (a @ ws @ sg)) = length (a @ ws @ sg @ pre)"
    using n by (auto simp: c_numeral_def split: if_splits)
  have loop: "value_loop (a @ ws @ sg @ pre @ ds @ c # rest) base (length (a @ ws @ sg @ pre)) 0 False =
      Some (length (a @ ws @ sg @ pre @ ds), word_of_int (digits_value base 0 ds), 2 ^ 32 \<le> digits_value base 0 ds)"
    using value_loop_run [OF b(1,2), of ds c 0 "a @ ws @ sg @ pre" rest] n by (simp add: c_numeral_def)
  have "0 \<le> digits_value base x ds" if "0 \<le> x" for x
    using that b by (induction ds arbitrary: x) simp_all
  then have val: "stol_result who neg (word_of_int (digits_value base 0 ds)) (2 ^ 32 \<le> digits_value base 0 ds) p =
      standard_result who neg (digits_value base 0 ds) p" for neg p
    by (intro stol_result_standard) simp
  define S where "S = a @ ws @ sg @ pre @ ds @ c # rest"
  have nb: "\<not> (base < 2 \<or> 36 < base)" using b by simp
  have "stol S (length a) asked who = Some (stol_result who (sign_of sg) (word_of_int (digits_value base 0 ds))
      (2 ^ 32 \<le> digits_value base 0 ds)
      (if length (a @ ws @ sg @ pre @ ds) = length (a @ ws @ sg @ pre) then length a else length (a @ ws @ sg @ pre @ ds)))"
    unfolding stol_def ws [folded S_def]
    using nb
    by (simp only: bind.bind_lunit sg [folded S_def] prod.case g [folded S_def] if_False hex [folded S_def] Let_def start loop [folded S_def])
  then show ?thesis unfolding S_def val by (simp only: length_append add_left_cancel length_0_conv add_cancel_left_right)
qed

lemma stol_run:
  assumes n: "c_numeral base ws sg pre ds c"
  shows "stol (a @ ws @ sg @ pre @ ds @ c # rest) (length a) base who =
    Some (standard_result who (sign_of sg) (digits_value base 0 ds)
      (if ds = [] then length a else length (a @ ws @ sg @ pre @ ds)))"
  by (rule stol_guess [OF n]) (use n in \<open>auto simp: guess_base_def c_numeral_def\<close>)

text \<open>
  The base a numeral has by the C standard: the one asked for, or, when that is 0, the one its first characters tell.  The character
  behind the single digit 0 of a number that may be hexadecimal is not an x: there the code departs from the standard, see
  \<open>bare_prefix\<close> below.
\<close>

definition std_base :: "int \<Rightarrow> bytes \<Rightarrow> bytes \<Rightarrow> int" where
  "std_base base pre ds =
    (if base \<noteq> 0 then base else if pre \<noteq> [] then 16 else if hd ds = 0x30 then 8 else 10)"

definition std_numeral :: "int \<Rightarrow> bytes \<Rightarrow> bytes \<Rightarrow> bytes \<Rightarrow> bytes \<Rightarrow> u8 \<Rightarrow> bool" where
  "std_numeral base ws sg pre ds c \<longleftrightarrow> ds \<noteq> [] \<and> c_numeral (std_base base pre ds) ws sg pre ds c
     \<and> (base \<in> {0, 16} \<and> pre = [] \<longrightarrow> \<not> (ds = [0x30] \<and> c \<in> {0x78, 0x58}))"

lemma hexstr_guess:
  assumes n: "c_numeral B ws sg pre ds c" "ds \<noteq> []" "B \<le> 16" and x: "pre = [] \<Longrightarrow> \<not> (ds = [0x30] \<and> c \<in> {0x78, 0x58})"
  shows "hexstr (a @ pre @ ds @ c # rest) (length a) = Some (pre \<noteq> [])"
proof (cases "pre = []")
  case False
  then show ?thesis using n by (auto simp: c_numeral_def hexstr_def rd_def nth_append split: if_splits)
next
  case True
  then obtain d ds' where ds: "ds = d # ds'" using n(2) by (cases ds) auto
  have "radix_value 0x78 = 33" "radix_value 0x58 = 33" by (simp_all add: radix_value_def to_lower_def)
  then show ?thesis
    using n True ds x by (cases ds') (auto simp: c_numeral_def hexstr_def rd_def nth_append)
qed

lemma guess_base_run:
  assumes n: "std_numeral base ws sg pre ds c"
  shows "guess_base (a @ pre @ ds @ c # rest) (length a) base = Some (std_base base pre ds)"
proof (cases "base = 0")
  case False
  then show ?thesis by (simp add: guess_base_def std_base_def)
next
  case True
  have "hexstr (a @ pre @ ds @ c # rest) (length a) = Some (pre \<noteq> [])"
    using n True
    by (intro hexstr_guess [of "std_base base pre ds" ws sg]) (auto simp: std_numeral_def std_base_def)
  moreover have "rd (a @ pre @ ds @ c # rest) (length a) = Some (hd (pre @ ds))"
    using n by (cases pre; cases ds) (auto simp: std_numeral_def rd_def nth_append)
  ultimately show ?thesis using True by (simp add: guess_base_def std_base_def hd_append)
qed

text \<open>
  C35. \<open>strtol\<close> and \<open>strtoul\<close> read the numerals of the C standard: for every base from 2 to 36 and for base 0, where a prefix
  or a leading 0 tells hexadecimal, octal or decimal; with white space,
  sign and hexadecimal prefix, and any number of digits.  The result is the exact value, negated when the sign says
  so, or the limit of the type with \<open>ERANGE\<close> when the exact value is out of range, and \<open>endptr\<close> is behind the
  last digit.  The one exception is a 0 with an x but no hexadecimal digit behind it, in base 16 or 0.
\<close>

theorem strtol_reads_numerals:
  assumes "std_numeral base ws sg pre ds c"
  shows "strtol (a @ ws @ sg @ pre @ ds @ c # rest) (length a) base =
      Some (standard_result True (sign_of sg) (digits_value (std_base base pre ds) 0 ds) (length (a @ ws @ sg @ pre @ ds))) \<and>
    strtoul (a @ ws @ sg @ pre @ ds @ c # rest) (length a) base =
      Some (standard_result False (sign_of sg) (digits_value (std_base base pre ds) 0 ds) (length (a @ ws @ sg @ pre @ ds)))"
proof -
  have n: "c_numeral (std_base base pre ds) ws sg pre ds c" "ds \<noteq> []" using assms by (simp_all add: std_numeral_def)
  have g: "guess_base (a @ ws @ sg @ pre @ ds @ c # rest) (length (a @ ws @ sg)) base = Some (std_base base pre ds)"
    using guess_base_run [OF assms, of "a @ ws @ sg" rest] by (simp only: append_assoc)
  show ?thesis using stol_guess [OF n(1) g] n(2) by (simp add: strtol_def strtoul_def)
qed

theorem strtol_reads_numerals_witness:
  "strtol ([0x20] @ [0x2d] @ [0x37, 0x62] @ [0]) 0 16 = Some (standard_result True True 123 4)
   \<and> strtol [0x30, 0x31, 0x37, 0] 0 0 = Some (standard_result True False 15 3)
   \<and> strtoul [0x30, 0x78, 0x31, 0x46, 0] 0 0 = Some (standard_result False False 31 4)"
proof (intro conjI)
  have "std_numeral 16 [0x20] [0x2d] [] [0x37, 0x62] 0"
    by (simp add: std_numeral_def std_base_def c_numeral_def is_space_def radix_value_def to_lower_def)
  moreover have "digits_value 16 0 [0x37, 0x62] = 123"
    by (simp add: radix_value_def to_lower_def)
  ultimately show "strtol ([0x20] @ [0x2d] @ [0x37, 0x62] @ [0]) 0 16 = Some (standard_result True True 123 4)"
    using strtol_reads_numerals [of 16 "[0x20]" "[0x2d]" "[]" "[0x37, 0x62]" 0 "[]" "[]"]
    by (simp add: sign_of_def std_base_def eval_nat_numeral)
  have "std_numeral 0 [] [] [] [0x30, 0x31, 0x37] 0" "digits_value 8 0 [0x30, 0x31, 0x37] = 15"
    by (simp_all add: std_numeral_def std_base_def c_numeral_def radix_value_def to_lower_def)
  then show "strtol [0x30, 0x31, 0x37, 0] 0 0 = Some (standard_result True False 15 3)"
    using strtol_reads_numerals [of 0 "[]" "[]" "[]" "[0x30, 0x31, 0x37]" 0 "[]" "[]"]
    by (simp add: sign_of_def std_base_def eval_nat_numeral)
  have "std_numeral 0 [] [] [0x30, 0x78] [0x31, 0x46] 0" "digits_value 16 0 [0x31, 0x46] = 31"
    by (simp_all add: std_numeral_def std_base_def c_numeral_def radix_value_def to_lower_def)
  then show "strtoul [0x30, 0x78, 0x31, 0x46, 0] 0 0 = Some (standard_result False False 31 4)"
    using strtol_reads_numerals [of 0 "[]" "[]" "[0x30, 0x78]" "[0x31, 0x46]" 0 "[]" "[]"]
    by (simp add: sign_of_def std_base_def eval_nat_numeral)
qed

text \<open>
  The prefix without digits: the standard takes the \<open>0\<close> for a numeral and lets \<open>endptr\<close> point to the \<open>x\<close>; the
  code finds no numeral at all.
\<close>

lemma bare_prefix: "strtol [0x30, 0x78, 0x7a, 0] 0 16 = Some \<lparr>st_value = 0, st_end = 0, st_errno = None\<rparr>"
proof -
  have "c_numeral 16 [] [] [0x30, 0x78] [] 0x7a" by (simp add: c_numeral_def radix_value_def to_lower_def)
  from stol_run [OF this, of "[]" "[0]" True] show ?thesis
    by (simp add: strtol_def standard_result_def sign_of_def)
qed

section \<open>Round trips\<close>

lemma number_text_digits:
  assumes "2 \<le> b" "b \<le> 36"
  shows "list_all (\<lambda>c. radix_value c < int b) (number_text b n)" "digits_value (int b) 0 (number_text b n) = int n"
    "number_text b n \<noteq> []"
proof -
  let ?ds = "low_digits b n"
  have d: "list_all (\<lambda>d. d < b) ?ds" using assms(1) by (rule low_digits_bound)
  then have r: "list_all (\<lambda>d. radix_value (alphabet ! d) = int d \<and> d < b) ?ds"
    using alphabet_fact(5) assms(2) by (fastforce simp: list_all_iff)
  then show "list_all (\<lambda>c. radix_value c < int b) (number_text b n)"
    by (auto simp: number_text_def list_all_iff)
  have "digits_value (int b) 0 (map ((!) alphabet) (rev ds)) = int (foldr (\<lambda>d a. a * b + d) ds 0)"
    if "list_all (\<lambda>d. radix_value (alphabet ! d) = int d \<and> d < b) ds" for ds
    using that by (induction ds) (simp_all add: digits_value_def)
  from this [OF r] low_digits_value [OF assms(1), of n]
  show "digits_value (int b) 0 (number_text b n) = int n" by (simp add: number_text_def)
  show "number_text b n \<noteq> []" by (subst number_text_def, subst low_digits.simps) simp
qed

lemma radix_value_nul: "radix_value 0 = 37"
  by (simp add: radix_value_def to_lower_def)

lemma number_text_numeral:
  assumes "2 \<le> b" "b \<le> 36" "sg \<in> {[], [0x2b], [0x2d]}"
  shows "c_numeral (int b) [] sg [] (number_text b n) 0"
  using number_text_digits [OF assms(1,2), of n] assms by (simp add: c_numeral_def radix_value_nul)

lemma wr_slice_split: "wr_slice dest p (xs @ ys) = Some d \<Longrightarrow>
    \<exists>a rest. length a = p \<and> d = a @ xs @ ys @ rest"
  by (rule exI [of _ "take p dest"]) (auto simp: byte_simps)

lemma ltoa_run:
  assumes "ltoa v dest p 10 = Some d"
  shows "\<exists>a rest. length a = p \<and>
    d = a @ (if v <s 0 then [0x2d] else []) @ number_text 10 (unat (if v <s 0 then - v else v)) @ 0 # rest"
proof -
  have "ltoa v dest p 10 =
      wr_slice dest p ((if v <s 0 then [0x2d] else []) @ number_text 10 (unat (if v <s 0 then - v else v)) @ [0])"
    using wr_slice_next [of dest p "0x2d"] by (simp add: ltoa_def ultoa_run)
  then show ?thesis using assms wr_slice_split [of dest p _ _ d] by fastforce
qed

lemma long_range:
  "(w :: u32) <s 0 \<Longrightarrow> int (unat (- w)) \<le> 2 ^ 31 \<and> word_of_int (- int (unat (- w))) = w"
  "\<not> (w :: u32) <s 0 \<Longrightarrow> int (unat w) < 2 ^ 31"
proof -
  have "(uint w + 2 ^ 31) mod 2 ^ 32 = uint w - 2 ^ 31" if "2 ^ 31 \<le> uint w"
    using that unsigned_less [of w, where ?'a = int] minus_mod_self2 [of "uint w + 2 ^ 31" "2 ^ 32"]
    by (simp add: mod_pos_pos_trivial)
  then have s: "sint w = (if 2 ^ 31 \<le> uint w then uint w - 2 ^ 32 else uint w)"
    using unsigned_less [of w, where ?'a = int]
    by (simp add: sint_uint signed_take_bit_eq_take_bit_shift take_bit_eq_mod mod_pos_pos_trivial)
  show "\<not> w <s 0 \<Longrightarrow> int (unat w) < 2 ^ 31"
    using s unsigned_less [of w, where ?'a = int] by (simp add: word_sless_alt split: if_splits)
  show "w <s 0 \<Longrightarrow> int (unat (- w)) \<le> 2 ^ 31 \<and> word_of_int (- int (unat (- w))) = w"
    using s unsigned_less [of w, where ?'a = int]
    by (simp add: word_sless_alt uint_word_ariths zmod_zminus1_eq_if split: if_splits)
qed

text \<open>
  C36. What \<open>ultoa\<close> writes, \<open>strtoul\<close> reads, in every base; what \<open>ltoa\<close> writes in decimal, \<open>strtol\<close> reads, for
  every value of a \<open>long\<close>, the smallest included: the value comes back, \<open>endptr\<close> is at the terminator and
  \<open>errno\<close> is untouched.
\<close>

theorem number_round_trip:
  assumes "2 \<le> unat r \<and> unat r \<le> 36" "ultoa v dest p r = Some d" "ltoa w dest' p' 10 = Some d'"
  shows "(\<exists>e. strtoul d p (int (unat r)) = Some \<lparr>st_value = v, st_end = e, st_errno = None\<rparr> \<and> rd d e = Some 0) \<and>
    (\<exists>e. strtol d' p' 10 = Some \<lparr>st_value = w, st_end = e, st_errno = None\<rparr> \<and> rd d' e = Some 0)"
proof (intro conjI)
  let ?t = "number_text (unat r) (unat v)"
  obtain a rest where d: "length a = p" "d = a @ ?t @ 0 # rest"
    using assms ultoa_run [of r v dest p] wr_slice_split [of dest p ?t "[0]" d] by auto
  have "strtoul d p (int (unat r)) = Some (standard_result False False (int (unat v)) (p + length ?t))"
    using stol_run [OF number_text_numeral [of "unat r" "[]" "unat v"], of a rest False] assms(1) d
      number_text_digits [of "unat r" "unat v"]
    by (simp add: strtoul_def sign_of_def)
  moreover have "standard_result False False (int (unat v)) q = \<lparr>st_value = v, st_end = q, st_errno = None\<rparr>" for q
    using unsigned_less [of v, where ?'a = int] by (simp add: standard_result_def)
  moreover have "rd d (p + length ?t) = Some 0" using d by (simp add: rd_def nth_append)
  ultimately show "\<exists>e. strtoul d p (int (unat r)) = Some \<lparr>st_value = v, st_end = e, st_errno = None\<rparr> \<and> rd d e = Some 0"
    by auto
next
  let ?n = "w <s 0"
  let ?sg = "if ?n then [0x2d] else [] :: bytes" and ?x = "unat (if ?n then - w else w)"
  obtain a rest where d: "length a = p'" "d' = a @ ?sg @ number_text 10 ?x @ 0 # rest"
    using ltoa_run [OF assms(3)] by blast
  let ?e = "length (a @ ?sg @ number_text 10 ?x)"
  have "strtol d' p' 10 = Some (standard_result True ?n (int ?x) ?e)"
    using stol_run [OF number_text_numeral [of 10 ?sg ?x], of a rest True] d number_text_digits [of 10 ?x]
    by (simp add: strtol_def sign_of_def)
  moreover have "standard_result True ?n (int ?x) q = \<lparr>st_value = w, st_end = q, st_errno = None\<rparr>" for q
    using long_range [of w] by (auto simp: standard_result_def)
  moreover have "rd d' ?e = Some 0" using d by (simp add: rd_def nth_append)
  ultimately show "\<exists>e. strtol d' p' 10 = Some \<lparr>st_value = w, st_end = e, st_errno = None\<rparr> \<and> rd d' e = Some 0"
    by metis
qed

theorem number_round_trip_witness:
  "(\<exists>d e. ultoa 255 [0, 0, 0] 0 16 = Some d \<and> strtoul d 0 16 = Some \<lparr>st_value = 255, st_end = e, st_errno = None\<rparr>) \<and>
   (\<exists>d e. ltoa 0x80000000 (replicate 12 0) 0 10 = Some d \<and>
      strtol d 0 10 = Some \<lparr>st_value = 0x80000000, st_end = e, st_errno = None\<rparr>)"
proof -
  have 1: "ultoa 255 [0, 0, 0] 0 16 = Some [0x66, 0x66, 0]"
    by (simp add: ultoa_run number_text_def low_digits.simps alphabet_def wr_slice_def)
  have 2: "ltoa 0x80000000 (replicate 12 0) 0 10 =
      Some [0x2d, 0x32, 0x31, 0x34, 0x37, 0x34, 0x38, 0x33, 0x36, 0x34, 0x38, 0]"
    by code_simp
  from number_round_trip [OF _ 1 2] 1 2 show ?thesis by auto
qed

section \<open>atol\<close>

lemma is_digit_radix: "is_digit c \<longleftrightarrow> radix_value c < 10" "is_digit c \<Longrightarrow> uint c - 0x30 = radix_value c"
proof -
  have "uint (c - 0x30) = uint c - 0x30" if "0x30 \<le> c"
    using that by (simp add: uint_minus_simple_alt [THEN iffD1])
  moreover have "0 \<le> uint (to_lower c - 0x73)" "0 \<le> uint (to_lower c - 0x6a)" by simp_all
  ultimately show "is_digit c \<longleftrightarrow> radix_value c < 10" "is_digit c \<Longrightarrow> uint c - 0x30 = radix_value c"
    unfolding is_digit_def radix_value_def Let_def word_le_def by (auto simp del: uint_ge_0 unsigned_greater_eq)
qed

lemma atol_loop_stol:
  "atol_loop s p x = Some v \<Longrightarrow> 0 \<le> x \<Longrightarrow> x < 2 ^ 31 \<Longrightarrow>
     0 \<le> v \<and> v < 2 ^ 31 \<and> (\<exists>q. value_loop s 10 p (word_of_int x) False = Some (q, word_of_int v, False))"
proof (induction s p x rule: atol_loop.induct)
  case (1 s p x)
  from 1(2) obtain c where c: "rd s p = Some c"
    by (subst (asm) atol_loop.simps) (auto split: option.splits)
  show ?case
  proof (cases "is_digit c")
    case False
    then show ?thesis
      using 1(2-4) c is_digit_radix(1) [of c]
      by (subst (asm) atol_loop.simps) (subst value_loop.simps, simp)
  next
    case True
    let ?y = "x * 10 + radix_value c"
    have y: "x * 10 + uint c - 0x30 = ?y" using is_digit_radix(2) [OF True] by simp
    let ?step = "do { v \<leftarrow> in_long (x * 10); v \<leftarrow> in_long (v + uint c); in_long (v - 0x30) }"
    have "(case ?step of None \<Rightarrow> None | Some v' \<Rightarrow> atol_loop s (p + 1) v') = Some v"
      using 1(2) c True by (subst (asm) atol_loop.simps) simp
    moreover have "?step = Some w \<Longrightarrow> w = ?y \<and> ?y < 2 ^ 31" for w
      using is_digit_radix(2) [OF True] by (auto simp: in_long_def split: if_splits)
    ultimately have in_range: "?y < 2 ^ 31" "atol_loop s (p + 1) ?y = Some v" "?step = Some ?y"
      by (auto split: option.splits)
    have d: "radix_value c < 10" using True is_digit_radix(1) by simp
    have "\<not> (2 ^ 32 \<le> x \<or> 0xffffffff div word_of_int 10 < (word_of_int x :: u32) \<or>
        word_of_int x * word_of_int 10 + word_of_int (radix_value c) < (word_of_int x :: u32))"
      using value_step [of 10 "radix_value c" x, OF _ _ radix_value_nonneg d 1(3) refl] in_range(1) by simp
    then have "value_loop s 10 p (word_of_int x) False = value_loop s 10 (p + 1) (word_of_int ?y) False"
      using c d nearly_overflowing_at [of 10] by (subst value_loop.simps) (simp add: Let_def)
    moreover have "0 \<le> ?y" using 1(3) by simp
    ultimately show ?thesis using 1(1) [OF c True in_range(3,2)] in_range(1) by simp
  qed
qed

text \<open>
  C37. Wherever \<open>atol\<close> stays in the range of a \<open>long\<close>, on any string at all, \<open>strtol\<close> returns the same number in
  base 10 and leaves \<open>errno\<close> alone.
\<close>

theorem atol_agrees_with_strtol:
  assumes "atol s p = Some v"
  shows "\<exists>e. strtol s p 10 = Some \<lparr>st_value = word_of_int v, st_end = e, st_errno = None\<rparr>"
proof -
  from assms obtain p1 neg p2 x where r: "skip_space s p = Some p1" "read_sign s p1 = Some (neg, p2)"
    "atol_loop s p2 0 = Some x" "v = (if neg then - x else x)"
    by (auto simp: atol_def Option.bind_eq_Some_conv in_long_def split: if_splits)
  obtain q where q: "value_loop s 10 p2 0 False = Some (q, word_of_int x, False)" "0 \<le> x" "x < 2 ^ 31"
    using atol_loop_stol [OF r(3)] by auto
  have "stol_result True neg (word_of_int x) False e = standard_result True neg x e" for e
    using stol_result_standard [OF q(2), of True neg e] q(3) by simp
  then show ?thesis
    using r q by (simp add: strtol_def stol_def guess_base_def standard_result_def)
qed

theorem atol_agrees_with_strtol_witness:
  "\<exists>e. strtol [0x09, 0x2d, 0x34, 0x32, 0x61] 0 10 = Some \<lparr>st_value = - 42, st_end = e, st_errno = None\<rparr>"
proof -
  have "atol [0x09, 0x2d, 0x34, 0x32, 0x61] 0 = Some (- 42)" by code_simp
  from atol_agrees_with_strtol [OF this] show ?thesis by simp
qed

text \<open>The largest \<open>long\<close> overflows on its last digit, because the code of the character is added before \<open>'0'\<close> is taken off.\<close>

lemma atol_overflows_at_largest:
  "atol [0x32, 0x31, 0x34, 0x37, 0x34, 0x38, 0x33, 0x36, 0x34, 0x37, 0] 0 = None"
  by code_simp

end
