(* ===== verification/Spec2Isabelle.thy ===== *)
theory Spec2Isabelle
  imports X64Obj U64Arith X64Sysv OwlFinish X64Enc CgQueue ClibConv
begin

text \<open>
  A verification development for the object-file back end of Open Watcom.

  \<^bold>\<open>The program.\<close>  The Open Watcom compilers turn a program into an object file.  The 386 code generator
  (\<open>bld/cg/intel\<close>) writes OMF records; for 64-bit ELF output the finished OMF file is read back, its code is
  rewritten for 64-bit mode and an ELF file takes its place.  The other code generators build their
  object files through the object writer library (\<open>bld/owl\<close>), which collects sections, symbols and
  relocations in memory and writes ELF or COFF at the end.  Both rest on helpers of \<open>bld/watcom\<close>.

  \<^bold>\<open>The end of the code generator\<close> (\<open>bld/cg/intel/c\<close>, \<open>bld/cg/h\<close>).  An instruction is encoded into a queue
  entry, waits while the optimiser shortens branches, and is then written to the segment.
  \<^item> \<open>CgEscape\<close> (\<open>x86esc.c\<close>, \<open>escape.h\<close>): references to labels, segments and stack sizes are escape sequences
    among the bytes of the entry.  A string of bytes is a list of items; \<open>ExpandObj\<close> makes the calls of
    the items, and a reference means the same before and after its label is placed.
  \<^item> \<open>CgEncode\<close> (\<open>x86enc.c\<close>, \<open>x86enc2.c\<close>): the buffers an instruction is put together in, the REX prefix, and
    the generators of instructions on registers and constants.  A generator is a list of calls (\<open>enc_step\<close>)
    that implements a list of items; bounds of the buffers follow from the length of the list.  A decoder
    written from the instruction format reads registers and constants back.
  \<^item> \<open>X64Enc\<close> (\<open>x64enc.c\<close>): a second REX accumulator and inserter, shown to do the same as the first.
  \<^item> \<open>CgOutput\<close> (\<open>x86esc.c\<close>, \<open>jumps.h\<close>, \<open>386ilen.c\<close>): \<open>OutputOC\<close>, one queue entry, as a transition of the
    location and the label table with the calls of the object writer as its output.  Entries take the room they
    announce, branches lead to their labels, labels are aligned and apart.
  \<^item> \<open>CgQueue\<close> (\<open>optq.c\<close>, \<open>optutil.c\<close>, \<open>optlbl.c\<close>, \<open>optrel.c\<close>): the doubly linked queue between the two, over a
    memory of entries.  Its predicate \<open>queue_is\<close> says which list it stands for; the locale \<open>entry_queue\<close> is what
    follows for a client.  \<open>CanReach\<close> and \<open>SetShort\<close> decide that a branch is short, and the output of the entries
    bears them out.

  \<^bold>\<open>From OMF to ELF\<close> (\<open>bld/cg/intel/c/x86obj.c\<close>, \<open>bld/cg/intel/c/x64dispatch.c\<close>, \<open>bld/cg/intel/x64/c/x64obj.c\<close>).
  \<^item> \<open>OmfWrite\<close>: the record layer of the OMF writer; names, segments, data, publics, externals and fixups.
  \<^item> \<open>OmfRead\<close>: passes 0, 1 and 1b of \<open>X64ObjFini\<close>.  All walk the same chain of records; \<open>None\<close> is a read
    outside the file.  \<open>OmfFacts\<close>: any module read is well formed and fits the buffers and tables.
  \<^item> \<open>OmfRoundTrip\<close>: a module put together by the writer is read back as what it says; the locale
    \<open>record_pass\<close> is the contract between the two, interpreted on the four passes.
  \<^item> \<open>X86Decode\<close>: the instruction length decoder \<open>x86_insn_len\<close>, and its comparison with an independent
    table of the operand forms of the one-byte opcodes.
  \<^item> \<open>X64Pass\<close>: pass 2 as it runs, which copies the code with some encodings rewritten, keeps a map from old to new
    offsets, and re-aims the branches; every read of the code, access to the map and write to the output is
    checked against its array.
  \<^item> \<open>X64Patch\<close>: the pass without the checks, to which the checked one is equal, and what it does: the layout of
    the new code, where the branches lead, when the pass stays in its buffers, where it goes wrong.
  \<^item> \<open>ElfWrite\<close>: string table, symbol table, relocations, layout and headers of the ELF64 file;
    \<open>ElfFacts\<close>: where the parts are; \<open>ElfLink\<close>: what a reader of the format finds through the headers.
  \<^item> \<open>X64Obj\<close>: \<open>X64CheckDispatch\<close>, \<open>X64ObjInit\<close>, \<open>X64ObjFini\<close> over a file system, and the composition of all
    passes: a fixup of the OMF file is a relocation of the ELF file, at the place where the offset map has moved
    it, that names the same external; between the two hooks an OMF file with code is replaced by an ELF file.

  \<^bold>\<open>The object writer library\<close> (\<open>bld/owl/c\<close>, \<open>bld/owl/h\<close>).
  \<^item> \<open>OwlBuffer\<close> (\<open>owbuffer.c\<close>): a section's bytes in bins that are collapsed when they are full.  The interface
    has the signed 32-bit offsets of \<open>owl.h\<close>, so sizes stay below 2 GB.  The locale
    \<open>byte_store\<close> is what its clients need; it is a byte string that writes overwrite and extend.
  \<^item> \<open>OwlString\<close> (\<open>owstring.c\<close>): the patricia tree of the names, with its upward pointers.  It is a set of strings
    with handles (locale \<open>string_pool\<close>), and its emission has every name at its offset.
  \<^item> \<open>OwlReloc\<close> (\<open>owreloc.c\<close>): the tables of relocation types and their lookups.
  \<^item> \<open>OwlObject\<close> (\<open>owsect.c\<close>, \<open>owsymbol.c\<close>, \<open>owemit.c\<close>, \<open>owfile.c\<close>): sections, symbols, emission, and the
    resolution of relocations, labels and common symbols.  A section that was freed cannot be read, so a symbol that
    outlives it is an error of the writer.  What clients may do is the step relation
    \<open>owl_step\<close>; the consistency of files is an invariant of all that \<open>owl_built\<close> reaches.
  \<^item> \<open>OwlElf\<close> (\<open>owelf.c\<close>): the writer of ELF32 and ELF64 files.  The two classes differ in their records, which
    are an argument of the definitions; the locale \<open>elf_layout\<close> has the laws of their sizes.  A reader of the
    file finds the sections, symbols and relocations of the file that was given.
  \<^item> \<open>OwlFinish\<close>: the composition of \<open>OwlObject\<close> and \<open>OwlElf\<close>: what \<open>OWLFileFini\<close> does to a file a client has built
    leaves one that is ready for the writer, so that it is written and no assertion fails.

  \<^bold>\<open>Conventions and arithmetic.\<close>
  \<^item> \<open>X64Sysv\<close> (\<open>bld/cg/intel/x64/h/x64sysv.h\<close>): classification of structures, assignment of parameters to
    registers and stack, layout of the frame.
  \<^item> \<open>U64Arith\<close> (\<open>bld/watcom/c/i64.c\<close>, \<open>bld/watcom/h/i64.h\<close>): 64-bit integers as pairs of halves, over a memory in
    which arguments and result may overlap, against the arithmetic of 64-bit words.

  \<^bold>\<open>The run-time library\<close> (\<open>bld/clib\<close>), which the programs the compilers translate are linked with.
  \<^item> \<open>ClibConv\<close> (\<open>ltoa.c\<close>, \<open>strtol.c\<close>, \<open>atol.c\<close>): numbers to strings and back.  \<open>c_numeral\<close>, \<open>std_numeral\<close> (which has
    base 0 too) and \<open>standard_result\<close> say what the C standard reads and returns; the conversions meet them and are inverse to each other.

  \<^bold>\<open>Shared.\<close>
  \<^item> \<open>OwPrelude\<close>: reads and writes that can fail, little-endian encodings, words.

  \<^bold>\<open>Undefined behaviour.\<close>  A read or write outside a buffer, a failing assertion, a value never set and a
  signed overflow are \<open>None\<close>; \<open>Some\<close> in the conclusion of a theorem therefore excludes them.

  \<^bold>\<open>Loops and bounds.\<close>  Loops are functions with a termination measure: the distance to the end of the
  image, the bits still above the current node of the tree, the bytes left to copy.  The division loop of
  \<open>U64Div\<close>, which need not end, is a while loop with option result, and its theorem says for which divisors it
  does.  No fuel is used.  Sizes of files and tables are natural numbers where the source has 32 or 64 bits
  and the limit is not part of what is shown; the theorems name the limits they need.

  \<^bold>\<open>Not modelled.\<close>  Allocation failure and I/O errors other than a failing \<open>fopen\<close>; freeing, logging and dumps;
  the COFF writer and the debugging information of the object writer library; the segment bookkeeping of
  \<open>x86obj.c\<close>; the opcode tables, the memory operands and \<open>GenObjCode\<close> of the encoder, which hang on the
  graph of the code generator; the deletion of queue entries and the control-flow optimisations it
  starts, and the aliases and redirections of labels.  The front ends, the code generator proper, the linker, the run-time library and the tools are
  large systems of their own and are listed in the manifest as not modelled.
\<close>

end
